(* ===== verification/Prelude.thy ===== *)
theory Prelude
  imports Complex_Main "HOL-Library.Multiset" "HOL-Library.Word"
begin

unbundle bit_operations_syntax

section \<open>Shared vocabulary of the development\<close>

text \<open>
  What the component theories share: the result type of a Rust call, the
  vector operations of the Rust standard library the sources use
  (\<open>swap_remove\<close>, \<open>partition_point\<close>, \<open>resize\<close>, \<open>position\<close>), and the generic lemmas
  about them.

  A Rust function that returns \<open>Result<T, E>\<close> and may also panic is a HOL function
  with a result of type \<open>('e, 'a) res\<close>: \<open>Ok\<close>, \<open>Err\<close> or \<open>Panic\<close> with the panic message.
  A failed \<open>assert!\<close>, \<open>expect\<close>, \<open>unwrap\<close>, \<open>todo!\<close>, an out-of-range slice or an
  arithmetic underflow is \<open>Panic\<close>.  A function that can only panic or return has an
  unused error type \<open>'e\<close>.
\<close>

named_theorems rust_simps \<open>unfolding of the Rust standard library operations\<close>

text \<open>\<open>NodeId\<close> (\<open>task/mod.rs\<close>), shared by the executor and the simulators.\<close>

type_synonym node_id = nat

text \<open>\<open>std::net::IpAddr\<close>.\<close>

datatype ip_addr = V4 "32 word" | V6 "128 word"

datatype ('e, 'a) res = Ok 'a | Err 'e | Panic string

primrec bind_res :: "('e, 'a) res \<Rightarrow> ('a \<Rightarrow> ('e, 'b) res) \<Rightarrow> ('e, 'b) res" where
  "bind_res (Ok a) f = f a"
| "bind_res (Err e) f = Err e"
| "bind_res (Panic m) f = Panic m"

primrec is_ok :: "('e, 'a) res \<Rightarrow> bool" where
  "is_ok (Ok a) = True"
| "is_ok (Err e) = False"
| "is_ok (Panic m) = False"

primrec is_panic :: "('e, 'a) res \<Rightarrow> bool" where
  "is_panic (Ok a) = False"
| "is_panic (Err e) = False"
| "is_panic (Panic m) = True"

lemma bind_res_Ok_iff [simp]:
  "bind_res m f = Ok b \<longleftrightarrow> (\<exists>a. m = Ok a \<and> f a = Ok b)"
  by (cases m) auto

lemma bind_res_Ok_right [simp]: "bind_res m Ok = m"
  by (cases m) auto

lemma bind_res_assoc: "bind_res (bind_res m f) g = bind_res m (\<lambda>a. bind_res (f a) g)"
  by (cases m) auto

lemma is_ok_iff: "is_ok m \<longleftrightarrow> (\<exists>a. m = Ok a)"
  by (cases m) auto

text \<open>A fallible operation on a state: the state is returned with an error or a panic too.\<close>

type_synonym ('e, 'a, 's) outcome = "('e, 'a) res \<times> 's"

definition st_bind :: "('e, 'a, 's) outcome \<Rightarrow> ('a \<Rightarrow> 's \<Rightarrow> ('e, 'b, 's) outcome) \<Rightarrow> ('e, 'b, 's) outcome" where
  "st_bind m f = (case m of (Ok a, s) \<Rightarrow> f a s | (Err e, s) \<Rightarrow> (Err e, s) | (Panic p, s) \<Rightarrow> (Panic p, s))"

lemma st_bind_simps [simp]:
  "st_bind (Ok a, s) f = f a s" "st_bind (Err e, s) f = (Err e, s)" "st_bind (Panic p, s) f = (Panic p, s)"
  by (simp_all add: st_bind_def)

lemma st_bind_Ok_iff: "st_bind m f = (Ok b, s') \<longleftrightarrow> (\<exists>a s. m = (Ok a, s) \<and> f a s = (Ok b, s'))"
  by (cases m; cases "fst m") (auto simp: st_bind_def)

text \<open>A relation on states that is reflexive and transitive survives sequencing.\<close>

lemma st_bind_rel:
  assumes "\<And>s s' s''. R s s' \<Longrightarrow> R s' s'' \<Longrightarrow> R s s''"
    and "R s (snd m)" "\<And>a s'. m = (Ok a, s') \<Longrightarrow> R s' (snd (f a s'))"
  shows "R s (snd (st_bind m f))"
  using assms(2,3) assms(1) [OF assms(2)] by (cases m; cases "fst m") (auto simp: st_bind_def)

text \<open>\<open>Option::expect\<close> and \<open>Option::ok_or\<close>.\<close>

definition expect :: "string \<Rightarrow> 'a option \<Rightarrow> ('e, 'a) res" where
  "expect m x = (case x of Some a \<Rightarrow> Ok a | None \<Rightarrow> Panic m)"

definition ok_or :: "'e \<Rightarrow> 'a option \<Rightarrow> ('e, 'a) res" where
  "ok_or e x = (case x of Some a \<Rightarrow> Ok a | None \<Rightarrow> Err e)"

lemma expect_simps [simp]: "expect m (Some a) = Ok a" "expect m None = Panic m"
  by (simp_all add: expect_def)

lemma ok_or_simps [simp]: "ok_or e (Some a) = Ok a" "ok_or e None = Err e"
  by (simp_all add: ok_or_def)

lemma expect_Ok_iff [simp]: "expect m x = Ok a \<longleftrightarrow> x = Some a"
  by (cases x) auto

lemma ok_or_Ok_iff [simp]: "ok_or e x = Ok a \<longleftrightarrow> x = Some a"
  by (cases x) auto

subsection \<open>\<open>Vec::swap_remove\<close>\<close>

text \<open>
  \<open>v.swap_remove(i)\<close> takes element \<open>i\<close> out and moves the last element into its place.
\<close>

definition swap_remove :: "nat \<Rightarrow> 'a list \<Rightarrow> 'a list" where
  "swap_remove i xs = butlast (xs[i := last xs])"

lemma length_swap_remove [simp]: "length (swap_remove i xs) = length xs - 1"
  by (simp add: swap_remove_def)

lemma swap_remove_snoc:
  "i \<le> length ys \<Longrightarrow>
     swap_remove i (ys @ [z]) = (if i < length ys then ys[i := z] else ys)"
  by (auto simp: swap_remove_def list_update_append butlast_append)

lemma mset_swap_remove:
  assumes "i < length xs"
  shows "add_mset (xs ! i) (mset (swap_remove i xs)) = mset xs"
proof -
  obtain ys z where xs: "xs = ys @ [z]"
    using assms by (cases xs rule: rev_cases) auto
  show ?thesis
  proof (cases "i < length ys")
    case True
    then show ?thesis
      using xs by (simp add: swap_remove_snoc mset_update nth_append nth_mem
          flip: insert_DiffM2)
  next
    case False
    then have "i = length ys" using assms xs by simp
    then show ?thesis using xs by (simp add: swap_remove_snoc)
  qed
qed

lemma mset_swap_remove_diff:
  "i < length xs \<Longrightarrow> mset (swap_remove i xs) = mset xs - {#xs ! i#}"
  using mset_swap_remove [of i xs] by (metis add_mset_remove_trivial)

lemma set_swap_remove_subset: "i < length xs \<Longrightarrow> set (swap_remove i xs) \<subseteq> set xs"
  using mset_swap_remove [of i xs]
  by (metis set_mset_add_mset_insert set_mset_mset subset_insertI)

lemma set_swap_remove:
  assumes "i < length xs"
  shows "set xs = insert (xs ! i) (set (swap_remove i xs))"
  using mset_swap_remove [OF assms] by (metis set_mset_add_mset_insert set_mset_mset)

subsection \<open>\<open>slice::partition_point\<close> and \<open>Iterator::position\<close>\<close>

text \<open>
  \<open>partition_point p\<close> is a binary search for the first element that does not satisfy
  \<open>p\<close>.  On a slice that is not partitioned by \<open>p\<close> its result is some index only.  The
  loop below is the bisection on the interval \<open>[lo, hi)\<close>; the reference definition is
  \<open>length (takeWhile p xs)\<close>.
\<close>

function bisect :: "('a \<Rightarrow> bool) \<Rightarrow> 'a list \<Rightarrow> nat \<Rightarrow> nat \<Rightarrow> nat" where
  "bisect p xs lo hi =
     (if hi \<le> lo then lo
      else let mid = lo + (hi - lo) div 2
           in if p (xs ! mid) then bisect p xs (Suc mid) hi else bisect p xs lo mid)"
  by pat_completeness auto
termination
  by (relation "measure (\<lambda>(p, xs, lo, hi). hi - lo)") auto

declare bisect.simps [simp del]

definition partition_point :: "('a \<Rightarrow> bool) \<Rightarrow> 'a list \<Rightarrow> nat" where
  "partition_point p xs = bisect p xs 0 (length xs)"

definition partitioned :: "('a \<Rightarrow> bool) \<Rightarrow> 'a list \<Rightarrow> bool" where
  "partitioned p xs \<longleftrightarrow> (\<forall>i j. i < j \<longrightarrow> j < length xs \<longrightarrow> p (xs ! j) \<longrightarrow> p (xs ! i))"

lemma bisect_bounds: "lo \<le> hi \<Longrightarrow> lo \<le> bisect p xs lo hi \<and> bisect p xs lo hi \<le> hi"
proof (induction p xs lo hi rule: bisect.induct)
  case (1 p xs lo hi)
  let ?m = "lo + (hi - lo) div 2"
  show ?case
  proof (cases "hi \<le> lo")
    case True
    then show ?thesis using "1.prems" by (simp add: bisect.simps)
  next
    case False
    then have m: "lo \<le> ?m" "?m < hi" by auto
    show ?thesis
    proof (cases "p (xs ! ?m)")
      case True
      then show ?thesis
        using "1.IH"(1)[OF False refl True] False m by (simp add: bisect.simps [of p xs lo hi] Let_def)
    next
      case False': False
      then show ?thesis
        using "1.IH"(2)[OF False refl False'] False m
        by (simp add: bisect.simps [of p xs lo hi] Let_def)
    qed
  qed
qed

lemma bisect_correct:
  assumes "partitioned p xs" "hi \<le> length xs" "lo \<le> hi"
    and "\<forall>i < lo. p (xs ! i)" "\<forall>i. hi \<le> i \<longrightarrow> i < length xs \<longrightarrow> \<not> p (xs ! i)"
  shows "(\<forall>i < bisect p xs lo hi. p (xs ! i)) \<and>
         (\<forall>i. bisect p xs lo hi \<le> i \<longrightarrow> i < length xs \<longrightarrow> \<not> p (xs ! i))"
  using assms
proof (induction p xs lo hi rule: bisect.induct)
  case (1 p xs lo hi)
  let ?m = "lo + (hi - lo) div 2"
  show ?case
  proof (cases "hi \<le> lo")
    case True
    then show ?thesis using "1.prems" by (simp add: bisect.simps)
  next
    case False
    then have m: "lo \<le> ?m" "?m < hi" by auto
    show ?thesis
    proof (cases "p (xs ! ?m)")
      case True
      have below: "\<forall>i < Suc ?m. p (xs ! i)"
      proof (intro allI impI)
        fix i assume "i < Suc ?m"
        then consider "i = ?m" | "i < ?m" by linarith
        then show "p (xs ! i)"
          using True "1.prems"(1,2) m(2) unfolding partitioned_def by cases (simp, fastforce)
      qed
      show ?thesis
        using "1.IH"(1)[OF False refl True "1.prems"(1,2) _ below "1.prems"(5)] False m True
        by (simp add: bisect.simps [of p xs lo hi] Let_def)
    next
      case False': False
      have above: "\<forall>i. ?m \<le> i \<longrightarrow> i < length xs \<longrightarrow> \<not> p (xs ! i)"
        using "1.prems"(1) False' unfolding partitioned_def by (metis le_neq_implies_less)
      show ?thesis
        using "1.IH"(2)[OF False refl False' "1.prems"(1) _ _ "1.prems"(4) above]
          False m False' "1.prems"(2)
        by (simp add: bisect.simps [of p xs lo hi] Let_def)
    qed
  qed
qed

lemma partition_point_le: "partition_point p xs \<le> length xs"
  by (simp add: partition_point_def bisect_bounds)

lemma partition_point_correct:
  assumes "partitioned p xs"
  shows "i < partition_point p xs \<Longrightarrow> p (xs ! i)"
    and "partition_point p xs \<le> i \<Longrightarrow> i < length xs \<Longrightarrow> \<not> p (xs ! i)"
  using bisect_correct [OF assms, of "length xs" 0] unfolding partition_point_def by auto

lemma partition_point_takeWhile:
  assumes "partitioned p xs"
  shows "partition_point p xs = length (takeWhile p xs)"
proof -
  let ?k = "partition_point p xs"
  have "takeWhile p xs = take ?k xs"
    using partition_point_correct [OF assms] partition_point_le [of p xs]
    by (intro takeWhile_eq_take_P_nth) auto
  then show ?thesis by (simp add: partition_point_le min_absorb2)
qed

lemma partitioned_sorted:
  assumes "sorted (map f xs)"
  shows "partitioned (\<lambda>x. f x < t) xs"
  unfolding partitioned_def
proof (intro allI impI)
  fix i j assume "i < j" "j < length xs" "f (xs ! j) < t"
  then show "f (xs ! i) < t" using sorted_nth_mono [OF assms, of i j] by auto
qed

text \<open>\<open>iter().position(p)\<close>: the index of the first element that satisfies \<open>p\<close>.\<close>

fun position :: "('a \<Rightarrow> bool) \<Rightarrow> 'a list \<Rightarrow> nat option" where
  "position p [] = None"
| "position p (x # xs) = (if p x then Some 0 else map_option Suc (position p xs))"

lemma position_None_iff: "position p xs = None \<longleftrightarrow> (\<forall>x \<in> set xs. \<not> p x)"
  by (induction xs) auto

lemma position_Some:
  "position p xs = Some i \<Longrightarrow> i < length xs \<and> p (xs ! i) \<and> (\<forall>j < i. \<not> p (xs ! j))"
proof (induction xs arbitrary: i)
  case Nil
  then show ?case by simp
next
  case (Cons x xs)
  show ?case
  proof (cases "p x")
    case True
    then show ?thesis using Cons.prems by simp
  next
    case False
    then obtain k where k: "position p xs = Some k" "i = Suc k" using Cons.prems by auto
    then show ?thesis using Cons.IH [OF k(1)] False by (auto simp: less_Suc_eq_0_disj)
  qed
qed

end
