(* ===== verification/Rng.thy ===== *)
theory Rng
  imports Prelude "HOL-Library.Sublist"
begin

section \<open>The global random number generator (\<open>madsim/src/sim/rand.rs\<close>)\<close>

text \<open>
  Every random choice of a simulation is drawn from one generator, and the determinism
  check records a fingerprint of the generator after each draw (first run) or compares it
  with a recorded one (second run).

  The generator itself (\<open>Xoshiro256PlusPlus\<close>) and the sampling functions of the \<open>rand\<close>
  crate are third-party code: they are the fields of a record \<open>'g rng_ops\<close>, an argument of
  the definitions, where \<open>'g\<close> is the generator's state.  What the simulator relies on is
  \<open>rng_ok\<close>: \<open>gen_range(lo..hi)\<close> on a non-empty range returns a value of the range.
  Durations are natural numbers of nanoseconds throughout the development.
\<close>

type_synonym duration = nat

record 'g rng_ops =
  seed_from_u64 :: "64 word \<Rightarrow> 'g"
  gen_u8 :: "'g \<Rightarrow> 8 word"
  gen_range :: "nat \<Rightarrow> nat \<Rightarrow> 'g \<Rightarrow> nat \<times> 'g"
  gen_bool :: "real \<Rightarrow> 'g \<Rightarrow> bool \<times> 'g"

definition rng_ok :: "'g rng_ops \<Rightarrow> bool" where
  "rng_ok R \<longleftrightarrow> (\<forall>lo hi g. lo < hi \<longrightarrow> lo \<le> fst (gen_range R lo hi g) \<and> fst (gen_range R lo hi g) < hi)"

lemma rng_okD: "rng_ok R \<Longrightarrow> lo < hi \<Longrightarrow> gen_range R lo hi g = (n, g') \<Longrightarrow> lo \<le> n \<and> n < hi"
  unfolding rng_ok_def by (metis fst_conv)

text \<open>\<open>struct Inner\<close> and \<open>struct Log\<close>.\<close>

type_synonym log = "8 word list"

record 'g rng_inner =
  rng_seed :: "64 word"
  rng_state :: 'g
  rng_log :: "log option"
  rng_check :: "(log \<times> nat) option"
  rng_buggify :: bool

definition new_with_seed :: "'g rng_ops \<Rightarrow> 64 word \<Rightarrow> 'g rng_inner" where
  "new_with_seed R seed =
     \<lparr>rng_seed = seed, rng_state = seed_from_u64 R seed, rng_log = None, rng_check = None,
      rng_buggify = False\<rparr>"

text \<open>The fold of a 128-bit number's sixteen bytes with exclusive or.\<close>

definition hash_u128 :: "128 word \<Rightarrow> 8 word" where
  "hash_u128 x = fold (\<lambda>k a. a XOR ucast (drop_bit (8 * k) x)) [0..<16] 0"

definition fingerprint :: "'g rng_ops \<Rightarrow> duration option \<Rightarrow> 'g \<Rightarrow> 8 word" where
  "fingerprint R t g = gen_u8 R g XOR hash_u128 (of_nat (case t of None \<Rightarrow> 0 | Some n \<Rightarrow> n))"

text \<open>
  \<open>GlobalRng::with\<close>: \<open>f\<close> is the sampling, \<open>t\<close> the time elapsed in the current runtime, if
  there is one.  The fingerprint is taken from a clone of the generator, which the draw
  does not advance.
\<close>

definition rng_with :: "'g rng_ops \<Rightarrow> duration option \<Rightarrow> ('g \<Rightarrow> 'a \<times> 'g) \<Rightarrow> 'g rng_inner
    \<Rightarrow> ('e, 'a \<times> 'g rng_inner) res" where
  "rng_with R t f s =
     (let (ret, g) = f (rng_state s); s = s\<lparr>rng_state := g\<rparr> in
      if rng_log s \<noteq> None \<or> rng_check s \<noteq> None then
        let v = fingerprint R t g;
            s = (case rng_log s of None \<Rightarrow> s | Some l \<Rightarrow> s\<lparr>rng_log := Some (l @ [v])\<rparr>)
        in case rng_check s of
             None \<Rightarrow> Ok (ret, s)
           | Some (c, i) \<Rightarrow>
               if i < length c \<and> c ! i = v then Ok (ret, s\<lparr>rng_check := Some (c, Suc i)\<rparr>)
               else Panic ''non-determinism detected''
      else Ok (ret, s))"

definition enable_check :: "log \<Rightarrow> 'g rng_inner \<Rightarrow> 'g rng_inner" where
  "enable_check l s = s\<lparr>rng_check := Some (l, 0)\<rparr>"

definition enable_log :: "'g rng_inner \<Rightarrow> 'g rng_inner" where
  "enable_log s = s\<lparr>rng_log := Some []\<rparr>"

definition take_log :: "'g rng_inner \<Rightarrow> log option \<times> 'g rng_inner" where
  "take_log s =
     (case rng_log s of
        Some l \<Rightarrow> (Some l, s\<lparr>rng_log := None\<rparr>)
      | None \<Rightarrow> (map_option fst (rng_check s), s\<lparr>rng_check := None\<rparr>))"

definition enable_buggify :: "'g rng_inner \<Rightarrow> 'g rng_inner" where
  "enable_buggify s = s\<lparr>rng_buggify := True\<rparr>"

definition disable_buggify :: "'g rng_inner \<Rightarrow> 'g rng_inner" where
  "disable_buggify s = s\<lparr>rng_buggify := False\<rparr>"

definition is_buggify_enabled :: "'g rng_inner \<Rightarrow> bool" where
  "is_buggify_enabled s = rng_buggify s"

definition buggify_with_prob :: "'g rng_ops \<Rightarrow> duration option \<Rightarrow> real \<Rightarrow> 'g rng_inner
    \<Rightarrow> ('e, bool \<times> 'g rng_inner) res" where
  "buggify_with_prob R t p s =
     (if is_buggify_enabled s then rng_with R t (gen_bool R p) s else Ok (False, s))"

definition buggify :: "'g rng_ops \<Rightarrow> duration option \<Rightarrow> 'g rng_inner \<Rightarrow> ('e, bool \<times> 'g rng_inner) res" where
  "buggify R t s =
     (if is_buggify_enabled s then rng_with R t (gen_bool R (1 / 4)) s else Ok (False, s))"

subsection \<open>The interposed C functions\<close>

text \<open>
  \<open>getrandom\<close> and \<open>getentropy\<close> replace the C library's functions.  \<open>seed\<close> is the thread-local
  \<open>SEED\<close>, \<open>ctx\<close> the generator of the current runtime, \<open>fill\<close> the generator's \<open>fill_bytes\<close> and \<open>os\<close> the
  original function.  The result is the number of bytes written, the bytes, and the new
  \<open>SEED\<close> and generator.
\<close>

definition u64_bytes :: "64 word \<Rightarrow> 8 word list" where
  "u64_bytes w = map (\<lambda>k. ucast (drop_bit (8 * k) w)) [0..<8]"

definition getrandom :: "'g rng_ops \<Rightarrow> duration option \<Rightarrow> (nat \<Rightarrow> 'g \<Rightarrow> 8 word list \<times> 'g)
    \<Rightarrow> (nat \<Rightarrow> int \<times> 8 word list) \<Rightarrow> nat \<Rightarrow> 64 word option \<Rightarrow> 'g rng_inner option
    \<Rightarrow> ('e, int \<times> 8 word list \<times> 64 word option \<times> 'g rng_inner option) res" where
  "getrandom R t fill os buflen seed ctx =
     (case seed of
        Some sd \<Rightarrow>
          if buflen \<noteq> 16 then Panic ''assertion failed: buflen == 16''
          else Ok (16, u64_bytes sd @ u64_bytes sd, None, ctx)
      | None \<Rightarrow>
          (case ctx of
             Some s \<Rightarrow>
               if buflen = 0 then Ok (0, [], None, ctx)
               else bind_res (rng_with R t (fill buflen) s)
                      (\<lambda>(bs, s'). Ok (int buflen, bs, None, Some s'))
           | None \<Rightarrow> (let (n, bs) = os buflen in Ok (n, bs, None, None))))"

definition getentropy :: "'g rng_ops \<Rightarrow> duration option \<Rightarrow> (nat \<Rightarrow> 'g \<Rightarrow> 8 word list \<times> 'g)
    \<Rightarrow> (nat \<Rightarrow> int \<times> 8 word list) \<Rightarrow> nat \<Rightarrow> 64 word option \<Rightarrow> 'g rng_inner option
    \<Rightarrow> ('e, int \<times> 8 word list \<times> 64 word option \<times> 'g rng_inner option) res" where
  "getentropy R t fill os buflen seed ctx =
     (if buflen > 256 then Ok (-1, [], seed, ctx)
      else bind_res (getrandom R t fill os buflen seed ctx)
             (\<lambda>(n, bs, seed', ctx'). Ok (if n = -1 then -1 else 0, bs, seed', ctx')))"

subsection \<open>A run of draws\<close>

text \<open>
  A simulation draws in some order: a list of samplings, each with the time at which it
  happens.  \<open>fingerprints\<close> is the sequence of fingerprints of such a run.
\<close>

type_synonym 'g draw = "duration option \<times> ('g \<Rightarrow> 'g)"

definition sampling :: "('g \<Rightarrow> 'g) \<Rightarrow> 'g \<Rightarrow> unit \<times> 'g" where
  "sampling f g = ((), f g)"

fun draws :: "'g rng_ops \<Rightarrow> 'g draw list \<Rightarrow> 'g rng_inner \<Rightarrow> ('e, 'g rng_inner) res" where
  "draws R [] s = Ok s"
| "draws R ((t, f) # ds) s =
     bind_res (rng_with R t (sampling f) s) (\<lambda>(_, s'). draws R ds s')"

fun fingerprints :: "'g rng_ops \<Rightarrow> 'g draw list \<Rightarrow> 'g \<Rightarrow> log" where
  "fingerprints R [] g = []"
| "fingerprints R ((t, f) # ds) g = fingerprint R t (f g) # fingerprints R ds (f g)"

lemmas rng_defs = rng_with_def enable_log_def enable_check_def take_log_def new_with_seed_def
  sampling_def

lemma draws_logging:
  assumes "rng_log s = Some l" "rng_check s = None"
  shows "\<exists>s'. draws R ds s = Ok s' \<and> rng_log s' = Some (l @ fingerprints R ds (rng_state s)) \<and>
           rng_check s' = None"
  using assms
proof (induction ds arbitrary: s l)
  case Nil
  then show ?case by simp
next
  case (Cons d ds)
  obtain t f where d: "d = (t, f)" by (cases d)
  let ?g = "f (rng_state s)"
  let ?s = "s\<lparr>rng_state := ?g, rng_log := Some (l @ [fingerprint R t ?g])\<rparr>"
  have step: "rng_with R t (sampling f) s = Ok ((), ?s)"
    using Cons.prems by (simp add: rng_with_def sampling_def Let_def)
  show ?case using Cons.IH [of ?s "l @ [fingerprint R t ?g]"] Cons.prems by (simp add: d step)
qed

lemma draws_checking:
  assumes "rng_log s = None" "rng_check s = Some (c, i)" "i \<le> length c"
  shows "(\<exists>s'. draws R ds s = (Ok s' :: ('e, 'g rng_inner) res)) \<longleftrightarrow>
           prefix (fingerprints R ds (rng_state s)) (drop i c)"
  using assms
proof (induction ds arbitrary: s i)
  case Nil
  then show ?case by simp
next
  case (Cons d ds)
  obtain t f where d: "d = (t, f)" by (cases d)
  let ?g = "f (rng_state s)"
  let ?v = "fingerprint R t ?g"
  let ?s = "s\<lparr>rng_state := ?g, rng_check := Some (c, Suc i)\<rparr>"
  show ?case
  proof (cases "i < length c \<and> c ! i = ?v")
    case True
    then have "rng_with R t (sampling f) s = (Ok ((), ?s) :: ('e, unit \<times> 'g rng_inner) res)"
      using Cons.prems by (simp add: rng_with_def sampling_def Let_def)
    moreover have "drop i c = ?v # drop (Suc i) c" using True by (metis Cons_nth_drop_Suc)
    ultimately show ?thesis using Cons.IH [of ?s "Suc i"] Cons.prems True by (simp add: d)
  next
    case False
    then have "rng_with R t (sampling f) s =
        (Panic ''non-determinism detected'' :: ('e, unit \<times> 'g rng_inner) res)"
      using Cons.prems by (auto simp: rng_with_def sampling_def Let_def)
    moreover have "\<not> prefix (?v # xs) (drop i c)" for xs
      using False by (cases "i < length c") (auto simp: simp flip: Cons_nth_drop_Suc)
    ultimately show ?thesis by (simp add: d)
  qed
qed

text \<open>
  The determinism check accepts exactly the runs that agree with the recorded one.  Let a
  first run with seed \<open>seed\<close> and logging draw \<open>ds\<close>; then a second run with the same seed and
  the recorded log, drawing \<open>ds'\<close>, finishes without the panic \<open>non-determinism detected\<close> iff the
  fingerprints of its draws are a prefix of the recorded fingerprints.
\<close>

theorem determinism_check_exact:
  "\<exists>s1. draws R ds (enable_log (new_with_seed R seed)) = (Ok s1 :: ('e, 'g rng_inner) res) \<and>
     fst (take_log s1) = Some (fingerprints R ds (seed_from_u64 R seed)) \<and>
     ((\<exists>s2. draws R ds' (enable_check (the (fst (take_log s1))) (new_with_seed R seed))
          = (Ok s2 :: ('e, 'g rng_inner) res))
      \<longleftrightarrow> prefix (fingerprints R ds' (seed_from_u64 R seed)) (fingerprints R ds (seed_from_u64 R seed)))"
proof -
  obtain s1 where s1: "draws R ds (enable_log (new_with_seed R seed)) = (Ok s1 :: ('e, 'g rng_inner) res)"
    "rng_log s1 = Some (fingerprints R ds (seed_from_u64 R seed))"
    using draws_logging [of "enable_log (new_with_seed R seed)" "[]" R ds]
    by (auto simp: enable_log_def new_with_seed_def)
  then have l: "fst (take_log s1) = Some (fingerprints R ds (seed_from_u64 R seed))"
    by (simp add: take_log_def)
  let ?l = "fingerprints R ds (seed_from_u64 R seed)"
  have "(\<exists>s2. draws R ds' (enable_check ?l (new_with_seed R seed)) = (Ok s2 :: ('e, 'g rng_inner) res))
      \<longleftrightarrow> prefix (fingerprints R ds' (seed_from_u64 R seed)) ?l"
    using draws_checking [of "enable_check ?l (new_with_seed R seed)" ?l 0 R ds']
    by (simp add: enable_check_def new_with_seed_def)
  then show ?thesis using s1(1) l by (intro exI [of _ s1]) simp
qed

text \<open>
  Without buggify a call to \<open>buggify\<close> or \<open>buggify_with_prob\<close> answers \<open>false\<close> and draws nothing
  (the generator, the log and the position in the check are unchanged), so that adding such calls
  does not disturb a simulation that has buggify off.
\<close>

theorem buggify_disabled_draws_nothing:
  "buggify R t (disable_buggify s) = Ok (False, disable_buggify s) \<and>
   buggify_with_prob R t p (disable_buggify s) = Ok (False, disable_buggify s) \<and>
   buggify R t (new_with_seed R seed) = Ok (False, new_with_seed R seed)"
  by (simp add: buggify_def buggify_with_prob_def disable_buggify_def is_buggify_enabled_def
      new_with_seed_def)

text \<open>A generator for examples: it always answers the lower bound and counts the draws.\<close>

definition const_rng :: "nat rng_ops" where
  "const_rng = \<lparr>seed_from_u64 = unat, gen_u8 = of_nat, gen_range = (\<lambda>lo hi g. (lo, Suc g)),
     gen_bool = (\<lambda>p g. (p = 1, Suc g))\<rparr>"

lemma const_rng_ok: "rng_ok const_rng"
  by (simp add: rng_ok_def const_rng_def)

end
