(* ===== verification/SimTime.thy ===== *)
theory SimTime
  imports Rng
begin

section \<open>Simulated time (\<open>madsim/src/sim/time\<close>)\<close>

text \<open>
  The virtual clock and the timer queue of \<open>time/mod.rs\<close>, the \<open>Sleep\<close> future of
  \<open>time/sleep.rs\<close> and the \<open>Interval\<close> of \<open>time/interval.rs\<close>.

  The timer queue is the third-party crate \<open>naive_timer\<close>: its operations are the fields of
  \<open>timer_ops\<close>, and \<open>timer_ok\<close> states what its documentation promises over the multiset
  \<open>tm_events\<close> of pending (deadline, callback) pairs.  A callback is data of type
  \<open>'cb\<close>; expiring the queue returns the callbacks in the order in which they run.
  An \<open>Instant\<close> is the number of nanoseconds since the zeroed base instant.
\<close>

type_synonym instant = nat

abbreviation nanos_per_ms :: nat where "nanos_per_ms \<equiv> 1000000"
abbreviation nanos_per_sec :: nat where "nanos_per_sec \<equiv> 1000000000"

record ('tm, 'cb) timer_ops =
  tm_default :: 'tm
  tm_add :: "duration \<Rightarrow> 'cb \<Rightarrow> 'tm \<Rightarrow> 'tm"
  tm_next :: "'tm \<Rightarrow> duration option"
  tm_expire :: "duration \<Rightarrow> 'tm \<Rightarrow> 'cb list \<times> 'tm"
  tm_events :: "'tm \<Rightarrow> (duration \<times> 'cb) multiset"

definition timer_ok :: "('tm, 'cb) timer_ops \<Rightarrow> bool" where
  "timer_ok T \<longleftrightarrow>
     tm_events T (tm_default T) = {#} \<and>
     (\<forall>d c t. tm_events T (tm_add T d c t) = add_mset (d, c) (tm_events T t)) \<and>
     (\<forall>t. tm_next T t = (if tm_events T t = {#} then None else Some (Min (fst ` set_mset (tm_events T t))))) \<and>
     (\<forall>now t. tm_events T (snd (tm_expire T now t)) = filter_mset (\<lambda>(d, c). now < d) (tm_events T t)) \<and>
     (\<forall>now t. mset (fst (tm_expire T now t)) =
        image_mset snd (filter_mset (\<lambda>(d, c). d \<le> now) (tm_events T t)))"

lemma timer_ok_default: "timer_ok T \<Longrightarrow> tm_events T (tm_default T) = {#}"
  by (simp add: timer_ok_def)

lemma timer_ok_add: "timer_ok T \<Longrightarrow> tm_events T (tm_add T d c t) = add_mset (d, c) (tm_events T t)"
  by (simp add: timer_ok_def)

lemma timer_ok_next:
  "timer_ok T \<Longrightarrow>
     tm_next T t = (if tm_events T t = {#} then None else Some (Min (fst ` set_mset (tm_events T t))))"
  by (simp add: timer_ok_def)

lemma timer_ok_expire:
  assumes "timer_ok T" "tm_expire T now t = (cbs, t')"
  shows "tm_events T t' = filter_mset (\<lambda>(d, c). now < d) (tm_events T t)"
    and "mset cbs = image_mset snd (filter_mset (\<lambda>(d, c). d \<le> now) (tm_events T t))"
  using assms unfolding timer_ok_def by (metis snd_conv, metis fst_conv)

lemmas timer_ok_rules = timer_ok_default timer_ok_add timer_ok_next timer_ok_expire

subsection \<open>The clock\<close>

text \<open>\<open>struct ClockInner\<close>: \<open>base_time\<close> is nanoseconds since the Unix epoch.\<close>

record clock =
  base_time :: nat
  base_instant :: instant
  advance :: duration

definition clock_new :: "nat \<Rightarrow> clock" where
  "clock_new t = \<lparr>base_time = t, base_instant = 0, advance = 0\<rparr>"

definition set_elapsed :: "duration \<Rightarrow> clock \<Rightarrow> clock" where
  "set_elapsed t c = c\<lparr>advance := t\<rparr>"

definition elapsed :: "clock \<Rightarrow> duration" where
  "elapsed c = advance c"

definition clock_advance :: "duration \<Rightarrow> clock \<Rightarrow> duration \<times> clock" where
  "clock_advance d c = (advance c + d, c\<lparr>advance := advance c + d\<rparr>)"

definition now_instant :: "clock \<Rightarrow> instant" where
  "now_instant c = base_instant c + advance c"

definition now_time :: "clock \<Rightarrow> nat" where
  "now_time c = base_time c + advance c"

subsection \<open>\<open>TimeHandle\<close> and \<open>TimeRuntime\<close>\<close>

record 'tm time_handle =
  timer :: 'tm
  clock :: clock

text \<open>\<open>TimeRuntime::new\<close>: a base time in the year 2022, to the second drawn at random.\<close>

definition time_runtime_new :: "'g rng_ops \<Rightarrow> ('tm, 'cb) timer_ops \<Rightarrow> 'g rng_inner
    \<Rightarrow> ('e, 'tm time_handle \<times> 'g rng_inner) res" where
  "time_runtime_new R T r =
     bind_res (rng_with R None (gen_range R 0 (60 * 60 * 24 * 365)) r)
       (\<lambda>(n, r'). Ok (\<lparr>timer = tm_default T,
            clock = clock_new ((60 * 60 * 24 * 365 * (2022 - 1970) + n) * nanos_per_sec)\<rparr>, r'))"

text \<open>
  \<open>TimeHandle::advance\<close>: the clock moves first, then the due callbacks run.  The callbacks
  are returned for the caller to run.
\<close>

definition time_advance :: "('tm, 'cb) timer_ops \<Rightarrow> duration \<Rightarrow> 'tm time_handle
    \<Rightarrow> 'cb list \<times> 'tm time_handle" where
  "time_advance T d h =
     (let (t, c) = clock_advance d (clock h); (cbs, tm) = tm_expire T t (timer h)
      in (cbs, h\<lparr>clock := c, timer := tm\<rparr>))"

text \<open>
  \<open>TimeRuntime::advance_to_next_event\<close>: the due callbacks run, then the clock is set to the
  deadline plus 50 ns.  Returns whether there was an event.
\<close>

definition advance_to_next_event :: "('tm, 'cb) timer_ops \<Rightarrow> 'tm time_handle
    \<Rightarrow> bool \<times> 'cb list \<times> 'tm time_handle" where
  "advance_to_next_event T h =
     (case tm_next T (timer h) of
        Some t \<Rightarrow>
          (let t = t + 50; (cbs, tm) = tm_expire T t (timer h)
           in (True, cbs, h\<lparr>timer := tm, clock := set_elapsed t (clock h)\<rparr>))
      | None \<Rightarrow> (False, [], h))"

text \<open>\<open>add_timer_at\<close>: the deadline relative to the base instant; \<open>Instant\<close> subtraction
  saturates at zero.\<close>

definition add_timer_at :: "('tm, 'cb) timer_ops \<Rightarrow> instant \<Rightarrow> 'cb \<Rightarrow> 'tm time_handle \<Rightarrow> 'tm time_handle" where
  "add_timer_at T deadline cb h =
     h\<lparr>timer := tm_add T (deadline - base_instant (clock h)) cb (timer h)\<rparr>"

definition add_timer :: "('tm, 'cb) timer_ops \<Rightarrow> duration \<Rightarrow> 'cb \<Rightarrow> 'tm time_handle \<Rightarrow> 'tm time_handle" where
  "add_timer T d cb h = add_timer_at T (now_instant (clock h) + d) cb h"

subsection \<open>\<open>Sleep\<close> and \<open>timeout\<close>\<close>

datatype 'a poll = Ready 'a | Pending

record sleep = deadline :: instant

definition sleep_until :: "instant \<Rightarrow> 'tm time_handle \<Rightarrow> sleep" where
  "sleep_until d h = \<lparr>deadline = max d (now_instant (clock h) + nanos_per_ms)\<rparr>"

definition sleep_for :: "duration \<Rightarrow> 'tm time_handle \<Rightarrow> sleep" where
  "sleep_for d h = sleep_until (now_instant (clock h) + d) h"

definition is_elapsed :: "sleep \<Rightarrow> 'tm time_handle \<Rightarrow> bool" where
  "is_elapsed s h \<longleftrightarrow> deadline s \<le> now_instant (clock h)"

definition sleep_reset :: "instant \<Rightarrow> sleep \<Rightarrow> sleep" where
  "sleep_reset d s = s\<lparr>deadline := d\<rparr>"

text \<open>\<open>Sleep::poll\<close>: \<open>waker\<close> is the callback that wakes the polling task.\<close>

definition sleep_poll :: "('tm, 'cb) timer_ops \<Rightarrow> 'cb \<Rightarrow> sleep \<Rightarrow> 'tm time_handle
    \<Rightarrow> unit poll \<times> 'tm time_handle" where
  "sleep_poll T waker s h =
     (if is_elapsed s h then (Ready (), h) else (Pending, add_timer_at T (deadline s) waker h))"

text \<open>
  \<open>TimeHandle::timeout_at\<close>, \<open>timeout\<close>: one poll of the biased select of the future and the sleep.
  \<open>fut\<close> is the result of polling the future; when it is ready the sleep is not polled.
\<close>

datatype elapsed_error = Elapsed

definition timeout_poll :: "('tm, 'cb) timer_ops \<Rightarrow> 'cb \<Rightarrow> 'a poll \<Rightarrow> sleep \<Rightarrow> 'tm time_handle
    \<Rightarrow> (elapsed_error, 'a) res poll \<times> 'tm time_handle" where
  "timeout_poll T waker fut s h =
     (case fut of
        Ready v \<Rightarrow> (Ready (Ok v), h)
      | Pending \<Rightarrow>
          (case sleep_poll T waker s h of
             (Ready _, h') \<Rightarrow> (Ready (Err Elapsed), h')
           | (Pending, h') \<Rightarrow> (Pending, h')))"

subsection \<open>\<open>Interval\<close>\<close>

datatype missed_tick_behavior = Burst | Delay | Skip

record interval =
  delay :: sleep
  period :: duration
  missed :: missed_tick_behavior

definition internal_interval_at :: "instant \<Rightarrow> duration \<Rightarrow> 'tm time_handle \<Rightarrow> interval" where
  "internal_interval_at start p h = \<lparr>delay = sleep_until start h, period = p, missed = Burst\<rparr>"

definition interval_at :: "instant \<Rightarrow> duration \<Rightarrow> 'tm time_handle \<Rightarrow> ('e, interval) res" where
  "interval_at start p h =
     (if p > 0 then Ok (internal_interval_at start p h) else Panic ''`period` must be non-zero.'')"

definition mk_interval :: "duration \<Rightarrow> 'tm time_handle \<Rightarrow> ('e, interval) res" where
  "mk_interval p h = interval_at (now_instant (clock h)) p h"

text \<open>\<open>MissedTickBehavior::next_timeout\<close>.  The remainder must fit 64 bits; \<open>checked_sub\<close> cannot
  fail because a remainder is smaller than the period.\<close>

definition next_timeout :: "missed_tick_behavior \<Rightarrow> instant \<Rightarrow> instant \<Rightarrow> duration \<Rightarrow> ('e, instant) res" where
  "next_timeout b timeout now p =
     (case b of
        Burst \<Rightarrow> Ok (timeout + p)
      | Delay \<Rightarrow> Ok (now + p)
      | Skip \<Rightarrow>
          (let r = (now - timeout) mod p in
           if r \<ge> 2 ^ 64 then Panic ''too much time has elapsed since the interval was supposed to tick''
           else if p < r then Panic ''called `Option::unwrap()` on a `None` value''
           else Ok (now + (p - r))))"

definition poll_tick :: "('tm, 'cb) timer_ops \<Rightarrow> 'cb \<Rightarrow> interval \<Rightarrow> 'tm time_handle
    \<Rightarrow> ('e, instant poll \<times> interval \<times> 'tm time_handle) res" where
  "poll_tick T waker i h =
     (case sleep_poll T waker (delay i) h of
        (Pending, h') \<Rightarrow> Ok (Pending, i, h')
      | (Ready _, h') \<Rightarrow>
          (let timeout = deadline (delay i); now = now_instant (clock h') in
           bind_res
             (if now > timeout + 5 * nanos_per_ms then next_timeout (missed i) timeout now (period i)
              else Ok (timeout + period i))
             (\<lambda>nxt. Ok (Ready timeout, i\<lparr>delay := sleep_reset nxt (delay i)\<rparr>, h'))))"

definition interval_reset :: "'tm time_handle \<Rightarrow> interval \<Rightarrow> interval" where
  "interval_reset h i = i\<lparr>delay := sleep_reset (now_instant (clock h) + period i) (delay i)\<rparr>"

definition set_missed_tick_behavior :: "missed_tick_behavior \<Rightarrow> interval \<Rightarrow> interval" where
  "set_missed_tick_behavior b i = i\<lparr>missed := b\<rparr>"

subsection \<open>Time never goes back\<close>

text \<open>
  The steps a simulation makes on its time: the scheduler's advance, the jump to the next
  event, a timer added with \<open>add_timer\<close>, and the poll of a \<open>Sleep\<close>.
\<close>

inductive time_step :: "('tm, 'cb) timer_ops \<Rightarrow> 'tm time_handle \<Rightarrow> 'tm time_handle \<Rightarrow> bool" for T where
  step_advance: "time_step T h (snd (time_advance T d h))"
| step_next: "time_step T h (snd (snd (advance_to_next_event T h)))"
| step_add: "time_step T h (add_timer T d cb h)"
| step_sleep: "time_step T h (snd (sleep_poll T waker s h))"

inductive time_reachable :: "('tm, 'cb) timer_ops \<Rightarrow> 'tm time_handle \<Rightarrow> bool" for T where
  reach_new: "time_reachable T \<lparr>timer = tm_default T, clock = clock_new t\<rparr>"
| reach_step: "time_reachable T h \<Longrightarrow> time_step T h h' \<Longrightarrow> time_reachable T h'"

text \<open>No pending timer is overdue.\<close>

definition time_inv :: "('tm, 'cb) timer_ops \<Rightarrow> 'tm time_handle \<Rightarrow> bool" where
  "time_inv T h \<longleftrightarrow> base_instant (clock h) = 0 \<and>
     (\<forall>(d, c) \<in># tm_events T (timer h). elapsed (clock h) \<le> d)"

lemmas clock_defs = clock_new_def set_elapsed_def elapsed_def clock_advance_def now_instant_def now_time_def

lemma time_advance_spec:
  assumes "timer_ok T" "time_advance T d h = (cbs, h')"
  shows "elapsed (clock h') = elapsed (clock h) + d"
    and "base_instant (clock h') = base_instant (clock h)"
    and "tm_events T (timer h') = filter_mset (\<lambda>(t, c). elapsed (clock h) + d < t) (tm_events T (timer h))"
    and "mset cbs = image_mset snd (filter_mset (\<lambda>(t, c). t \<le> elapsed (clock h) + d) (tm_events T (timer h)))"
  using assms timer_ok_expire [OF assms(1)]
  by (auto simp: time_advance_def clock_defs Let_def split: prod.splits)

lemma advance_to_next_event_spec:
  assumes "timer_ok T" "tm_events T (timer h) \<noteq> {#}" "advance_to_next_event T h = (going, cbs, h')"
  defines "t \<equiv> Min (fst ` set_mset (tm_events T (timer h))) + 50"
  shows "going" and "elapsed (clock h') = t"
    and "base_instant (clock h') = base_instant (clock h)"
    and "tm_events T (timer h') = filter_mset (\<lambda>(d, c). t < d) (tm_events T (timer h))"
    and "mset cbs = image_mset snd (filter_mset (\<lambda>(d, c). d \<le> t) (tm_events T (timer h)))"
  using assms timer_ok_expire [OF assms(1)] timer_ok_next [OF assms(1), of "timer h"]
  by (auto simp: advance_to_next_event_def clock_defs Let_def split: prod.splits)

lemma advance_to_next_event_none:
  "timer_ok T \<Longrightarrow> tm_events T (timer h) = {#} \<Longrightarrow> advance_to_next_event T h = (False, [], h)"
  by (simp add: advance_to_next_event_def timer_ok_next)

lemma time_step_inv:
  assumes "timer_ok T" "time_step T h h'" "time_inv T h"
  shows "time_inv T h' \<and> elapsed (clock h) \<le> elapsed (clock h')"
  using assms(2,3)
proof cases
  case (step_advance d)
  obtain cbs where "time_advance T d h = (cbs, h')" using step_advance by (metis prod.collapse)
  then show ?thesis using assms(3) time_advance_spec [OF assms(1)]
    by (fastforce simp: time_inv_def)
next
  case step_next
  obtain g cbs where n: "advance_to_next_event T h = (g, cbs, h')"
    using step_next by (metis prod.collapse)
  show ?thesis
  proof (cases "tm_events T (timer h) = {#}")
    case True
    then show ?thesis using assms(3) n advance_to_next_event_none [OF assms(1) True] by simp
  next
    case False
    let ?m = "Min (fst ` set_mset (tm_events T (timer h)))"
    have "?m \<in> fst ` set_mset (tm_events T (timer h))" using False by (intro Min_in) auto
    then have "elapsed (clock h) \<le> ?m" using assms(3) by (auto simp: time_inv_def)
    then show ?thesis using advance_to_next_event_spec [OF assms(1) False n] assms(3)
      by (auto simp: time_inv_def)
  qed
next
  case (step_add d cb)
  then show ?thesis using assms(1,3)
    by (auto simp: time_inv_def add_timer_def add_timer_at_def timer_ok_add clock_defs)
next
  case (step_sleep waker s)
  then show ?thesis using assms(1,3)
    by (auto simp: time_inv_def sleep_poll_def add_timer_at_def timer_ok_add clock_defs is_elapsed_def)
qed

lemma time_reachable_inv: "time_reachable T h \<Longrightarrow> timer_ok T \<Longrightarrow> time_inv T h"
proof (induction rule: time_reachable.induct)
  case (reach_new t)
  then show ?case by (simp add: time_inv_def clock_defs timer_ok_default)
next
  case (reach_step h h')
  then show ?case using time_step_inv by blast
qed

text \<open>A timer queue that satisfies \<open>timer_ok\<close>: a list, searched and filtered.\<close>

definition list_timer :: "((duration \<times> 'cb) list, 'cb) timer_ops" where
  "list_timer = \<lparr>tm_default = [], tm_add = (\<lambda>d c t. (d, c) # t),
     tm_next = (\<lambda>t. if t = [] then None else Some (Min (set (map fst t)))),
     tm_expire = (\<lambda>now t. (map snd (filter (\<lambda>(d, c). d \<le> now) t), filter (\<lambda>(d, c). now < d) t)),
     tm_events = mset\<rparr>"

lemma list_timer_ok: "timer_ok list_timer"
  by (simp add: timer_ok_def list_timer_def mset_filter flip: set_map)

text \<open>
  C11: simulated time is monotone and no timer is missed.  In every state of time a simulation can
  reach, each step leaves the elapsed time where it is or increases it, and no pending timer has a
  deadline before the elapsed time, although \<open>advance_to_next_event\<close> overwrites the clock instead
  of adding to it.
\<close>

theorem time_monotone:
  assumes "timer_ok T" "time_reachable T h" "time_step T h h'"
  shows "elapsed (clock h) \<le> elapsed (clock h') \<and>
         (\<forall>(d, c) \<in># tm_events T (timer h'). elapsed (clock h') \<le> d)"
  using time_step_inv [OF assms(1,3) time_reachable_inv [OF assms(2,1)]] by (simp add: time_inv_def)

theorem time_monotone_witness:
  "\<exists>h. time_reachable list_timer h \<and> elapsed (clock h) = 0 \<and> timer h = [(1000, ''a'')] \<and>
      time_step list_timer h (snd (snd (advance_to_next_event list_timer h))) \<and>
      elapsed (clock h) \<le> elapsed (clock (snd (snd (advance_to_next_event list_timer h))))"
proof -
  let ?h0 = "\<lparr>timer = tm_default list_timer, clock = clock_new 0\<rparr>"
  let ?h = "add_timer list_timer 1000 ''a'' ?h0"
  have r: "time_reachable list_timer ?h"
    by (rule reach_step [OF reach_new]) (rule step_add)
  have s: "time_step list_timer ?h (snd (snd (advance_to_next_event list_timer ?h)))"
    by (rule step_next)
  show ?thesis using time_monotone [OF list_timer_ok r s] r s
    by (intro exI [of _ ?h])
      (simp add: add_timer_def add_timer_at_def clock_defs list_timer_def)
qed

subsection \<open>A sleeping task is woken\<close>

text \<open>\<open>n\<close> rounds of the scheduler's \<open>advance_to_next_event\<close>, with the callbacks that run.\<close>

primrec next_events :: "('tm, 'cb) timer_ops \<Rightarrow> nat \<Rightarrow> 'tm time_handle \<Rightarrow> 'cb list \<times> 'tm time_handle" where
  "next_events T 0 h = ([], h)"
| "next_events T (Suc n) h =
     (let (_, cbs, h') = advance_to_next_event T h; (cbs', h'') = next_events T n h'
      in (cbs @ cbs', h''))"

lemma next_events_fire:
  assumes "timer_ok T" "(d, c) \<in># tm_events T (timer h)" "size (tm_events T (timer h)) = k"
  shows "\<exists>n \<le> k. c \<in> set (fst (next_events T n h)) \<and> d \<le> elapsed (clock (snd (next_events T n h)))"
  using assms(2,3)
proof (induction k arbitrary: h rule: less_induct)
  case (less k)
  then have ne: "tm_events T (timer h) \<noteq> {#}" by auto
  obtain g cbs h' where n: "advance_to_next_event T h = (g, cbs, h')" by (metis prod.collapse)
  let ?E = "tm_events T (timer h)" and ?t = "Min (fst ` set_mset (tm_events T (timer h))) + 50"
  note spec = advance_to_next_event_spec [OF assms(1) ne n]
  show ?case
  proof (cases "d \<le> ?t")
    case True
    then have "c \<in># mset cbs" using spec(5) less.prems(1) by force
    moreover have "0 < k" using ne less.prems(2) by (metis gr0I size_eq_0_iff_empty)
    ultimately show ?thesis using True spec(2) n by (intro exI [of _ "Suc 0"]) auto
  next
    case False
    then have in': "(d, c) \<in># tm_events T (timer h')" using spec(4) less.prems(1) by auto
    have "Min (fst ` set_mset ?E) \<in> fst ` set_mset ?E" using ne by (intro Min_in) auto
    then obtain c0 where "(Min (fst ` set_mset ?E), c0) \<in># ?E" by force
    moreover have "(Min (fst ` set_mset ?E), c0) \<notin># tm_events T (timer h')" using spec(4) by auto
    moreover have "tm_events T (timer h') \<subseteq># ?E" using spec(4) by (simp add: multiset_filter_subset)
    ultimately have lt: "size (tm_events T (timer h')) < k"
      using less.prems(2) by (metis mset_subset_size subset_mset.le_neq_trans)
    obtain m where "m \<le> size (tm_events T (timer h'))" "c \<in> set (fst (next_events T m h'))"
      "d \<le> elapsed (clock (snd (next_events T m h')))"
      using less.IH [OF lt in' refl] by blast
    then show ?thesis using lt n by (intro exI [of _ "Suc m"]) (auto split: prod.split)
  qed
qed

text \<open>
  C12: a sleep lasts at least as long as asked (and at least 1 ms), and its task is woken.  If a
  \<open>Sleep\<close> made by \<open>sleep(d)\<close> at \<open>h0\<close> is polled at \<open>h\<close>, then \<open>Ready\<close> means that at least \<open>max d 1ms\<close> have
  passed; \<open>Pending\<close> means that after at most as many jumps to the next event as there are pending
  timers the waker has run and the sleep is elapsed.
\<close>

theorem sleep_wakes:
  assumes "timer_ok T" "base_instant (clock h) = 0" "sleep_poll T waker (sleep_for d h0) h = (r, h')"
  shows "case r of
      Ready _ \<Rightarrow> now_instant (clock h0) + max d nanos_per_ms \<le> now_instant (clock h)
    | Pending \<Rightarrow> \<exists>n \<le> size (tm_events T (timer h')).
        waker \<in> set (fst (next_events T n h')) \<and>
        deadline (sleep_for d h0) \<le> elapsed (clock (snd (next_events T n h')))"
proof (cases r)
  case (Ready u)
  then show ?thesis using assms(3)
    by (auto simp: sleep_poll_def is_elapsed_def sleep_for_def sleep_until_def split: if_splits)
next
  case Pending
  then have h': "h' = add_timer_at T (deadline (sleep_for d h0)) waker h"
    using assms(3) by (auto simp: sleep_poll_def split: if_splits)
  then have "(deadline (sleep_for d h0), waker) \<in># tm_events T (timer h')"
    using assms(1,2) by (simp add: add_timer_at_def timer_ok_add)
  from next_events_fire [OF assms(1) this refl] show ?thesis by (simp add: Pending)
qed

theorem sleep_wakes_witness:
  "let T = (list_timer :: (_, string) timer_ops);
       h = \<lparr>timer = tm_default T, clock = clock_new 0\<rparr>;
       h' = snd (sleep_poll T ''w'' (sleep_for 5 h) h)
   in timer_ok T \<and> base_instant (clock h) = 0 \<and>
      sleep_poll T ''w'' (sleep_for 5 h) h = (Pending, h') \<and>
      (\<exists>n \<le> 1. ''w'' \<in> set (fst (next_events T n h')))"
proof -
  let ?T = "list_timer :: (_, string) timer_ops"
  let ?h = "\<lparr>timer = tm_default ?T, clock = clock_new 0\<rparr>"
  let ?p = "sleep_poll ?T ''w'' (sleep_for 5 ?h) ?h"
  have p: "?p = (Pending, snd ?p)" and s: "size (tm_events ?T (timer (snd ?p))) = 1"
    by (simp_all add: sleep_poll_def sleep_for_def sleep_until_def is_elapsed_def clock_defs
        list_timer_def add_timer_at_def)
  have b: "base_instant (clock ?h) = 0" by (simp add: clock_defs)
  show ?thesis using sleep_wakes [OF list_timer_ok b p] p s b list_timer_ok
    by (auto simp: Let_def)
qed

subsection \<open>Interval ticks\<close>

lemma next_timeout_skip_aligned:
  assumes "0 < p" "p < 2 ^ 64" "timeout < now"
  shows "\<exists>n. next_timeout Skip timeout now p = Ok n \<and> now < n \<and> n \<le> now + p \<and> (n - timeout) mod p = 0"
proof -
  let ?r = "(now - timeout) mod p"
  have r: "?r < p" using assms(1) by simp
  have "now + (p - ?r) - timeout = (now - timeout - ?r) + p" using assms(3) r
    by (metis Nat.add_diff_assoc2 add.commute diff_add_assoc less_imp_le_nat mod_less_eq_dividend
        add_diff_assoc)
  moreover have "(now - timeout - ?r) mod p = 0" by (simp add: minus_mod_eq_mult_div)
  ultimately have "(now + (p - ?r) - timeout) mod p = 0" by simp
  then show ?thesis using assms r by (simp add: next_timeout_def Let_def)
qed

text \<open>
  The ticks of an interval.  A ready tick returns the scheduled time and reschedules strictly
  later, one period after the schedule when the tick was not missed (at most 5 ms late) or in
  mode \<open>Burst\<close>, and in mode \<open>Skip\<close> at the next multiple of the period after the current time.
\<close>

theorem interval_ticks:
  assumes "0 < period i" "period i < 2 ^ 64" "deadline (delay i) \<le> now_instant (clock h)"
  shows "\<exists>n. poll_tick T waker i h =
            (Ok (Ready (deadline (delay i)), i\<lparr>delay := \<lparr>deadline = n\<rparr>\<rparr>, h) :: ('e, _) res) \<and>
          deadline (delay i) < n \<and>
          (now_instant (clock h) \<le> deadline (delay i) + 5 * nanos_per_ms \<or> missed i = Burst
             \<longrightarrow> n = deadline (delay i) + period i) \<and>
          (deadline (delay i) + 5 * nanos_per_ms < now_instant (clock h) \<and> missed i = Skip
             \<longrightarrow> now_instant (clock h) < n \<and> (n - deadline (delay i)) mod period i = 0)"
proof -
  let ?d = "deadline (delay i)" and ?now = "now_instant (clock h)"
  have ready: "sleep_poll T waker (delay i) h = (Ready (), h)"
    using assms(3) by (simp add: sleep_poll_def is_elapsed_def)
  have reset: "sleep_reset n (delay i) = \<lparr>deadline = n\<rparr>" for n
    by (simp add: sleep_reset_def)
  show ?thesis
  proof (cases "?now \<le> ?d + 5 * nanos_per_ms \<or> missed i = Burst")
    case True
    then show ?thesis using assms(1)
      by (auto simp: poll_tick_def ready reset Let_def next_timeout_def)
  next
    case False
    then have late: "?d < ?now" "?d + 5 * nanos_per_ms < ?now" by auto
    show ?thesis
    proof (cases "missed i")
      case Burst
      then show ?thesis using False by simp
    next
      case Delay
      then show ?thesis using late
        by (intro exI [of _ "?now + period i"]) (simp add: poll_tick_def ready reset Let_def next_timeout_def)
    next
      case Skip
      obtain n where "next_timeout Skip ?d ?now (period i) = (Ok n :: ('e, nat) res)" "?now < n"
        "(n - ?d) mod period i = 0"
        using next_timeout_skip_aligned [OF assms(1,2) late(1)] by (elim exE conjE) rule
      then show ?thesis using Skip late
        by (intro exI [of _ n]) (simp add: poll_tick_def ready reset Let_def)
    qed
  qed
qed

theorem interval_ticks_witness:
  "let i = \<lparr>delay = \<lparr>deadline = 10\<rparr>, period = 4000000, missed = Skip\<rparr>;
       h = \<lparr>timer = tm_default list_timer, clock = set_elapsed 9000000 (clock_new 0)\<rparr>
   in 0 < period i \<and> period i < 2 ^ 64 \<and> deadline (delay i) \<le> now_instant (clock h) \<and>
      (\<exists>n. poll_tick list_timer ''w'' i h = (Ok (Ready 10, i\<lparr>delay := \<lparr>deadline = n\<rparr>\<rparr>, h) :: (unit, _) res)
         \<and> 9000000 < n \<and> (n - 10) mod 4000000 = 0)"
  using interval_ticks [of "\<lparr>delay = \<lparr>deadline = 10\<rparr>, period = 4000000, missed = Skip\<rparr>"
      "\<lparr>timer = tm_default list_timer, clock = set_elapsed 9000000 (clock_new 0)\<rparr>" list_timer "''w''"]
  by (fastforce simp: Let_def clock_defs)

end
