(* ===== verification/Mpsc.thy ===== *)
theory Mpsc
  imports Prelude
begin

section \<open>The ready queue (\<open>madsim/src/sim/utils/mpsc.rs\<close>)\<close>

text \<open>
  The scheduler's queue of runnables: a vector behind a lock, to which any clone of the
  sender appends and from which the receiver takes a random element.  The random index
  is the caller's: \<open>gen_range(0..len)\<close> of the global generator, of which only
  \<open>idx < len\<close> is used.
\<close>

datatype try_recv_error = Empty | Disconnected

type_synonym 'a mpsc = "'a list"

definition channel :: "'a mpsc" where
  "channel = []"

text \<open>\<open>Sender::send\<close>: \<open>locked\<close> says that the queue's lock is held, when \<open>try_lock\<close> fails and
  the value is handed back.\<close>

definition send :: "bool \<Rightarrow> 'a \<Rightarrow> 'a mpsc \<Rightarrow> ('a, 'a mpsc) res" where
  "send locked x q = (if locked then Err x else Ok (q @ [x]))"

text \<open>
  \<open>Receiver::try_recv_random\<close>.  No \<open>Weak\<close> to the queue is ever made, so
  \<open>Arc::weak_count\<close> is \<open>0\<close> and an empty queue reads as \<open>Disconnected\<close>; \<open>weak\<close> is that count.
\<close>

definition try_recv_random :: "nat \<Rightarrow> nat \<Rightarrow> 'a mpsc \<Rightarrow> (try_recv_error, 'a \<times> 'a mpsc) res" where
  "try_recv_random weak idx q =
     (if q \<noteq> [] then Ok (q ! idx, swap_remove idx q)
      else if weak = 0 then Err Disconnected else Err Empty)"

subsection \<open>The contract of a ready queue\<close>

text \<open>
  What the executor relies on: a sent element is in the queue, a received one leaves it,
  and receiving fails exactly when there is nothing to receive.
\<close>

locale ready_queue =
  fixes put :: "'a \<Rightarrow> 'q \<Rightarrow> 'q"
    and take_at :: "nat \<Rightarrow> 'q \<Rightarrow> ('a \<times> 'q) option"
    and size_of :: "'q \<Rightarrow> nat"
    and elems :: "'q \<Rightarrow> 'a multiset"
  assumes elems_put: "elems (put x q) = add_mset x (elems q)"
    and elems_take: "i < size_of q \<Longrightarrow> take_at i q = Some (x, q') \<Longrightarrow> elems q = add_mset x (elems q')"
    and take_none: "take_at i q = None \<longleftrightarrow> elems q = {#}"
    and size_elems: "size_of q = size (elems q)"
begin

lemma size_put: "size_of (put x q) = Suc (size_of q)"
  by (simp add: size_elems elems_put)

lemma size_take: "i < size_of q \<Longrightarrow> take_at i q = Some (x, q') \<Longrightarrow> size_of q = Suc (size_of q')"
  using elems_take [of i q x q'] by (simp add: size_elems)

lemma take_total: "0 < size_of q \<Longrightarrow> \<exists>x q'. take_at i q = Some (x, q')"
  using take_none [of i q] by (cases "take_at i q") (auto simp: size_elems)

text \<open>Draining: as many receives as there are elements empty the queue, and give back
  exactly the elements that were in it.\<close>

primrec drain :: "(nat \<Rightarrow> nat) \<Rightarrow> nat \<Rightarrow> 'q \<Rightarrow> 'a list \<times> 'q" where
  "drain pick 0 q = ([], q)"
| "drain pick (Suc n) q =
     (case take_at (pick n mod size_of q) q of
        None \<Rightarrow> ([], q)
      | Some (x, q') \<Rightarrow> (let (xs, q'') = drain pick n q' in (x # xs, q'')))"

lemma drain_all:
  "n = size_of q \<Longrightarrow> mset (fst (drain pick n q)) = elems q \<and> elems (snd (drain pick n q)) = {#}"
proof (induction n arbitrary: q)
  case 0
  then show ?case using size_elems [of q] by simp
next
  case (Suc n)
  then have pos: "0 < size_of q" by simp
  then obtain x q' where t: "take_at (pick n mod size_of q) q = Some (x, q')"
    using take_total by blast
  have "pick n mod size_of q < size_of q" using pos by simp
  note el = elems_take [OF this t] and sz = size_take [OF this t]
  then have "n = size_of q'" using Suc.prems by simp
  from Suc.IH [OF this] show ?case by (auto simp: t el split: prod.split)
qed

end

definition recv_at :: "nat \<Rightarrow> 'a mpsc \<Rightarrow> ('a \<times> 'a mpsc) option" where
  "recv_at i q = (case try_recv_random 0 i q of Ok r \<Rightarrow> Some r | _ \<Rightarrow> None)"

definition push_ready :: "'a \<Rightarrow> 'a mpsc \<Rightarrow> 'a mpsc" where
  "push_ready x q = (case send False x q of Ok q' \<Rightarrow> q' | _ \<Rightarrow> q)"

lemma push_ready_eq [simp]: "push_ready x q = q @ [x]"
  by (simp add: push_ready_def send_def)

lemma recv_at_Nil [simp]: "recv_at i [] = None"
  by (simp add: recv_at_def try_recv_random_def)

lemma recv_at_eq: "q \<noteq> [] \<Longrightarrow> recv_at i q = Some (q ! i, swap_remove i q)"
  by (simp add: recv_at_def try_recv_random_def)

interpretation mq: ready_queue push_ready recv_at length mset
proof unfold_locales
  show "mset (push_ready x q) = add_mset x (mset q)" for x :: 'a and q by simp
  show "mset q = add_mset x (mset q')"
    if "i < length q" "recv_at i q = Some (x, q')" for i q q' and x :: 'a
    using that mset_swap_remove [of i q] by (cases "q = []") (auto simp: recv_at_eq)
  show "recv_at i q = None \<longleftrightarrow> mset q = {#}" for i and q :: "'a list"
    by (cases "q = []") (auto simp: recv_at_eq)
  show "length q = size (mset q)" for q :: "'a list" by simp
qed

text \<open>
  Receiving from the ready queue removes exactly one occurrence of the element it
  returns and keeps every other (no runnable is lost or duplicated by \<open>swap_remove\<close>), and it
  fails only on an empty queue, then with \<open>Disconnected\<close>.
\<close>

theorem try_recv_random_conserves:
  assumes "idx < length q \<or> q = []"
  shows "(case try_recv_random 0 idx q of
            Ok (x, q') \<Rightarrow> x = q ! idx \<and> mset q = add_mset x (mset q')
          | Err e \<Rightarrow> q = [] \<and> e = Disconnected
          | Panic m \<Rightarrow> False)"
  using assms mset_swap_remove [of idx q] by (auto simp: try_recv_random_def)

theorem try_recv_random_conserves_witness:
  "(1::nat) < length [10, 20, 30::nat] \<and>
   try_recv_random 0 1 [10, 20, 30::nat] = Ok (20, [10, 30]) \<and>
   mset [10, 20, 30::nat] = add_mset 20 (mset [10, 30])"
  using try_recv_random_conserves [of 1 "[10, 20, 30::nat]"]
  by (simp add: try_recv_random_def swap_remove_def)

end
