(* ===== verification/Task.thy ===== *)
theory Task
  imports SimTime Mpsc "HOL-Library.Sublist"
begin

section \<open>The executor (\<open>madsim/src/sim/task/mod.rs\<close>, \<open>task/join.rs\<close>)\<close>

text \<open>
  Nodes, tasks, the ready queue and the scheduling loop.

  Objects behind an \<open>Arc\<close> are references: a \<open>TaskInfo\<close> is known by its \<open>Id\<close> (the counter
  \<open>NEXT_TASK_ID\<close> never repeats), a \<open>NodeInfo\<close> by an \<open>nref\<close>; \<open>restart\<close> gives a node a new
  \<open>NodeInfo\<close>, while old tasks and old \<open>Spawner\<close>s keep the old one.  A \<open>Runnable\<close> is the id of
  its task: the ready queue and the waiting lists of paused nodes are lists of ids.

  Third-party and user code are arguments, in the record \<open>env\<close>:
    \<^item> the crate \<open>async_task\<close> (fields \<open>at_*\<close> on a state \<open>'a\<close>): the task objects, wakers and
      cancellation.  A call of the schedule closure is the boolean it returns, the tasks whose
      awaiters it wakes are the list it returns.
    \<^item> user code: a poll of a future is a program \<open>prog\<close> that reads and changes the user's
      world \<open>'u\<close> and calls the runtime (\<open>call\<close>); dropping a future changes the world and wakes tasks;
      \<open>'k\<close> are the user's timer callbacks; \<open>'f\<close> the futures.
    \<^item> the \<open>tokio\<close> watch channel of the ctrl-c signal (\<open>w_subscribe\<close>, \<open>w_ctrl_c\<close>), and the
      simulators of \<open>plugin.rs\<close>, of which the runtime calls
      \<open>create_node\<close> (with the address of the node) and \<open>reset_node\<close>.
  Destructors of futures call no operation of the executor.
\<close>

type_synonym task_id = nat
type_synonym nref = nat

type_synonym 'r answer = "(unit, 'r) res"

subsection \<open>Data\<close>

record task_info =
  ti_name :: "string option"
  ti_node :: nref
  ti_location :: string
  ti_has_waker :: bool
  ti_cancelled :: bool
  ti_then_exit :: "nref option"

record node_info =
  ni_id :: node_id
  ni_name :: "string option"
  ni_cores :: nat
  ni_restart_on_panic :: bool
  ni_restart_on_panic_matching :: "string list"
  ni_paused :: bool
  ni_killed :: bool
  ni_tasks :: "task_id list"
  ni_ctrl_c :: bool

text \<open>\<open>init\<close> is the future that the init closure makes (\<open>NodeBuilder::init\<close>).\<close>

record 'f node =
  n_info :: nref
  n_paused :: "task_id list"
  n_init :: "'f option"

record 'f node_builder =
  b_name :: "string option"
  b_ip :: "ip_addr option"
  b_cores :: "nat option"
  b_init :: "'f option"
  b_restart_on_panic :: bool
  b_restart_on_panic_matching :: "string list"

record ('a, 'g, 'tm, 'u, 'f, 's) exec =
  queue :: "task_id mpsc"
  ex_nodes :: "node_id \<rightharpoonup> 'f node"
  next_node_id :: nat
  infos :: "nref \<Rightarrow> node_info"
  next_ref :: nref
  main_info :: nref
  tinfos :: "task_id \<Rightarrow> task_info"
  next_task_id :: task_id
  ex_rand :: "'g rng_inner"
  ex_time :: "'tm time_handle"
  time_limit :: "duration option"
  sims :: 's
  tasks :: 'a
  user :: 'u
  polled :: "task_id list"

text \<open>
  \<open>polled\<close> is a history: the tasks polled so far.  The calls user code makes on the runtime while
  it is polled, and their answers.
\<close>

datatype 'k callback = WakeTask task_id | RestartNode node_id | UserCallback 'k

datatype ('f, 'k) call =
    CSpawn nref "string option" string 'f
  | CCurrentSpawner
  | CWake task_id
  | CCancel task_id
  | CAbort task_id
  | CAbortFinished task_id
  | CKill node_id
  | CRestart node_id
  | CPause node_id
  | CResume node_id
  | CSendCtrlC node_id
  | CCtrlC
  | CIsExit node_id
  | CCreateNode "'f node_builder"
  | CGetNode node_id
  | CNumTasks
  | CExit nref
  | CAddTimer duration 'k
  | CSleep instant
  | CAdvance duration
  | CNow
  | CGenRange nat nat

datatype reply = RUnit | RNat nat | RBool bool | RRef "nref option"

datatype poll_result = Finished | NotReady | Panicked string

datatype ('u, 'f, 'k) prog =
    Return poll_result
  | Update "'u \<Rightarrow> 'u" "('u, 'f, 'k) prog"
  | Read "'u \<Rightarrow> ('u, 'f, 'k) prog"
  | Call "('f, 'k) call" "reply \<Rightarrow> ('u, 'f, 'k) prog"

record ('a, 'g, 'tm, 'u, 'f, 'k, 's) env =
  rng :: "'g rng_ops"
  tmr :: "('tm, 'k callback) timer_ops"
  at_new :: "task_id \<Rightarrow> 'a \<Rightarrow> 'a"
  at_alive :: "'a \<Rightarrow> task_id \<Rightarrow> bool"
  at_sched :: "'a \<Rightarrow> task_id \<Rightarrow> bool"
  at_running :: "'a \<Rightarrow> task_id \<Rightarrow> bool"
  at_closed :: "'a \<Rightarrow> task_id \<Rightarrow> bool"
  at_has_output :: "'a \<Rightarrow> task_id \<Rightarrow> bool"
  at_finished :: "'a \<Rightarrow> task_id \<Rightarrow> bool"
  at_wake :: "task_id \<Rightarrow> 'a \<Rightarrow> bool \<times> 'a"
  at_cancel :: "task_id \<Rightarrow> 'a \<Rightarrow> bool \<times> 'a"
  at_begin :: "task_id \<Rightarrow> 'a \<Rightarrow> 'a"
  at_ran :: "task_id \<Rightarrow> poll_result \<Rightarrow> 'a \<Rightarrow> bool \<times> bool \<times> task_id list \<times> 'a"
  at_drop :: "task_id \<Rightarrow> 'a \<Rightarrow> task_id list \<times> 'a"
  w_spawn :: "task_id \<Rightarrow> 'f \<Rightarrow> 'u \<Rightarrow> 'u"
  w_poll :: "task_id \<Rightarrow> ('u, 'f, 'k) prog"
  w_drop :: "task_id \<Rightarrow> 'u \<Rightarrow> task_id list \<times> 'u"
  w_timer :: "'k \<Rightarrow> 'u \<Rightarrow> task_id list \<times> 'u"
  w_subscribe :: "nref \<Rightarrow> 'u \<Rightarrow> 'u"
  w_ctrl_c :: "nref \<Rightarrow> 'u \<Rightarrow> task_id list \<times> 'u"
  sims_create_node :: "node_id \<Rightarrow> ip_addr option \<Rightarrow> 's \<Rightarrow> unit answer \<times> 's"
  sims_reset_node :: "node_id \<Rightarrow> 's \<Rightarrow> unit answer \<times> 's"

text \<open>A computation that may panic and keeps the state it has reached when it does.\<close>

definition and_then :: "('r answer \<times> 'x) \<Rightarrow> ('r \<Rightarrow> 'x \<Rightarrow> 'q answer \<times> 'x) \<Rightarrow> 'q answer \<times> 'x" where
  "and_then m f = (case m of (Ok r, s) \<Rightarrow> f r s | (Err e, s) \<Rightarrow> (Err e, s) | (Panic p, s) \<Rightarrow> (Panic p, s))"

lemma and_then_simps [simp]:
  "and_then (Ok r, s) f = f r s" "and_then (Panic p, s) f = (Panic p, s)" "and_then (Err e, s) f = (Err e, s)"
  by (simp_all add: and_then_def)

lemma and_then_Ok_iff:
  "and_then m f = (Ok q, s') \<longleftrightarrow> (\<exists>r s. m = (Ok r, s) \<and> f r s = (Ok q, s'))"
  by (cases m; cases "fst m") (auto simp: and_then_def)

subsection \<open>Waking and dropping\<close>

definition upd_info :: "nref \<Rightarrow> (node_info \<Rightarrow> node_info) \<Rightarrow> ('a, 'g, 'tm, 'u, 'f, 's) exec
    \<Rightarrow> ('a, 'g, 'tm, 'u, 'f, 's) exec" where
  "upd_info n f s = s\<lparr>infos := (infos s)(n := f (infos s n))\<rparr>"

definition wake :: "('a, 'g, 'tm, 'u, 'f, 'k, 's) env \<Rightarrow> task_id \<Rightarrow> ('a, 'g, 'tm, 'u, 'f, 's) exec
    \<Rightarrow> ('a, 'g, 'tm, 'u, 'f, 's) exec" where
  "wake E t s =
     (let (b, a) = at_wake E t (tasks s)
      in s\<lparr>tasks := a, queue := (if b then push_ready t (queue s) else queue s)\<rparr>)"

text \<open>The waker in a \<open>TaskInfo\<close>; it is a no-op for the future of \<open>block_on\<close>.  \<open>Weak::upgrade\<close>
  succeeds as long as the future has not been dropped.\<close>

definition wake_info :: "('a, 'g, 'tm, 'u, 'f, 'k, 's) env \<Rightarrow> task_id \<Rightarrow> ('a, 'g, 'tm, 'u, 'f, 's) exec
    \<Rightarrow> ('a, 'g, 'tm, 'u, 'f, 's) exec" where
  "wake_info E t s =
     (if at_alive E (tasks s) t \<and> ti_has_waker (tinfos s t) then wake E t s else s)"

definition drop_runnable :: "('a, 'g, 'tm, 'u, 'f, 'k, 's) env \<Rightarrow> task_id \<Rightarrow> ('a, 'g, 'tm, 'u, 'f, 's) exec
    \<Rightarrow> ('a, 'g, 'tm, 'u, 'f, 's) exec" where
  "drop_runnable E t s =
     (let (aw, a) = at_drop E t (tasks s); (ws, u) = w_drop E t (user s)
      in fold (wake E) (ws @ aw) (s\<lparr>tasks := a, user := u\<rparr>))"

subsection \<open>\<open>NodeInfo\<close>\<close>

text \<open>\<open>NodeInfo::new_task\<close>.\<close>

definition new_task :: "nref \<Rightarrow> string option \<Rightarrow> string \<Rightarrow> bool \<Rightarrow> nref option \<Rightarrow> ('a, 'g, 'tm, 'u, 'f, 's) exec
    \<Rightarrow> task_id \<times> ('a, 'g, 'tm, 'u, 'f, 's) exec" where
  "new_task n name loc w ex s =
     (let t = next_task_id s
      in (t, upd_info n (\<lambda>i. i\<lparr>ni_tasks := ni_tasks i @ [t]\<rparr>)
           (s\<lparr>next_task_id := Suc t,
              tinfos := (tinfos s)(t := \<lparr>ti_name = name, ti_node = n, ti_location = loc,
                 ti_has_waker = w, ti_cancelled = False, ti_then_exit = ex\<rparr>)\<rparr>)))"

text \<open>\<open>NodeInfo::kill\<close>.\<close>

definition kill_info :: "('a, 'g, 'tm, 'u, 'f, 'k, 's) env \<Rightarrow> nref \<Rightarrow> ('a, 'g, 'tm, 'u, 'f, 's) exec
    \<Rightarrow> ('a, 'g, 'tm, 'u, 'f, 's) exec" where
  "kill_info E n s =
     fold (wake_info E) (ni_tasks (infos s n))
       (upd_info n (\<lambda>i. i\<lparr>ni_killed := True, ni_tasks := []\<rparr>) s)"

definition num_tasks_info :: "('a, 'g, 'tm, 'u, 'f, 'k, 's) env \<Rightarrow> nref \<Rightarrow> ('a, 'g, 'tm, 'u, 'f, 's) exec
    \<Rightarrow> nat \<times> ('a, 'g, 'tm, 'u, 'f, 's) exec" where
  "num_tasks_info E n s =
     (let ts = filter (at_alive E (tasks s)) (ni_tasks (infos s n))
      in (length ts, upd_info n (\<lambda>i. i\<lparr>ni_tasks := ts\<rparr>) s))"

text \<open>\<open>NodeInfo::ctrl_c\<close>: the handler is installed and a receiver subscribed.\<close>

definition ctrl_c :: "('a, 'g, 'tm, 'u, 'f, 'k, 's) env \<Rightarrow> nref \<Rightarrow> ('a, 'g, 'tm, 'u, 'f, 's) exec
    \<Rightarrow> ('a, 'g, 'tm, 'u, 'f, 's) exec" where
  "ctrl_c E n s = (upd_info n (\<lambda>i. i\<lparr>ni_ctrl_c := True\<rparr>) s)\<lparr>user := w_subscribe E n (user s)\<rparr>"

subsection \<open>\<open>Spawner\<close>\<close>

text \<open>\<open>Spawner::spawn_inner\<close>: the runnable is scheduled at once, on a killed node too.\<close>

definition spawn_inner :: "('a, 'g, 'tm, 'u, 'f, 'k, 's) env \<Rightarrow> nref \<Rightarrow> string option \<Rightarrow> string
    \<Rightarrow> nref option \<Rightarrow> 'f \<Rightarrow> ('a, 'g, 'tm, 'u, 'f, 's) exec \<Rightarrow> task_id \<times> ('a, 'g, 'tm, 'u, 'f, 's) exec" where
  "spawn_inner E n name loc ex f s =
     (let (t, s) = new_task n name loc True ex s
      in (t, s\<lparr>tasks := at_new E t (tasks s), user := w_spawn E t f (user s),
               queue := push_ready t (queue s)\<rparr>))"

text \<open>\<open>Spawner::exit\<close>; the waiting list of a paused node stays as it is.\<close>

definition exit :: "('a, 'g, 'tm, 'u, 'f, 'k, 's) env \<Rightarrow> nref \<Rightarrow> ('a, 'g, 'tm, 'u, 'f, 's) exec
    \<Rightarrow> ('a, 'g, 'tm, 'u, 'f, 's) exec" where
  "exit E n s = kill_info E n s"

text \<open>The closure made by \<open>NodeBuilder::init\<close>: it spawns the future, followed by \<open>exit\<close>.\<close>

definition run_init :: "('a, 'g, 'tm, 'u, 'f, 'k, 's) env \<Rightarrow> 'f option \<Rightarrow> nref \<Rightarrow> ('a, 'g, 'tm, 'u, 'f, 's) exec
    \<Rightarrow> ('a, 'g, 'tm, 'u, 'f, 's) exec" where
  "run_init E init n s =
     (case init of None \<Rightarrow> s | Some f \<Rightarrow> snd (spawn_inner E n None ''init'' (Some n) f s))"

subsection \<open>\<open>AbortHandle\<close>\<close>

definition abort :: "('a, 'g, 'tm, 'u, 'f, 'k, 's) env \<Rightarrow> task_id \<Rightarrow> ('a, 'g, 'tm, 'u, 'f, 's) exec
    \<Rightarrow> ('a, 'g, 'tm, 'u, 'f, 's) exec" where
  "abort E t s =
     (if at_alive E (tasks s) t
      then wake_info E t (s\<lparr>tinfos := (tinfos s)(t := (tinfos s t)\<lparr>ti_cancelled := True\<rparr>)\<rparr>)
      else s)"

definition abort_is_finished :: "('a, 'g, 'tm, 'u, 'f, 'k, 's) env \<Rightarrow> task_id \<Rightarrow> ('a, 'g, 'tm, 'u, 'f, 's) exec \<Rightarrow> bool" where
  "abort_is_finished E t s = (if at_alive E (tasks s) t then ti_cancelled (tinfos s t) else True)"

text \<open>Dropping the handle of \<open>cancel_on_drop\<close>.\<close>

definition cancel :: "('a, 'g, 'tm, 'u, 'f, 'k, 's) env \<Rightarrow> task_id \<Rightarrow> ('a, 'g, 'tm, 'u, 'f, 's) exec
    \<Rightarrow> ('a, 'g, 'tm, 'u, 'f, 's) exec" where
  "cancel E t s =
     (let (b, a) = at_cancel E t (tasks s)
      in s\<lparr>tasks := a, queue := (if b then push_ready t (queue s) else queue s)\<rparr>)"

subsection \<open>\<open>TaskHandle\<close>\<close>

text \<open>\<open>TaskHandle::kill_id\<close>: the runnables of the waiting list are dropped, the tasks woken (the
  loop will drop them), the simulators reset.\<close>

definition kill_id :: "('a, 'g, 'tm, 'u, 'f, 'k, 's) env \<Rightarrow> node_id \<Rightarrow> ('a, 'g, 'tm, 'u, 'f, 's) exec \<Rightarrow> unit answer \<times> ('a, 'g, 'tm, 'u, 'f, 's) exec" where
  "kill_id E i s =
     (case ex_nodes s i of
        None \<Rightarrow> (Panic ''node not found'', s)
      | Some nd \<Rightarrow>
          (let s = fold (drop_runnable E) (n_paused nd) (s\<lparr>ex_nodes := (ex_nodes s)(i \<mapsto> nd\<lparr>n_paused := []\<rparr>)\<rparr>);
               s = kill_info E (n_info nd) s;
               (r, x) = sims_reset_node E i (sims s)
           in (r, s\<lparr>sims := x\<rparr>)))"

text \<open>\<open>TaskHandle::restart\<close>: a new \<open>NodeInfo\<close> with the old one's configuration; the old one is killed,
  and the initial task is spawned on the new one.\<close>

definition restart :: "('a, 'g, 'tm, 'u, 'f, 'k, 's) env \<Rightarrow> node_id \<Rightarrow> ('a, 'g, 'tm, 'u, 'f, 's) exec \<Rightarrow> unit answer \<times> ('a, 'g, 'tm, 'u, 'f, 's) exec" where
  "restart E i s =
     (case ex_nodes s i of
        None \<Rightarrow> (Panic ''node not found'', s)
      | Some nd \<Rightarrow>
          (let old = n_info nd; new = next_ref s; oi = infos s old;
               s = s\<lparr>infos := (infos s)(new := \<lparr>ni_id = i, ni_name = ni_name oi, ni_cores = ni_cores oi,
                       ni_restart_on_panic = ni_restart_on_panic oi,
                       ni_restart_on_panic_matching = ni_restart_on_panic_matching oi,
                       ni_paused = False, ni_killed = False, ni_tasks = [], ni_ctrl_c = False\<rparr>),
                     next_ref := Suc new,
                     ex_nodes := (ex_nodes s)(i \<mapsto> nd\<lparr>n_info := new, n_paused := []\<rparr>)\<rparr>;
               s = fold (drop_runnable E) (n_paused nd) s;
               s = kill_info E old s
           in (Ok (), run_init E (n_init nd) new s)))"

definition pause :: "node_id \<Rightarrow> ('a, 'g, 'tm, 'u, 'f, 's) exec \<Rightarrow> unit answer \<times> ('a, 'g, 'tm, 'u, 'f, 's) exec" where
  "pause i s =
     (case ex_nodes s i of
        None \<Rightarrow> (Panic ''node not found'', s)
      | Some nd \<Rightarrow> (Ok (), upd_info (n_info nd) (\<lambda>ni. ni\<lparr>ni_paused := True\<rparr>) s))"

definition resume :: "node_id \<Rightarrow> ('a, 'g, 'tm, 'u, 'f, 's) exec \<Rightarrow> unit answer \<times> ('a, 'g, 'tm, 'u, 'f, 's) exec" where
  "resume i s =
     (case ex_nodes s i of
        None \<Rightarrow> (Panic ''node not found'', s)
      | Some nd \<Rightarrow>
          (let s = upd_info (n_info nd) (\<lambda>ni. ni\<lparr>ni_paused := False\<rparr>) s
           in (Ok (), s\<lparr>ex_nodes := (ex_nodes s)(i \<mapsto> nd\<lparr>n_paused := []\<rparr>),
                        queue := fold push_ready (n_paused nd) (queue s)\<rparr>)))"

definition send_ctrl_c :: "('a, 'g, 'tm, 'u, 'f, 'k, 's) env \<Rightarrow> node_id \<Rightarrow> ('a, 'g, 'tm, 'u, 'f, 's) exec \<Rightarrow> unit answer \<times> ('a, 'g, 'tm, 'u, 'f, 's) exec" where
  "send_ctrl_c E i s =
     (case ex_nodes s i of
        None \<Rightarrow> (Panic ''node not found'', s)
      | Some nd \<Rightarrow>
          if ni_ctrl_c (infos s (n_info nd))
          then (let (ws, u) = w_ctrl_c E (n_info nd) (user s) in (Ok (), fold (wake E) ws (s\<lparr>user := u\<rparr>)))
          else kill_id E i s)"

definition is_exit :: "node_id \<Rightarrow> ('a, 'g, 'tm, 'u, 'f, 's) exec \<Rightarrow> bool answer" where
  "is_exit i s =
     (case ex_nodes s i of
        None \<Rightarrow> Panic ''node not found''
      | Some nd \<Rightarrow> Ok (ni_killed (infos s (n_info nd))))"

text \<open>\<open>TaskHandle::create_node\<close>: the answer is the id and the \<open>NodeInfo\<close> of the new \<open>Spawner\<close>.\<close>

definition create_node :: "('a, 'g, 'tm, 'u, 'f, 'k, 's) env \<Rightarrow> 'f node_builder \<Rightarrow> ('a, 'g, 'tm, 'u, 'f, 's) exec \<Rightarrow> (node_id \<times> nref) \<times> ('a, 'g, 'tm, 'u, 'f, 's) exec" where
  "create_node E b s =
     (let i = next_node_id s; n = next_ref s;
          s = s\<lparr>next_node_id := Suc i, next_ref := Suc n,
                infos := (infos s)(n := \<lparr>ni_id = i, ni_name = b_name b,
                  ni_cores = (case b_cores b of Some c \<Rightarrow> c | None \<Rightarrow> 1),
                  ni_restart_on_panic = b_restart_on_panic b,
                  ni_restart_on_panic_matching = b_restart_on_panic_matching b,
                  ni_paused = False, ni_killed = False, ni_tasks = [], ni_ctrl_c = False\<rparr>)\<rparr>;
          s = run_init E (b_init b) n s
      in ((i, n), s\<lparr>ex_nodes := (ex_nodes s)(i \<mapsto> \<lparr>n_info = n, n_paused = [], n_init = b_init b\<rparr>)\<rparr>))"

text \<open>\<open>NodeBuilder::build\<close>: the executor's part, then the simulators'.\<close>

definition build :: "('a, 'g, 'tm, 'u, 'f, 'k, 's) env \<Rightarrow> 'f node_builder \<Rightarrow> ('a, 'g, 'tm, 'u, 'f, 's) exec \<Rightarrow> (node_id \<times> nref) answer \<times> ('a, 'g, 'tm, 'u, 'f, 's) exec" where
  "build E b s =
     (let ((i, n), s) = create_node E b s;
          (r, x) = sims_create_node E i (b_ip b) (sims s)
      in (bind_res r (\<lambda>_. Ok (i, n)), s\<lparr>sims := x\<rparr>))"

definition get_node :: "node_id \<Rightarrow> ('a, 'g, 'tm, 'u, 'f, 's) exec \<Rightarrow> nref option" where
  "get_node i s = (if i = 0 then Some (main_info s) else map_option n_info (ex_nodes s i))"

text \<open>The ids in use are those below the counter.\<close>

definition num_tasks :: "('a, 'g, 'tm, 'u, 'f, 'k, 's) env \<Rightarrow> ('a, 'g, 'tm, 'u, 'f, 's) exec \<Rightarrow> nat \<times> ('a, 'g, 'tm, 'u, 'f, 's) exec" where
  "num_tasks E s =
     fold (\<lambda>i (k, s). case ex_nodes s i of
              None \<Rightarrow> (k, s)
            | Some nd \<Rightarrow> (let (m, s') = num_tasks_info E (n_info nd) s in (k + m, s')))
       [0..<next_node_id s] (0, s)"

text \<open>\<open>ToNodeId for &str\<close>: the first node with the name, in the iteration order \<open>keys\<close> of the hash map.\<close>

definition to_node_id :: "node_id list \<Rightarrow> string \<Rightarrow> ('a, 'g, 'tm, 'u, 'f, 's) exec \<Rightarrow> node_id answer" where
  "to_node_id keys name s =
     (case find (\<lambda>i. case ex_nodes s i of Some nd \<Rightarrow> ni_name (infos s (n_info nd)) = Some name | None \<Rightarrow> False) keys of
        Some i \<Rightarrow> Ok i
      | None \<Rightarrow> Panic ''node not found'')"

subsection \<open>Time and randomness of the executor\<close>

definition run_callback :: "('a, 'g, 'tm, 'u, 'f, 'k, 's) env \<Rightarrow> 'k callback \<Rightarrow> ('a, 'g, 'tm, 'u, 'f, 's) exec \<Rightarrow> unit answer \<times> ('a, 'g, 'tm, 'u, 'f, 's) exec" where
  "run_callback E cb s =
     (case cb of
        WakeTask t \<Rightarrow> (Ok (), wake E t s)
      | RestartNode i \<Rightarrow> restart E i s
      | UserCallback k \<Rightarrow> (let (ws, u) = w_timer E k (user s) in (Ok (), fold (wake E) ws (s\<lparr>user := u\<rparr>))))"

primrec run_callbacks :: "('a, 'g, 'tm, 'u, 'f, 'k, 's) env \<Rightarrow> 'k callback list \<Rightarrow> ('a, 'g, 'tm, 'u, 'f, 's) exec \<Rightarrow> unit answer \<times> ('a, 'g, 'tm, 'u, 'f, 's) exec" where
  "run_callbacks E [] s = (Ok (), s)"
| "run_callbacks E (c # cs) s = and_then (run_callback E c s) (\<lambda>_. run_callbacks E cs)"

definition advance_time :: "('a, 'g, 'tm, 'u, 'f, 'k, 's) env \<Rightarrow> duration \<Rightarrow> ('a, 'g, 'tm, 'u, 'f, 's) exec \<Rightarrow> unit answer \<times> ('a, 'g, 'tm, 'u, 'f, 's) exec" where
  "advance_time E d s =
     (let (cbs, h) = time_advance (tmr E) d (ex_time s) in run_callbacks E cbs (s\<lparr>ex_time := h\<rparr>))"

text \<open>A draw through \<open>GlobalRng::with\<close>; a failed determinism check has advanced the generator.\<close>

definition draw_range :: "('a, 'g, 'tm, 'u, 'f, 'k, 's) env \<Rightarrow> nat \<Rightarrow> nat \<Rightarrow> ('a, 'g, 'tm, 'u, 'f, 's) exec \<Rightarrow> nat answer \<times> ('a, 'g, 'tm, 'u, 'f, 's) exec" where
  "draw_range E lo hi s =
     (if hi \<le> lo then (Panic ''cannot sample empty range'', s)
      else case rng_with (rng E) (Some (elapsed (clock (ex_time s)))) (gen_range (rng E) lo hi) (ex_rand s) of
        Ok (n, r) \<Rightarrow> (Ok n, s\<lparr>ex_rand := r\<rparr>)
      | Err e \<Rightarrow> (Err e, s)
      | Panic m \<Rightarrow> (Panic m, s\<lparr>ex_rand := (ex_rand s)
           \<lparr>rng_state := snd (gen_range (rng E) lo hi (rng_state (ex_rand s)))\<rparr>\<rparr>))"

subsection \<open>A call of user code on the runtime\<close>

text \<open>User code holds only the \<open>Spawner\<close>s it was given, so the panic for an unknown one is never met;
  \<open>CSleep\<close> is a poll of \<open>Sleep\<close>.\<close>

definition exec_call :: "('a, 'g, 'tm, 'u, 'f, 'k, 's) env \<Rightarrow> task_id \<Rightarrow> ('f, 'k) call \<Rightarrow> ('a, 'g, 'tm, 'u, 'f, 's) exec \<Rightarrow> reply answer \<times> ('a, 'g, 'tm, 'u, 'f, 's) exec" where
  "exec_call E cur c s =
     (case c of
        CSpawn n name loc f \<Rightarrow>
          if next_ref s \<le> n then (Panic ''no such spawner'', s)
          else (let (t, s) = spawn_inner E n name loc None f s in (Ok (RNat t), s))
      | CCurrentSpawner \<Rightarrow> (Ok (RRef (Some (ti_node (tinfos s cur)))), s)
      | CWake t \<Rightarrow> (Ok RUnit, wake E t s)
      | CCancel t \<Rightarrow> (Ok RUnit, cancel E t s)
      | CAbort t \<Rightarrow> (Ok RUnit, abort E t s)
      | CAbortFinished t \<Rightarrow> (Ok (RBool (abort_is_finished E t s)), s)
      | CKill i \<Rightarrow> and_then (kill_id E i s) (\<lambda>_ s. (Ok RUnit, s))
      | CRestart i \<Rightarrow> and_then (restart E i s) (\<lambda>_ s. (Ok RUnit, s))
      | CPause i \<Rightarrow> and_then (pause i s) (\<lambda>_ s. (Ok RUnit, s))
      | CResume i \<Rightarrow> and_then (resume i s) (\<lambda>_ s. (Ok RUnit, s))
      | CSendCtrlC i \<Rightarrow> and_then (send_ctrl_c E i s) (\<lambda>_ s. (Ok RUnit, s))
      | CCtrlC \<Rightarrow> (Ok RUnit, ctrl_c E (ti_node (tinfos s cur)) s)
      | CIsExit i \<Rightarrow> (bind_res (is_exit i s) (\<lambda>b. Ok (RBool b)), s)
      | CCreateNode b \<Rightarrow> and_then (build E b s) (\<lambda>(i, n) s. (Ok (RRef (Some n)), s))
      | CGetNode i \<Rightarrow> (Ok (RRef (get_node i s)), s)
      | CNumTasks \<Rightarrow> (let (k, s) = num_tasks E s in (Ok (RNat k), s))
      | CExit n \<Rightarrow> if next_ref s \<le> n then (Panic ''no such spawner'', s) else (Ok RUnit, exit E n s)
      | CAddTimer d k \<Rightarrow> (Ok RUnit, s\<lparr>ex_time := add_timer (tmr E) d (UserCallback k) (ex_time s)\<rparr>)
      | CSleep d \<Rightarrow>
          (let (r, h) = sleep_poll (tmr E) (WakeTask cur) \<lparr>deadline = d\<rparr> (ex_time s)
           in (Ok (RBool (r = Ready ())), s\<lparr>ex_time := h\<rparr>))
      | CAdvance d \<Rightarrow> and_then (advance_time E d s) (\<lambda>_ s. (Ok RUnit, s))
      | CNow \<Rightarrow> (Ok (RNat (now_instant (clock (ex_time s)))), s)
      | CGenRange lo hi \<Rightarrow> and_then (draw_range E lo hi s) (\<lambda>n s. (Ok (RNat n), s)))"

text \<open>A panic of the runtime unwinds through the user's code.\<close>

primrec run_prog :: "('a, 'g, 'tm, 'u, 'f, 'k, 's) env \<Rightarrow> task_id \<Rightarrow> ('u, 'f, 'k) prog \<Rightarrow> ('a, 'g, 'tm, 'u, 'f, 's) exec \<Rightarrow> poll_result \<times> ('a, 'g, 'tm, 'u, 'f, 's) exec" where
  "run_prog E cur (Return r) = (\<lambda>s. (r, s))"
| "run_prog E cur (Update f p) = (\<lambda>s. run_prog E cur p (s\<lparr>user := f (user s)\<rparr>))"
| "run_prog E cur (Read p) = (\<lambda>s. run_prog E cur (p (user s)) s)"
| "run_prog E cur (Call c p) = (\<lambda>s.
     case exec_call E cur c s of
       (Ok r, s') \<Rightarrow> run_prog E cur (p r) s'
     | (Err e, s') \<Rightarrow> (Panicked ''error'', s')
     | (Panic m, s') \<Rightarrow> (Panicked m, s'))"

subsection \<open>The scheduling loop\<close>

text \<open>
  \<open>Runnable::run\<close> of the crate: a cancelled task is dropped; otherwise the future is polled.  The
  future of a node's initial task calls \<open>exit\<close> when the user's part has finished.
\<close>

definition poll_task :: "('a, 'g, 'tm, 'u, 'f, 'k, 's) env \<Rightarrow> task_id \<Rightarrow> ('a, 'g, 'tm, 'u, 'f, 's) exec \<Rightarrow> poll_result \<times> ('a, 'g, 'tm, 'u, 'f, 's) exec" where
  "poll_task E t s =
     (let (r, s) = run_prog E t (w_poll E t) s
      in case ti_then_exit (tinfos s t) of
           Some n \<Rightarrow> (r, if r = Finished then exit E n s else s)
         | None \<Rightarrow> (r, s))"

definition end_poll :: "('a, 'g, 'tm, 'u, 'f, 'k, 's) env \<Rightarrow> task_id \<Rightarrow> poll_result \<Rightarrow> ('a, 'g, 'tm, 'u, 'f, 's) exec \<Rightarrow> ('a, 'g, 'tm, 'u, 'f, 's) exec" where
  "end_poll E t r s =
     (let (resched, dropped, aw, a) = at_ran E t r (tasks s);
          (ws, u) = (if dropped then w_drop E t (user s) else ([], user s));
          s = s\<lparr>tasks := a, user := u, queue := (if resched then push_ready t (queue s) else queue s)\<rparr>
      in fold (wake E) (ws @ aw) s)"

definition run_task :: "('a, 'g, 'tm, 'u, 'f, 'k, 's) env \<Rightarrow> task_id \<Rightarrow> ('a, 'g, 'tm, 'u, 'f, 's) exec \<Rightarrow> unit answer \<times> ('a, 'g, 'tm, 'u, 'f, 's) exec" where
  "run_task E t s =
     (if at_closed E (tasks s) t then (Ok (), drop_runnable E t s)
      else
        (let (r, s) = poll_task E t (s\<lparr>tasks := at_begin E t (tasks s), polled := polled s @ [t]\<rparr>);
             s = end_poll E t r s
         in case r of Panicked m \<Rightarrow> (Panic m, s) | _ \<Rightarrow> (Ok (), s)))"

text \<open>The panic of a task: restart the node after 1 to 10 seconds, or let it pass.\<close>

definition on_panic :: "('a, 'g, 'tm, 'u, 'f, 'k, 's) env \<Rightarrow> nref \<Rightarrow> string \<Rightarrow> ('a, 'g, 'tm, 'u, 'f, 's) exec \<Rightarrow> unit answer \<times> ('a, 'g, 'tm, 'u, 'f, 's) exec" where
  "on_panic E n m s =
     (let ni = infos s n in
      if ni_restart_on_panic ni \<or> list_ex (\<lambda>p. sublist p m) (ni_restart_on_panic_matching ni)
      then and_then (draw_range E nanos_per_sec (10 * nanos_per_sec) s) (\<lambda>delay s.
           and_then (kill_id E (ni_id ni) s) (\<lambda>_ s.
             (Ok (), s\<lparr>ex_time := add_timer (tmr E) delay (RestartNode (ni_id ni)) (ex_time s)\<rparr>)))
      else (Panic m, s))"

definition tick :: "('a, 'g, 'tm, 'u, 'f, 'k, 's) env \<Rightarrow> ('a, 'g, 'tm, 'u, 'f, 's) exec \<Rightarrow> unit answer \<times> ('a, 'g, 'tm, 'u, 'f, 's) exec" where
  "tick E s = and_then (draw_range E 50 100 s) (\<lambda>d. advance_time E d)"

text \<open>One runnable taken from the ready queue.\<close>

definition run_runnable :: "('a, 'g, 'tm, 'u, 'f, 'k, 's) env \<Rightarrow> task_id \<Rightarrow> ('a, 'g, 'tm, 'u, 'f, 's) exec \<Rightarrow> unit answer \<times> ('a, 'g, 'tm, 'u, 'f, 's) exec" where
  "run_runnable E t s =
     (if \<not> at_alive E (tasks s) t then (Ok (), s)
      else
        (let n = ti_node (tinfos s t); ni = infos s n in
         if ti_cancelled (tinfos s t) \<or> ni_killed ni then tick E (drop_runnable E t s)
         else if ni_paused ni then
           (case ex_nodes s (ni_id ni) of
              None \<Rightarrow> (Panic ''called Option::unwrap() on a None value'', drop_runnable E t s)
            | Some nd \<Rightarrow> (Ok (), s\<lparr>ex_nodes := (ex_nodes s)(ni_id ni \<mapsto> nd\<lparr>n_paused := n_paused nd @ [t]\<rparr>)\<rparr>))
         else
           (case run_task E t s of
              (Panic m, s) \<Rightarrow> and_then (on_panic E n m s) (\<lambda>_. tick E)
            | (r, s) \<Rightarrow> tick E s)))"

text \<open>An iteration of the \<open>while let\<close> of \<open>run_all_ready\<close>, on a queue that is not empty.\<close>

definition run_one :: "('a, 'g, 'tm, 'u, 'f, 'k, 's) env \<Rightarrow> ('a, 'g, 'tm, 'u, 'f, 's) exec \<Rightarrow> unit answer \<times> ('a, 'g, 'tm, 'u, 'f, 's) exec" where
  "run_one E s =
     and_then (draw_range E 0 (length (queue s)) s) (\<lambda>idx s.
       case try_recv_random 0 idx (queue s) of
         Ok (t, q) \<Rightarrow> run_runnable E t (s\<lparr>queue := q\<rparr>)
       | _ \<Rightarrow> (Ok (), s))"

text \<open>
  The loop need not end: tasks may wake each other for ever.  \<open>None\<close> is the result when the fuel
  does not suffice.
\<close>

primrec run_all_ready :: "('a, 'g, 'tm, 'u, 'f, 'k, 's) env \<Rightarrow> nat \<Rightarrow> ('a, 'g, 'tm, 'u, 'f, 's) exec \<Rightarrow> (unit answer \<times> ('a, 'g, 'tm, 'u, 'f, 's) exec) option" where
  "run_all_ready E 0 s = None"
| "run_all_ready E (Suc k) s =
     (if queue s = [] then Some (Ok (), s)
      else case run_one E s of
             (Ok _, s) \<Rightarrow> run_all_ready E k s
           | (r, s) \<Rightarrow> Some (r, s))"

text \<open>The loop of \<open>block_on\<close> for the main task \<open>t\<close>.\<close>

primrec block_loop :: "('a, 'g, 'tm, 'u, 'f, 'k, 's) env \<Rightarrow> bool \<Rightarrow> task_id \<Rightarrow> nat \<Rightarrow> ('a, 'g, 'tm, 'u, 'f, 's) exec \<Rightarrow> (unit answer \<times> ('a, 'g, 'tm, 'u, 'f, 's) exec) option" where
  "block_loop E allow t 0 s = None"
| "block_loop E allow t (Suc k) s =
     (case run_all_ready E k s of
        None \<Rightarrow> None
      | Some (Ok _, s) \<Rightarrow>
          if at_finished E (tasks s) t
          then Some (if at_has_output E (tasks s) t then Ok ()
                     else Panic ''called Option::unwrap() on a None value'', s)
          else
            (let (going, cbs, h) = advance_to_next_event (tmr E) (ex_time s) in
             case run_callbacks E cbs (s\<lparr>ex_time := h\<rparr>) of
               (Ok _, s) \<Rightarrow>
                 if \<not> going \<and> \<not> allow then Some (Panic ''no events, all tasks will block forever'', s)
                 else (case time_limit s of
                         Some l \<Rightarrow> if elapsed (clock (ex_time s)) < l then block_loop E allow t k s
                                   else Some (Panic ''time limit exceeded'', s)
                       | None \<Rightarrow> block_loop E allow t k s)
             | (r, s) \<Rightarrow> Some (r, s))
      | Some (r, s) \<Rightarrow> Some (r, s))"

definition block_on :: "('a, 'g, 'tm, 'u, 'f, 'k, 's) env \<Rightarrow> bool \<Rightarrow> nat \<Rightarrow> 'f \<Rightarrow> ('a, 'g, 'tm, 'u, 'f, 's) exec \<Rightarrow> (unit answer \<times> ('a, 'g, 'tm, 'u, 'f, 's) exec) option" where
  "block_on E allow fuel f s =
     (let (t, s) = new_task (main_info s) None ''block_on'' False None s
      in block_loop E allow t fuel
           (s\<lparr>tasks := at_new E t (tasks s), user := w_spawn E t f (user s), queue := push_ready t (queue s)\<rparr>))"

text \<open>\<open>Executor::new\<close>.\<close>

definition executor_new :: "('a, 'g, 'tm, 'u, 'f, 'k, 's) env \<Rightarrow> 'a \<Rightarrow> 'u \<Rightarrow> 's \<Rightarrow> 'g rng_inner \<Rightarrow> ('a, 'g, 'tm, 'u, 'f, 's) exec answer" where
  "executor_new E a u x r =
     bind_res (time_runtime_new (rng E) (tmr E) r) (\<lambda>(h, r). Ok
       \<lparr>queue = channel, ex_nodes = Map.empty, next_node_id = 1,
        infos = (\<lambda>_. \<lparr>ni_id = 0, ni_name = Some ''madsim-main'', ni_cores = 1, ni_restart_on_panic = False,
          ni_restart_on_panic_matching = [], ni_paused = False, ni_killed = False, ni_tasks = [], ni_ctrl_c = False\<rparr>),
        next_ref = 1, main_info = 0,
        tinfos = (\<lambda>_. \<lparr>ti_name = None, ti_node = 0, ti_location = [], ti_has_waker = False,
          ti_cancelled = False, ti_then_exit = None\<rparr>), next_task_id = 0,
        ex_rand = r, ex_time = h, time_limit = None, sims = x, tasks = a, user = u, polled = []\<rparr>)"

definition set_time_limit :: "duration \<Rightarrow> ('a, 'g, 'tm, 'u, 'f, 's) exec \<Rightarrow> ('a, 'g, 'tm, 'u, 'f, 's) exec" where
  "set_time_limit l s = s\<lparr>time_limit := Some l\<rparr>"

end
