(* ===== verification/TaskInv.thy ===== *)
theory TaskInv
  imports Task
begin

section \<open>The invariant of the executor\<close>

text \<open>
  What the executor relies on of the crate \<open>async_task\<close> (\<open>at_ok\<close>), the invariant \<open>exec_inv\<close> of its
  state, the relation \<open>grows\<close> between a state and a later one, and that every operation keeps the
  invariant and only grows the state.
\<close>

subsection \<open>The contract of \<open>async_task\<close>\<close>

text \<open>
  A task has the bits \<open>SCHEDULED\<close> (a \<open>Runnable\<close> exists or will exist after the current run),
  \<open>RUNNING\<close> and \<open>CLOSED\<close>; its future is alive until it finishes, panics, or is dropped.
    \<^item> a new task is alive and scheduled;
    \<^item> waking schedules an alive task that is idle (and only then calls the schedule closure),
      and marks a running one to be scheduled again;
    \<^item> cancelling closes the task and schedules it when idle;
    \<^item> a run clears \<open>SCHEDULED\<close>; at its end the future is dropped if it is finished, has panicked or
      is closed, otherwise the task is scheduled again iff it was woken meanwhile;
    \<^item> dropping the \<open>Runnable\<close> drops the future.
  No operation touches another task's bits.
\<close>

definition at_same :: "('a, 'g, 'tm, 'u, 'f, 'k, 's) env \<Rightarrow> 'a \<Rightarrow> 'a \<Rightarrow> task_id \<Rightarrow> bool" where
  "at_same E a a' u \<longleftrightarrow> at_alive E a' u = at_alive E a u \<and> at_sched E a' u = at_sched E a u \<and>
     at_running E a' u = at_running E a u \<and> at_closed E a' u = at_closed E a u"

definition at_new_law :: "('a, 'g, 'tm, 'u, 'f, 'k, 's) env \<Rightarrow> task_id \<Rightarrow> 'a \<Rightarrow> 'a \<Rightarrow> bool" where
  "at_new_law E t a a' \<longleftrightarrow> (\<forall>u. u \<noteq> t \<longrightarrow> at_same E a a' u) \<and>
     at_alive E a' t \<and> at_sched E a' t \<and> \<not> at_running E a' t \<and> \<not> at_closed E a' t"

definition at_wake_law :: "('a, 'g, 'tm, 'u, 'f, 'k, 's) env \<Rightarrow> task_id \<Rightarrow> 'a \<Rightarrow> bool \<times> 'a \<Rightarrow> bool" where
  "at_wake_law E t a r \<longleftrightarrow> (case r of (b, a') \<Rightarrow>
     (\<forall>u. u \<noteq> t \<longrightarrow> at_same E a a' u) \<and> at_alive E a' t = at_alive E a t \<and>
     at_running E a' t = at_running E a t \<and> at_closed E a' t = at_closed E a t \<and>
     (at_sched E a' t \<longleftrightarrow> at_sched E a t \<or> (at_alive E a t \<and> \<not> at_closed E a t)) \<and>
     (b \<longleftrightarrow> at_alive E a t \<and> \<not> at_sched E a t \<and> \<not> at_running E a t \<and> \<not> at_closed E a t))"

definition at_cancel_law :: "('a, 'g, 'tm, 'u, 'f, 'k, 's) env \<Rightarrow> task_id \<Rightarrow> 'a \<Rightarrow> bool \<times> 'a \<Rightarrow> bool" where
  "at_cancel_law E t a r \<longleftrightarrow> (case r of (b, a') \<Rightarrow>
     (\<forall>u. u \<noteq> t \<longrightarrow> at_same E a a' u) \<and> at_alive E a' t = at_alive E a t \<and>
     at_running E a' t = at_running E a t \<and> (at_alive E a t \<longrightarrow> at_closed E a' t) \<and>
     (at_sched E a' t \<longleftrightarrow> at_sched E a t \<or> b) \<and>
     (b \<longleftrightarrow> at_alive E a t \<and> \<not> at_sched E a t \<and> \<not> at_running E a t))"

definition at_begin_law :: "('a, 'g, 'tm, 'u, 'f, 'k, 's) env \<Rightarrow> task_id \<Rightarrow> 'a \<Rightarrow> 'a \<Rightarrow> bool" where
  "at_begin_law E t a a' \<longleftrightarrow> (\<forall>u. u \<noteq> t \<longrightarrow> at_same E a a' u) \<and> at_alive E a' t = at_alive E a t \<and>
     at_running E a' t \<and> \<not> at_sched E a' t \<and> at_closed E a' t = at_closed E a t"

definition at_ran_law :: "('a, 'g, 'tm, 'u, 'f, 'k, 's) env \<Rightarrow> task_id \<Rightarrow> poll_result \<Rightarrow> 'a \<Rightarrow> bool \<times> bool \<times> task_id list \<times> 'a \<Rightarrow> bool" where
  "at_ran_law E t r a x \<longleftrightarrow> (case x of (resched, dropped, aw, a') \<Rightarrow>
     (\<forall>u. u \<noteq> t \<longrightarrow> at_same E a a' u) \<and> \<not> at_running E a' t \<and>
     (dropped \<longleftrightarrow> r \<noteq> NotReady \<or> at_closed E a t) \<and>
     (at_alive E a' t \<longleftrightarrow> at_alive E a t \<and> \<not> dropped) \<and>
     (resched \<longleftrightarrow> \<not> dropped \<and> at_sched E a t) \<and>
     (\<not> dropped \<longrightarrow> at_sched E a' t = at_sched E a t \<and> at_closed E a' t = at_closed E a t))"

definition at_drop_law :: "('a, 'g, 'tm, 'u, 'f, 'k, 's) env \<Rightarrow> task_id \<Rightarrow> 'a \<Rightarrow> task_id list \<times> 'a \<Rightarrow> bool" where
  "at_drop_law E t a r \<longleftrightarrow> (case r of (aw, a') \<Rightarrow>
     (\<forall>u. u \<noteq> t \<longrightarrow> at_same E a a' u) \<and> \<not> at_alive E a' t \<and> at_running E a' t = at_running E a t)"

definition at_ok :: "('a, 'g, 'tm, 'u, 'f, 'k, 's) env \<Rightarrow> bool" where
  "at_ok E \<longleftrightarrow>
     (\<forall>t a. at_new_law E t a (at_new E t a)) \<and> (\<forall>t a. at_wake_law E t a (at_wake E t a)) \<and>
     (\<forall>t a. at_cancel_law E t a (at_cancel E t a)) \<and> (\<forall>t a. at_begin_law E t a (at_begin E t a)) \<and>
     (\<forall>t r a. at_ran_law E t r a (at_ran E t r a)) \<and> (\<forall>t a. at_drop_law E t a (at_drop E t a))"

lemma at_okD:
  assumes "at_ok E"
  shows "at_new_law E t a (at_new E t a)" "at_wake_law E t a (at_wake E t a)"
    "at_cancel_law E t a (at_cancel E t a)" "at_begin_law E t a (at_begin E t a)"
    "at_ran_law E t r a (at_ran E t r a)" "at_drop_law E t a (at_drop E t a)"
  using assms by (simp_all add: at_ok_def)

lemmas at_laws = at_new_law_def at_wake_law_def at_cancel_law_def at_begin_law_def at_ran_law_def
  at_drop_law_def

subsection \<open>The invariant\<close>

abbreviation alive :: "('a, 'g, 'tm, 'u, 'f, 'k, 's) env \<Rightarrow> ('a, 'g, 'tm, 'u, 'f, 's) exec \<Rightarrow> task_id \<Rightarrow> bool" where
  "alive E s t \<equiv> at_alive E (tasks s) t"

abbreviation node_of :: "('a, 'g, 'tm, 'u, 'f, 's) exec \<Rightarrow> task_id \<Rightarrow> nref" where
  "node_of s t \<equiv> ti_node (tinfos s t)"

definition waiting :: "('a, 'g, 'tm, 'u, 'f, 's) exec \<Rightarrow> task_id \<Rightarrow> bool" where
  "waiting s t \<longleftrightarrow> t \<in> set (queue s) \<or> (\<exists>i nd. ex_nodes s i = Some nd \<and> t \<in> set (n_paused nd))"

text \<open>
  \<open>run\<close> is the task being run, if any; \<open>X\<close> the tasks just killed or cancelled that are still to be
  woken, \<open>Y\<close> the runnables the executor has in its hands.  The first part concerns the executor's own
  tables only.
\<close>

definition table_inv :: "('a, 'g, 'tm, 'u, 'f, 's) exec \<Rightarrow> bool" where
  "table_inv s \<longleftrightarrow>
     main_info s < next_ref s \<and> 0 < next_node_id s \<and>
     (\<forall>t < next_task_id s. node_of s t < next_ref s \<and> (ti_has_waker (tinfos s t) \<or> node_of s t = main_info s)) \<and>
     (\<forall>i nd. ex_nodes s i = Some nd \<longrightarrow> n_info nd < next_ref s \<and> n_info nd \<noteq> main_info s \<and> ni_id (infos s (n_info nd)) = i \<and> i < next_node_id s) \<and>
     (\<forall>i nd. ex_nodes s i = Some nd \<longrightarrow>
        (\<forall>t \<in> set (n_paused nd). t < next_task_id s \<and> ni_id (infos s (node_of s t)) = i))"

lemma table_inv_node:
  assumes "table_inv s" "ex_nodes s i = Some nd"
  shows "n_info nd < next_ref s" "n_info nd \<noteq> main_info s" "ni_id (infos s (n_info nd)) = i" "i < next_node_id s"
    and "t \<in> set (n_paused nd) \<Longrightarrow> ni_id (infos s (node_of s t)) = i"
  using assms by (auto simp: table_inv_def)

definition task_inv :: "('a, 'g, 'tm, 'u, 'f, 'k, 's) env \<Rightarrow> task_id option \<Rightarrow> task_id set \<Rightarrow> task_id set \<Rightarrow> ('a, 'g, 'tm, 'u, 'f, 's) exec \<Rightarrow> task_id \<Rightarrow> bool" where
  "task_inv E run X Y s t \<longleftrightarrow>
     (let a = tasks s in
      (at_running E a t \<longrightarrow> run = Some t) \<and>
      (at_alive E a t \<longrightarrow>
         t < next_task_id s \<and>
         (at_closed E a t \<longrightarrow> at_running E a t \<or> at_sched E a t) \<and>
         (at_sched E a t \<longrightarrow> at_running E a t \<or> t \<in> Y \<or> waiting s t) \<and>
         ((ni_killed (infos s (node_of s t)) \<or> ti_cancelled (tinfos s t)) \<and> ti_has_waker (tinfos s t) \<longrightarrow>
            t \<in> X \<or> at_sched E a t \<or> at_closed E a t) \<and>
         (\<not> ni_killed (infos s (node_of s t)) \<longrightarrow> t \<in> set (ni_tasks (infos s (node_of s t))))))"

definition exec_inv :: "('a, 'g, 'tm, 'u, 'f, 'k, 's) env \<Rightarrow> task_id option \<Rightarrow> task_id set \<Rightarrow> task_id set \<Rightarrow> ('a, 'g, 'tm, 'u, 'f, 's) exec \<Rightarrow> bool" where
  "exec_inv E run X Y s \<longleftrightarrow> table_inv s \<and> (\<forall>t. task_inv E run X Y s t)"

text \<open>A \<open>NodeInfo\<close> is parked when a task of it is in the waiting list of a paused node.\<close>

definition parked :: "('a, 'g, 'tm, 'u, 'f, 's) exec \<Rightarrow> nref \<Rightarrow> bool" where
  "parked s n \<longleftrightarrow> (\<exists>i nd t. ex_nodes s i = Some nd \<and> t \<in> set (n_paused nd) \<and> node_of s t = n)"

text \<open>
  What later states have in common with an earlier one: tables only grow, a killed \<open>NodeInfo\<close> stays
  killed and is not parked again, a cancelled task stays cancelled, and no task of a killed node and
  no cancelled task is polled any more.
\<close>

definition grows :: "('a, 'g, 'tm, 'u, 'f, 's) exec \<Rightarrow> ('a, 'g, 'tm, 'u, 'f, 's) exec \<Rightarrow> bool" where
  "grows s s' \<longleftrightarrow>
     main_info s' = main_info s \<and> next_ref s \<le> next_ref s' \<and> next_task_id s \<le> next_task_id s' \<and> next_node_id s \<le> next_node_id s' \<and>
     (\<forall>n < next_ref s. ni_killed (infos s n) \<longrightarrow> parked s' n \<longrightarrow> parked s n) \<and>
     (\<forall>n < next_ref s. ni_id (infos s' n) = ni_id (infos s n) \<and> (ni_killed (infos s n) \<longrightarrow> ni_killed (infos s' n))) \<and>
     (\<forall>t < next_task_id s. node_of s' t = node_of s t \<and> ti_has_waker (tinfos s' t) = ti_has_waker (tinfos s t) \<and>
        (ti_cancelled (tinfos s t) \<longrightarrow> ti_cancelled (tinfos s' t))) \<and>
     (\<exists>ps. polled s' = polled s @ ps \<and>
        (\<forall>t \<in> set ps. t < next_task_id s' \<and>
           \<not> (node_of s' t < next_ref s \<and> ni_killed (infos s (node_of s' t))) \<and>
           \<not> (t < next_task_id s \<and> ti_cancelled (tinfos s t))))"

lemma parked_same: "ex_nodes s' = ex_nodes s \<Longrightarrow> tinfos s' = tinfos s \<Longrightarrow> parked s' n = parked s n"
  by (simp add: parked_def)

lemma parked_clear:
  "parked s' n \<Longrightarrow> ex_nodes s' = (ex_nodes s)(i \<mapsto> nd) \<Longrightarrow> n_paused nd = [] \<Longrightarrow> tinfos s' = tinfos s \<Longrightarrow> parked s n"
  by (auto simp: parked_def split: if_splits)

lemma grows_refl [simp]: "grows s s"
  by (simp add: grows_def)

lemma grows_next_ref: "grows s s' \<Longrightarrow> next_ref s \<le> next_ref s'"
  by (simp add: grows_def)

lemma grows_trans:
  assumes "grows s s'" "grows s' s''"
  shows "grows s s''"
proof -
  obtain ps where ps: "polled s' = polled s @ ps" "\<forall>t \<in> set ps. t < next_task_id s' \<and>
      \<not> (node_of s' t < next_ref s \<and> ni_killed (infos s (node_of s' t))) \<and>
      \<not> (t < next_task_id s \<and> ti_cancelled (tinfos s t))"
    using assms(1) by (auto simp: grows_def)
  obtain qs where qs: "polled s'' = polled s' @ qs" "\<forall>t \<in> set qs. t < next_task_id s'' \<and>
      \<not> (node_of s'' t < next_ref s' \<and> ni_killed (infos s' (node_of s'' t))) \<and>
      \<not> (t < next_task_id s' \<and> ti_cancelled (tinfos s' t))"
    using assms(2) by (auto simp: grows_def)
  have P: "\<forall>t \<in> set ps. t < next_task_id s'' \<and>
      \<not> (node_of s'' t < next_ref s \<and> ni_killed (infos s (node_of s'' t))) \<and>
      \<not> (t < next_task_id s \<and> ti_cancelled (tinfos s t))"
    using ps(2) assms(2) by (auto simp: grows_def)
  have Q: "\<forall>t \<in> set qs. t < next_task_id s'' \<and>
      \<not> (node_of s'' t < next_ref s \<and> ni_killed (infos s (node_of s'' t))) \<and>
      \<not> (t < next_task_id s \<and> ti_cancelled (tinfos s t))"
    using qs(2) assms(1) by (auto simp: grows_def)
  have "\<exists>rs. polled s'' = polled s @ rs \<and> (\<forall>t \<in> set rs. t < next_task_id s'' \<and>
      \<not> (node_of s'' t < next_ref s \<and> ni_killed (infos s (node_of s'' t))) \<and>
      \<not> (t < next_task_id s \<and> ti_cancelled (tinfos s t)))"
    using ps(1) qs(1) P Q by (intro exI [of _ "ps @ qs"]) auto
  moreover have "main_info s'' = main_info s" "next_ref s \<le> next_ref s''" "next_task_id s \<le> next_task_id s''"
    "next_node_id s \<le> next_node_id s''"
    using assms by (simp_all add: grows_def)
  moreover have "\<forall>n < next_ref s. ni_id (infos s'' n) = ni_id (infos s n) \<and>
      (ni_killed (infos s n) \<longrightarrow> ni_killed (infos s'' n))"
    using assms by (simp add: grows_def)
  moreover have "\<forall>t < next_task_id s. node_of s'' t = node_of s t \<and>
      ti_has_waker (tinfos s'' t) = ti_has_waker (tinfos s t) \<and>
      (ti_cancelled (tinfos s t) \<longrightarrow> ti_cancelled (tinfos s'' t))"
    using assms by (simp add: grows_def)
  moreover have "\<forall>n < next_ref s. ni_killed (infos s n) \<longrightarrow> parked s'' n \<longrightarrow> parked s n"
    using assms by (simp add: grows_def)
  ultimately show ?thesis unfolding grows_def by blast
qed

text \<open>Operations that change the task bits, the queue, the user's world, time, randomness or the
  simulators only.\<close>

definition frame :: "('a, 'g, 'tm, 'u, 'f, 's) exec \<Rightarrow> ('a, 'g, 'tm, 'u, 'f, 's) exec \<Rightarrow> bool" where
  "frame s s' \<longleftrightarrow> main_info s' = main_info s \<and> infos s' = infos s \<and> tinfos s' = tinfos s \<and> next_ref s' = next_ref s \<and>
     next_task_id s' = next_task_id s \<and> next_node_id s' = next_node_id s \<and> polled s' = polled s \<and>
     ex_nodes s' = ex_nodes s"

lemma frame_grows: "frame s s' \<Longrightarrow> grows s s'"
  by (simp add: frame_def grows_def parked_def)

lemma frame_table: "frame s s' \<Longrightarrow> table_inv s' = table_inv s"
  by (simp add: frame_def table_inv_def)

lemma task_inv_same:
  assumes "frame s s'" "at_same E (tasks s) (tasks s') t" "waiting s t \<Longrightarrow> waiting s' t"
    and "task_inv E run X Y s t"
  shows "task_inv E run X Y s' t"
  using assms by (auto simp: task_inv_def at_same_def frame_def Let_def)

lemma task_inv_mono:
  assumes "task_inv E run X Y s v" "at_same E (tasks s) (tasks s') v" "waiting s v \<Longrightarrow> waiting s' v"
    and "tinfos s' v = tinfos s v" "next_task_id s \<le> next_task_id s'"
    and "ni_killed (infos s' (node_of s v)) = ni_killed (infos s (node_of s v))"
    and "set (ni_tasks (infos s (node_of s v))) \<subseteq> set (ni_tasks (infos s' (node_of s v)))"
  shows "task_inv E run X Y s' v"
proof -
  have [simp]: "at_alive E (tasks s') v = at_alive E (tasks s) v" "at_sched E (tasks s') v = at_sched E (tasks s) v"
    "at_running E (tasks s') v = at_running E (tasks s) v" "at_closed E (tasks s') v = at_closed E (tasks s) v"
    using assms(2) by (simp_all add: at_same_def)
  show ?thesis
  proof (cases "at_alive E (tasks s) v")
    case True
    note i = assms(1) [unfolded task_inv_def Let_def]
    then have "v < next_task_id s'" using True assms(5) by auto
    moreover have "\<not> ni_killed (infos s (node_of s v)) \<Longrightarrow> v \<in> set (ni_tasks (infos s' (node_of s v)))"
      using i True assms(7) by blast
    ultimately show ?thesis using i True assms(3,4,6) unfolding task_inv_def Let_def by (simp, blast)
  next
    case False
    then show ?thesis using assms(1) by (simp add: task_inv_def Let_def)
  qed
qed

lemma waiting_mono:
  "frame s s' \<Longrightarrow> set (queue s) \<subseteq> set (queue s') \<Longrightarrow> waiting s t \<Longrightarrow> waiting s' t"
  by (auto simp: waiting_def frame_def)

lemma set_push_ready [simp]: "set (push_ready t q) = insert t (set q)"
  by (simp add: push_ready_def send_def)

lemma frame_wake: "frame s (wake E t s)"
  by (simp add: frame_def wake_def Let_def split: prod.splits)

lemma wake_inv:
  assumes "at_ok E" "exec_inv E run X Y s"
  shows "exec_inv E run X Y (wake E t s)"
  unfolding exec_inv_def
proof (intro conjI allI)
  obtain b a where w: "at_wake E t (tasks s) = (b, a)" by (cases "at_wake E t (tasks s)")
  note law = at_okD(2) [OF assms(1), of t "tasks s", unfolded w at_wake_law_def prod.case]
  have s': "tasks (wake E t s) = a"
    "queue (wake E t s) = (if b then push_ready t (queue s) else queue s)"
    using w by (simp_all add: wake_def)
  show "table_inv (wake E t s)" using assms(2) frame_table [OF frame_wake] by (auto simp: exec_inv_def)
  fix u
  have i: "task_inv E run X Y s u" using assms(2) by (simp add: exec_inv_def)
  have q: "waiting s u \<Longrightarrow> waiting (wake E t s) u"
    using s' by (intro waiting_mono [OF frame_wake]) auto
  show "task_inv E run X Y (wake E t s) u"
  proof (cases "u = t")
    case False
    then show ?thesis using law s' by (intro task_inv_same [OF frame_wake _ q i]) auto
  next
    case True
    have "b \<Longrightarrow> waiting (wake E t s) t" using s' by (simp add: waiting_def)
    then show ?thesis using i q law frame_wake [of s E t] True s'
      by (auto simp: task_inv_def Let_def frame_def)
  qed
qed

lemma frame_trans: "frame s s' \<Longrightarrow> frame s' s'' \<Longrightarrow> frame s s''"
  by (simp add: frame_def)

lemma frame_fold:
  assumes "\<And>x s. frame s (f x s)"
  shows "frame s (fold f xs s)"
proof (induction xs arbitrary: s)
  case Nil
  then show ?case by (simp add: frame_def)
next
  case (Cons x xs)
  then show ?case using frame_trans [OF assms Cons.IH] by simp
qed

lemma frame_fold_wake: "frame s (fold (wake E) ts s)"
  by (rule frame_fold) (rule frame_wake)

lemma fold_wake_inv: "at_ok E \<Longrightarrow> exec_inv E run X Y s \<Longrightarrow> exec_inv E run X Y (fold (wake E) ts s)"
  by (induction ts arbitrary: s) (simp_all add: wake_inv)

text \<open>Waking through \<open>TaskInfo\<close> clears a task from the set of tasks still to be woken.\<close>

lemma frame_wake_info: "frame s (wake_info E t s)"
  by (simp add: wake_info_def frame_wake) (simp add: frame_def)

lemma wake_sched:
  assumes "at_ok E" "alive E s t"
  shows "at_sched E (tasks (wake E t s)) t \<or> at_closed E (tasks (wake E t s)) t"
proof -
  obtain b a where w: "at_wake E t (tasks s) = (b, a)" by (cases "at_wake E t (tasks s)")
  then show ?thesis
    using assms(2) at_okD(2) [OF assms(1), of t "tasks s", unfolded w at_wake_law_def prod.case]
    by (auto simp: wake_def)
qed

lemma task_inv_weaken: "task_inv E run (insert t X) Y s u \<Longrightarrow> u \<noteq> t \<Longrightarrow> task_inv E run X Y s u"
  by (auto simp: task_inv_def Let_def)

lemma wake_info_inv:
  assumes "at_ok E" "exec_inv E run (insert t X) Y s"
  shows "exec_inv E run X Y (wake_info E t s)"
  unfolding exec_inv_def
proof (intro conjI allI)
  show "table_inv (wake_info E t s)" using assms(2) frame_table [OF frame_wake_info] by (auto simp: exec_inv_def)
  fix u
  have w: "task_inv E run (insert t X) Y (wake_info E t s) u"
    using wake_inv [OF assms] assms(2) by (auto simp: wake_info_def exec_inv_def)
  show "task_inv E run X Y (wake_info E t s) u"
  proof (cases "u = t \<and> alive E s t \<and> ti_has_waker (tinfos s t)")
    case True
    then show ?thesis using w wake_sched [OF assms(1), of s t]
      by (auto simp: task_inv_def Let_def wake_info_def)
  next
    case False
    show ?thesis
    proof (cases "u = t")
      case True
      then have "wake_info E t s = s" using False by (auto simp: wake_info_def)
      then show ?thesis using w False True by (auto simp: task_inv_def Let_def)
    qed (use w task_inv_weaken in blast)
  qed
qed

lemma fold_wake_info_inv:
  "at_ok E \<Longrightarrow> exec_inv E run (set ts) Y s \<Longrightarrow> exec_inv E run {} Y (fold (wake_info E) ts s)"
proof (induction ts arbitrary: s)
  case Nil
  then show ?case by simp
next
  case (Cons t ts)
  then have "exec_inv E run (set ts) Y (wake_info E t s)" by (intro wake_info_inv) simp_all
  then show ?case using Cons.IH Cons.prems(1) by simp
qed

lemma frame_fold_wake_info: "frame s (fold (wake_info E) ts s)"
  by (rule frame_fold) (rule frame_wake_info)

text \<open>Dropping a runnable discharges it from the hands of the executor.\<close>

lemma frame_drop: "frame s (drop_runnable E t s)"
proof -
  obtain aw a where d: "at_drop E t (tasks s) = (aw, a)" by (cases "at_drop E t (tasks s)")
  obtain ws u where u: "w_drop E t (user s) = (ws, u)" by (cases "w_drop E t (user s)")
  have "frame s (s\<lparr>tasks := a, user := u\<rparr>)" by (simp add: frame_def)
  from frame_trans [OF this frame_fold_wake, of E "ws @ aw"] show ?thesis
    by (simp add: drop_runnable_def d u)
qed

lemma drop_runnable_inv:
  assumes "at_ok E" "exec_inv E run X (insert t Y) s"
  shows "exec_inv E run X Y (drop_runnable E t s)"
proof -
  obtain aw a where d: "at_drop E t (tasks s) = (aw, a)" by (cases "at_drop E t (tasks s)")
  obtain ws u where u: "w_drop E t (user s) = (ws, u)" by (cases "w_drop E t (user s)")
  let ?s = "s\<lparr>tasks := a, user := u\<rparr>"
  note law = at_okD(6) [OF assms(1), of t "tasks s", unfolded d at_drop_law_def prod.case]
  have f: "frame s ?s" by (simp add: frame_def)
  have w: "waiting ?s v = waiting s v" for v by (simp add: waiting_def)
  have "task_inv E run X Y ?s v" for v
  proof (cases "v = t")
    case True
    then show ?thesis using assms(2) law by (auto simp: exec_inv_def task_inv_def Let_def)
  next
    case False
    then have "task_inv E run X (insert t Y) ?s v"
      using assms(2) law w by (intro task_inv_same [OF f]) (auto simp: exec_inv_def)
    then show ?thesis using False by (auto simp: task_inv_def Let_def)
  qed
  then have "exec_inv E run X Y ?s" using assms(2) frame_table [OF f] by (simp add: exec_inv_def)
  then show ?thesis using fold_wake_inv [OF assms(1)] by (simp add: drop_runnable_def d u)
qed

lemma fold_drop_inv:
  "at_ok E \<Longrightarrow> exec_inv E run X (set ts \<union> Y) s \<Longrightarrow> exec_inv E run X Y (fold (drop_runnable E) ts s)"
  by (induction ts arbitrary: s) (simp_all add: drop_runnable_inv)

lemma frame_fold_drop: "frame s (fold (drop_runnable E) ts s)"
  by (rule frame_fold) (rule frame_drop)

subsection \<open>Every operation keeps the invariant and grows the state\<close>

definition keeps :: "('a, 'g, 'tm, 'u, 'f, 'k, 's) env \<Rightarrow> task_id option \<Rightarrow> ('a, 'g, 'tm, 'u, 'f, 's) exec \<Rightarrow> ('a, 'g, 'tm, 'u, 'f, 's) exec \<Rightarrow> bool" where
  "keeps E run s s' \<longleftrightarrow> (exec_inv E run {} {} s \<longrightarrow> exec_inv E run {} {} s' \<and> grows s s')"

lemma keeps_refl [simp]: "keeps E run s s"
  by (simp add: keeps_def)

lemma keeps_trans: "keeps E run s s' \<Longrightarrow> keeps E run s' s'' \<Longrightarrow> keeps E run s s''"
  by (auto simp: keeps_def intro: grows_trans)

lemma keeps_and_then:
  assumes "keeps E run s (snd m)" "\<And>r s. keeps E run s (snd (f r s))"
  shows "keeps E run s (snd (and_then m f))"
proof (cases m)
  case (Pair a b)
  then show ?thesis using assms(1) keeps_trans [OF assms(1) assms(2)] by (cases a) simp_all
qed

text \<open>A change of time, randomness, simulators or the user's world.\<close>

definition core_same :: "('a, 'g, 'tm, 'u, 'f, 's) exec \<Rightarrow> ('a, 'g, 'tm, 'u, 'f, 's) exec \<Rightarrow> bool" where
  "core_same s s' \<longleftrightarrow> frame s s' \<and> tasks s' = tasks s \<and> queue s' = queue s"

lemma core_same_inv: "core_same s s' \<Longrightarrow> exec_inv E run X Y s \<Longrightarrow> exec_inv E run X Y s'"
  unfolding core_same_def exec_inv_def
  by (metis (no_types, lifting) at_same_def frame_table task_inv_same waiting_mono order_refl)

lemma core_same_keeps: "core_same s s' \<Longrightarrow> keeps E run s s'"
  unfolding keeps_def using core_same_inv frame_grows core_same_def by metis

lemma keeps_simps [simp]:
  "keeps E run s (s\<lparr>user := u\<rparr>)" "keeps E run s (s\<lparr>ex_time := h\<rparr>)" "keeps E run s (s\<lparr>ex_rand := r\<rparr>)"
  "keeps E run s (s\<lparr>sims := x\<rparr>)"
  by (simp_all add: core_same_keeps core_same_def frame_def)

lemma keeps_fold_wake: "at_ok E \<Longrightarrow> keeps E run s (fold (wake E) ts s)"
  using fold_wake_inv frame_grows [OF frame_fold_wake] by (auto simp: keeps_def)

lemma keeps_wake: "at_ok E \<Longrightarrow> keeps E run s (wake E t s)"
  using keeps_fold_wake [of E run s "[t]"] by simp

lemma keeps_user_wake: "at_ok E \<Longrightarrow> keeps E run s (fold (wake E) ts (s\<lparr>user := u\<rparr>))"
  by (rule keeps_trans [OF keeps_simps(1) keeps_fold_wake])

paragraph \<open>Changes of a \<open>NodeInfo\<close>\<close>

lemma upd_info_inv:
  assumes "exec_inv E run X Y s" "ni_id (f (infos s n)) = ni_id (infos s n)"
    "ni_killed (f (infos s n)) = ni_killed (infos s n)"
    "\<And>t. alive E s t \<Longrightarrow> t \<in> set (ni_tasks (infos s n)) \<Longrightarrow> t \<in> set (ni_tasks (f (infos s n)))"
  shows "exec_inv E run X Y (upd_info n f s) \<and> grows s (upd_info n f s)"
proof -
  have "table_inv (upd_info n f s)"
    using assms(1,2) by (auto simp: exec_inv_def table_inv_def upd_info_def)
  moreover have "waiting (upd_info n f s) t = waiting s t" for t
    by (simp add: waiting_def upd_info_def)
  then have "task_inv E run X Y (upd_info n f s) t" for t
    using assms by (auto simp: exec_inv_def task_inv_def Let_def upd_info_def)
  ultimately show ?thesis using assms(2,3) by (simp add: exec_inv_def grows_def upd_info_def parked_def)
qed

lemma keeps_upd_info:
  assumes "\<And>i. ni_id (f i) = ni_id i" "\<And>i. ni_killed (f i) = ni_killed i" "\<And>i. ni_tasks (f i) = ni_tasks i"
  shows "keeps E run s (upd_info n f s)"
  using upd_info_inv [of E run "{}" "{}" s f n] assms by (simp add: keeps_def)

lemma kill_flag_inv:
  assumes "exec_inv E run {} Y s"
  shows "exec_inv E run (set (ni_tasks (infos s n))) Y (upd_info n (\<lambda>i. i\<lparr>ni_killed := True, ni_tasks := []\<rparr>) s)"
    (is "exec_inv E run _ Y ?s")
proof -
  have "table_inv ?s" using assms by (auto simp: exec_inv_def table_inv_def upd_info_def)
  moreover have "waiting ?s t = waiting s t" for t by (simp add: waiting_def upd_info_def)
  then have "task_inv E run (set (ni_tasks (infos s n))) Y ?s t" for t
    using assms by (auto simp: exec_inv_def task_inv_def Let_def upd_info_def split: if_splits)
  ultimately show ?thesis by (simp add: exec_inv_def)
qed

lemma kill_flag_grows: "grows s (upd_info n (\<lambda>i. i\<lparr>ni_killed := True, ni_tasks := []\<rparr>) s)"
  by (simp add: grows_def upd_info_def parked_def)

lemma kill_info_inv:
  "at_ok E \<Longrightarrow> exec_inv E run {} Y s \<Longrightarrow> exec_inv E run {} Y (kill_info E n s)"
  unfolding kill_info_def by (intro fold_wake_info_inv kill_flag_inv)

lemma kill_info_grows: "grows s (kill_info E n s)"
  unfolding kill_info_def
  by (rule grows_trans [OF kill_flag_grows frame_grows [OF frame_fold_wake_info]])

lemma keeps_kill_info: "at_ok E \<Longrightarrow> keeps E run s (kill_info E n s)"
  using kill_info_inv kill_info_grows by (auto simp: keeps_def)

lemma keeps_exit: "at_ok E \<Longrightarrow> keeps E run s (exit E n s)"
  by (simp add: exit_def keeps_kill_info)

lemma keeps_ctrl_c: "keeps E run s (ctrl_c E n s)"
  unfolding ctrl_c_def by (rule keeps_trans [OF keeps_upd_info keeps_simps(1)]) simp_all

lemma keeps_num_tasks_info: "keeps E run s (snd (num_tasks_info E n s))"
  using upd_info_inv [of E run "{}" "{}" s "\<lambda>i. i\<lparr>ni_tasks := filter (at_alive E (tasks s)) (ni_tasks (infos s n))\<rparr>" n]
  by (simp add: keeps_def num_tasks_info_def Let_def)

lemma keeps_num_tasks: "keeps E run s (snd (num_tasks E s))"
proof -
  define f where "f = (\<lambda>i (k, s). case ex_nodes s i of
              None \<Rightarrow> (k, s)
            | Some nd \<Rightarrow> (let (m, s') = num_tasks_info E (n_info nd) s in (k + m, s')))"
  have f: "keeps E run s (snd (f i (k, s)))" for i k s
    using keeps_num_tasks_info [of E run s] by (auto simp: f_def split: option.splits prod.splits)
      (metis snd_conv)
  have "keeps E run s (snd (fold f xs (k, s)))" for xs k
  proof (induction xs arbitrary: k s)
    case Nil
    then show ?case by simp
  next
    case (Cons i xs)
    then show ?case using keeps_trans [OF f [of s i k]] by (metis fold_simps(2) prod.collapse)
  qed
  then show ?thesis by (simp add: num_tasks_def f_def)
qed

paragraph \<open>Tasks\<close>

lemma spawn_core_inv:
  fixes name loc w ex u
  assumes "at_ok E" "exec_inv E run {} {} s" "n < next_ref s" "w \<or> n = main_info s"
  defines "t \<equiv> next_task_id s"
  defines "s' \<equiv> (snd (new_task n name loc w ex s))\<lparr>tasks := at_new E t (tasks s), user := u, queue := push_ready t (queue s)\<rparr>"
  shows "exec_inv E run {} {} s' \<and> grows s s'"
proof -
  note law = at_okD(1) [OF assms(1), of t "tasks s", unfolded at_new_law_def]
  have tab: "table_inv s" using assms(2) by (simp add: exec_inv_def)
  have p: "ex_nodes s i = Some nd \<Longrightarrow> v \<in> set (n_paused nd) \<Longrightarrow> v \<noteq> t" for i nd v
    using tab unfolding table_inv_def t_def by (metis less_irrefl)
  have "table_inv s'" using tab assms(3,4) p
    by (auto simp: table_inv_def s'_def new_task_def upd_info_def Let_def t_def less_Suc_eq) metis+
  moreover have "task_inv E run {} {} s' v" for v
  proof (cases "v = t")
    case True
    then show ?thesis using law
      by (auto simp: task_inv_def s'_def new_task_def upd_info_def Let_def waiting_def t_def)
  next
    case False
    have "task_inv E run {} {} s v" "at_same E (tasks s) (at_new E t (tasks s)) v"
      using assms(2) False law by (simp_all add: exec_inv_def)
    moreover have "waiting s v \<Longrightarrow> waiting s' v"
      by (simp add: waiting_def s'_def new_task_def upd_info_def Let_def)
    moreover have "tinfos s' v = tinfos s v" "next_task_id s \<le> next_task_id s'" "tasks s' = at_new E t (tasks s)"
      using False by (simp_all add: s'_def new_task_def upd_info_def Let_def t_def)
    moreover have "ni_killed (infos s' m) = ni_killed (infos s m)" "set (ni_tasks (infos s m)) \<subseteq> set (ni_tasks (infos s' m))"
      for m by (auto simp: s'_def new_task_def upd_info_def Let_def)
    ultimately show ?thesis by (metis task_inv_mono)
  qed
  moreover have "parked s' m \<Longrightarrow> parked s m" for m using p
    by (fastforce simp: parked_def s'_def new_task_def upd_info_def Let_def t_def)
  then have "grows s s'" by (simp add: grows_def s'_def new_task_def upd_info_def Let_def)
  ultimately show ?thesis by (simp add: exec_inv_def)
qed

lemma keeps_spawn: "at_ok E \<Longrightarrow> n < next_ref s \<Longrightarrow> keeps E run s (snd (spawn_inner E n name loc ex f s))"
  using spawn_core_inv [where E = E and run = run and s = s and n = n and name = name and loc = loc
      and w = True and ex = ex and u = "w_spawn E (next_task_id s) f (user s)"]
  by (simp add: keeps_def spawn_inner_def Let_def new_task_def upd_info_def)

lemma keeps_run_init: "at_ok E \<Longrightarrow> n < next_ref s \<Longrightarrow> keeps E run s (run_init E init n s)"
  by (cases init) (simp_all add: run_init_def keeps_spawn)

lemma keeps_cancel:
  assumes "at_ok E"
  shows "keeps E run s (cancel E t s)"
  unfolding keeps_def
proof (intro impI conjI)
  assume inv: "exec_inv E run {} {} s"
  obtain b a where w: "at_cancel E t (tasks s) = (b, a)" by (cases "at_cancel E t (tasks s)")
  note law = at_okD(3) [OF assms, of t "tasks s", unfolded w at_cancel_law_def prod.case]
  have s': "tasks (cancel E t s) = a"
    "queue (cancel E t s) = (if b then push_ready t (queue s) else queue s)"
    using w by (simp_all add: cancel_def)
  have f: "frame s (cancel E t s)" by (simp add: frame_def cancel_def w)
  then show "grows s (cancel E t s)" by (rule frame_grows)
  have "task_inv E run {} {} (cancel E t s) u" for u
  proof -
    have i: "task_inv E run {} {} s u" using inv by (simp add: exec_inv_def)
    have q: "waiting s u \<Longrightarrow> waiting (cancel E t s) u"
      using s' by (intro waiting_mono [OF f]) auto
    show ?thesis
    proof (cases "u = t")
      case False
      then show ?thesis using law s' by (intro task_inv_same [OF f _ q i]) auto
    next
      case True
      have "b \<Longrightarrow> waiting (cancel E t s) t" using s' by (simp add: waiting_def)
      then show ?thesis using i q law f True s'
        by (auto simp: task_inv_def Let_def frame_def)
    qed
  qed
  then show "exec_inv E run {} {} (cancel E t s)" using inv frame_table [OF f] by (simp add: exec_inv_def)
qed

lemma keeps_abort:
  assumes "at_ok E"
  shows "keeps E run s (abort E t s)"
proof -
  let ?s = "s\<lparr>tinfos := (tinfos s)(t := (tinfos s t)\<lparr>ti_cancelled := True\<rparr>)\<rparr>"
  have "exec_inv E run {t} {} ?s" if "exec_inv E run {} {} s"
  proof -
    have "table_inv ?s" using that by (auto simp: exec_inv_def table_inv_def)
    moreover have "waiting ?s u = waiting s u" for u by (simp add: waiting_def)
    then have "task_inv E run {t} {} ?s u" for u
      using that by (auto simp: exec_inv_def task_inv_def Let_def)
    ultimately show ?thesis by (simp add: exec_inv_def)
  qed
  then have "exec_inv E run {} {} (wake_info E t ?s)" if "exec_inv E run {} {} s"
    using that wake_info_inv [OF assms] by blast
  moreover have "grows s ?s" by (auto simp: grows_def parked_def)
  then have "grows s (wake_info E t ?s)" using grows_trans frame_grows [OF frame_wake_info] by blast
  ultimately show ?thesis by (simp add: keeps_def abort_def)
qed

paragraph \<open>Nodes\<close>

lemma set_fold_push_ready [simp]: "set (fold push_ready ts q) = set ts \<union> set q"
  by (induction ts arbitrary: q) auto

lemma keeps_pause: "keeps E run s (snd (pause i s))"
  by (auto simp: pause_def intro!: keeps_upd_info split: option.split)

lemma waiting_upd:
  assumes "waiting s t" "ex_nodes s' = (ex_nodes s)(i \<mapsto> nd')" "set (queue s) \<subseteq> set (queue s')"
    and "\<And>nd. ex_nodes s i = Some nd \<Longrightarrow> t \<in> set (n_paused nd) \<Longrightarrow> t \<in> set (n_paused nd') \<union> set (queue s')"
  shows "waiting s' t"
proof (cases "t \<in> set (queue s)")
  case True
  then show ?thesis using assms(3) by (auto simp: waiting_def)
next
  case False
  then obtain j nd where j: "ex_nodes s j = Some nd" "t \<in> set (n_paused nd)"
    using assms(1) by (auto simp: waiting_def)
  show ?thesis
  proof (cases "j = i")
    case True
    then show ?thesis using assms(2,4) j by (auto simp: waiting_def)
  next
    case False
    then have "ex_nodes s' j = Some nd" using assms(2) j by simp
    then show ?thesis using j(2) by (auto simp: waiting_def)
  qed
qed

lemma clear_paused_inv:
  assumes "exec_inv E run X {} s" "ex_nodes s i = Some nd" "set (n_paused nd) \<subseteq> Y \<union> set q" "set (queue s) \<subseteq> set q"
  shows "exec_inv E run X Y (s\<lparr>ex_nodes := (ex_nodes s)(i \<mapsto> nd\<lparr>n_paused := []\<rparr>), queue := q\<rparr>)"
    (is "exec_inv _ _ _ _ ?s")
proof -
  have "table_inv ?s" using assms(1,2) by (auto simp: exec_inv_def table_inv_def)
  moreover have "waiting s t \<Longrightarrow> t \<in> Y \<or> waiting ?s t" for t
  proof (cases "t \<in> Y")
    case False
    assume "waiting s t"
    then have "waiting ?s t" using assms(2-4) False by (rule_tac waiting_upd [of s t ?s i]) auto
    then show ?thesis ..
  qed simp
  then have "task_inv E run X Y ?s t" for t
    using assms(1) by (auto simp: exec_inv_def task_inv_def Let_def)
  ultimately show ?thesis by (simp add: exec_inv_def)
qed

lemma keeps_resume: "keeps E run s (snd (resume i s))"
proof (cases "ex_nodes s i")
  case None
  then show ?thesis by (simp add: resume_def)
next
  case (Some nd)
  let ?s1 = "upd_info (n_info nd) (\<lambda>ni. ni\<lparr>ni_paused := False\<rparr>) s"
  let ?s2 = "?s1\<lparr>ex_nodes := (ex_nodes ?s1)(i \<mapsto> nd\<lparr>n_paused := []\<rparr>), queue := fold push_ready (n_paused nd) (queue ?s1)\<rparr>"
  have 1: "keeps E run s ?s1" by (rule keeps_upd_info) simp_all
  have nd: "ex_nodes ?s1 i = Some nd" using Some by (simp add: upd_info_def)
  have "parked ?s2 n \<Longrightarrow> parked ?s1 n" for n by (erule parked_clear) (simp, simp, simp)
  then have "grows ?s1 ?s2" by (simp add: grows_def)
  then have "keeps E run ?s1 ?s2"
    using clear_paused_inv [OF _ nd, of E run "{}" "{}"] by (simp add: keeps_def)
  then show ?thesis using keeps_trans [OF 1] Some by (simp add: resume_def Let_def)
qed

lemma keeps_kill_id:
  assumes "at_ok E"
  shows "keeps E run s (snd (kill_id E i s))"
proof (cases "ex_nodes s i")
  case None
  then show ?thesis by (simp add: kill_id_def)
next
  case (Some nd)
  let ?s1 = "s\<lparr>ex_nodes := (ex_nodes s)(i \<mapsto> nd\<lparr>n_paused := []\<rparr>)\<rparr>"
  let ?s2 = "fold (drop_runnable E) (n_paused nd) ?s1"
  have "exec_inv E run {} {} ?s2" if "exec_inv E run {} {} s"
    using clear_paused_inv [OF that Some, of "set (n_paused nd)" "queue s"]
    by (intro fold_drop_inv [OF assms]) simp
  moreover have "parked ?s1 n \<Longrightarrow> parked s n" for n by (erule parked_clear) (simp, simp, simp)
  then have "grows s ?s2"
    by (intro grows_trans [OF _ frame_grows [OF frame_fold_drop]]) (simp add: grows_def)
  ultimately have "keeps E run s ?s2" by (simp add: keeps_def)
  then have "keeps E run s ((kill_info E (n_info nd) ?s2)\<lparr>sims := x\<rparr>)" for x
    using keeps_trans [OF keeps_trans [OF _ keeps_kill_info [OF assms]] keeps_simps(4)] by blast
  then show ?thesis using Some by (simp add: kill_id_def Let_def split: prod.splits)
qed

lemma alloc_info_inv:
  assumes "exec_inv E run {} {} s"
  defines "n \<equiv> next_ref s"
  shows "exec_inv E run {} {} (s\<lparr>infos := (infos s)(n := ni), next_ref := Suc n\<rparr>) \<and>
         grows s (s\<lparr>infos := (infos s)(n := ni), next_ref := Suc n\<rparr>)" (is "exec_inv _ _ _ _ ?s \<and> _")
proof -
  have lt: "t < next_task_id s \<Longrightarrow> node_of s t \<noteq> n" for t
    using assms(1) by (auto simp: exec_inv_def table_inv_def n_def)
  have "table_inv ?s" using assms(1) lt
    by (fastforce simp: exec_inv_def table_inv_def n_def less_Suc_eq)
  moreover have "waiting ?s t = waiting s t" for t by (simp add: waiting_def)
  then have "task_inv E run {} {} ?s t" for t
    using assms(1) lt by (auto simp: exec_inv_def task_inv_def Let_def)
  ultimately show ?thesis by (auto simp: exec_inv_def grows_def n_def parked_def)
qed

lemma repoint_inv:
  assumes "exec_inv E run X Y s" "ex_nodes s i = Some nd" "n < next_ref s" "n \<noteq> main_info s" "ni_id (infos s n) = i"
    "s' = s\<lparr>ex_nodes := (ex_nodes s)(i \<mapsto> nd\<lparr>n_info := n\<rparr>)\<rparr>"
  shows "exec_inv E run X Y s'"
proof -
  have "table_inv s'" using assms by (auto simp: exec_inv_def table_inv_def)
  moreover have "waiting s t \<Longrightarrow> waiting s' t" for t
    using assms(2,6) by (intro waiting_upd [of s t s' i]) auto
  then have "task_inv E run X Y s' t" for t
    using assms(1,6) by (auto simp: exec_inv_def task_inv_def Let_def)
  ultimately show ?thesis by (simp add: exec_inv_def)
qed

lemma keeps_restart:
  assumes "at_ok E"
  shows "keeps E run s (snd (restart E i s))"
proof (cases "ex_nodes s i")
  case None
  then show ?thesis by (simp add: restart_def)
next
  case (Some nd)
  let ?oi = "infos s (n_info nd)"
  define ni where "ni = \<lparr>ni_id = i, ni_name = ni_name ?oi, ni_cores = ni_cores ?oi,
                       ni_restart_on_panic = ni_restart_on_panic ?oi,
                       ni_restart_on_panic_matching = ni_restart_on_panic_matching ?oi,
                       ni_paused = False, ni_killed = False, ni_tasks = [], ni_ctrl_c = False\<rparr>"
  let ?s1 = "s\<lparr>infos := (infos s)(next_ref s := ni), next_ref := Suc (next_ref s)\<rparr>"
  let ?s2 = "?s1\<lparr>ex_nodes := (ex_nodes s)(i \<mapsto> nd\<lparr>n_info := next_ref s, n_paused := []\<rparr>)\<rparr>"
  let ?s3 = "fold (drop_runnable E) (n_paused nd) ?s2"
  let ?s4 = "kill_info E (n_info nd) ?s3"
  have "exec_inv E run {} {} ?s3" if "exec_inv E run {} {} s"
  proof -
    note 1 = alloc_info_inv [OF that, of ni]
    have nd': "main_info s < next_ref s" "ni_id ni = i" using that Some
      by (auto simp: exec_inv_def table_inv_def ni_def)
    let ?c = "?s1\<lparr>ex_nodes := (ex_nodes ?s1)(i \<mapsto> nd\<lparr>n_paused := []\<rparr>), queue := queue ?s1\<rparr>"
    have c: "exec_inv E run {} (set (n_paused nd)) ?c"
      using Some by (intro clear_paused_inv conjunct1 [OF 1]) simp_all
    have "exec_inv E run {} (set (n_paused nd)) ?s2"
      using nd' by (intro repoint_inv [OF c, of i "nd\<lparr>n_paused := []\<rparr>" "next_ref s"]) (simp_all, cases nd, simp)
    then show ?thesis by (intro fold_drop_inv [OF assms]) simp
  qed
  moreover have "parked ?s2 n \<Longrightarrow> parked s n" for n by (erule parked_clear) (simp, simp, simp)
  then have "grows s ?s3"
    by (intro grows_trans [OF _ frame_grows [OF frame_fold_drop]]) (simp add: grows_def)
  ultimately have "keeps E run s ?s3" by (simp add: keeps_def)
  from keeps_trans [OF this keeps_kill_info [OF assms]] have 4: "keeps E run s ?s4" .
  have "next_ref s < next_ref ?s4"
  proof -
    have "next_ref ?s3 \<le> next_ref ?s4" by (rule grows_next_ref [OF kill_info_grows])
    moreover have "next_ref ?s2 \<le> next_ref ?s3"
      by (rule grows_next_ref [OF frame_grows [OF frame_fold_drop]])
    ultimately show ?thesis by simp
  qed
  then have "keeps E run s (run_init E (n_init nd) (next_ref s) ?s4)"
    using keeps_trans [OF 4 keeps_run_init [OF assms]] by blast
  then show ?thesis using Some by (simp add: restart_def Let_def ni_def)
qed

lemma keeps_send_ctrl_c: "at_ok E \<Longrightarrow> keeps E run s (snd (send_ctrl_c E i s))"
  by (auto simp: send_ctrl_c_def keeps_kill_id keeps_user_wake split: option.split prod.splits)

lemma run_init_same [simp]:
  "ex_nodes (run_init E init n s) = ex_nodes s" "main_info (run_init E init n s) = main_info s"
  by (cases init; simp add: run_init_def spawn_inner_def new_task_def upd_info_def Let_def)+

lemma keeps_create_node:
  assumes "at_ok E"
  shows "keeps E run s (snd (create_node E b s))"
  unfolding keeps_def
proof
  assume inv: "exec_inv E run {} {} s"
  let ?i = "next_node_id s" and ?n = "next_ref s"
  define ni where "ni = \<lparr>ni_id = ?i, ni_name = b_name b,
                  ni_cores = (case b_cores b of Some c \<Rightarrow> c | None \<Rightarrow> 1),
                  ni_restart_on_panic = b_restart_on_panic b,
                  ni_restart_on_panic_matching = b_restart_on_panic_matching b,
                  ni_paused = False, ni_killed = False, ni_tasks = [], ni_ctrl_c = False\<rparr>"
  define s0 where "s0 = s\<lparr>infos := (infos s)(?n := ni), next_ref := Suc ?n\<rparr>"
  define s1 where "s1 = s0\<lparr>next_node_id := Suc ?i\<rparr>"
  have s1_eq: "s1 = s\<lparr>next_node_id := Suc ?i, next_ref := Suc ?n, infos := (infos s)(?n := ni)\<rparr>"
    by (cases s) (simp add: s1_def s0_def)
  define s2 where "s2 = run_init E (b_init b) ?n s1"
  let ?s3 = "s2\<lparr>ex_nodes := (ex_nodes s2)(?i \<mapsto> \<lparr>n_info = ?n, n_paused = [], n_init = b_init b\<rparr>)\<rparr>"
  have 0: "exec_inv E run {} {} s0" "grows s s0" using alloc_info_inv [OF inv, of ni] by (simp_all add: s0_def)
  have w: "waiting s1 t = waiting s0 t" for t by (simp add: waiting_def s1_def)
  have "table_inv s1" using 0(1) unfolding exec_inv_def table_inv_def s1_def s0_def
    by (auto simp: less_SucI)
  then have 1: "exec_inv E run {} {} s1" using 0(1) w
    by (auto simp: exec_inv_def task_inv_def Let_def s1_def)
  have g1: "grows s0 s1" by (simp add: grows_def s1_def s0_def parked_def)
  have "keeps E run s1 s2" unfolding s2_def by (rule keeps_run_init [OF assms]) (simp add: s1_def s0_def)
  then have 2: "exec_inv E run {} {} s2" "grows s1 s2" using 1 by (simp_all add: keeps_def)
  have fresh: "ex_nodes s2 ?i = None"
    using inv by (auto simp: s2_def s1_def s0_def exec_inv_def table_inv_def intro: ccontr)
  have m2: "?n \<noteq> main_info s2"
    using inv by (auto simp: s2_def s1_def s0_def exec_inv_def table_inv_def)
  have n2: "?n < next_ref s2" "ni_id (infos s2 ?n) = ?i" "?i < next_node_id s2"
    using 2(2) by (auto simp: grows_def s1_def s0_def ni_def)
  have w3: "waiting s2 t \<Longrightarrow> waiting ?s3 t" for t using fresh by (intro waiting_upd [of s2 t ?s3]) auto
  have "table_inv ?s3" using 2(1) n2 m2 by (auto simp: exec_inv_def table_inv_def)
  then have "exec_inv E run {} {} ?s3" using 2(1) w3
    by (auto simp: exec_inv_def task_inv_def Let_def)
  moreover have "parked ?s3 n \<Longrightarrow> parked s2 n" for n by (erule parked_clear) (simp, simp, simp)
  then have "grows s2 ?s3" by (simp add: grows_def)
  then have "grows s ?s3" using 0(2) g1 2(2) grows_trans by blast
  moreover have "snd (create_node E b s) = ?s3"
    using s1_eq by (simp add: create_node_def Let_def s2_def ni_def)
  ultimately show "exec_inv E run {} {} (snd (create_node E b s)) \<and> grows s (snd (create_node E b s))"
    by simp
qed

lemma keeps_build: "at_ok E \<Longrightarrow> keeps E run s (snd (build E b s))"
  unfolding build_def 
  by (simp add: case_prod_beta) (rule keeps_trans [OF keeps_create_node keeps_simps(4)])

paragraph \<open>Time, randomness and calls of user code\<close>

lemma keeps_run_callback: "at_ok E \<Longrightarrow> keeps E run s (snd (run_callback E cb s))"
  by (cases cb) (auto simp: run_callback_def keeps_wake keeps_restart keeps_user_wake split: prod.split)

lemma keeps_run_callbacks: "at_ok E \<Longrightarrow> keeps E run s (snd (run_callbacks E cbs s))"
  by (induction cbs arbitrary: s) (simp_all add: keeps_and_then keeps_run_callback)

lemma keeps_advance_time: "at_ok E \<Longrightarrow> keeps E run s (snd (advance_time E d s))"
  unfolding advance_time_def
  by (auto split: prod.split intro: keeps_trans [OF keeps_simps(2) keeps_run_callbacks])

lemma keeps_draw_range: "keeps E run s (snd (draw_range E lo hi s))"
  by (auto simp: draw_range_def split: res.split)

lemma keeps_exec_call:
  assumes "at_ok E"
  shows "keeps E run s (snd (exec_call E cur c s))"
proof -
  note ok = keeps_wake [OF assms] keeps_cancel [OF assms] keeps_abort [OF assms] keeps_kill_id [OF assms]
    keeps_restart [OF assms] keeps_send_ctrl_c [OF assms] keeps_exit [OF assms] keeps_advance_time [OF assms]
  have sp: "n < next_ref s \<Longrightarrow> keeps E run s (snd (let (t, s) = spawn_inner E n name loc None f s in (Ok (RNat t), s)))"
    for n name loc f
    using keeps_spawn [OF assms, of n s run name loc None f] by (simp add: case_prod_beta)
  have cn: "keeps E run s (snd (and_then (build E b s) (\<lambda>(i, n) s. (Ok (RRef (Some n)), s))))" for b
    by (rule keeps_and_then) (auto simp: keeps_build [OF assms])
  have nt: "keeps E run s (snd (let (k, s) = num_tasks E s in (Ok (RNat k), s)))"
    using keeps_num_tasks [of E run s] by (simp add: case_prod_beta)
  have sl: "keeps E run s (snd (let (r, h) = sleep_poll (tmr E) (WakeTask cur) x (ex_time s)
         in (Ok (RBool (r = Ready ())), s\<lparr>ex_time := h\<rparr>)))" for x
    by (simp add: case_prod_beta)
  show ?thesis
  proof (cases c)
    case (CSpawn n name loc f)
    then show ?thesis using sp [of n name loc f] by (auto simp: exec_call_def)
  qed (use cn nt sl in \<open>simp_all add: exec_call_def keeps_and_then ok keeps_pause keeps_resume keeps_ctrl_c
        keeps_draw_range\<close>)
qed

lemma keeps_run_prog:
  assumes "at_ok E"
  shows "keeps E run s (snd (run_prog E cur p s))"
proof (induction p arbitrary: s)
  case (Return r)
  then show ?case by simp
next
  case (Update f p)
  then show ?case using keeps_trans [OF keeps_simps(1) Update] by simp
next
  case (Read p)
  then show ?case by simp
next
  case (Call c p)
  obtain r s' where e: "exec_call E cur c s = (r, s')" by (cases "exec_call E cur c s")
  then have k: "keeps E run s s'" using keeps_exec_call [OF assms, of run s cur c] by simp
  show ?case
  proof (cases r)
    case (Ok x)
    have "keeps E run s' (snd (run_prog E cur (p x) s'))" by (rule Call) simp
    then show ?thesis using e Ok keeps_trans [OF k] by simp
  qed (use e k in simp_all)
qed

lemma keeps_poll_task:
  assumes "at_ok E"
  shows "keeps E run s (snd (poll_task E t s))"
proof -
  obtain r s' where e: "run_prog E t (w_poll E t) s = (r, s')" by (cases "run_prog E t (w_poll E t) s")
  then have k: "keeps E run s s'" using keeps_run_prog [OF assms, of run s t "w_poll E t"] by simp
  show ?thesis using e k keeps_trans [OF k keeps_exit [OF assms]]
    by (simp add: poll_task_def split: option.split)
qed

paragraph \<open>The scheduling loop\<close>

lemma begin_inv:
  assumes "at_ok E" "exec_inv E None {} {t} s" "alive E s t" "\<not> ni_killed (infos s (node_of s t))"
    "\<not> ti_cancelled (tinfos s t)"
  defines "s' \<equiv> s\<lparr>tasks := at_begin E t (tasks s), polled := polled s @ [t]\<rparr>"
  shows "exec_inv E (Some t) {} {} s' \<and> grows s s'"
proof -
  note law = at_okD(4) [OF assms(1), of t "tasks s", unfolded at_begin_law_def]
  have i: "task_inv E None {} {t} s u" for u using assms(2) by (simp add: exec_inv_def)
  have w: "waiting s' u = waiting s u" for u by (simp add: waiting_def s'_def)
  have "task_inv E (Some t) {} {} s' u" for u
  proof (cases "u = t")
    case True
    then show ?thesis using i [of t] law assms(3-5) by (auto simp: task_inv_def Let_def s'_def)
  next
    case False
    then have "at_same E (tasks s) (at_begin E t (tasks s)) u" using law by simp
    then show ?thesis using i [of u] False w by (auto simp: task_inv_def Let_def s'_def at_same_def)
  qed
  moreover have "table_inv s'" using assms(2) by (simp add: exec_inv_def table_inv_def s'_def)
  moreover have "t < next_task_id s" using i [of t] assms(3) by (simp add: task_inv_def Let_def)
  then have "grows s s'" using assms(4,5) by (simp add: grows_def s'_def parked_def)
  ultimately show ?thesis by (simp add: exec_inv_def)
qed

lemma end_poll_inv:
  assumes "at_ok E" "exec_inv E (Some t) {} {} s"
  shows "exec_inv E None {} {} (end_poll E t r s) \<and> grows s (end_poll E t r s)"
proof -
  obtain resched dropped aw a where x: "at_ran E t r (tasks s) = (resched, dropped, aw, a)"
    by (metis prod_cases4)
  obtain ws u where y: "(if dropped then w_drop E t (user s) else ([], user s)) = (ws, u)" by force
  let ?s = "s\<lparr>tasks := a, user := u, queue := (if resched then push_ready t (queue s) else queue s)\<rparr>"
  note law = at_okD(5) [OF assms(1), of t r "tasks s", unfolded x at_ran_law_def prod.case]
  have i: "task_inv E (Some t) {} {} s v" for v using assms(2) by (simp add: exec_inv_def)
  have f: "frame s ?s" by (simp add: frame_def)
  have w: "waiting s v \<Longrightarrow> waiting ?s v" for v by (rule waiting_mono [OF f]) auto
  have "task_inv E None {} {} ?s v" for v
  proof (cases "v = t")
    case True
    have "resched \<Longrightarrow> waiting ?s t" by (simp add: waiting_def)
    then show ?thesis using i [of t] law True by (auto simp: task_inv_def Let_def)
  next
    case False
    then have "at_same E (tasks s) a v" using law by simp
    then show ?thesis using i [of v] False w by (auto simp: task_inv_def Let_def at_same_def)
  qed
  then have "exec_inv E None {} {} ?s" using assms(2) frame_table [OF f] by (simp add: exec_inv_def)
  moreover have "end_poll E t r s = fold (wake E) (ws @ aw) ?s"
    using x y by (simp add: end_poll_def)
  moreover have "grows s (fold (wake E) (ws @ aw) ?s)"
    by (rule grows_trans [OF frame_grows [OF f] frame_grows [OF frame_fold_wake]])
  ultimately show ?thesis using fold_wake_inv [OF assms(1)] by metis
qed

lemma in_hand_drop:
  assumes "at_ok E" "exec_inv E None {} {t} s"
  shows "exec_inv E None {} {} (drop_runnable E t s) \<and> grows s (drop_runnable E t s)"
  using drop_runnable_inv [OF assms(1), of None "{}" t "{}"] assms(2) frame_grows [OF frame_drop] by auto

lemma run_task_inv:
  assumes "at_ok E" "exec_inv E None {} {t} s" "alive E s t" "\<not> ni_killed (infos s (node_of s t))"
    "\<not> ti_cancelled (tinfos s t)"
  shows "exec_inv E None {} {} (snd (run_task E t s)) \<and> grows s (snd (run_task E t s))"
proof (cases "at_closed E (tasks s) t")
  case True
  then show ?thesis using in_hand_drop [OF assms(1,2)] by (simp add: run_task_def)
next
  case False
  let ?s1 = "s\<lparr>tasks := at_begin E t (tasks s), polled := polled s @ [t]\<rparr>"
  obtain r s2 where p: "poll_task E t ?s1 = (r, s2)" by (cases "poll_task E t ?s1")
  note 1 = begin_inv [OF assms]
  have "keeps E (Some t) ?s1 s2" using keeps_poll_task [OF assms(1), of "Some t" ?s1 t] p by simp
  then have 2: "exec_inv E (Some t) {} {} s2" "grows ?s1 s2" using 1 by (simp_all add: keeps_def)
  have "snd (run_task E t s) = end_poll E t r s2"
    using False p by (simp add: run_task_def Let_def split: poll_result.split)
  then show ?thesis using end_poll_inv [OF assms(1) 2(1), of r] 1 2(2) grows_trans by metis
qed

lemma keeps_on_panic:
  assumes "at_ok E"
  shows "keeps E run s (snd (on_panic E n m s))"
  by (simp add: on_panic_def Let_def keeps_and_then keeps_draw_range keeps_kill_id [OF assms])

lemma keeps_tick: "at_ok E \<Longrightarrow> keeps E run s (snd (tick E s))"
  by (simp add: tick_def keeps_and_then keeps_draw_range keeps_advance_time)

lemma run_runnable_inv:
  assumes "at_ok E" "exec_inv E None {} {t} s"
  shows "exec_inv E None {} {} (snd (run_runnable E t s)) \<and> grows s (snd (run_runnable E t s))"
proof -
  have i: "task_inv E None {} {t} s u" for u using assms(2) by (simp add: exec_inv_def)
  let ?n = "node_of s t"
  have after: "exec_inv E None {} {} s1 \<Longrightarrow> grows s s1 \<Longrightarrow> keeps E None s1 s2 \<Longrightarrow>
      exec_inv E None {} {} s2 \<and> grows s s2" for s1 s2
    using grows_trans by (auto simp: keeps_def)
  consider (dead) "\<not> alive E s t"
    | (drop) "alive E s t" "ti_cancelled (tinfos s t) \<or> ni_killed (infos s ?n)"
    | (pause) "alive E s t" "\<not> ti_cancelled (tinfos s t)" "\<not> ni_killed (infos s ?n)" "ni_paused (infos s ?n)"
    | (run) "alive E s t" "\<not> ti_cancelled (tinfos s t)" "\<not> ni_killed (infos s ?n)" "\<not> ni_paused (infos s ?n)"
    by blast
  then show ?thesis
  proof cases
    case dead
    have "task_inv E None {} {} s u" for u using i [of u] dead by (auto simp: task_inv_def Let_def)
    then show ?thesis using dead assms(2) by (simp add: run_runnable_def exec_inv_def)
  next
    case drop
    then show ?thesis using after [OF _ _ keeps_tick [OF assms(1)]] in_hand_drop [OF assms]
      by (simp add: run_runnable_def Let_def)
  next
    case pause
    show ?thesis
    proof (cases "ex_nodes s (ni_id (infos s ?n))")
      case None
      then show ?thesis using pause in_hand_drop [OF assms] by (simp add: run_runnable_def Let_def)
    next
      case (Some nd)
      let ?i = "ni_id (infos s ?n)"
      let ?s = "s\<lparr>ex_nodes := (ex_nodes s)(?i \<mapsto> nd\<lparr>n_paused := n_paused nd @ [t]\<rparr>)\<rparr>"
      have "t < next_task_id s" using i [of t] pause by (simp add: task_inv_def Let_def)
      then have "table_inv ?s" using assms(2) Some by (auto simp: exec_inv_def table_inv_def)
      moreover have "waiting s u \<or> u = t \<Longrightarrow> waiting ?s u" for u
      proof (cases "u = t")
        case True
        then show ?thesis by (auto simp: waiting_def)
      qed (use Some in \<open>auto intro: waiting_upd [of s u ?s ?i]\<close>)
      then have "task_inv E None {} {} ?s u" for u
        using i [of u] by (auto simp: task_inv_def Let_def)
      ultimately have "exec_inv E None {} {} ?s" by (simp add: exec_inv_def)
      moreover have "parked ?s n \<Longrightarrow> ni_killed (infos s n) \<Longrightarrow> parked s n" for n
        using pause(3) Some by (auto simp: parked_def split: if_splits)
      then have "grows s ?s" by (simp add: grows_def)
      moreover have "run_runnable E t s = (Ok (), ?s)"
        using pause Some by (simp add: run_runnable_def Let_def)
      ultimately show ?thesis by simp
    qed
  next
    case run
    note 1 = run_task_inv [OF assms run(1,3,2)]
    obtain r s1 where r: "run_task E t s = (r, s1)" by (cases "run_task E t s")
    have k: "keeps E None s1 (snd (and_then (on_panic E n m s1) (\<lambda>_. tick E)))" for n m
      by (intro keeps_and_then keeps_on_panic keeps_tick assms(1))
    show ?thesis
      using run r 1 after [OF _ _ k] after [OF _ _ keeps_tick [OF assms(1)]]
      by (cases r) (simp_all add: run_runnable_def Let_def)
  qed
qed

lemma draw_range_bounds:
  assumes "rng_ok (rng E)" "draw_range E lo hi s = (Ok n, s')"
  shows "lo \<le> n \<and> n < hi \<and> queue s' = queue s"
proof -
  have lt: "lo < hi" using assms(2) by (auto simp: draw_range_def split: if_splits)
  then obtain r where r: "rng_with (rng E) (Some (elapsed (clock (ex_time s)))) (gen_range (rng E) lo hi) (ex_rand s) = (Ok (n, r) :: (unit, _) res)"
    "s' = s\<lparr>ex_rand := r\<rparr>"
    using assms(2) by (auto simp: draw_range_def split: res.splits)
  then have "fst (gen_range (rng E) lo hi (rng_state (ex_rand s))) = n"
    by (auto simp: rng_with_def Let_def split: prod.splits if_splits option.splits)
  then show ?thesis using assms(1) lt r(2) by (auto simp: rng_ok_def)
qed

lemma keeps_run_one:
  assumes "at_ok E" "rng_ok (rng E)"
  shows "keeps E None s (snd (run_one E s))"
  unfolding keeps_def
proof
  assume inv: "exec_inv E None {} {} s"
  obtain r s1 where d: "draw_range E 0 (length (queue s)) s = (r, s1)"
    by (cases "draw_range E 0 (length (queue s)) s")
  then have 1: "exec_inv E None {} {} s1" "grows s s1"
    using keeps_draw_range [of E None s 0 "length (queue s)"] inv by (simp_all add: keeps_def)
  show "exec_inv E None {} {} (snd (run_one E s)) \<and> grows s (snd (run_one E s))"
  proof (cases "\<exists>idx. r = Ok idx \<and> queue s1 \<noteq> []")
    case False
    then show ?thesis using d 1 by (cases r) (auto simp: run_one_def try_recv_random_def)
  next
    case True
    then obtain idx where idx: "r = Ok idx" "queue s1 \<noteq> []" by blast
    then have lt: "idx < length (queue s1)" using draw_range_bounds [OF assms(2)] d by fastforce
    let ?t = "queue s1 ! idx" and ?s = "s1\<lparr>queue := swap_remove idx (queue s1)\<rparr>"
    have "waiting s1 u \<Longrightarrow> u = ?t \<or> waiting ?s u" for u
      using set_swap_remove [OF lt] by (auto simp: waiting_def)
    then have "task_inv E None {} {?t} ?s u" for u
      using 1(1) by (auto simp: exec_inv_def task_inv_def Let_def)
    moreover have "table_inv ?s" using 1(1) by (simp add: exec_inv_def table_inv_def)
    ultimately have "exec_inv E None {} {?t} ?s" by (simp add: exec_inv_def)
    from run_runnable_inv [OF assms(1) this] have
      "exec_inv E None {} {} (snd (run_runnable E ?t ?s)) \<and> grows ?s (snd (run_runnable E ?t ?s))" .
    moreover have "grows s ?s" by (rule grows_trans [OF 1(2)]) (simp add: grows_def parked_def)
    moreover have "run_one E s = run_runnable E ?t ?s"
      using d idx by (simp add: run_one_def try_recv_random_def)
    ultimately show ?thesis using grows_trans by auto
  qed
qed

lemma run_all_ready_inv:
  assumes "at_ok E" "rng_ok (rng E)"
  shows "run_all_ready E k s = Some (r, s') \<Longrightarrow> keeps E None s s' \<and> (is_ok r \<longrightarrow> queue s' = [])"
proof (induction k arbitrary: s)
  case 0
  then show ?case by simp
next
  case (Suc k)
  show ?case
  proof (cases "queue s = []")
    case True
    then show ?thesis using Suc.prems by auto
  next
    case False
    obtain x s1 where x: "run_one E s = (x, s1)" by (cases "run_one E s")
    then have k: "keeps E None s s1" using keeps_run_one [OF assms, of s] by simp
    show ?thesis using Suc.prems False x k Suc.IH [of s1] keeps_trans [OF k] by (cases x) auto
  qed
qed

end
