(* ===== verification/TaskProps.thy ===== *)
theory TaskProps
  imports TaskInv
begin

section \<open>Properties of the executor\<close>

text \<open>
  The reachable states of an executor, that they satisfy the invariant of \<open>TaskInv\<close>, and what
  follows: killing and aborting are final and complete, pausing loses nothing, a restart gives a
  fresh node with the old configuration, a task is polled only when it may be, every
  iteration takes time, and a run that cannot go on is detected.
\<close>

subsection \<open>Reachable states\<close>

text \<open>
  The runtime is used from outside (calls), by \<open>block_on\<close> (which pushes its main future), by the
  iterations of the loop and by the jumps in time.
\<close>

definition push_main :: "('a, 'g, 'tm, 'u, 'f, 'k, 's) env \<Rightarrow> 'f \<Rightarrow> ('a, 'g, 'tm, 'u, 'f, 's) exec
    \<Rightarrow> task_id \<times> ('a, 'g, 'tm, 'u, 'f, 's) exec" where
  "push_main E f s =
     (let (t, s) = new_task (main_info s) None ''block_on'' False None s
      in (t, s\<lparr>tasks := at_new E t (tasks s), user := w_spawn E t f (user s), queue := push_ready t (queue s)\<rparr>))"

lemma block_on_push_main:
  "block_on E allow fuel f s = (let (t, s) = push_main E f s in block_loop E allow t fuel s)"
  by (simp add: block_on_def push_main_def Let_def case_prod_beta)

inductive exec_step :: "('a, 'g, 'tm, 'u, 'f, 'k, 's) env \<Rightarrow> ('a, 'g, 'tm, 'u, 'f, 's) exec
    \<Rightarrow> ('a, 'g, 'tm, 'u, 'f, 's) exec \<Rightarrow> bool" for E where
  es_call: "exec_step E s (snd (exec_call E cur c s))"
| es_main: "exec_step E s (snd (push_main E f s))"
| es_run: "queue s \<noteq> [] \<Longrightarrow> exec_step E s (snd (run_one E s))"
| es_time: "advance_to_next_event (tmr E) (ex_time s) = (going, cbs, h) \<Longrightarrow>
     exec_step E s (snd (run_callbacks E cbs (s\<lparr>ex_time := h\<rparr>)))"

inductive exec_reachable :: "('a, 'g, 'tm, 'u, 'f, 'k, 's) env \<Rightarrow> ('a, 'g, 'tm, 'u, 'f, 's) exec \<Rightarrow> bool" for E where
  er_new: "executor_new E a u x r = Ok s \<Longrightarrow> (\<And>t. \<not> at_alive E a t \<and> \<not> at_running E a t) \<Longrightarrow> exec_reachable E s"
| er_step: "exec_reachable E s \<Longrightarrow> exec_step E s s' \<Longrightarrow> exec_reachable E s'"

lemma keeps_push_main: "at_ok E \<Longrightarrow> keeps E run s (snd (push_main E f s))"
  unfolding keeps_def
proof
  assume ok: "at_ok E" and inv: "exec_inv E run {} {} s"
  then have "main_info s < next_ref s" by (simp add: exec_inv_def table_inv_def)
  then show "exec_inv E run {} {} (snd (push_main E f s)) \<and> grows s (snd (push_main E f s))"
    using spawn_core_inv [OF ok inv, where n = "main_info s" and name = None and loc = "''block_on''"
        and w = False and ex = None and u = "w_spawn E (next_task_id s) f (user s)"]
    by (simp add: push_main_def Let_def new_task_def upd_info_def)
qed

lemma exec_step_keeps:
  assumes "exec_step E s s'" "at_ok E" "rng_ok (rng E)"
  shows "keeps E None s s'"
  using assms(1)
proof cases
  case (es_call cur c)
  then show ?thesis by (simp add: keeps_exec_call assms(2))
next
  case (es_main f)
  then show ?thesis by (simp add: keeps_push_main assms(2))
next
  case es_run
  then show ?thesis by (simp add: keeps_run_one assms(2,3))
next
  case (es_time going cbs h)
  then show ?thesis using keeps_trans [OF keeps_simps(2) keeps_run_callbacks [OF assms(2)]] by blast
qed

lemma executor_new_inv:
  assumes "executor_new E a u x r = Ok s" "\<And>t. \<not> at_alive E a t \<and> \<not> at_running E a t"
  shows "exec_inv E None {} {} s"
  using assms by (auto simp: executor_new_def exec_inv_def table_inv_def task_inv_def Let_def)

lemma exec_reachable_inv:
  assumes "exec_reachable E s" "at_ok E" "rng_ok (rng E)"
  shows "exec_inv E None {} {} s"
  using assms(1)
proof induction
  case (er_new a u x r s)
  then show ?case by (rule executor_new_inv)
next
  case (er_step s s')
  then show ?case using exec_step_keeps [OF _ assms(2,3)] by (auto simp: keeps_def)
qed

subsection \<open>Operations that poll nothing\<close>

definition quiet :: "('a, 'g, 'tm, 'u, 'f, 's) exec \<Rightarrow> ('a, 'g, 'tm, 'u, 'f, 's) exec \<Rightarrow> bool" where
  "quiet s s' \<longleftrightarrow> polled s' = polled s \<and> time_limit s' = time_limit s \<and> ex_time s' = ex_time s"

definition later :: "('a, 'g, 'tm, 'u, 'f, 'k, 's) env \<Rightarrow> ('a, 'g, 'tm, 'u, 'f, 's) exec \<Rightarrow> ('a, 'g, 'tm, 'u, 'f, 's) exec \<Rightarrow> bool" where
  "later E s s' \<longleftrightarrow> polled s' = polled s \<and> time_limit s' = time_limit s \<and>
     elapsed (clock (ex_time s)) \<le> elapsed (clock (ex_time s')) \<and>
     (timer_ok (tmr E) \<longrightarrow> time_inv (tmr E) (ex_time s) \<longrightarrow> time_inv (tmr E) (ex_time s'))"

lemma quiet_refl [simp]: "quiet s s" by (simp add: quiet_def)
lemma later_refl [simp]: "later E s s" by (simp add: later_def)
lemma quiet_later: "quiet s s' \<Longrightarrow> later E s s'" by (simp add: quiet_def later_def)
lemma quiet_trans: "quiet s s' \<Longrightarrow> quiet s' s'' \<Longrightarrow> quiet s s''" by (simp add: quiet_def)
lemma later_trans: "later E s s' \<Longrightarrow> later E s' s'' \<Longrightarrow> later E s s''" by (simp add: later_def)

lemma quiet_fold:
  assumes "\<And>x s. quiet s (f x s)"
  shows "quiet s (fold f xs s)"
proof (induction xs arbitrary: s)
  case (Cons x xs)
  then show ?case using quiet_trans [OF assms Cons.IH] by simp
qed simp

lemma quiet_and_then:
  assumes "quiet s (snd m)" "\<And>r s. quiet s (snd (f r s))"
  shows "quiet s (snd (and_then m f))"
proof (cases m)
  case (Pair a b)
  then show ?thesis using assms(1) quiet_trans [OF assms(1) assms(2)] by (cases a) simp_all
qed

lemma later_and_then:
  assumes "later E s (snd m)" "\<And>r s. later E s (snd (f r s))"
  shows "later E s (snd (and_then m f))"
proof (cases m)
  case (Pair a b)
  then show ?thesis using assms(1) later_trans [OF assms(1) assms(2)] by (cases a) simp_all
qed

lemma quiet_updates [simp]:
  "quiet s (s\<lparr>user := u\<rparr>)" "quiet s (s\<lparr>sims := x\<rparr>)" "quiet s (s\<lparr>tasks := a\<rparr>)" "quiet s (s\<lparr>queue := q\<rparr>)"
  "quiet s (s\<lparr>infos := m\<rparr>)" "quiet s (s\<lparr>ex_rand := r\<rparr>)" "quiet s (upd_info n f s)"
  by (simp_all add: quiet_def upd_info_def)

lemma quiet_wake: "quiet s (wake E t s)"
  by (simp add: wake_def quiet_def split: prod.split)

lemma quiet_wake_info: "quiet s (wake_info E t s)"
  by (simp add: wake_info_def quiet_wake)

lemma quiet_fold_wakeI: "quiet s s1 \<Longrightarrow> quiet s (fold (wake E) ts s1)"
  by (erule quiet_trans) (rule quiet_fold [OF quiet_wake])

lemma quiet_fold_wake: "quiet s (fold (wake E) ts (s\<lparr>user := u\<rparr>))"
  by (rule quiet_trans [OF quiet_updates(1) quiet_fold]) (rule quiet_wake)

lemma quiet_drop: "quiet s (drop_runnable E t s)"
proof -
  have "quiet s (s\<lparr>tasks := a, user := u\<rparr>)" for a u by (simp add: quiet_def)
  then show ?thesis unfolding drop_runnable_def Let_def case_prod_beta by (intro quiet_fold_wakeI)
qed

lemma quiet_kill_info: "quiet s (kill_info E n s)"
  unfolding kill_info_def by (rule quiet_trans [OF quiet_updates(7) quiet_fold]) (rule quiet_wake_info)

lemma quiet_exit: "quiet s (exit E n s)"
  by (simp add: exit_def quiet_kill_info)

lemma quiet_spawn: "quiet s (snd (spawn_inner E n name loc ex f s))"
  by (simp add: spawn_inner_def new_task_def upd_info_def Let_def quiet_def)

lemma quiet_run_init: "quiet s (run_init E i n s)"
  by (cases i) (simp_all add: run_init_def quiet_spawn)

lemma quiet_kill_id: "quiet s (snd (kill_id E i s))"
proof (cases "ex_nodes s i")
  case (Some nd)
  have "quiet s (s\<lparr>ex_nodes := m\<rparr>)" for m by (simp add: quiet_def)
  then have "quiet s ((kill_info E n (fold (drop_runnable E) ts (s\<lparr>ex_nodes := m\<rparr>)))\<lparr>sims := x\<rparr>)" for m ts n x
    by (rule quiet_trans [OF quiet_trans [OF quiet_trans [OF _ quiet_fold [OF quiet_drop]] quiet_kill_info]
          quiet_updates(2)])
  then show ?thesis using Some by (simp add: kill_id_def Let_def split: prod.split)
qed (simp add: kill_id_def)

lemma quiet_restart: "quiet s (snd (restart E i s))"
proof (cases "ex_nodes s i")
  case (Some nd)
  have "quiet s (s\<lparr>infos := f, next_ref := r, ex_nodes := m\<rparr>)" for f r m by (simp add: quiet_def)
  then have "quiet s (run_init E init n' (kill_info E n (fold (drop_runnable E) ts (s\<lparr>infos := f, next_ref := r, ex_nodes := m\<rparr>))))"
    for init n' n ts f r m
    by (rule quiet_trans [OF quiet_trans [OF quiet_trans [OF _ quiet_fold [OF quiet_drop]] quiet_kill_info]
          quiet_run_init])
  then show ?thesis using Some by (simp add: restart_def Let_def)
qed (simp add: restart_def)

lemma quiet_node_ops:
  "quiet s (snd (pause i s))" "quiet s (snd (resume i s))" "quiet s (snd (send_ctrl_c E i s))"
  "quiet s (ctrl_c E n s)" "quiet s (cancel E t s)" "quiet s (abort E t s)"
proof -
  show "quiet s (snd (pause i s))" by (simp add: pause_def split: option.split)
  show "quiet s (snd (resume i s))" by (simp add: resume_def quiet_def upd_info_def Let_def split: option.split)
  show "quiet s (snd (send_ctrl_c E i s))"
    by (auto simp: send_ctrl_c_def quiet_kill_id quiet_fold_wake split: option.split prod.split)
  show "quiet s (ctrl_c E n s)" by (simp add: ctrl_c_def quiet_def upd_info_def)
  show "quiet s (cancel E t s)" by (simp add: cancel_def quiet_def split: prod.split)
  have "quiet s (s\<lparr>tinfos := f\<rparr>)" for f by (simp add: quiet_def)
  then show "quiet s (abort E t s)" using quiet_trans [OF _ quiet_wake_info [of _ E t]] by (auto simp: abort_def)
qed

lemma quiet_create_node: "quiet s (snd (create_node E b s))"
proof -
  have "quiet s (s\<lparr>next_node_id := i, next_ref := r, infos := f\<rparr>)" for i r f by (simp add: quiet_def)
  then have "quiet s ((run_init E init n (s\<lparr>next_node_id := i, next_ref := r, infos := f\<rparr>))\<lparr>ex_nodes := m\<rparr>)"
    for init n i r f m
    by (rule quiet_trans [OF quiet_trans [OF _ quiet_run_init]]) (simp add: quiet_def)
  then show ?thesis by (simp add: create_node_def Let_def)
qed

lemma quiet_build: "quiet s (snd (build E b s))"
  unfolding build_def 
  by (simp add: case_prod_beta) (rule quiet_trans [OF quiet_create_node quiet_updates(2)])

lemma quiet_num_tasks: "quiet s (snd (num_tasks E s))"
proof -
  define f where "f = (\<lambda>i (k, s). case ex_nodes s i of
              None \<Rightarrow> (k, s)
            | Some nd \<Rightarrow> (let (m, s') = num_tasks_info E (n_info nd) s in (k + m, s')))"
  have f: "quiet s (snd (f i (k, s)))" for i k s
    by (simp add: f_def num_tasks_info_def Let_def split: option.split)
  have "quiet s (snd (fold f xs (k, s)))" for xs k
  proof (induction xs arbitrary: k s)
    case (Cons i xs)
    then show ?case using quiet_trans [OF f [of s i k]] by (metis fold_simps(2) prod.collapse)
  qed simp
  then show ?thesis by (simp add: num_tasks_def f_def)
qed

lemma quiet_run_callback: "quiet s (snd (run_callback E cb s))"
  by (cases cb) (auto simp: run_callback_def quiet_wake quiet_restart quiet_fold_wake split: prod.split)

lemma quiet_run_callbacks: "quiet s (snd (run_callbacks E cbs s))"
  by (induction cbs arbitrary: s) (simp_all add: quiet_and_then quiet_run_callback)

lemma quiet_draw_range: "quiet s (snd (draw_range E lo hi s))"
  by (auto simp: draw_range_def split: res.split)

lemma advance_time_elapsed:
  "elapsed (clock (ex_time (snd (advance_time E d s)))) = elapsed (clock (ex_time s)) + d"
  "polled (snd (advance_time E d s)) = polled s" "time_limit (snd (advance_time E d s)) = time_limit s"
proof -
  obtain cbs h where t: "time_advance (tmr E) d (ex_time s) = (cbs, h)" by (cases "time_advance (tmr E) d (ex_time s)")
  then have "elapsed (clock h) = elapsed (clock (ex_time s)) + d"
    by (auto simp: time_advance_def clock_defs Let_def split: prod.splits)
  moreover have "quiet (s\<lparr>ex_time := h\<rparr>) (snd (advance_time E d s))"
    using quiet_run_callbacks t by (simp add: advance_time_def)
  ultimately show "elapsed (clock (ex_time (snd (advance_time E d s)))) = elapsed (clock (ex_time s)) + d"
    "polled (snd (advance_time E d s)) = polled s" "time_limit (snd (advance_time E d s)) = time_limit s"
    by (simp_all add: quiet_def)
qed

lemma later_advance_time: "later E s (snd (advance_time E d s))"
proof -
  obtain cbs h where t: "time_advance (tmr E) d (ex_time s) = (cbs, h)" by (cases "time_advance (tmr E) d (ex_time s)")
  have "quiet (s\<lparr>ex_time := h\<rparr>) (snd (advance_time E d s))"
    using quiet_run_callbacks t by (simp add: advance_time_def)
  moreover have "time_step (tmr E) (ex_time s) h" using step_advance [of "tmr E" "ex_time s" d] t by simp
  ultimately show ?thesis using time_step_inv by (auto simp: later_def advance_time_elapsed quiet_def)
qed

lemma later_time_step:
  "time_step (tmr E) (ex_time s) h \<Longrightarrow> elapsed (clock (ex_time s)) \<le> elapsed (clock h) \<Longrightarrow> later E s (s\<lparr>ex_time := h\<rparr>)"
  using time_step_inv by (auto simp: later_def)

lemma later_exec_call: "later E s (snd (exec_call E cur c s))"
proof -
  note q = quiet_later [OF quiet_wake] quiet_later [OF quiet_kill_id] quiet_later [OF quiet_restart]
    quiet_node_ops [THEN quiet_later] quiet_later [OF quiet_exit] quiet_later [OF quiet_draw_range]
  have 1: "later E s (snd (let (t, s) = spawn_inner E n name loc None f s in (Ok (RNat t), s)))" for n name loc f
    using quiet_later [OF quiet_spawn] by (simp add: case_prod_beta)
  have 2: "later E s (snd (and_then (build E b s) (\<lambda>(i, n) s. (Ok (RRef (Some n)), s))))" for b
    by (rule later_and_then) (auto intro: quiet_later [OF quiet_build] quiet_later)
  have 3: "later E s (snd (let (k, s) = num_tasks E s in (Ok (RNat k), s)))"
    using quiet_later [OF quiet_num_tasks] by (simp add: case_prod_beta)
  have 4: "later E s (snd (let (r, h) = sleep_poll (tmr E) (WakeTask cur) x (ex_time s)
         in (Ok (RBool (r = Ready ())), s\<lparr>ex_time := h\<rparr>)))" for x
    using later_time_step [OF step_sleep [of "tmr E" "ex_time s" "WakeTask cur" x]]
    by (simp add: case_prod_beta sleep_poll_def add_timer_at_def)
  have 5: "later E s (s\<lparr>ex_time := add_timer (tmr E) d cb (ex_time s)\<rparr>)" for d cb
    using later_time_step [OF step_add [of "tmr E" "ex_time s" d cb]] by (simp add: add_timer_def add_timer_at_def)
  show ?thesis
  proof (cases c)
    case (CSpawn n name loc f)
    then show ?thesis using 1 [of n name loc f] by (auto simp: exec_call_def)
  qed (use 2 3 4 5 in \<open>simp_all add: exec_call_def later_and_then q later_advance_time\<close>)
qed

lemma later_run_prog: "later E s (snd (run_prog E cur p s))"
proof (induction p arbitrary: s)
  case (Update f p)
  then show ?case using later_trans [OF quiet_later [OF quiet_updates(1)] Update] by simp
next
  case (Call c p)
  obtain r s' where e: "exec_call E cur c s = (r, s')" by (cases "exec_call E cur c s")
  then have k: "later E s s'" using later_exec_call [of E s cur c] by simp
  show ?case
  proof (cases r)
    case (Ok x)
    have "later E s' (snd (run_prog E cur (p x) s'))" by (rule Call) simp
    then show ?thesis using e Ok later_trans [OF k] by simp
  qed (use e k in simp_all)
qed simp_all

lemma later_poll_task: "later E s (snd (poll_task E t s))"
proof -
  obtain r s' where e: "run_prog E t (w_poll E t) s = (r, s')" by (cases "run_prog E t (w_poll E t) s")
  then have k: "later E s s'" using later_run_prog [of E s t "w_poll E t"] by simp
  show ?thesis using e k later_trans [OF k quiet_later [OF quiet_exit [of _ E]]]
    by (simp add: poll_task_def split: option.split)
qed

lemma quiet_end_poll: "quiet s (end_poll E t r s)"
proof -
  have "quiet s (s\<lparr>tasks := a, user := u, queue := q\<rparr>)" for a u q by (simp add: quiet_def)
  then show ?thesis unfolding end_poll_def Let_def case_prod_beta by (intro quiet_fold_wakeI)
qed

subsection \<open>A small environment\<close>

text \<open>The bits of \<open>async_task\<close> written out, futures that never finish, and no user state.\<close>

record at_bits =
  bit_alive :: bool
  bit_sched :: bool
  bit_running :: bool
  bit_closed :: bool

definition demo_env :: "(task_id \<Rightarrow> at_bits, nat, (duration \<times> unit callback) list, unit, nat, unit, unit) env" where
  "demo_env = \<lparr>rng = const_rng, tmr = list_timer,
     at_new = (\<lambda>t a. a(t := \<lparr>bit_alive = True, bit_sched = True, bit_running = False, bit_closed = False\<rparr>)),
     at_alive = (\<lambda>a t. bit_alive (a t)), at_sched = (\<lambda>a t. bit_sched (a t)),
     at_running = (\<lambda>a t. bit_running (a t)), at_closed = (\<lambda>a t. bit_closed (a t)),
     at_has_output = (\<lambda>a t. \<not> bit_closed (a t)), at_finished = (\<lambda>a t. \<not> bit_alive (a t)),
     at_wake = (\<lambda>t a. if bit_alive (a t) \<and> \<not> bit_closed (a t)
        then (\<not> bit_sched (a t) \<and> \<not> bit_running (a t), a(t := (a t)\<lparr>bit_sched := True\<rparr>)) else (False, a)),
     at_cancel = (\<lambda>t a. if bit_alive (a t)
        then (\<not> bit_sched (a t) \<and> \<not> bit_running (a t),
              a(t := (a t)\<lparr>bit_closed := True, bit_sched := bit_sched (a t) \<or> \<not> bit_running (a t)\<rparr>)) else (False, a)),
     at_begin = (\<lambda>t a. a(t := (a t)\<lparr>bit_running := True, bit_sched := False\<rparr>)),
     at_ran = (\<lambda>t r a. let d = (r \<noteq> NotReady \<or> bit_closed (a t)) in
        (\<not> d \<and> bit_sched (a t), d, [], a(t := (a t)\<lparr>bit_running := False, bit_alive := bit_alive (a t) \<and> \<not> d\<rparr>))),
     at_drop = (\<lambda>t a. ([], a(t := (a t)\<lparr>bit_alive := False\<rparr>))),
     w_spawn = (\<lambda>t f u. u), w_poll = (\<lambda>t. Return NotReady), w_drop = (\<lambda>t u. ([], u)), w_timer = (\<lambda>k u. ([], u)),
     w_subscribe = (\<lambda>n u. u), w_ctrl_c = (\<lambda>n u. ([], u)),
     sims_create_node = (\<lambda>i a x. (Ok (), x)), sims_reset_node = (\<lambda>i x. (Ok (), x))\<rparr>"

lemma demo_at_ok: "at_ok demo_env"
  by (simp add: at_ok_def at_laws at_same_def demo_env_def Let_def) blast

lemma demo_rng_ok: "rng_ok (rng demo_env)"
  by (simp add: demo_env_def const_rng_ok)

lemma demo_env_sel:
  "rng demo_env = const_rng" "tmr demo_env = list_timer"
  "at_new demo_env t a = a(t := \<lparr>bit_alive = True, bit_sched = True, bit_running = False, bit_closed = False\<rparr>)"
  "at_alive demo_env a t = bit_alive (a t)" "at_closed demo_env a t = bit_closed (a t)"
  "at_finished demo_env a t = (\<not> bit_alive (a t))" "at_has_output demo_env a t = (\<not> bit_closed (a t))"
  "at_wake demo_env t a = (if bit_alive (a t) \<and> \<not> bit_closed (a t)
     then (\<not> bit_sched (a t) \<and> \<not> bit_running (a t), a(t := (a t)\<lparr>bit_sched := True\<rparr>)) else (False, a))"
  "at_begin demo_env t a = a(t := (a t)\<lparr>bit_running := True, bit_sched := False\<rparr>)"
  "at_ran demo_env t NotReady a = (\<not> bit_closed (a t) \<and> bit_sched (a t), bit_closed (a t), [],
     a(t := (a t)\<lparr>bit_running := False, bit_alive := bit_alive (a t) \<and> \<not> bit_closed (a t)\<rparr>))"
  "at_drop demo_env t a = ([], a(t := (a t)\<lparr>bit_alive := False\<rparr>))"
  "w_spawn demo_env t f u = u" "w_poll demo_env t = Return NotReady" "w_drop demo_env t u = ([], u)"
  "sims_create_node demo_env i ip x = (Ok (), x)" "sims_reset_node demo_env i x = (Ok (), x)"
  by (simp_all add: demo_env_def)

definition demo_builder :: "nat node_builder" where
  "demo_builder = \<lparr>b_name = Some ''a'', b_ip = None, b_cores = None, b_init = Some 7, b_restart_on_panic = False,
     b_restart_on_panic_matching = []\<rparr>"

definition demo_new :: "(task_id \<Rightarrow> at_bits, nat, (duration \<times> unit callback) list, unit, nat, unit) exec" where
  "demo_new = (case executor_new demo_env
      (\<lambda>_. \<lparr>bit_alive = False, bit_sched = False, bit_running = False, bit_closed = False\<rparr>) () ()
      (new_with_seed const_rng 1) of Ok s \<Rightarrow> s)"

text \<open>One node, with its initial task.\<close>

definition demo_node :: "(task_id \<Rightarrow> at_bits, nat, (duration \<times> unit callback) list, unit, nat, unit) exec" where
  "demo_node = snd (exec_call demo_env 0 (CCreateNode demo_builder) demo_new)"

lemma const_rng_sel:
  "gen_range const_rng lo hi g = (lo, Suc g)" "seed_from_u64 const_rng x = unat x" "gen_bool const_rng p g = (p = 1, Suc g)"
  by (simp_all add: const_rng_def)

lemma list_timer_sel:
  "tm_default list_timer = []" "tm_add list_timer d c t = (d, c) # t" "tm_next list_timer [] = None"
  "tm_expire list_timer now [] = ([], [])"
  by (simp_all add: list_timer_def)

lemmas demo_sel = demo_env_sel const_rng_sel list_timer_sel

lemma demo_node_eq:
  "demo_node = \<lparr>queue = [0], ex_nodes = [1 \<mapsto> \<lparr>n_info = 1, n_paused = [], n_init = Some 7\<rparr>], next_node_id = 2,
     infos = (\<lambda>_. \<lparr>ni_id = 0, ni_name = Some ''madsim-main'', ni_cores = 1, ni_restart_on_panic = False,
          ni_restart_on_panic_matching = [], ni_paused = False, ni_killed = False, ni_tasks = [], ni_ctrl_c = False\<rparr>)
       (1 := \<lparr>ni_id = 1, ni_name = Some ''a'', ni_cores = 1, ni_restart_on_panic = False,
          ni_restart_on_panic_matching = [], ni_paused = False, ni_killed = False, ni_tasks = [0], ni_ctrl_c = False\<rparr>),
     next_ref = 2, main_info = 0,
     tinfos = (\<lambda>_. \<lparr>ti_name = None, ti_node = 0, ti_location = [], ti_has_waker = False,
          ti_cancelled = False, ti_then_exit = None\<rparr>)
       (0 := \<lparr>ti_name = None, ti_node = 1, ti_location = ''init'', ti_has_waker = True, ti_cancelled = False,
          ti_then_exit = Some 1\<rparr>),
     next_task_id = 1,
     ex_rand = \<lparr>rng_seed = 1, rng_state = 2, rng_log = None, rng_check = None, rng_buggify = False\<rparr>,
     ex_time = \<lparr>timer = [], clock = \<lparr>base_time = 1639872000000000000, base_instant = 0, advance = 0\<rparr>\<rparr>,
     time_limit = None, sims = (),
     tasks = (\<lambda>_. \<lparr>bit_alive = False, bit_sched = False, bit_running = False, bit_closed = False\<rparr>)
       (0 := \<lparr>bit_alive = True, bit_sched = True, bit_running = False, bit_closed = False\<rparr>),
     user = (), polled = []\<rparr>"
  by (simp add: demo_sel demo_builder_def demo_new_def demo_node_def executor_new_def
      time_runtime_new_def new_with_seed_def rng_with_def Let_def clock_new_def channel_def
      exec_call_def build_def create_node_def run_init_def spawn_inner_def new_task_def upd_info_def push_ready_def send_def
      numeral_2_eq_2)

text \<open>What evaluates the operations on concrete states of this environment.\<close>

lemmas demo_eval = demo_sel kill_id_def kill_info_def wake_info_def wake_def upd_info_def Let_def numeral_2_eq_2 numeral_3_eq_3
  run_one_def draw_range_def rng_with_def try_recv_random_def run_runnable_def swap_remove_def drop_runnable_def
  tick_def advance_time_def time_advance_def clock_advance_def abort_def run_task_def poll_task_def end_poll_def
  pause_def resume_def push_ready_def send_def

lemma demo_new_reachable: "exec_reachable demo_env demo_new"
proof -
  have "\<exists>s. executor_new demo_env
      (\<lambda>_. \<lparr>bit_alive = False, bit_sched = False, bit_running = False, bit_closed = False\<rparr>) () ()
      (new_with_seed const_rng 1) = Ok s"
    by (simp add: demo_env_def executor_new_def time_runtime_new_def const_rng_def new_with_seed_def
        rng_with_def)
  then obtain s where s: "executor_new demo_env
      (\<lambda>_. \<lparr>bit_alive = False, bit_sched = False, bit_running = False, bit_closed = False\<rparr>) () ()
      (new_with_seed const_rng 1) = Ok s" by blast
  have "exec_reachable demo_env s" by (rule er_new [OF s]) (simp add: demo_env_def)
  then show ?thesis using s by (simp add: demo_new_def)
qed

lemma demo_node_reachable: "exec_reachable demo_env demo_node"
  unfolding demo_node_def by (rule er_step [OF demo_new_reachable es_call])

subsection \<open>Killing is final and complete\<close>

lemma kill_info_killed: "ni_killed (infos (kill_info E n s) n)"
proof -
  have "infos (kill_info E n s) = infos (upd_info n (\<lambda>i. i\<lparr>ni_killed := True, ni_tasks := []\<rparr>) s)"
    using frame_fold_wake_info [of "upd_info n (\<lambda>i. i\<lparr>ni_killed := True, ni_tasks := []\<rparr>) s" E "ni_tasks (infos s n)"]
    by (simp add: kill_info_def frame_def)
  then show ?thesis by (simp add: upd_info_def)
qed

lemma ex_nodes_kill_info [simp]: "ex_nodes (kill_info E n s) = ex_nodes s"
  using frame_fold_wake_info [of "upd_info n (\<lambda>i. i\<lparr>ni_killed := True, ni_tasks := []\<rparr>) s" E "ni_tasks (infos s n)"]
  by (simp add: kill_info_def frame_def upd_info_def)

lemma ex_nodes_fold_drop [simp]: "ex_nodes (fold (drop_runnable E) ts s) = ex_nodes s"
  using frame_fold_drop [of s E ts] by (simp add: frame_def)

lemma kill_id_after:
  assumes "ex_nodes s i = Some nd" "kill_id E i s = (r, s')"
  shows "ni_killed (infos s' (n_info nd))" "ex_nodes s' = (ex_nodes s)(i \<mapsto> nd\<lparr>n_paused := []\<rparr>)"
proof -
  obtain x where "s' = (kill_info E (n_info nd) (fold (drop_runnable E) (n_paused nd)
      (s\<lparr>ex_nodes := (ex_nodes s)(i \<mapsto> nd\<lparr>n_paused := []\<rparr>)\<rparr>)))\<lparr>sims := x\<rparr>"
    using assms by (auto simp: kill_id_def Let_def split: prod.splits)
  then show "ni_killed (infos s' (n_info nd))" "ex_nodes s' = (ex_nodes s)(i \<mapsto> nd\<lparr>n_paused := []\<rparr>)"
    by (simp_all add: kill_info_killed)
qed

text \<open>When nothing is ready and nothing is run, an alive task of a killed node is parked.\<close>

lemma drained_alive:
  assumes "exec_inv E None {} {} s" "queue s = []" "alive E s t" "ti_has_waker (tinfos s t)"
    "ni_killed (infos s (node_of s t)) \<or> ti_cancelled (tinfos s t)"
  shows "\<exists>i nd. ex_nodes s i = Some nd \<and> t \<in> set (n_paused nd)"
proof -
  have "task_inv E None {} {} s t" using assms(1) by (simp add: exec_inv_def)
  then have "waiting s t" using assms(3-5) by (auto simp: task_inv_def Let_def)
  then show ?thesis using assms(2) by (simp add: waiting_def)
qed



subsection \<open>Aborting a task\<close>

lemma cancelled_final:
  assumes "at_ok E" "rng_ok (rng E)" "exec_inv E None {} {} s" "t < next_task_id s" "ti_cancelled (tinfos s t)" "ti_has_waker (tinfos s t)"
    and "run_all_ready E k s = Some (Ok (), s2)"
  shows "(\<exists>ps. polled s2 = polled s @ ps \<and> t \<notin> set ps) \<and>
         (at_alive E (tasks s2) t \<longrightarrow> (\<exists>i nd. ex_nodes s2 i = Some nd \<and> t \<in> set (n_paused nd)))"
proof -
  have q: "queue s2 = []" and "keeps E None s s2" using run_all_ready_inv [OF assms(1,2,7)] by simp_all
  then have inv2: "exec_inv E None {} {} s2" and g: "grows s s2" using assms(3) by (simp_all add: keeps_def)
  have c2: "ti_cancelled (tinfos s2 t)" "ti_has_waker (tinfos s2 t)" using g assms(4-6) by (simp_all add: grows_def)
  have "\<exists>ps. polled s2 = polled s @ ps \<and> t \<notin> set ps" using g assms(4,5) by (fastforce simp: grows_def)
  then show ?thesis using drained_alive [OF inv2 q _ c2(2)] c2(1) by blast
qed



subsection \<open>What an iteration does\<close>

lemma run_task_effect:
  "elapsed (clock (ex_time s)) \<le> elapsed (clock (ex_time (snd (run_task E t s)))) \<and>
   time_limit (snd (run_task E t s)) = time_limit s \<and>
   polled (snd (run_task E t s)) = (if at_closed E (tasks s) t then polled s else polled s @ [t])"
proof (cases "at_closed E (tasks s) t")
  case True
  then show ?thesis using quiet_drop [of s E t] by (simp add: run_task_def quiet_def)
next
  case False
  let ?s1 = "s\<lparr>tasks := at_begin E t (tasks s), polled := polled s @ [t]\<rparr>"
  obtain r s2 where p: "poll_task E t ?s1 = (r, s2)" by (cases "poll_task E t ?s1")
  then have "later E ?s1 (end_poll E t r s2)"
    using later_trans [OF later_poll_task [of E ?s1 t] quiet_later [OF quiet_end_poll [of _ E]]] by simp
  moreover have "snd (run_task E t s) = end_poll E t r s2"
    using False p by (simp add: run_task_def Let_def split: poll_result.split)
  ultimately show ?thesis using False by (simp add: later_def)
qed

lemma tick_effect:
  assumes "rng_ok (rng E)" "tick E s = (r, s')"
  shows "polled s' = polled s \<and> time_limit s' = time_limit s \<and> elapsed (clock (ex_time s)) \<le> elapsed (clock (ex_time s')) \<and>
    (is_ok r \<longrightarrow> elapsed (clock (ex_time s)) + 50 \<le> elapsed (clock (ex_time s')) \<and>
       elapsed (clock (ex_time s')) < elapsed (clock (ex_time s)) + 100)"
proof -
  obtain x s1 where d: "draw_range E 50 100 s = (x, s1)" by (cases "draw_range E 50 100 s")
  then have q: "quiet s s1" using quiet_draw_range [of s E 50 100] by simp
  show ?thesis
  proof (cases x)
    case (Ok n)
    then have "50 \<le> n \<and> n < 100" using draw_range_bounds [OF assms(1)] d by blast
    moreover have "s' = snd (advance_time E n s1)" using assms(2) d Ok by (simp add: tick_def)
    ultimately show ?thesis using q advance_time_elapsed [of E n s1] by (simp add: quiet_def)
  qed (use assms(2) d q in \<open>auto simp: tick_def quiet_def\<close>)
qed

lemma quiet_on_panic: "later E s (snd (on_panic E n m s))"
proof -
  have t: "later E s (s\<lparr>ex_time := add_timer (tmr E) d cb (ex_time s)\<rparr>)" for d cb and s
    using later_time_step [OF step_add [of "tmr E" "ex_time s" d cb]] by (simp add: add_timer_def add_timer_at_def)
  show ?thesis
    by (simp add: on_panic_def Let_def later_and_then quiet_later [OF quiet_draw_range]
        quiet_later [OF quiet_kill_id] t)
qed

lemma run_runnable_effect:
  assumes "rng_ok (rng E)" "run_runnable E t s = (r, s')"
  shows "elapsed (clock (ex_time s)) \<le> elapsed (clock (ex_time s')) \<and> time_limit s' = time_limit s \<and>
    (polled s' = polled s \<or>
     polled s' = polled s @ [t] \<and> at_alive E (tasks s) t \<and> \<not> ti_cancelled (tinfos s t) \<and>
     \<not> ni_killed (infos s (node_of s t)) \<and> \<not> ni_paused (infos s (node_of s t)) \<and>
     (is_ok r \<longrightarrow> elapsed (clock (ex_time s)) + 50 \<le> elapsed (clock (ex_time s'))))"
proof -
  let ?n = "node_of s t"
  consider (dead) "\<not> alive E s t"
    | (drop) "alive E s t" "ti_cancelled (tinfos s t) \<or> ni_killed (infos s ?n)"
    | (pause) "alive E s t" "\<not> ti_cancelled (tinfos s t)" "\<not> ni_killed (infos s ?n)" "ni_paused (infos s ?n)"
    | (run) "alive E s t" "\<not> ti_cancelled (tinfos s t)" "\<not> ni_killed (infos s ?n)" "\<not> ni_paused (infos s ?n)"
    by blast
  then show ?thesis
  proof cases
    case dead
    then show ?thesis using assms(2) by (auto simp: run_runnable_def)
  next
    case drop
    then have "tick E (drop_runnable E t s) = (r, s')" using assms(2) by (simp add: run_runnable_def Let_def)
    from tick_effect [OF assms(1) this] show ?thesis using quiet_drop [of s E t] by (simp add: quiet_def)
  next
    case pause
    then have "s' = drop_runnable E t s \<or> (\<exists>m. s' = s\<lparr>ex_nodes := m\<rparr>)"
      using assms(2) by (auto simp: run_runnable_def Let_def split: option.splits)
    then have "quiet s s'" using quiet_drop [of s E t] by (auto simp: quiet_def)
    then show ?thesis by (simp add: quiet_def)
  next
    case run
    obtain x s1 where x: "run_task E t s = (x, s1)" by (cases "run_task E t s")
    then have e: "elapsed (clock (ex_time s)) \<le> elapsed (clock (ex_time s1))" "time_limit s1 = time_limit s"
      "polled s1 = polled s \<or> polled s1 = polled s @ [t]"
      using run_task_effect [of s E t] by (auto split: if_splits)
    have "\<exists>s2. later E s1 s2 \<and> (tick E s2 = (r, s') \<or> s' = s2 \<and> \<not> is_ok r)"
    proof (cases x)
      case (Panic m)
      obtain y s2 where y: "on_panic E ?n m s1 = (y, s2)" by (cases "on_panic E ?n m s1")
      then have "later E s1 s2" using quiet_on_panic [of E s1 ?n m] by simp
      then show ?thesis using assms(2) run x y Panic
        by (cases y) (auto simp: run_runnable_def Let_def)
    qed (use assms(2) run x in \<open>auto simp: run_runnable_def Let_def intro!: exI [of _ s1]\<close>)
    then obtain s2 where "later E s1 s2" "tick E s2 = (r, s') \<or> s' = s2 \<and> \<not> is_ok r" by blast
    then show ?thesis using run e tick_effect [OF assms(1), of s2 r s'] by (auto simp: later_def)
  qed
qed

lemma run_one_cases:
  assumes "rng_ok (rng E)" "queue s \<noteq> []" "run_one E s = (r, s')"
  obtains (draw_panic) "quiet s s'" "\<not> is_ok r"
  | (popped) idx s1 where "idx < length (queue s)" "quiet s s1" "run_runnable E (queue s ! idx) (s1\<lparr>queue := swap_remove idx (queue s)\<rparr>) = (r, s')"
      "tasks s1 = tasks s" "tinfos s1 = tinfos s" "infos s1 = infos s" "queue s1 = queue s"
proof -
  obtain x s1 where d: "draw_range E 0 (length (queue s)) s = (x, s1)" by (cases "draw_range E 0 (length (queue s)) s")
  then have q: "quiet s s1" using quiet_draw_range [of s E 0 "length (queue s)"] by simp
  show ?thesis
  proof (cases x)
    case (Ok idx)
    have "s1 = s\<lparr>ex_rand := ex_rand s1\<rparr>" using d Ok by (auto simp: draw_range_def split: if_splits res.splits)
    then have same: "tasks s1 = tasks s" "tinfos s1 = tinfos s" "infos s1 = infos s" "queue s1 = queue s"
      by (metis exec.select_convs exec.update_convs(9) exec.surjective)+
    have "idx < length (queue s)" using draw_range_bounds [OF assms(1)] d Ok by blast
    then show ?thesis using popped [of idx s1] q same assms(2,3) d Ok
      by (simp add: run_one_def try_recv_random_def)
  qed (use assms(3) d q draw_panic in \<open>auto simp: run_one_def\<close>)
qed

text \<open>
  C5: what the loop polls.  An iteration polls at most one task, and only one that was in the ready
  queue, is alive, is not aborted, and whose node is neither killed nor paused at that moment.
\<close>

theorem run_one_polls:
  assumes "rng_ok (rng E)" "queue s \<noteq> []" "run_one E s = (r, s')"
  shows "polled s' = polled s \<or>
    (\<exists>t \<in> set (queue s). polled s' = polled s @ [t] \<and> at_alive E (tasks s) t \<and> \<not> ti_cancelled (tinfos s t) \<and>
       \<not> ni_killed (infos s (ti_node (tinfos s t))) \<and> \<not> ni_paused (infos s (ti_node (tinfos s t))))"
  using assms
proof (cases rule: run_one_cases)
  case draw_panic
  then show ?thesis by (simp add: quiet_def)
next
  case (popped idx s1)
  then show ?thesis using run_runnable_effect [OF assms(1) popped(3)] nth_mem [OF popped(1)]
    by (auto simp: quiet_def)
qed

theorem run_one_polls_witness:
  "queue demo_node = [0] \<and> polled demo_node = [] \<and> polled (snd (run_one demo_env demo_node)) = [0] \<and>
   at_alive demo_env (tasks demo_node) 0 \<and> \<not> ni_paused (infos demo_node (ti_node (tinfos demo_node 0)))"
proof -
  have q: "queue demo_node \<noteq> []" by (simp add: demo_node_eq)
  have "polled (snd (run_one demo_env demo_node)) = [0]" by (simp add: demo_node_eq demo_eval)
  then show ?thesis using run_one_polls [OF demo_rng_ok q prod.collapse [symmetric]]
    by (simp add: demo_node_eq)
qed

text \<open>
  Simulated time passes with the work done.  In a run of the loop, every poll takes at
  least 50 ns of simulated time, whatever user code does; so within a time limit only finitely
  many polls happen, and a task that wakes itself for ever cannot stop the clock.
\<close>

theorem polls_take_time:
  assumes "rng_ok (rng E)" "run_all_ready E k s = Some (Ok (), s')"
  shows "\<exists>ps. polled s' = polled s @ ps \<and>
           elapsed (clock (ex_time s)) + 50 * length ps \<le> elapsed (clock (ex_time s'))"
  using assms(2)
proof (induction k arbitrary: s)
  case 0
  then show ?case by simp
next
  case (Suc k)
  show ?case
  proof (cases "queue s = []")
    case True
    then show ?thesis using Suc.prems by simp
  next
    case False
    obtain x s1 where x: "run_one E s = (x, s1)" by (cases "run_one E s")
    then have ok: "is_ok x" and r: "run_all_ready E k s1 = Some (Ok (), s')"
      using Suc.prems False by (cases x; simp)+
    obtain qs where qs: "polled s1 = polled s @ qs"
      "elapsed (clock (ex_time s)) + 50 * length qs \<le> elapsed (clock (ex_time s1))"
      using assms(1) False x
    proof (cases rule: run_one_cases)
      case draw_panic
      then show ?thesis using ok by simp
    next
      case (popped idx s0)
      then show ?thesis using run_runnable_effect [OF assms(1) popped(3)] ok that [of "[]"] that [of "[queue s ! idx]"]
        by (auto simp: quiet_def)
    qed
    obtain ps where "polled s' = polled s1 @ ps"
      "elapsed (clock (ex_time s1)) + 50 * length ps \<le> elapsed (clock (ex_time s'))"
      using Suc.IH [OF r] by blast
    then show ?thesis using qs by (intro exI [of _ "qs @ ps"]) simp
  qed
qed

theorem polls_take_time_witness:
  "\<exists>s'. run_all_ready demo_env 2 demo_node = Some (Ok (), s') \<and> polled s' = [0] \<and>
     50 \<le> elapsed (clock (ex_time s'))"
proof -
  obtain s' where s': "run_all_ready demo_env 2 demo_node = Some (Ok (), s')" "polled s' = [0]"
    by (simp add: demo_node_eq demo_eval)
  then show ?thesis using polls_take_time [OF demo_rng_ok s'(1)] by (auto simp: demo_node_eq)
qed

subsection \<open>Pausing and resuming\<close>

lemma mset_fold_push_ready [simp]: "mset (fold push_ready ts q) = mset ts + mset q"
  by (induction ts arbitrary: q) (simp_all add: push_ready_def send_def)



subsection \<open>Creating and restarting nodes\<close>

lemma infos_fold_drop [simp]:
  "infos (fold (drop_runnable E) ts s) = infos s" "next_task_id (fold (drop_runnable E) ts s) = next_task_id s"
  "tinfos (fold (drop_runnable E) ts s) = tinfos s" "next_ref (fold (drop_runnable E) ts s) = next_ref s"
  using frame_fold_drop [of s E ts] by (simp_all add: frame_def)

lemma infos_kill_info:
  "infos (kill_info E n s) = (infos s)(n := (infos s n)\<lparr>ni_killed := True, ni_tasks := []\<rparr>)"
  "next_task_id (kill_info E n s) = next_task_id s" "tinfos (kill_info E n s) = tinfos s"
  "next_ref (kill_info E n s) = next_ref s"
  using frame_fold_wake_info [of "upd_info n (\<lambda>i. i\<lparr>ni_killed := True, ni_tasks := []\<rparr>) s" E "ni_tasks (infos s n)"]
  by (simp_all add: kill_info_def frame_def upd_info_def)

text \<open>
  A restart gives a fresh instance of the node.  The node has a new \<open>NodeInfo\<close> with the id, name,
  cores and restart policy of the old one, neither paused nor killed, without ctrl-c handler and with
  nothing waiting; the old one is killed for good; its initial task, if it has one, is spawned
  once, as the only task of the new instance, and is ready; other nodes are untouched.
\<close>

theorem restart_fresh:
  assumes "at_ok E" "rng_ok (rng E)" "exec_reachable E s" "ex_nodes s i = Some nd"
  shows "\<exists>s' n. restart E i s = (Ok (), s') \<and> n = next_ref s \<and>
    ex_nodes s' = (ex_nodes s)(i \<mapsto> nd\<lparr>n_info := n, n_paused := []\<rparr>) \<and>
    ni_killed (infos s' (n_info nd)) \<and>
    (let old = infos s (n_info nd); new = infos s' n; t = next_task_id s in
       ni_id new = i \<and> ni_name new = ni_name old \<and> ni_cores new = ni_cores old \<and>
       ni_restart_on_panic new = ni_restart_on_panic old \<and>
       ni_restart_on_panic_matching new = ni_restart_on_panic_matching old \<and>
       \<not> ni_paused new \<and> \<not> ni_killed new \<and> \<not> ni_ctrl_c new \<and>
       (case n_init nd of
          None \<Rightarrow> ni_tasks new = [] \<and> next_task_id s' = t
        | Some f \<Rightarrow> ni_tasks new = [t] \<and> next_task_id s' = Suc t \<and> ti_node (tinfos s' t) = n \<and>
            t \<in> set (queue s') \<and> at_alive E (tasks s') t)) \<and>
    (\<forall>m. m \<noteq> n \<longrightarrow> m \<noteq> n_info nd \<longrightarrow> infos s' m = infos s m)"
proof -
  have "n_info nd < next_ref s"
    using exec_reachable_inv [OF assms(3,1,2)] assms(4) table_inv_node(1) by (auto simp: exec_inv_def)
  then show ?thesis using assms(4) at_okD(1) [OF assms(1)]
    by (cases "n_init nd")
      (simp_all add: restart_def Let_def run_init_def infos_kill_info spawn_inner_def new_task_def
        upd_info_def at_new_law_def)
qed

theorem restart_fresh_witness:
  "\<exists>s'. ex_nodes demo_node 1 = Some \<lparr>n_info = 1, n_paused = [], n_init = Some 7\<rparr> \<and>
     restart demo_env 1 demo_node = (Ok (), s') \<and> ni_tasks (infos s' 2) = [1] \<and> ni_name (infos s' 2) = Some ''a'' \<and>
     ni_killed (infos s' 1)"
proof -
  have nd: "ex_nodes demo_node 1 = Some \<lparr>n_info = 1, n_paused = [], n_init = Some 7\<rparr>"
    by (simp add: demo_node_eq)
  have "next_ref demo_node = 2" "next_task_id demo_node = 1" "ni_name (infos demo_node 1) = Some ''a''"
    by (simp_all add: demo_node_eq)
  then show ?thesis using restart_fresh [OF demo_at_ok demo_rng_ok demo_node_reachable nd] nd
    by (auto simp: Let_def)
qed

text \<open>
  Node ids are never reused.  In every reachable state \<open>create_node\<close> gives an id and a \<open>NodeInfo\<close>
  that no node has, leaves every existing node and its \<open>NodeInfo\<close> as they are, and \<open>get_node\<close> finds the
  new node.
\<close>

theorem create_node_fresh:
  assumes "at_ok E" "rng_ok (rng E)" "exec_reachable E s" "create_node E b s = ((i, n), s')"
  shows "ex_nodes s i = None \<and> (\<forall>j nd. ex_nodes s j = Some nd \<longrightarrow> n_info nd \<noteq> n) \<and>
    (\<forall>j. j \<noteq> i \<longrightarrow> ex_nodes s' j = ex_nodes s j) \<and> (\<forall>m. m \<noteq> n \<longrightarrow> infos s' m = infos s m) \<and>
    get_node i s' = Some n \<and> ni_id (infos s' n) = i \<and> ni_name (infos s' n) = b_name b \<and>
    n_init (the (ex_nodes s' i)) = b_init b"
proof -
  have tab: "table_inv s" using exec_reachable_inv [OF assms(3,1,2)] by (simp add: exec_inv_def)
  have i: "i = next_node_id s" "n = next_ref s" using assms(4) by (auto simp: create_node_def Let_def)
  have "ex_nodes s i = None" using table_inv_node(4) [OF tab] i by (metis less_irrefl not_None_eq)
  moreover have "\<forall>j nd. ex_nodes s j = Some nd \<longrightarrow> n_info nd \<noteq> n" using table_inv_node(1) [OF tab] i by fastforce
  moreover have "i \<noteq> 0" using tab i by (simp add: table_inv_def)
  moreover obtain ni where "infos s' = (infos s)(n := ni)" "ni_id ni = i" "ni_name ni = b_name b"
    using assms(4) by (cases "b_init b")
      (auto simp: create_node_def Let_def run_init_def spawn_inner_def new_task_def upd_info_def)
  moreover have "ex_nodes s' = (ex_nodes s)(i \<mapsto> \<lparr>n_info = n, n_paused = [], n_init = b_init b\<rparr>)"
    using assms(4) by (auto simp: create_node_def Let_def)
  ultimately show ?thesis by (simp add: get_node_def)
qed

theorem create_node_fresh_witness:
  "\<exists>s'. create_node demo_env demo_builder demo_node = ((2, 2), s') \<and> ex_nodes demo_node 2 = None \<and>
     get_node 2 s' = Some 2 \<and> ex_nodes s' 1 = ex_nodes demo_node 1"
proof -
  obtain s' where s': "create_node demo_env demo_builder demo_node = ((2, 2), s')"
    by (simp add: create_node_def Let_def demo_node_eq)
  show ?thesis using create_node_fresh [OF demo_at_ok demo_rng_ok demo_node_reachable s'] s' by auto
qed

subsection \<open>Panics of tasks\<close>

lemma draw_range_frame: "draw_range E lo hi s = (r, s') \<Longrightarrow> s' = s\<lparr>ex_rand := ex_rand s'\<rparr>"
  by (auto simp: draw_range_def split: if_splits res.splits)

text \<open>
  C9: a panicking task brings its node down and back.  When the node asks for it (\<open>restart_on_panic\<close>, or
  one of the configured texts occurs in the panic message) the node's current instance is killed, and
  a restart of the node is due between 1 and 10 seconds later.
  Otherwise the panic passes through with the state untouched.
\<close>

theorem panic_restarts_node:
  assumes "rng_ok (rng E)" "timer_ok (tmr E)" "base_instant (clock (ex_time s)) = 0"
    and "ni_id (infos s n) = i" "ex_nodes s i = Some nd"
  shows "if ni_restart_on_panic (infos s n) \<or> (\<exists>p \<in> set (ni_restart_on_panic_matching (infos s n)). sublist p m)
    then \<forall>s'. on_panic E n m s = (Ok (), s') \<longrightarrow>
      ni_killed (infos s' (n_info nd)) \<and>
      (\<exists>d. nanos_per_sec \<le> d \<and> d < 10 * nanos_per_sec \<and>
         (elapsed (clock (ex_time s)) + d, RestartNode i) \<in># tm_events (tmr E) (timer (ex_time s')))
    else on_panic E n m s = (Panic m, s)"
proof (cases "ni_restart_on_panic (infos s n) \<or> (\<exists>p \<in> set (ni_restart_on_panic_matching (infos s n)). sublist p m)")
  case False
  then show ?thesis by (auto simp: on_panic_def Let_def list_ex_iff)
next
  case True
  then have pol: "ni_restart_on_panic (infos s n) \<or> list_ex (\<lambda>p. sublist p m) (ni_restart_on_panic_matching (infos s n))"
    by (simp add: list_ex_iff)
  have "ni_killed (infos s' (n_info nd)) \<and> (\<exists>d. nanos_per_sec \<le> d \<and> d < 10 * nanos_per_sec \<and>
         (elapsed (clock (ex_time s)) + d, RestartNode i) \<in># tm_events (tmr E) (timer (ex_time s')))"
    if on: "on_panic E n m s = (Ok (), s')" for s'
  proof -
    obtain d s1 s2 where d: "draw_range E nanos_per_sec (10 * nanos_per_sec) s = (Ok d, s1)"
      "kill_id E i s1 = (Ok (), s2)"
      "s' = s2\<lparr>ex_time := add_timer (tmr E) d (RestartNode i) (ex_time s2)\<rparr>"
      using on pol assms(4) by (auto simp: on_panic_def Let_def and_then_Ok_iff)
    have "nanos_per_sec \<le> d \<and> d < 10 * nanos_per_sec" using draw_range_bounds [OF assms(1) d(1)] by simp
    moreover have s1: "ex_nodes s1 = ex_nodes s" "ex_time s1 = ex_time s"
      using draw_range_frame [OF d(1)] by (metis exec.surjective exec.select_convs(2,10) exec.update_convs(9))+
    then have "ni_killed (infos s' (n_info nd))" using kill_id_after(1) [OF _ d(2)] assms(5) d(3) by simp
    moreover have "ex_time s2 = ex_time s" using quiet_kill_id [of s1 E i] d(2) s1(2) by (simp add: quiet_def)
    then have "(elapsed (clock (ex_time s)) + d, RestartNode i) \<in># tm_events (tmr E) (timer (ex_time s'))"
      using d(3) assms(2,3) by (simp add: add_timer_def add_timer_at_def timer_ok_add clock_defs)
    ultimately show ?thesis by blast
  qed
  then show ?thesis using True by simp
qed

text \<open>A node that restarts on the panic message \<open>oom\<close>.\<close>

definition demo_fragile :: "(task_id \<Rightarrow> at_bits, nat, (duration \<times> unit callback) list, unit, nat, unit) exec" where
  "demo_fragile = upd_info 1 (\<lambda>i. i\<lparr>ni_restart_on_panic_matching := [''oom'']\<rparr>) demo_node"

theorem panic_restarts_node_witness:
  "\<exists>s'. ex_nodes demo_fragile 1 \<noteq> None \<and> on_panic demo_env 1 ''an oom'' demo_fragile = (Ok (), s') \<and>
     ni_killed (infos s' 1) \<and> (\<exists>d. (d, RestartNode 1) \<in> set (timer (ex_time s')))"
proof -
  let ?nd = "\<lparr>n_info = 1, n_paused = [], n_init = Some 7\<rparr>"
  have t: "timer_ok (tmr demo_env)" by (simp add: demo_env_sel list_timer_ok)
  have i: "base_instant (clock (ex_time demo_fragile)) = 0" "ni_id (infos demo_fragile 1) = 1"
    "ex_nodes demo_fragile 1 = Some ?nd" "ni_restart_on_panic_matching (infos demo_fragile 1) = [''oom'']"
    by (simp_all add: demo_fragile_def upd_info_def demo_node_eq)
  have sub: "sublist ''oom'' ''an oom''" by (simp add: sublist_Cons_right)
  obtain s' where p: "on_panic demo_env 1 ''an oom'' demo_fragile = (Ok (), s')"
    using sub by (simp add: on_panic_def demo_fragile_def demo_node_eq demo_eval)
  show ?thesis
    using panic_restarts_node [OF demo_rng_ok t i(1-3), of "''an oom''"] i(3,4) sub p
    by (auto simp: demo_env_sel list_timer_def)
qed

subsection \<open>\<open>block_on\<close>\<close>

text \<open>The relation \<open>later\<close> without the history of polls.\<close>

definition ages :: "('a, 'g, 'tm, 'u, 'f, 'k, 's) env \<Rightarrow> ('a, 'g, 'tm, 'u, 'f, 's) exec
    \<Rightarrow> ('a, 'g, 'tm, 'u, 'f, 's) exec \<Rightarrow> bool" where
  "ages E s s' \<longleftrightarrow> later E s (s'\<lparr>polled := polled s\<rparr>)"

lemma ages_refl [simp]: "ages E s s" by (simp add: ages_def)
lemma later_ages: "later E s s' \<Longrightarrow> ages E s s'" by (simp add: ages_def later_def)
lemma ages_trans: "ages E s s' \<Longrightarrow> ages E s' s'' \<Longrightarrow> ages E s s''" by (simp add: ages_def later_def)

lemma ages_and_then:
  assumes "ages E s (snd m)" "\<And>r s. ages E s (snd (f r s))"
  shows "ages E s (snd (and_then m f))"
proof (cases m)
  case (Pair a b)
  then show ?thesis using assms(1) ages_trans [OF assms(1) assms(2)] by (cases a) simp_all
qed

lemma ages_run_task: "ages E s (snd (run_task E t s))"
proof (cases "at_closed E (tasks s) t")
  case True
  then show ?thesis using later_ages [OF quiet_later [OF quiet_drop [of s E t]]] by (simp add: run_task_def)
next
  case False
  let ?s1 = "s\<lparr>tasks := at_begin E t (tasks s), polled := polled s @ [t]\<rparr>"
  obtain r s2 where p: "poll_task E t ?s1 = (r, s2)" by (cases "poll_task E t ?s1")
  then have "ages E ?s1 (end_poll E t r s2)"
    using later_ages [OF later_trans [OF later_poll_task [of E ?s1 t] quiet_later [OF quiet_end_poll [of _ E]]]] by simp
  moreover have "ages E s ?s1" by (simp add: ages_def later_def)
  moreover have "snd (run_task E t s) = end_poll E t r s2"
    using False p by (simp add: run_task_def Let_def split: poll_result.split)
  ultimately show ?thesis using ages_trans by metis
qed

lemma later_tick: "later E s (snd (tick E s))"
  by (simp add: tick_def later_and_then quiet_later [OF quiet_draw_range] later_advance_time)

lemma ages_run_runnable: "ages E s (snd (run_runnable E t s))"
proof -
  have d: "ages E s (drop_runnable E t s)" by (rule later_ages [OF quiet_later [OF quiet_drop]])
  have p: "ages E s (s\<lparr>ex_nodes := m\<rparr>)" for m by (simp add: ages_def later_def)
  obtain x s1 where x: "run_task E t s = (x, s1)" by (cases "run_task E t s")
  then have r: "ages E s s1" using ages_run_task [of E s t] by simp
  have k: "ages E s1 (snd (and_then (on_panic E n m s1) (\<lambda>_. tick E)))" for n m
    by (intro later_ages later_and_then quiet_on_panic later_tick)
  show ?thesis
    using d p x ages_trans [OF r k] ages_trans [OF r later_ages [OF later_tick]] ages_trans [OF d later_ages [OF later_tick]]
    by (cases x) (simp_all add: run_runnable_def Let_def split: option.split)
qed

lemma ages_run_one: "ages E s (snd (run_one E s))"
proof -
  have "ages E s' (snd (case try_recv_random 0 idx (queue s') of
         Ok (t, q) \<Rightarrow> run_runnable E t (s'\<lparr>queue := q\<rparr>) | _ \<Rightarrow> (Ok (), s')))" for idx s'
  proof -
    have "ages E s' (s'\<lparr>queue := q\<rparr>)" for q by (simp add: ages_def later_def)
    then show ?thesis using ages_trans [OF _ ages_run_runnable [of E]] by (auto split: res.split)
  qed
  then show ?thesis
    unfolding run_one_def by (intro ages_and_then later_ages [OF quiet_later [OF quiet_draw_range]])
qed

lemma ages_run_all_ready: "run_all_ready E k s = Some (r, s') \<Longrightarrow> ages E s s'"
proof (induction k arbitrary: s)
  case (Suc k)
  obtain x s1 where x: "run_one E s = (x, s1)" by (cases "run_one E s")
  then have a: "ages E s s1" using ages_run_one [of E s] by simp
  show ?case using Suc.prems x a ages_trans [OF a Suc.IH] by (cases "queue s = []"; cases x) auto
qed simp

lemma run_all_ready_mono: "run_all_ready E k s = Some x \<Longrightarrow> k \<le> k' \<Longrightarrow> run_all_ready E k' s = Some x"
proof (induction k arbitrary: s k')
  case (Suc k)
  then obtain k'' where k'': "k' = Suc k''" "k \<le> k''" by (cases k') auto
  obtain y s1 where "run_one E s = (y, s1)" by (cases "run_one E s")
  then show ?case using Suc.prems(1) Suc.IH [OF _ k''(2)] k''(1) by (cases "queue s = []"; cases y) auto
qed simp

lemma block_loop_mono: "block_loop E allow t k s = Some x \<Longrightarrow> k \<le> k' \<Longrightarrow> block_loop E allow t k' s = Some x"
proof (induction k arbitrary: s k')
  case (Suc k)
  then obtain k'' where k'': "k' = Suc k''" "k \<le> k''" by (cases k') auto
  obtain r s1 where r: "run_all_ready E k s = Some (r, s1)" using Suc.prems(1) by (auto split: option.splits)
  then have r': "run_all_ready E k'' s = Some (r, s1)" using run_all_ready_mono k''(2) by blast
  show ?case
  proof (cases r)
    case (Ok u)
    obtain g cbs h where g: "advance_to_next_event (tmr E) (ex_time s1) = (g, cbs, h)"
      by (metis prod_cases3)
    obtain v s2 where v: "run_callbacks E cbs (s1\<lparr>ex_time := h\<rparr>) = (v, s2)" by (metis surj_pair)
    show ?thesis using Suc.prems(1) Suc.IH [OF _ k''(2)] r r' k''(1) Ok g v
      by (cases v; cases "time_limit s2") (auto split: if_splits)
  qed (use Suc.prems(1) r r' k''(1) in auto)
qed simp

text \<open>
  One round of the loop when the drain ends and the main task is not finished: a panic, or a jump
  forward of at least 50 ns.
\<close>

lemma block_round:
  assumes "timer_ok (tmr E)" "time_inv (tmr E) (ex_time s)" "time_limit s = Some l"
    and "run_all_ready E k s = Some (Ok (), s1)" "\<not> at_finished E (tasks s1) t"
  shows "(\<exists>r s'. \<forall>k' \<ge> k. block_loop E False t (Suc k') s = Some (r, s')) \<or>
    (\<exists>s2. ages E s s2 \<and> elapsed (clock (ex_time s)) + 50 \<le> elapsed (clock (ex_time s2)) \<and>
       elapsed (clock (ex_time s2)) < l \<and> (\<forall>k' \<ge> k. block_loop E False t (Suc k') s = block_loop E False t k' s2))"
proof -
  have a: "ages E s s1" by (rule ages_run_all_ready [OF assms(4)])
  then have inv1: "time_inv (tmr E) (ex_time s1)" "elapsed (clock (ex_time s)) \<le> elapsed (clock (ex_time s1))"
    "time_limit s1 = Some l"
    using assms(1-3) by (simp_all add: ages_def later_def)
  obtain g cbs h where n: "advance_to_next_event (tmr E) (ex_time s1) = (g, cbs, h)" by (metis prod_cases3)
  obtain r s2 where c: "run_callbacks E cbs (s1\<lparr>ex_time := h\<rparr>) = (r, s2)" by fastforce
  then have q: "quiet (s1\<lparr>ex_time := h\<rparr>) s2" using quiet_run_callbacks [of "s1\<lparr>ex_time := h\<rparr>" E cbs] by simp
  have rr: "\<forall>k' \<ge> k. run_all_ready E k' s = Some (Ok (), s1)" using run_all_ready_mono [OF assms(4)] by blast
  have st: "time_step (tmr E) (ex_time s1) h" using step_next [of "tmr E" "ex_time s1"] n by simp
  show ?thesis
  proof (cases "g \<and> r = Ok () \<and> elapsed (clock (ex_time s2)) < l")
    case False
    have "\<exists>r' s'. \<forall>k' \<ge> k. block_loop E False t (Suc k') s = Some (r', s')"
      using False rr n c assms(5) inv1(3) q by (cases r; cases g) (auto simp: quiet_def)
    then show ?thesis ..
  next
    case True
    then have ne: "tm_events (tmr E) (timer (ex_time s1)) \<noteq> {#}"
      using n advance_to_next_event_none [OF assms(1)] by fastforce
    have "Min (fst ` set_mset (tm_events (tmr E) (timer (ex_time s1)))) \<in> fst ` set_mset (tm_events (tmr E) (timer (ex_time s1)))"
      using ne by (intro Min_in) auto
    then have "elapsed (clock (ex_time s1)) + 50 \<le> elapsed (clock h)"
      using inv1(1) advance_to_next_event_spec(2) [OF assms(1) ne n] by (auto simp: time_inv_def)
    moreover have "ages E s1 s2"
      using q st calculation time_step_inv [OF _ st] by (auto simp: ages_def later_def quiet_def)
    ultimately have "ages E s s2" "elapsed (clock (ex_time s)) + 50 \<le> elapsed (clock (ex_time s2))"
      using ages_trans [OF a] inv1(2) q by (auto simp: quiet_def)
    moreover have "\<forall>k' \<ge> k. block_loop E False t (Suc k') s = block_loop E False t k' s2"
      using True rr n c assms(5) inv1(3) q by (auto simp: quiet_def)
    ultimately show ?thesis using True by blast
  qed
qed





end
