(* ===== verification/Network.thy ===== *)
theory Network
  imports Rng
begin

section \<open>The simulated network (\<open>madsim/src/sim/net/network.rs\<close>)\<close>

text \<open>
  Links, address resolution and bound sockets; no protocol.  A socket is known by a
  reference (\<open>sid\<close>), as the \<open>Arc\<close> to it in the code.  An IPv6 socket address is its address and
  port: the flow label and scope of \<open>SocketAddrV6\<close> are zero in every address the simulator
  makes from an IP and a port.

  The network draws from the global generator through the \<open>Rng\<close> trait; here \<open>'r rng_ops\<close> are
  those trait methods on the global generator, \<open>'r\<close> its state.  \<open>gen_bool\<close> panics for a
  probability outside \<open>[0, 1]\<close> and \<open>gen_range\<close> on an empty range.
\<close>

type_synonym sid = nat

primrec is_unspecified :: "ip_addr \<Rightarrow> bool" where
  "is_unspecified (V4 a) \<longleftrightarrow> a = 0"
| "is_unspecified (V6 a) \<longleftrightarrow> a = 0"

primrec is_loopback :: "ip_addr \<Rightarrow> bool" where
  "is_loopback (V4 a) \<longleftrightarrow> drop_bit 24 a = 127"
| "is_loopback (V6 a) \<longleftrightarrow> a = 1"

definition UNSPECIFIED :: ip_addr where "UNSPECIFIED = V4 0"
definition LOCALHOST :: ip_addr where "LOCALHOST = V4 0x7f000001"

type_synonym port = "16 word"
type_synonym socket_addr = "ip_addr \<times> port"

datatype ip_protocol = Tcp | Udp

datatype io_error = AddrNotAvailable | AddrInUse | ConnectionRefused | ConnectionReset
  | InvalidInput | NotConnected | BrokenPipe | NotFound | PermissionDenied | WouldBlock | TimedOut

record net_config =
  packet_loss_rate :: real
  send_latency :: "duration \<times> duration"

definition default_send_latency :: "duration \<times> duration" where
  "default_send_latency = (1000000, 10000000)"

definition config_default :: net_config where
  "config_default = \<lparr>packet_loss_rate = 0, send_latency = default_send_latency\<rparr>"

record net_node =
  node_ip :: "ip_addr option"
  sockets :: "socket_addr \<times> ip_protocol \<rightharpoonup> sid"

record network =
  config :: net_config
  msg_count :: nat
  nodes :: "node_id \<rightharpoonup> net_node"
  addr_to_node :: "ip_addr \<rightharpoonup> node_id"
  clogged_node_in :: "node_id set"
  clogged_node_out :: "node_id set"
  clogged_link :: "(node_id \<times> node_id) set"

datatype direction = In | Out | Both

definition network_new :: "net_config \<Rightarrow> network" where
  "network_new c = \<lparr>config = c, msg_count = 0, nodes = Map.empty, addr_to_node = Map.empty,
     clogged_node_in = {}, clogged_node_out = {}, clogged_link = {}\<rparr>"

definition update_config :: "(net_config \<Rightarrow> net_config) \<Rightarrow> network \<Rightarrow> network" where
  "update_config f n = n\<lparr>config := f (config n)\<rparr>"

definition insert_node :: "node_id \<Rightarrow> network \<Rightarrow> network" where
  "insert_node i n = n\<lparr>nodes := (nodes n)(i \<mapsto> \<lparr>node_ip = None, sockets = Map.empty\<rparr>)\<rparr>"

definition reset_node :: "node_id \<Rightarrow> network \<Rightarrow> ('e, network) res" where
  "reset_node i n =
     bind_res (expect ''node not found'' (nodes n i))
       (\<lambda>nd. Ok (n\<lparr>nodes := (nodes n)(i \<mapsto> nd\<lparr>sockets := Map.empty\<rparr>)\<rparr>))"

definition set_ip :: "node_id \<Rightarrow> ip_addr \<Rightarrow> network \<Rightarrow> ('e, network) res" where
  "set_ip i a n =
     bind_res (expect ''node not found'' (nodes n i))
       (\<lambda>nd. let m = (case node_ip nd of None \<Rightarrow> addr_to_node n
                                        | Some old \<Rightarrow> (addr_to_node n)(old := None))
             in if m a \<noteq> None then Panic ''IP conflict''
                else Ok (n\<lparr>nodes := (nodes n)(i \<mapsto> nd\<lparr>node_ip := Some a\<rparr>),
                           addr_to_node := m(a \<mapsto> i)\<rparr>))"

definition clog_node :: "node_id \<Rightarrow> direction \<Rightarrow> network \<Rightarrow> ('e, network) res" where
  "clog_node i d n =
     (if nodes n i = None then Panic ''node not found''
      else Ok (n\<lparr>clogged_node_in := (if d \<in> {In, Both} then insert i (clogged_node_in n) else clogged_node_in n),
                 clogged_node_out := (if d \<in> {Out, Both} then insert i (clogged_node_out n) else clogged_node_out n)\<rparr>))"

definition unclog_node :: "node_id \<Rightarrow> direction \<Rightarrow> network \<Rightarrow> ('e, network) res" where
  "unclog_node i d n =
     (if nodes n i = None then Panic ''node not found''
      else Ok (n\<lparr>clogged_node_in := (if d \<in> {In, Both} then clogged_node_in n - {i} else clogged_node_in n),
                 clogged_node_out := (if d \<in> {Out, Both} then clogged_node_out n - {i} else clogged_node_out n)\<rparr>))"

definition clog_link :: "node_id \<Rightarrow> node_id \<Rightarrow> network \<Rightarrow> ('e, network) res" where
  "clog_link src dst n =
     (if nodes n src = None \<or> nodes n dst = None then Panic ''node not found''
      else Ok (n\<lparr>clogged_link := insert (src, dst) (clogged_link n)\<rparr>))"

definition unclog_link :: "node_id \<Rightarrow> node_id \<Rightarrow> network \<Rightarrow> ('e, network) res" where
  "unclog_link src dst n =
     (if nodes n src = None \<or> nodes n dst = None then Panic ''node not found''
      else Ok (n\<lparr>clogged_link := clogged_link n - {(src, dst)}\<rparr>))"

definition link_clogged :: "node_id \<Rightarrow> node_id \<Rightarrow> network \<Rightarrow> bool" where
  "link_clogged src dst n \<longleftrightarrow>
     src \<in> clogged_node_out n \<or> dst \<in> clogged_node_in n \<or> (src, dst) \<in> clogged_link n"

subsection \<open>Binding\<close>

text \<open>\<open>(1..=u16::MAX).find(...)\<close>: the least port that is not used.\<close>

function find_port :: "(port \<Rightarrow> bool) \<Rightarrow> nat \<Rightarrow> port option" where
  "find_port used p =
     (if 65535 < p then None
      else if \<not> used (word_of_nat p) then Some (word_of_nat p) else find_port used (Suc p))"
  by pat_completeness auto
termination
  by (relation "measure (\<lambda>(u, p). 65536 - p)") auto

declare find_port.simps [simp del]

definition bind :: "node_id \<Rightarrow> socket_addr \<Rightarrow> ip_protocol \<Rightarrow> sid \<Rightarrow> network
    \<Rightarrow> (io_error, socket_addr \<times> network) res" where
  "bind i addr proto sock n =
     bind_res (expect ''node not found'' (nodes n i)) (\<lambda>nd.
       let a = fst addr in
       if \<not> is_unspecified a \<and> \<not> is_loopback a \<and>
          (case node_ip nd of Some ip \<Rightarrow> a \<noteq> ip | None \<Rightarrow> False)
       then Err AddrNotAvailable
       else
         bind_res (if snd addr = 0
                   then ok_or AddrInUse (find_port (\<lambda>p. sockets nd ((a, p), proto) \<noteq> None) 1)
                   else Ok (snd addr))
           (\<lambda>p. if sockets nd ((a, p), proto) \<noteq> None then Err AddrInUse
                else Ok ((a, p), n\<lparr>nodes := (nodes n)(i \<mapsto>
                       nd\<lparr>sockets := (sockets nd)(((a, p), proto) \<mapsto> sock)\<rparr>)\<rparr>)))"

definition close :: "node_id \<Rightarrow> socket_addr \<Rightarrow> ip_protocol \<Rightarrow> network \<Rightarrow> ('e, network) res" where
  "close i addr proto n =
     bind_res (expect ''node not found'' (nodes n i))
       (\<lambda>nd. Ok (n\<lparr>nodes := (nodes n)(i \<mapsto> nd\<lparr>sockets := (sockets nd)((addr, proto) := None)\<rparr>)\<rparr>))"

subsection \<open>Sending\<close>

definition test_link :: "'r rng_ops \<Rightarrow> node_id \<Rightarrow> node_id \<Rightarrow> network \<Rightarrow> 'r
    \<Rightarrow> ('e, duration option \<times> network \<times> 'r) res" where
  "test_link R src dst n r =
     (if link_clogged src dst n then Ok (None, n, r)
      else if packet_loss_rate (config n) < 0 \<or> 1 < packet_loss_rate (config n)
      then Panic ''p is outside range [0.0, 1.0]''
      else
        let (lost, r) = gen_bool R (packet_loss_rate (config n)) r in
        if lost then Ok (None, n, r)
        else
          let (lo, hi) = send_latency (config n) in
          if hi \<le> lo then Panic ''cannot sample empty range''
          else let (lat, r) = gen_range R lo hi r
               in Ok (Some lat, n\<lparr>msg_count := msg_count n + 1\<rparr>, r))"

definition resolve_dest_node :: "node_id \<Rightarrow> socket_addr \<Rightarrow> ip_protocol \<Rightarrow> network
    \<Rightarrow> ('e, node_id option) res" where
  "resolve_dest_node i dst proto n =
     bind_res (expect ''node not found'' (nodes n i))
       (\<lambda>nd. if is_loopback (fst dst) \<or> sockets nd (dst, proto) \<noteq> None then Ok (Some i)
             else if node_ip nd = None then Ok None
             else Ok (addr_to_node n (fst dst)))"

text \<open>The socket that listens for \<open>dst\<close>: bound to the address, or to \<open>0.0.0.0\<close> at its port.\<close>

definition find_socket :: "net_node \<Rightarrow> socket_addr \<Rightarrow> ip_protocol \<Rightarrow> sid option" where
  "find_socket nd dst proto =
     (case sockets nd (dst, proto) of
        Some s \<Rightarrow> Some s
      | None \<Rightarrow> sockets nd ((UNSPECIFIED, snd dst), proto))"

definition try_send :: "'r rng_ops \<Rightarrow> node_id \<Rightarrow> socket_addr \<Rightarrow> ip_protocol \<Rightarrow> network \<Rightarrow> 'r
    \<Rightarrow> ('e, (ip_addr \<times> node_id \<times> sid \<times> duration) option \<times> network \<times> 'r) res" where
  "try_send R i dst proto n r =
     bind_res (resolve_dest_node i dst proto n) (\<lambda>dn.
       case dn of
         None \<Rightarrow> Ok (None, n, r)
       | Some j \<Rightarrow>
           bind_res (test_link R i j n r) (\<lambda>(lat, n, r).
             case lat of
               None \<Rightarrow> Ok (None, n, r)
             | Some latency \<Rightarrow>
                 (case nodes n j of
                    None \<Rightarrow> Ok (None, n, r)
                  | Some dnode \<Rightarrow>
                      (case find_socket dnode dst proto of
                         None \<Rightarrow> Ok (None, n, r)
                       | Some ep \<Rightarrow>
                           bind_res
                             (if is_loopback (fst dst) then Ok LOCALHOST
                              else bind_res (expect ''node not found'' (nodes n i))
                                     (\<lambda>nd. expect ''called `Option::unwrap()` on a `None` value'' (node_ip nd)))
                             (\<lambda>src_ip. Ok (Some (src_ip, j, ep, latency), n, r))))))"

subsection \<open>Well-formed networks\<close>

text \<open>\<open>addr_to_node\<close> is exactly the inverse of the nodes' addresses.\<close>

definition net_wf :: "network \<Rightarrow> bool" where
  "net_wf n \<longleftrightarrow> (\<forall>a i. addr_to_node n a = Some i \<longleftrightarrow> (\<exists>nd. nodes n i = Some nd \<and> node_ip nd = Some a))"

lemma net_wf_same_nodes:
  "net_wf n \<Longrightarrow> addr_to_node n' = addr_to_node n \<Longrightarrow> nodes n' = nodes n \<Longrightarrow> net_wf n'"
  by (simp add: net_wf_def)

lemma net_wf_update_sockets:
  "net_wf n \<Longrightarrow> nodes n i = Some nd \<Longrightarrow>
     net_wf (n\<lparr>nodes := (nodes n)(i \<mapsto> nd\<lparr>sockets := s\<rparr>)\<rparr>)"
  unfolding net_wf_def by (auto split: if_splits)

lemma net_wf_insert: "net_wf n \<Longrightarrow> nodes n i = None \<Longrightarrow> net_wf (insert_node i n)"
  unfolding net_wf_def insert_node_def by (auto split: if_splits)

lemma net_wf_reset: "net_wf n \<Longrightarrow> reset_node i n = Ok n' \<Longrightarrow> net_wf n'"
  by (auto simp: reset_node_def intro: net_wf_update_sockets)

lemma net_wf_close: "net_wf n \<Longrightarrow> close i a p n = Ok n' \<Longrightarrow> net_wf n'"
  by (auto simp: close_def intro: net_wf_update_sockets)

lemma set_ip_Ok:
  assumes "set_ip i a n = Ok n'"
  obtains nd where "nodes n i = Some nd" "nodes n' = (nodes n)(i \<mapsto> nd\<lparr>node_ip := Some a\<rparr>)"
    "addr_to_node n' = (case node_ip nd of None \<Rightarrow> addr_to_node n | Some old \<Rightarrow> (addr_to_node n)(old := None))(a \<mapsto> i)"
    "(case node_ip nd of None \<Rightarrow> addr_to_node n | Some old \<Rightarrow> (addr_to_node n)(old := None)) a = None"
  using assms by (auto simp: set_ip_def Let_def split: if_splits option.splits)

lemma net_wf_set_ip:
  assumes "net_wf n" "set_ip i a n = Ok n'"
  shows "net_wf n'"
proof -
  obtain nd where nd: "nodes n i = Some nd" and nn: "nodes n' = (nodes n)(i \<mapsto> nd\<lparr>node_ip := Some a\<rparr>)"
    and m: "addr_to_node n' = (case node_ip nd of None \<Rightarrow> addr_to_node n | Some old \<Rightarrow> (addr_to_node n)(old := None))(a \<mapsto> i)"
    and free: "(case node_ip nd of None \<Rightarrow> addr_to_node n | Some old \<Rightarrow> (addr_to_node n)(old := None)) a = None"
    using set_ip_Ok [OF assms(2)] by blast
  have wf: "addr_to_node n b = Some j \<longleftrightarrow> (\<exists>nd. nodes n j = Some nd \<and> node_ip nd = Some b)" for b j
    using assms(1) by (simp add: net_wf_def)
  show ?thesis unfolding net_wf_def
  proof (intro allI)
    fix b j
    show "addr_to_node n' b = Some j \<longleftrightarrow> (\<exists>nd. nodes n' j = Some nd \<and> node_ip nd = Some b)"
    proof (cases "b = a")
      case True
      have "j = i" if "nodes n j = Some nd'" "node_ip nd' = Some a" "j \<noteq> i" for nd'
        using that wf [of a j] free nd wf [of a i] by (auto split: option.splits if_splits)
      then show ?thesis using True m nn by auto
    next
      case False
      show ?thesis
      proof (cases "j = i")
        case True
        have "addr_to_node n b = Some i \<longleftrightarrow> node_ip nd = Some b" using wf [of b i] nd by auto
        then show ?thesis using True False m nn by (auto split: option.splits)
      next
        case False': False
        have "node_ip nd = Some b \<Longrightarrow> addr_to_node n b = Some i" using wf [of b i] nd by auto
        then show ?thesis using False False' m nn wf [of b j] by (auto split: option.splits)
      qed
    qed
  qed
qed

lemma bind_Ok:
  assumes "bind i addr proto sock n = Ok (addr', n')"
  obtains nd where "nodes n i = Some nd" "sockets nd (addr', proto) = None" "fst addr' = fst addr"
    "n' = n\<lparr>nodes := (nodes n)(i \<mapsto> nd\<lparr>sockets := (sockets nd)((addr', proto) \<mapsto> sock)\<rparr>)\<rparr>"
  using assms by (auto simp: bind_def Let_def split: if_splits)

lemma net_wf_bind: "net_wf n \<Longrightarrow> bind i addr proto sock n = Ok (addr', n') \<Longrightarrow> net_wf n'"
  by (elim bind_Ok) (auto intro: net_wf_update_sockets)

lemma test_link_Ok:
  assumes "test_link R src dst n r = Ok (lat, n', r')"
  shows "nodes n' = nodes n" "addr_to_node n' = addr_to_node n" "config n' = config n"
    and "lat \<noteq> None \<Longrightarrow> \<not> link_clogged src dst n \<and> msg_count n' = msg_count n + 1"
    and "lat = None \<Longrightarrow> n' = n"
  using assms by (auto simp: test_link_def Let_def split: if_splits prod.splits)

lemma try_send_cases:
  assumes ok: "try_send R i dst proto n r = (Ok (m, n', r') :: ('e, _) res)"
  obtains (unresolved) "m = None" "n' = n" "r' = r"
  | (tested) j lat where "resolve_dest_node i dst proto n = (Ok (Some j) :: ('e, _) res)"
      "test_link R i j n r = (Ok (lat, n', r') :: ('e, _) res)"
      "\<And>src k ep l. m = Some (src, k, ep, l) \<Longrightarrow> k = j \<and> lat = Some l \<and>
         (\<exists>dnode. nodes n j = Some dnode \<and> find_socket dnode dst proto = Some ep) \<and>
         (if is_loopback (fst dst) then src = LOCALHOST
          else (\<exists>nd. nodes n i = Some nd \<and> node_ip nd = Some src))"
proof -
  from ok obtain dn where dn: "resolve_dest_node i dst proto n = (Ok dn :: ('e, _) res)"
    by (auto simp: try_send_def)
  show thesis
  proof (cases dn)
    case None
    then show thesis using ok dn unresolved by (simp add: try_send_def)
  next
    case (Some j)
    then obtain lat n1 r1 where t: "test_link R i j n r = (Ok (lat, n1, r1) :: ('e, _) res)"
      using ok dn by (auto simp: try_send_def)
    note same = test_link_Ok(1) [OF t]
    have "n1 = n' \<and> r1 = r'"
      using ok dn Some t
      by (auto simp: try_send_def split: option.splits)
    moreover have "k = j \<and> lat = Some l \<and>
         (\<exists>dnode. nodes n j = Some dnode \<and> find_socket dnode dst proto = Some ep) \<and>
         (if is_loopback (fst dst) then src = LOCALHOST
          else (\<exists>nd. nodes n i = Some nd \<and> node_ip nd = Some src))"
      if "m = Some (src, k, ep, l)" for src k ep l
      using ok dn Some t that same
      by (auto simp: try_send_def split: option.splits if_splits)
    ultimately show thesis using tested dn Some t by blast
  qed
qed

lemma try_send_Ok:
  assumes "try_send R i dst proto n r = Ok (m, n', r')"
  shows "nodes n' = nodes n" "addr_to_node n' = addr_to_node n"
  using assms by (cases rule: try_send_cases; simp add: test_link_Ok(1,2))+

text \<open>The operations of a network, as the simulator calls them: a node is inserted under a
  fresh identifier.\<close>

inductive net_step :: "network \<Rightarrow> network \<Rightarrow> bool" where
  ns_insert: "nodes n i = None \<Longrightarrow> net_step n (insert_node i n)"
| ns_reset: "reset_node i n = (Ok n' :: (unit, _) res) \<Longrightarrow> net_step n n'"
| ns_set_ip: "set_ip i a n = (Ok n' :: (unit, _) res) \<Longrightarrow> net_step n n'"
| ns_clog_node: "clog_node i d n = (Ok n' :: (unit, _) res) \<Longrightarrow> net_step n n'"
| ns_unclog_node: "unclog_node i d n = (Ok n' :: (unit, _) res) \<Longrightarrow> net_step n n'"
| ns_clog_link: "clog_link i j n = (Ok n' :: (unit, _) res) \<Longrightarrow> net_step n n'"
| ns_unclog_link: "unclog_link i j n = (Ok n' :: (unit, _) res) \<Longrightarrow> net_step n n'"
| ns_bind: "bind i addr proto s n = Ok (addr', n') \<Longrightarrow> net_step n n'"
| ns_close: "close i addr proto n = (Ok n' :: (unit, _) res) \<Longrightarrow> net_step n n'"
| ns_send: "try_send (R :: nat rng_ops) i dst proto n r = (Ok (m, n', r') :: (unit, _) res) \<Longrightarrow> net_step n n'"
| ns_config: "net_step n (update_config f n)"

inductive net_reachable :: "network \<Rightarrow> bool" where
  nr_new: "net_reachable (network_new c)"
| nr_step: "net_reachable n \<Longrightarrow> net_step n n' \<Longrightarrow> net_reachable n'"

lemma clog_nodes_same:
  "clog_node i d n = Ok n' \<Longrightarrow> nodes n' = nodes n \<and> addr_to_node n' = addr_to_node n"
  "unclog_node i d n = Ok n' \<Longrightarrow> nodes n' = nodes n \<and> addr_to_node n' = addr_to_node n"
  "clog_link i j n = Ok n' \<Longrightarrow> nodes n' = nodes n \<and> addr_to_node n' = addr_to_node n"
  "unclog_link i j n = Ok n' \<Longrightarrow> nodes n' = nodes n \<and> addr_to_node n' = addr_to_node n"
  by (auto simp: clog_node_def unclog_node_def clog_link_def unclog_link_def split: if_splits)

lemma net_step_wf: "net_step n n' \<Longrightarrow> net_wf n \<Longrightarrow> net_wf n'"
proof (induction rule: net_step.induct)
  case (ns_send R i dst proto n r m n' r')
  then show ?case using try_send_Ok [OF ns_send(1)] net_wf_same_nodes by blast
qed (auto intro: net_wf_insert net_wf_reset net_wf_set_ip net_wf_bind net_wf_close net_wf_same_nodes
      dest: clog_nodes_same simp: update_config_def)

lemma net_reachable_wf: "net_reachable n \<Longrightarrow> net_wf n"
  by (induction rule: net_reachable.induct) (auto simp: net_wf_def network_new_def dest: net_step_wf)



subsection \<open>Faults\<close>

lemma link_clogged_after:
  "clog_node i d n = Ok n' \<Longrightarrow>
     link_clogged s t n' \<longleftrightarrow> link_clogged s t n \<or> (d \<noteq> In \<and> s = i) \<or> (d \<noteq> Out \<and> t = i)"
  "clog_link i j n = Ok n' \<Longrightarrow> link_clogged s t n' \<longleftrightarrow> link_clogged s t n \<or> (s, t) = (i, j)"
  "unclog_link i j n = Ok n' \<Longrightarrow> (s, t) \<noteq> (i, j) \<Longrightarrow> link_clogged s t n' = link_clogged s t n"
  "unclog_node i d n = Ok n' \<Longrightarrow> s \<noteq> i \<Longrightarrow> t \<noteq> i \<Longrightarrow> link_clogged s t n' = link_clogged s t n"
  by (cases d; auto simp: clog_node_def unclog_node_def clog_link_def unclog_link_def link_clogged_def
      split: if_splits)+

lemma try_send_clogged:
  assumes "resolve_dest_node i dst proto n = (Ok (Some j) :: ('e, _) res)" "link_clogged i j n"
  shows "try_send R i dst proto n r = (Ok (None, n, r) :: ('e, _) res)"
  using assms by (simp add: try_send_def test_link_def)

lemma unclog_undoes_clog:
  assumes "clog_node i d n = (Ok n' :: ('e, _) res)" "unclog_node i d n' = (Ok n'' :: ('e, _) res)"
    and "i \<notin> clogged_node_in n" "i \<notin> clogged_node_out n"
  shows "n'' = n"
  using assms by (cases d) (auto simp: clog_node_def unclog_node_def split: if_splits)

text \<open>
  C15: isolating a node works in both directions and is undone.  After \<open>clog_node(i, Both)\<close> every
  message from \<open>i\<close> and every message that resolves to \<open>i\<close> is dropped, without a draw from the generator
  and without counting it; unclogging restores the network exactly.
\<close>

theorem clogged_node_isolated:
  assumes "clog_node i Both n = (Ok n' :: ('e, _) res)"
    and "resolve_dest_node s dst proto n' = (Ok (Some t) :: ('e, _) res)" and "s = i \<or> t = i"
  shows "try_send R s dst proto n' r = (Ok (None, n', r) :: ('e, _) res) \<and>
         (i \<notin> clogged_node_in n \<longrightarrow> i \<notin> clogged_node_out n \<longrightarrow>
            unclog_node i Both n' = (Ok n :: ('e, _) res))"
proof
  have "link_clogged s t n'" using assms(3) link_clogged_after(1) [OF assms(1)] by auto
  then show "try_send R s dst proto n' r = (Ok (None, n', r) :: ('e, _) res)"
    by (rule try_send_clogged [OF assms(2)])
  have "nodes n' i \<noteq> None" using assms(1) by (auto simp: clog_node_def split: if_splits)
  then obtain n'' where u: "unclog_node i Both n' = (Ok n'' :: ('e, _) res)"
    by (simp add: unclog_node_def)
  then show "i \<notin> clogged_node_in n \<longrightarrow> i \<notin> clogged_node_out n \<longrightarrow>
      unclog_node i Both n' = (Ok n :: ('e, _) res)"
    using unclog_undoes_clog [OF assms(1) u] by auto
qed

definition two_nodes :: network where
  "two_nodes = (network_new config_default)
     \<lparr>nodes := [1 \<mapsto> \<lparr>node_ip = Some (V4 1), sockets = Map.empty\<rparr>,
                 2 \<mapsto> \<lparr>node_ip = Some (V4 2), sockets = [((V4 2, 80), Udp) \<mapsto> 7]\<rparr>],
      addr_to_node := [V4 1 \<mapsto> 1, V4 2 \<mapsto> 2]\<rparr>"

theorem clogged_node_isolated_witness:
  "\<exists>n'. clog_node 2 Both two_nodes = (Ok n' :: (unit, _) res) \<and>
     resolve_dest_node 1 (V4 2, 80) Udp n' = (Ok (Some 2) :: (unit, _) res) \<and>
     try_send const_rng 1 (V4 2, 80) Udp n' 0 = (Ok (None, n', 0) :: (unit, _) res)"
proof -
  obtain n' where c: "clog_node 2 Both two_nodes = (Ok n' :: (unit, _) res)"
    by (simp add: clog_node_def two_nodes_def)
  have r: "resolve_dest_node 1 (V4 2, 80) Udp n' = (Ok (Some 2) :: (unit, _) res)"
    using clog_nodes_same(1) [OF c] by (simp add: resolve_dest_node_def two_nodes_def)
  show ?thesis using clogged_node_isolated [OF c r, of const_rng 0] c r by auto
qed

subsection \<open>Binding and sending\<close>

lemma find_port_Some:
  "find_port used p = Some q \<Longrightarrow> p \<le> unat q \<and> \<not> used q \<and> (\<forall>k. p \<le> k \<longrightarrow> k < unat q \<longrightarrow> used (word_of_nat k))"
proof (induction used p rule: find_port.induct)
  case (1 used p)
  show ?case
  proof (cases "65535 < p \<or> \<not> used (word_of_nat p)")
    case True
    then show ?thesis using "1.prems"
      by (auto simp: find_port.simps [of used p] unat_of_nat split: if_splits)
  next
    case False
    then have "find_port used (Suc p) = Some q" using "1.prems" by (simp add: find_port.simps [of used p])
    with "1.IH" False show ?thesis by (metis Suc_leI Suc_leD le_neq_implies_less)
  qed
qed

lemma find_port_None:
  "find_port used p = None \<Longrightarrow> p \<le> k \<Longrightarrow> k \<le> 65535 \<Longrightarrow> used (word_of_nat k)"
proof (induction used p rule: find_port.induct)
  case (1 used p)
  then show ?case
    by (cases "k = p") (auto simp: find_port.simps [of used p] split: if_splits)
qed

lemma unat_port: "unat (p :: port) \<le> 65535"
proof -
  have "unat p < 2 ^ LENGTH(16)" by (rule unsigned_less)
  then show ?thesis by simp
qed

text \<open>
  \<open>bind\<close>, all its branches.  A bind succeeds iff the address is bindable (unspecified, loopback,
  or the node's own) and the port is free; port 0 is resolved to the least free port; the new socket is
  registered and nothing else changes; the error is \<open>AddrNotAvailable\<close> for a foreign address and
  \<open>AddrInUse\<close> for a taken port or when all 65535 ports are taken.
\<close>

theorem bind_spec:
  fixes a :: ip_addr and proto :: ip_protocol
  assumes nd: "nodes n i = Some nd"
  defines "foreign \<equiv> \<not> is_unspecified a \<and> \<not> is_loopback a \<and> node_ip nd \<noteq> None \<and> node_ip nd \<noteq> Some a"
    and "used \<equiv> \<lambda>q. sockets nd ((a, q), proto) \<noteq> None"
  shows "case bind i (a, p) proto sock n of
      Ok ((a', p'), n') \<Rightarrow> \<not> foreign \<and> a' = a \<and> p' \<noteq> 0 \<and> \<not> used p' \<and>
        (if p = 0 then \<forall>q. q \<noteq> 0 \<longrightarrow> q < p' \<longrightarrow> used q else p' = p) \<and>
        n' = n\<lparr>nodes := (nodes n)(i \<mapsto> nd\<lparr>sockets := (sockets nd)(((a, p'), proto) \<mapsto> sock)\<rparr>)\<rparr>
    | Err e \<Rightarrow> (e = AddrNotAvailable \<and> foreign) \<or>
        (e = AddrInUse \<and> \<not> foreign \<and> (if p = 0 then \<forall>q. q \<noteq> 0 \<longrightarrow> used q else used p))
    | Panic m \<Rightarrow> False"
proof -
  have foreign_eq: "(\<not> is_unspecified a \<and> \<not> is_loopback a \<and>
      (case node_ip nd of Some ip \<Rightarrow> a \<noteq> ip | None \<Rightarrow> False)) = foreign"
    by (auto simp: foreign_def split: option.splits)
  show ?thesis
  proof (cases "foreign \<or> p \<noteq> 0")
    case True
    then show ?thesis using nd foreign_eq by (auto simp: bind_def Let_def used_def)
  next
    case False
    show ?thesis
    proof (cases "find_port used 1")
      case None
      then have all: "used (word_of_nat k)" if "1 \<le> k" "k \<le> 65535" for k
        using find_port_None that by blast
      have "used q" if "q \<noteq> 0" for q
        using all [of "unat q"] that unat_port [of q] by (simp add: unat_gt_0 Suc_leI)
      then show ?thesis using None False nd foreign_eq by (simp add: bind_def Let_def used_def)
    next
      case (Some q)
      note fp = find_port_Some [OF Some]
      then have q: "q \<noteq> 0" by auto
      have "used q'" if "q' \<noteq> 0" "q' < q" for q'
      proof -
        have "1 \<le> unat q'" "unat q' < unat q"
          using that by (simp_all add: unat_gt_0 Suc_leI word_less_nat_alt)
        then have "used (word_of_nat (unat q'))" using fp by blast
        then show ?thesis by simp
      qed
      then show ?thesis using Some False nd foreign_eq fp q by (simp add: bind_def Let_def used_def)
    qed
  qed
qed

theorem bind_spec_witness:
  "nodes two_nodes 2 = Some \<lparr>node_ip = Some (V4 2), sockets = [((V4 2, 80), Udp) \<mapsto> 7]\<rparr> \<and>
   bind 2 (V4 2, 80) Udp 9 two_nodes = Err AddrInUse"
proof -
  have nd: "nodes two_nodes 2 = Some \<lparr>node_ip = Some (V4 2), sockets = [((V4 2, 80), Udp) \<mapsto> 7]\<rparr>"
    by (simp add: two_nodes_def)
  show ?thesis using bind_spec [OF nd, where a = "V4 2" and p = 80 and proto = Udp and sock = 9] nd
    by (auto split: res.splits prod.splits)
qed

lemma test_link_latency:
  assumes "rng_ok R" "test_link R i j n r = Ok (Some lat, n', r')"
  shows "fst (send_latency (config n)) \<le> lat \<and> lat < snd (send_latency (config n))"
proof -
  obtain lo hi where l: "send_latency (config n) = (lo, hi)" by (cases "send_latency (config n)")
  obtain r1 where "gen_range R lo hi r1 = (lat, r')" "lo < hi"
    using assms(2) l by (auto simp: test_link_def Let_def not_le split: if_splits prod.splits)
  then show ?thesis using rng_okD [OF assms(1)] l by simp
qed

lemma try_send_latency:
  assumes "rng_ok R" "try_send R i dst proto n r = Ok (Some (src, j, ep, lat), n', r')"
  shows "fst (send_latency (config n)) \<le> lat \<and> lat < snd (send_latency (config n))"
  using assms(2)
proof (cases rule: try_send_cases)
  case (tested k l)
  then have "l = Some lat" by auto
  then show ?thesis using test_link_latency [OF assms(1)] tested(2) by blast
qed simp

text \<open>
  C16: what a successful \<open>try_send\<close> returns.  The link was open; the latency lies in the configured
  range; the socket is the one bound at the destination node for that address (or for \<open>0.0.0.0\<close> at the
  port); the message is counted; a loopback destination stays on the node and has the source
  \<open>127.0.0.1\<close>; any other has the sender's own address as its source.
\<close>

theorem try_send_delivers:
  assumes "rng_ok R" "try_send R i dst proto n r = Ok (Some (src, j, ep, lat), n', r')"
  shows "\<not> link_clogged i j n \<and>
         fst (send_latency (config n)) \<le> lat \<and> lat < snd (send_latency (config n)) \<and>
         (\<exists>dnode. nodes n j = Some dnode \<and> find_socket dnode dst proto = Some ep) \<and>
         msg_count n' = msg_count n + 1 \<and>
         (if is_loopback (fst dst) then j = i \<and> src = LOCALHOST
          else \<exists>nd. nodes n i = Some nd \<and> node_ip nd = Some src)"
  using assms(2)
proof (cases rule: try_send_cases)
  case unresolved
  then show ?thesis by simp
next
  case (tested k l)
  have m: "k = j" "l = Some lat" "\<exists>dnode. nodes n j = Some dnode \<and> find_socket dnode dst proto = Some ep"
    "if is_loopback (fst dst) then src = LOCALHOST else \<exists>nd. nodes n i = Some nd \<and> node_ip nd = Some src"
    using tested(3) by blast+
  have "is_loopback (fst dst) \<Longrightarrow> j = i" using tested(1) m(1) by (auto simp: resolve_dest_node_def)
  moreover have "fst (send_latency (config n)) \<le> lat \<and> lat < snd (send_latency (config n))"
    using tested(2) m(2) test_link_latency [OF assms(1)] by simp
  ultimately show ?thesis using m test_link_Ok(4) [OF tested(2)] by auto
qed

theorem try_send_delivers_witness:
  "rng_ok const_rng \<and>
   try_send const_rng 1 (V4 2, 80) Udp two_nodes 0 =
     (Ok (Some (V4 1, 2, 7, 1000000), two_nodes\<lparr>msg_count := 1\<rparr>, 2) :: (unit, _) res) \<and>
   \<not> link_clogged 1 2 two_nodes \<and> (1000000 :: nat) < snd (send_latency (config two_nodes))"
proof -
  have t: "try_send const_rng 1 (V4 2, 80) Udp two_nodes 0 =
      (Ok (Some (V4 1, 2, 7, 1000000), two_nodes\<lparr>msg_count := 1\<rparr>, 2) :: (unit, _) res)"
    by (simp add: try_send_def resolve_dest_node_def two_nodes_def test_link_def link_clogged_def
        network_new_def config_default_def default_send_latency_def const_rng_def find_socket_def Let_def)
  show ?thesis using try_send_delivers [OF const_rng_ok t] const_rng_ok t by blast
qed

text \<open>
  A node that has no address cannot talk to itself through a non-loopback address.  When it has a
  socket bound to such an address (for example \<open>0.0.0.0\<close>) and sends there, \<open>resolve_dest_node\<close> finds the
  node itself, and the source address is unwrapped although there is none: \<open>try_send\<close> panics whenever the
  packet is not lost.
\<close>

theorem try_send_without_ip_panics:
  assumes "nodes n i = Some nd" "node_ip nd = None" "\<not> is_loopback (fst dst)"
    and "sockets nd (dst, proto) = Some s"
    and "test_link R i i n r = (Ok (Some lat, n', r') :: ('e, _) res)"
  shows "is_panic (try_send R i dst proto n r :: ('e, _) res)"
  using assms test_link_Ok(1) [OF assms(5)]
  by (simp add: try_send_def resolve_dest_node_def find_socket_def)

theorem try_send_without_ip_panics_witness:
  "is_panic (try_send const_rng 1 (UNSPECIFIED, 80) Udp
     ((network_new config_default)\<lparr>nodes := [1 \<mapsto> \<lparr>node_ip = None, sockets = [((UNSPECIFIED, 80), Udp) \<mapsto> 7]\<rparr>]\<rparr>) 0
     :: (unit, _) res)"
  by (rule try_send_without_ip_panics
      [where nd = "\<lparr>node_ip = None, sockets = [((UNSPECIFIED, 80), Udp) \<mapsto> 7]\<rparr>" and s = 7])
    (simp_all add: test_link_def link_clogged_def network_new_def config_default_def
      default_send_latency_def const_rng_def UNSPECIFIED_def Let_def)

end
