(* ===== verification/NameServices.thy ===== *)
theory NameServices
  imports Network
begin

section \<open>DNS and IP virtual servers (\<open>net/dns.rs\<close>, \<open>net/ipvs.rs\<close>)\<close>

text \<open>
  The cluster's name server and the load balancer that maps a service address to one of its
  real servers in turn.
\<close>

subsection \<open>The contract of a name service\<close>

locale name_service =
  fixes add :: "'n \<Rightarrow> 'a \<Rightarrow> 's \<Rightarrow> 's"
    and lookup :: "'n \<Rightarrow> 's \<Rightarrow> 'a option"
  assumes lookup_add: "lookup m (add n a s) = (if m = n then Some a else lookup m s)"
begin

lemma lookup_add_same: "lookup n (add n a s) = Some a"
  by (simp add: lookup_add)

lemma lookup_add_other: "m \<noteq> n \<Longrightarrow> lookup m (add n a s) = lookup m s"
  by (simp add: lookup_add)

lemma last_add_wins: "lookup m (add n b (add n a s)) = lookup m (add n b s)"
  by (simp add: lookup_add)

lemma lookup_fold:
  "lookup m (fold (\<lambda>(n, a). add n a) ps s) = (case map_of (rev ps) m of Some a \<Rightarrow> Some a | None \<Rightarrow> lookup m s)"
proof (induction ps arbitrary: s)
  case Nil
  then show ?case by simp
next
  case (Cons p ps)
  then show ?case
    by (cases p) (simp add: lookup_add map_add_def split: option.splits)
qed

end

subsection \<open>\<open>DnsServer\<close>\<close>

type_synonym dns_server = "string \<rightharpoonup> ip_addr"

definition dns_default :: dns_server where
  "dns_default = [''localhost'' \<mapsto> LOCALHOST]"

definition dns_add :: "string \<Rightarrow> ip_addr \<Rightarrow> dns_server \<Rightarrow> dns_server" where
  "dns_add name ip d = d(name \<mapsto> ip)"

definition dns_lookup :: "string \<Rightarrow> dns_server \<Rightarrow> ip_addr option" where
  "dns_lookup name d = d name"

interpretation dns: name_service dns_add dns_lookup
  by unfold_locales (simp add: dns_add_def dns_lookup_def)

subsection \<open>\<open>IpVirtualServer\<close>\<close>

datatype service_addr = TcpService string | UdpService string

text \<open>\<open>show\<close> is the \<open>Display\<close> of a socket address.\<close>

definition from_addr_proto :: "(socket_addr \<Rightarrow> string) \<Rightarrow> socket_addr \<Rightarrow> ip_protocol \<Rightarrow> service_addr" where
  "from_addr_proto show a p = (case p of Tcp \<Rightarrow> TcpService (show a) | Udp \<Rightarrow> UdpService (show a))"

datatype scheduler = RoundRobin

record service =
  scheduler :: scheduler
  servers :: "string list"
  rr_index :: nat

type_synonym ipvs = "service_addr \<rightharpoonup> service"

definition add_service :: "service_addr \<Rightarrow> scheduler \<Rightarrow> ipvs \<Rightarrow> ipvs" where
  "add_service a s v = v(a \<mapsto> \<lparr>scheduler = s, servers = [], rr_index = 0\<rparr>)"

definition del_service :: "service_addr \<Rightarrow> ipvs \<Rightarrow> ipvs" where
  "del_service a v = v(a := None)"

definition add_server :: "service_addr \<Rightarrow> string \<Rightarrow> ipvs \<Rightarrow> ('e, ipvs) res" where
  "add_server a x v =
     bind_res (expect ''service not found'' (v a)) (\<lambda>s. Ok (v(a \<mapsto> s\<lparr>servers := servers s @ [x]\<rparr>)))"

definition del_server :: "service_addr \<Rightarrow> string \<Rightarrow> ipvs \<Rightarrow> ('e, ipvs) res" where
  "del_server a x v =
     bind_res (expect ''service not found'' (v a))
       (\<lambda>s. Ok (v(a \<mapsto> s\<lparr>servers := filter (\<lambda>y. y \<noteq> x) (servers s)\<rparr>)))"

definition get_server :: "service_addr \<Rightarrow> ipvs \<Rightarrow> string option \<times> ipvs" where
  "get_server a v =
     (case v a of
        None \<Rightarrow> (None, v)
      | Some s \<Rightarrow>
          (case scheduler s of RoundRobin \<Rightarrow>
             if servers s = [] then (None, v)
             else
               let i = (if length (servers s) \<le> rr_index s then 0 else rr_index s)
               in (Some (servers s ! i), v(a \<mapsto> s\<lparr>rr_index := i + 1\<rparr>))))"

primrec get_servers :: "nat \<Rightarrow> service_addr \<Rightarrow> ipvs \<Rightarrow> string option list \<times> ipvs" where
  "get_servers 0 a v = ([], v)"
| "get_servers (Suc n) a v =
     (let (x, v') = get_server a v; (xs, v'') = get_servers n a v' in (x # xs, v''))"

lemma get_server_Some:
  assumes "v a = Some s" "servers s \<noteq> []"
  defines "i \<equiv> if length (servers s) \<le> rr_index s then 0 else rr_index s"
  shows "get_server a v = (Some (servers s ! i), v(a \<mapsto> s\<lparr>rr_index := i + 1\<rparr>))"
  using assms by (cases "scheduler s") (simp add: get_server_def Let_def)

lemma get_servers_rotate:
  assumes "v a = Some s" "servers s \<noteq> []" "rr_index s \<le> length (servers s)"
  shows "fst (get_servers n a v) = map (\<lambda>k. Some (servers s ! ((rr_index s + k) mod length (servers s)))) [0..<n]"
  using assms
proof (induction n arbitrary: v s)
  case 0
  then show ?case by simp
next
  case (Suc n)
  let ?L = "length (servers s)"
  define i where "i = (if ?L \<le> rr_index s then 0 else rr_index s)"
  let ?s = "s\<lparr>rr_index := i + 1\<rparr>"
  have i: "i = rr_index s mod ?L" "i < ?L"
    using Suc.prems(2,3) by (auto simp: i_def le_less)
  have g: "get_server a v = (Some (servers s ! i), v(a \<mapsto> ?s))"
    using get_server_Some [of v a s, OF Suc.prems(1,2)] by (simp add: i_def)
  define v' where "v' = v(a \<mapsto> ?s)"
  have shift: "(i + 1 + k) mod ?L = (rr_index s + Suc k) mod ?L" for k
    using i(1) by (metis add.assoc add_Suc_right add_Suc_shift mod_add_left_eq plus_1_eq_Suc)
  have tl: "fst (get_servers n a v') = map (\<lambda>k. Some (servers s ! ((rr_index s + Suc k) mod ?L))) [0..<n]"
  proof -
    have "v' a = Some ?s" by (simp add: v'_def)
    from Suc.IH [of v' ?s, OF this] show ?thesis using Suc.prems(2) i(2) shift by simp
  qed
  have upt: "[0..<Suc n] = 0 # map Suc [0..<n]" by (simp add: map_Suc_upt upt_conv_Cons)
  have "fst (get_servers (Suc n) a v) = Some (servers s ! i) # fst (get_servers n a v')"
    using g by (simp add: Let_def v'_def split: prod.splits)
  also have "\<dots> = map (\<lambda>k. Some (servers s ! ((rr_index s + k) mod ?L))) [0..<Suc n]"
    unfolding upt tl by (simp add: i(1) comp_def)
  finally show ?case .
qed

lemma get_servers_from_zero:
  assumes "v a = Some s" "servers s \<noteq> []" "length (servers s) < rr_index s"
  shows "get_servers n a v = (if n = 0 then ([], v) else get_servers n a (v(a \<mapsto> s\<lparr>rr_index := 0\<rparr>)))"
  using assms get_server_Some [of v a s]
    get_server_Some [of "v(a \<mapsto> s\<lparr>rr_index := 0\<rparr>)" a "s\<lparr>rr_index := 0\<rparr>"]
  by (cases n) (simp_all add: Let_def split: prod.splits)

text \<open>
  Round-robin fairness.  From any state of a service, as many calls of \<open>get_server\<close> as it has
  servers return every server exactly once, in the order of the list from the current position on,
  also after servers were removed and the index has run past the end.
\<close>

theorem round_robin_fair:
  assumes "v a = Some s" "servers s \<noteq> []"
  shows "fst (get_servers (length (servers s)) a v) =
           map Some (rotate (if length (servers s) \<le> rr_index s then 0 else rr_index s) (servers s))"
proof -
  let ?L = "length (servers s)"
  let ?r = "if ?L \<le> rr_index s then 0 else rr_index s"
  have "fst (get_servers ?L a v) = map (\<lambda>k. Some (servers s ! ((?r + k) mod ?L))) [0..<?L]"
  proof (cases "?L < rr_index s")
    case True
    then show ?thesis
      using get_servers_from_zero [of v a s ?L]
        get_servers_rotate [of "v(a \<mapsto> s\<lparr>rr_index := 0\<rparr>)" a "s\<lparr>rr_index := 0\<rparr>" ?L] assms
      by simp
  next
    case False
    then have "(rr_index s + k) mod ?L = (?r + k) mod ?L" for k by auto
    then show ?thesis using get_servers_rotate [of v a s ?L] assms False by simp
  qed
  also have "\<dots> = map Some (rotate ?r (servers s))"
    by (rule nth_equalityI) (simp_all add: nth_rotate)
  finally show ?thesis .
qed

theorem round_robin_fair_witness:
  "\<exists>v s. v (TcpService ''svc'') = Some s \<and> servers s = [''a'', ''b'', ''c''] \<and> rr_index s = 1 \<and>
     fst (get_servers 3 (TcpService ''svc'') v) = [Some ''b'', Some ''c'', Some ''a'']"
proof -
  let ?s = "\<lparr>scheduler = RoundRobin, servers = [''a'', ''b'', ''c''], rr_index = 1\<rparr>"
  let ?v = "[TcpService ''svc'' \<mapsto> ?s]"
  show ?thesis using round_robin_fair [of ?v "TcpService ''svc''" ?s]
    by (intro exI [of _ ?v] exI [of _ ?s]) (simp add: rotate1_def eval_nat_numeral)
qed

end
