(* ===== verification/Mailbox.thy ===== *)
theory Mailbox
  imports Network
begin

section \<open>The tag-matching mailbox of an endpoint (\<open>net/endpoint.rs\<close>)\<close>

text \<open>
  A mailbox pairs incoming messages with pending receive requests by tag.  A request is
  the sending half of a \<open>oneshot\<close> channel, known by the number of its receiver; sending on it
  fails exactly when the receiver has been dropped, which the predicate \<open>alive\<close> tells.
\<close>

type_synonym tag = "64 word"
type_synonym rx = nat

record 'p message =
  msg_tag :: tag
  msg_data :: 'p
  msg_from :: socket_addr

record 'p mailbox =
  registered :: "(tag \<times> rx) list"
  msgs :: "'p message list"

definition mailbox_default :: "'p mailbox" where
  "mailbox_default = \<lparr>registered = [], msgs = []\<rparr>"

text \<open>The loop of \<open>Mailbox::deliver\<close>: requests with the tag are taken out one after another until one
  accepts the message.\<close>

function deliver_loop :: "(rx \<Rightarrow> bool) \<Rightarrow> tag \<Rightarrow> nat \<Rightarrow> (tag \<times> rx) list \<Rightarrow> rx option \<times> (tag \<times> rx) list" where
  "deliver_loop alive t i reg =
     (if i < length reg then
        if t = fst (reg ! i) then
          (if alive (snd (reg ! i)) then (Some (snd (reg ! i)), swap_remove i reg)
           else deliver_loop alive t i (swap_remove i reg))
        else deliver_loop alive t (Suc i) reg
      else (None, reg))"
  by pat_completeness auto
termination
  by (relation "measure (\<lambda>(a, t, i, reg). length reg - i)") auto

declare deliver_loop.simps [simp del]

definition deliver :: "(rx \<Rightarrow> bool) \<Rightarrow> 'p message \<Rightarrow> 'p mailbox \<Rightarrow> rx option \<times> 'p mailbox" where
  "deliver alive m b =
     (case deliver_loop alive (msg_tag m) 0 (registered b) of
        (Some x, reg) \<Rightarrow> (Some x, b\<lparr>registered := reg\<rparr>)
      | (None, reg) \<Rightarrow> (None, b\<lparr>registered := reg, msgs := msgs b @ [m]\<rparr>))"

text \<open>\<open>Mailbox::recv\<close>: \<open>x\<close> is the freshly made channel; a stored message is sent on it at once.\<close>

definition recv :: "tag \<Rightarrow> rx \<Rightarrow> 'p mailbox \<Rightarrow> 'p message option \<times> 'p mailbox" where
  "recv t x b =
     (case position (\<lambda>m. t = msg_tag m) (msgs b) of
        Some i \<Rightarrow> (Some (msgs b ! i), b\<lparr>msgs := swap_remove i (msgs b)\<rparr>)
      | None \<Rightarrow> (None, b\<lparr>registered := registered b @ [(t, x)]\<rparr>))"

lemma deliver_loop_spec:
  "deliver_loop alive t i reg = (res, reg') \<Longrightarrow> (\<forall>j < i. fst (reg ! j) = t \<longrightarrow> False) \<Longrightarrow>
   (\<exists>dead. set_mset dead \<subseteq> {(t, x) | x. \<not> alive x} \<and>
      mset reg = (case res of None \<Rightarrow> {#} | Some x \<Rightarrow> {#(t, x)#}) + dead + mset reg') \<and>
   (case res of None \<Rightarrow> \<forall>(t', x) \<in> set reg'. t' \<noteq> t | Some x \<Rightarrow> alive x)"
proof (induction alive t i reg arbitrary: res reg' rule: deliver_loop.induct)
  case (1 alive t i reg)
  show ?case
  proof (cases "i < length reg")
    case False
    then have "res = None" "reg' = reg" using "1.prems"(1) by (simp_all add: deliver_loop.simps [of alive t i])
    moreover have "\<forall>(t', x) \<in> set reg. t' \<noteq> t"
    proof (rule ballI, clarify)
      fix x assume "(t, x) \<in> set reg"
      then obtain j where "j < length reg" "fst (reg ! j) = t" by (auto simp: in_set_conv_nth)
      then show False using "1.prems"(2) False by auto
    qed
    ultimately show ?thesis by (auto intro: exI [of _ "{#}"])
  next
    case True
    show ?thesis
    proof (cases "t = fst (reg ! i)")
      case False
      then have "deliver_loop alive t (Suc i) reg = (res, reg')"
        using "1.prems"(1) True by (simp add: deliver_loop.simps [of alive t i])
      moreover have "\<forall>j < Suc i. fst (reg ! j) = t \<longrightarrow> False"
        using "1.prems"(2) False by (auto simp: less_Suc_eq)
      ultimately show ?thesis using "1.IH"(2) [OF True False] by blast
    next
      case tag: True
      define x where "x = snd (reg ! i)"
      have ri: "reg ! i = (t, x)" using tag by (simp add: x_def prod_eq_iff)
      have ms: "mset reg = add_mset (t, x) (mset (swap_remove i reg))"
        using mset_swap_remove [OF True] ri by simp
      show ?thesis
      proof (cases "alive x")
        case True': True
        then have "res = Some x" "reg' = swap_remove i reg"
          using "1.prems"(1) True ri by (simp_all add: deliver_loop.simps [of alive t i])
        then show ?thesis using True' ms by (auto intro: exI [of _ "{#}"])
      next
        case False
        then have d: "deliver_loop alive t i (swap_remove i reg) = (res, reg')"
          using "1.prems"(1) True ri by (simp add: deliver_loop.simps [of alive t i])
        have "\<forall>j < i. fst (swap_remove i reg ! j) = t \<longrightarrow> False"
          using "1.prems"(2) True by (auto simp: swap_remove_def nth_butlast)
        then obtain dead where "set_mset dead \<subseteq> {(t, x) | x. \<not> alive x}"
          "mset (swap_remove i reg) = (case res of None \<Rightarrow> {#} | Some x \<Rightarrow> {#(t, x)#}) + dead + mset reg'"
          "case res of None \<Rightarrow> \<forall>(t', x) \<in> set reg'. t' \<noteq> t | Some x \<Rightarrow> alive x"
          using "1.IH"(1) [OF True tag _ d] False ri by auto
        then show ?thesis using ms False
          by (intro conjI exI [of _ "add_mset (t, x) dead"]) auto
      qed
    qed
  qed
qed

subsection \<open>No message waits while a live request for it waits\<close>

definition mailbox_inv :: "(rx \<Rightarrow> bool) \<Rightarrow> 'p mailbox \<Rightarrow> bool" where
  "mailbox_inv alive b \<longleftrightarrow>
     (\<forall>(t, x) \<in> set (registered b). alive x \<longrightarrow> (\<forall>m \<in> set (msgs b). msg_tag m \<noteq> t))"

lemma deliver_registered:
  assumes "deliver alive m b = (res, b')"
  shows "set (registered b') \<subseteq> set (registered b)"
    and "res = None \<Longrightarrow> msgs b' = msgs b @ [m] \<and> (\<forall>(t, x) \<in> set (registered b'). t \<noteq> msg_tag m)"
    and "res = Some x \<Longrightarrow> msgs b' = msgs b \<and> alive x \<and> (msg_tag m, x) \<in> set (registered b)"
proof -
  obtain r reg where d: "deliver_loop alive (msg_tag m) 0 (registered b) = (r, reg)"
    by (cases "deliver_loop alive (msg_tag m) 0 (registered b)")
  note spec = deliver_loop_spec [OF d]
  have res: "res = r" "registered b' = reg" and
    ms: "msgs b' = (case r of None \<Rightarrow> msgs b @ [m] | Some _ \<Rightarrow> msgs b)"
    using assms d by (auto simp: deliver_def split: option.splits)
  from spec obtain dead where
    m: "mset (registered b) = (case r of None \<Rightarrow> {#} | Some x \<Rightarrow> {#(msg_tag m, x)#}) + dead + mset reg"
    by auto
  then have "set_mset (mset reg) \<subseteq> set_mset (mset (registered b))" by auto
  then show "set (registered b') \<subseteq> set (registered b)" using res by simp
  show "res = None \<Longrightarrow> msgs b' = msgs b @ [m] \<and> (\<forall>(t, x) \<in> set (registered b'). t \<noteq> msg_tag m)"
    using spec res ms by auto
  show "res = Some x \<Longrightarrow> msgs b' = msgs b \<and> alive x \<and> (msg_tag m, x) \<in> set (registered b)"
    using spec res ms m by (auto simp flip: set_mset_mset)
qed

lemma deliver_inv:
  assumes "mailbox_inv alive b" "deliver alive m b = (res, b')"
  shows "mailbox_inv alive b'"
proof (cases res)
  case None
  then show ?thesis using assms(1) deliver_registered(1,2) [OF assms(2)] by (fastforce simp: mailbox_inv_def)
next
  case (Some x)
  then show ?thesis using assms(1) deliver_registered(1,3) [OF assms(2)] by (fastforce simp: mailbox_inv_def)
qed

lemma recv_inv:
  assumes "mailbox_inv alive b" "recv t x b = (res, b')"
  shows "mailbox_inv alive b'"
proof (cases "position (\<lambda>m. t = msg_tag m) (msgs b)")
  case None
  then have "b' = b\<lparr>registered := registered b @ [(t, x)]\<rparr>" using assms(2) by (auto simp: recv_def)
  moreover have "\<forall>m \<in> set (msgs b). msg_tag m \<noteq> t" using None by (auto simp: position_None_iff)
  ultimately show ?thesis using assms(1) by (auto simp: mailbox_inv_def)
next
  case (Some i)
  then have "i < length (msgs b)" using position_Some by blast
  then show ?thesis using assms Some set_swap_remove_subset [of i "msgs b"]
    by (fastforce simp: recv_def mailbox_inv_def)
qed

lemma mailbox_inv_dying: "mailbox_inv alive b \<Longrightarrow> (\<And>x. alive' x \<Longrightarrow> alive x) \<Longrightarrow> mailbox_inv alive' b"
  by (auto simp: mailbox_inv_def)

text \<open>
  A history of a mailbox: messages arrive, receive requests are made, and receivers die
  (never come back to life).  \<open>taken\<close> is what has been handed to receivers.
\<close>

datatype 'p mail_event = Arrive "'p message" | Request tag rx | Drop rx

fun mail_step :: "'p mail_event \<Rightarrow> (rx \<Rightarrow> bool) \<times> 'p mailbox \<times> 'p message list
    \<Rightarrow> (rx \<Rightarrow> bool) \<times> 'p mailbox \<times> 'p message list" where
  "mail_step (Arrive m) (alive, b, taken) =
     (case deliver alive m b of (Some _, b') \<Rightarrow> (alive, b', taken @ [m]) | (None, b') \<Rightarrow> (alive, b', taken))"
| "mail_step (Request t x) (alive, b, taken) =
     (case recv t x b of (Some m, b') \<Rightarrow> (alive, b', taken @ [m]) | (None, b') \<Rightarrow> (alive, b', taken))"
| "mail_step (Drop x) (alive, b, taken) = (alive(x := False), b, taken)"

definition arrived :: "'p mail_event list \<Rightarrow> 'p message list" where
  "arrived es = List.map_filter (\<lambda>e. case e of Arrive m \<Rightarrow> Some m | _ \<Rightarrow> None) es"

lemma mail_step_inv:
  assumes "mailbox_inv alive b" "mail_step e (alive, b, taken) = (alive', b', taken')"
  shows "mailbox_inv alive' b'"
proof (cases e)
  case (Arrive m)
  obtain r c where d: "deliver alive m b = (r, c)" by (cases "deliver alive m b")
  then have "alive' = alive" "b' = c" using assms(2) Arrive by (auto split: option.splits)
  then show ?thesis using deliver_inv [OF assms(1) d] by simp
next
  case (Request t x)
  obtain r c where d: "recv t x b = (r, c)" by (cases "recv t x b")
  then have "alive' = alive" "b' = c" using assms(2) Request by (auto split: option.splits)
  then show ?thesis using recv_inv [OF assms(1) d] by simp
next
  case (Drop x)
  then have "alive' = alive(x := False)" "b' = b" using assms(2) by auto
  then show ?thesis using mailbox_inv_dying [OF assms(1)] by (metis fun_upd_apply)
qed

lemma mail_step_conserves:
  assumes "mail_step e (alive, b, taken) = (alive', b', taken')"
  shows "mset taken' + mset (msgs b') = mset taken + mset (msgs b) + mset (arrived [e])"
proof (cases e)
  case (Arrive m)
  obtain r c where "deliver alive m b = (r, c)" by (cases "deliver alive m b")
  then show ?thesis using assms Arrive deliver_registered(2,3) [of alive m b r c]
    by (cases r) (auto simp: arrived_def map_filter_def)
next
  case (Request t x)
  show ?thesis
  proof (cases "position (\<lambda>m. t = msg_tag m) (msgs b)")
    case None
    then show ?thesis using assms Request by (auto simp: recv_def arrived_def map_filter_def)
  next
    case (Some i)
    then show ?thesis
      using assms Request mset_swap_remove [of i "msgs b"] position_Some [OF Some]
      by (auto simp: recv_def arrived_def map_filter_def)
  qed
next
  case (Drop x)
  then show ?thesis using assms by (simp add: arrived_def map_filter_def)
qed

text \<open>
  The mailbox neither loses nor invents messages, and never keeps a message back from a waiting
  receiver.  After any history of arrivals, receive requests and dropped receivers from the
  empty mailbox, the messages handed out and the messages still stored are together exactly
  the messages that arrived, and no stored message has the tag of a live pending request.
\<close>

theorem mailbox_exactly_once:
  assumes "fold mail_step es (\<lambda>_. True, mailbox_default, []) = (alive, b, taken)"
  shows "mset taken + mset (msgs b) = mset (arrived es) \<and>
         (\<forall>(t, x) \<in> set (registered b). alive x \<longrightarrow> (\<forall>m \<in> set (msgs b). msg_tag m \<noteq> t))"
proof -
  have arr: "mset (arrived (es @ [e])) = mset (arrived es) + mset (arrived [e])" for es :: "'a mail_event list" and e
    by (simp add: arrived_def map_filter_def)
  have "mset taken + mset (msgs b) = mset (arrived es) \<and> mailbox_inv alive b"
    using assms
  proof (induction es arbitrary: alive b taken rule: rev_induct)
    case Nil
    then show ?case by (auto simp: mailbox_default_def mailbox_inv_def arrived_def map_filter_def)
  next
    case (snoc e es)
    obtain a1 b1 t1 where f: "fold mail_step es (\<lambda>_. True, mailbox_default, []) = (a1, b1, t1)"
      by (metis prod.collapse)
    then have "mail_step e (a1, b1, t1) = (alive, b, taken)" using snoc.prems by simp
    then show ?case using snoc.IH [OF f] mail_step_inv mail_step_conserves arr by (metis (no_types, lifting))
  qed
  then show ?thesis by (simp add: mailbox_inv_def)
qed

theorem mailbox_exactly_once_witness:
  "let m = (\<lambda>k. \<lparr>msg_tag = 1, msg_data = k, msg_from = (LOCALHOST, 9)\<rparr>);
       es = [Request 1 5, Drop 5, Arrive (m (10::nat)), Arrive (m 20), Request 1 6];
       (alive, b, taken) = fold mail_step es (\<lambda>_. True, mailbox_default, [])
   in taken = [m 10] \<and> msgs b = [m 20] \<and> mset taken + mset (msgs b) = mset (arrived es)"
  using mailbox_exactly_once [of "[Request 1 5, Drop 5,
      Arrive \<lparr>msg_tag = 1, msg_data = (10::nat), msg_from = (LOCALHOST, 9)\<rparr>,
      Arrive \<lparr>msg_tag = 1, msg_data = 20, msg_from = (LOCALHOST, 9)\<rparr>, Request 1 6]"]
  by (simp add: Let_def mailbox_default_def recv_def deliver_def deliver_loop.simps swap_remove_def
      arrived_def map_filter_def)

end
