(* ===== verification/NetSim.thy ===== *)
theory NetSim
  imports Network NameServices SimTime Mailbox
begin

section \<open>The network simulator (\<open>madsim/src/sim/net/mod.rs\<close>)\<close>

text \<open>
  \<open>NetSim\<close> on top of the network, the name table and the virtual services: delayed
  datagrams, connections made of two reliable ordered channels, and the guard that binds a socket.

  An \<open>async fn\<close> is split at its \<open>await\<close>s: \<open>rand_delay\<close> gives the time to sleep, and the part after the
  delay is a function of its own.  \<open>parse\<close> and \<open>print\<close> are the standard library's conversions
  between a socket address and its text; the random source is as in \<open>Network\<close>, \<open>bug\<close> tells whether
  buggify is enabled.  A timer callback of \<open>send\<close> is the record \<open>delivery\<close>.
\<close>

record 'p net_sim =
  ns_network :: network
  ns_dns :: dns_server
  ns_ipvs :: ipvs
  hooks_req :: "node_id \<rightharpoonup> ('p \<Rightarrow> bool)"
  hooks_rsp :: "node_id \<rightharpoonup> ('p \<Rightarrow> bool)"

definition net_sim_new :: "net_config \<Rightarrow> 'p net_sim" where
  "net_sim_new c = \<lparr>ns_network = network_new c, ns_dns = dns_default, ns_ipvs = Map.empty,
     hooks_req = Map.empty, hooks_rsp = Map.empty\<rparr>"

definition netsim_create_node :: "node_id \<Rightarrow> 'p net_sim \<Rightarrow> 'p net_sim" where
  "netsim_create_node i ns = ns\<lparr>ns_network := insert_node i (ns_network ns)\<rparr>"

definition netsim_lift :: "(network \<Rightarrow> ('e, network) res) \<Rightarrow> 'p net_sim \<Rightarrow> ('e, 'p net_sim) res" where
  "netsim_lift f ns = bind_res (f (ns_network ns)) (\<lambda>n. Ok (ns\<lparr>ns_network := n\<rparr>))"

definition netsim_reset_node :: "node_id \<Rightarrow> 'p net_sim \<Rightarrow> ('e, 'p net_sim) res" where
  "netsim_reset_node i = netsim_lift (reset_node i)"

definition netsim_set_ip :: "node_id \<Rightarrow> ip_addr \<Rightarrow> 'p net_sim \<Rightarrow> ('e, 'p net_sim) res" where
  "netsim_set_ip i a = netsim_lift (set_ip i a)"

definition netsim_clog :: "direction \<Rightarrow> node_id \<Rightarrow> 'p net_sim \<Rightarrow> ('e, 'p net_sim) res" where
  "netsim_clog d i = netsim_lift (clog_node i d)"

definition netsim_unclog :: "direction \<Rightarrow> node_id \<Rightarrow> 'p net_sim \<Rightarrow> ('e, 'p net_sim) res" where
  "netsim_unclog d i = netsim_lift (unclog_node i d)"

text \<open>\<open>connect2\<close> and \<open>disconnect2\<close>: both directions of a link.\<close>

definition connect2 :: "node_id \<Rightarrow> node_id \<Rightarrow> 'p net_sim \<Rightarrow> ('e, 'p net_sim) res" where
  "connect2 i j = netsim_lift (\<lambda>n. bind_res (unclog_link i j n) (unclog_link j i))"

definition disconnect2 :: "node_id \<Rightarrow> node_id \<Rightarrow> 'p net_sim \<Rightarrow> ('e, 'p net_sim) res" where
  "disconnect2 i j = netsim_lift (\<lambda>n. bind_res (clog_link i j n) (clog_link j i))"

definition add_dns_record :: "string \<Rightarrow> ip_addr \<Rightarrow> 'p net_sim \<Rightarrow> 'p net_sim" where
  "add_dns_record h a ns = ns\<lparr>ns_dns := dns_add h a (ns_dns ns)\<rparr>"

definition lookup_dns :: "string \<Rightarrow> 'p net_sim \<Rightarrow> ip_addr option" where
  "lookup_dns h ns = dns_lookup h (ns_dns ns)"

text \<open>\<open>hook_rpc_req\<close>, \<open>hook_rpc_rsp\<close>: \<open>view\<close> is the downcast of the payload to the hooked type.\<close>

definition mk_hook :: "('p \<Rightarrow> 'm option) \<Rightarrow> ('m \<Rightarrow> bool) \<Rightarrow> 'p \<Rightarrow> bool" where
  "mk_hook view f p = (case view p of Some m \<Rightarrow> f m | None \<Rightarrow> True)"

definition hook_rpc_req :: "node_id \<Rightarrow> ('p \<Rightarrow> 'm option) \<Rightarrow> ('m \<Rightarrow> bool) \<Rightarrow> 'p net_sim \<Rightarrow> 'p net_sim" where
  "hook_rpc_req i view f ns = ns\<lparr>hooks_req := (hooks_req ns)(i \<mapsto> mk_hook view f)\<rparr>"

definition hook_rpc_rsp :: "node_id \<Rightarrow> ('p \<Rightarrow> 'm option) \<Rightarrow> ('m \<Rightarrow> bool) \<Rightarrow> 'p net_sim \<Rightarrow> 'p net_sim" where
  "hook_rpc_rsp i view f ns = ns\<lparr>hooks_rsp := (hooks_rsp ns)(i \<mapsto> mk_hook view f)\<rparr>"

definition rand_delay :: "'r rng_ops \<Rightarrow> bool \<Rightarrow> 'r \<Rightarrow> duration \<times> 'r" where
  "rand_delay R bug r =
     (let (us, r) = gen_range R 0 5 r in
      if bug then
        let (slow, r) = gen_bool R (1 / 10) r in
        if slow then let (s, r) = gen_range R 1 5 r in (s * nanos_per_sec, r) else (us * 1000, r)
      else (us * 1000, r))"

subsection \<open>Datagrams\<close>

record 'p delivery =
  dl_hook :: "('p \<Rightarrow> bool) option"
  dl_socket :: sid
  dl_from :: socket_addr
  dl_dst :: socket_addr
  dl_msg :: 'p

text \<open>The virtual service's choice of a server.\<close>

definition via_ipvs :: "(string \<Rightarrow> socket_addr option) \<Rightarrow> (socket_addr \<Rightarrow> string) \<Rightarrow> socket_addr \<Rightarrow> ip_protocol
    \<Rightarrow> 'p net_sim \<Rightarrow> ('e, socket_addr \<times> 'p net_sim) res" where
  "via_ipvs parse print dst proto ns =
     (case get_server (from_addr_proto print dst proto) (ns_ipvs ns) of
        (Some a, v) \<Rightarrow> bind_res (expect ''invalid socket address'' (parse a)) (\<lambda>d. Ok (d, ns\<lparr>ns_ipvs := v\<rparr>))
      | (None, v) \<Rightarrow> Ok (dst, ns\<lparr>ns_ipvs := v\<rparr>))"

text \<open>\<open>NetSim::send\<close> after its delay: the answer is the timer to add, if any.\<close>

definition net_send :: "'r rng_ops \<Rightarrow> (string \<Rightarrow> socket_addr option) \<Rightarrow> (socket_addr \<Rightarrow> string)
    \<Rightarrow> node_id \<Rightarrow> port \<Rightarrow> socket_addr \<Rightarrow> ip_protocol \<Rightarrow> 'p \<Rightarrow> 'p net_sim \<Rightarrow> 'r
    \<Rightarrow> ('e, (duration \<times> 'p delivery) option \<times> 'p net_sim \<times> 'r) res" where
  "net_send R parse print i p dst proto m ns r =
     (if (case hooks_req ns i of Some hook \<Rightarrow> \<not> hook m | None \<Rightarrow> False) then Ok (None, ns, r)
      else bind_res (via_ipvs parse print dst proto ns) (\<lambda>(dst, ns).
        bind_res (try_send R i dst proto (ns_network ns) r) (\<lambda>(x, n, r).
          let ns = ns\<lparr>ns_network := n\<rparr> in
          case x of
            None \<Rightarrow> Ok (None, ns, r)
          | Some (ip, j, s, latency) \<Rightarrow>
              Ok (Some (latency, \<lparr>dl_hook = hooks_rsp ns j, dl_socket = s, dl_from = (ip, p), dl_dst = dst, dl_msg = m\<rparr>),
                  ns, r))))"

text \<open>The timer's callback: \<open>deliver s from dst msg\<close> is the socket's \<open>deliver\<close>.\<close>

definition run_delivery :: "(sid \<Rightarrow> socket_addr \<Rightarrow> socket_addr \<Rightarrow> 'p \<Rightarrow> 'x \<Rightarrow> 'x) \<Rightarrow> 'p delivery \<Rightarrow> 'x \<Rightarrow> 'x" where
  "run_delivery deliv d x =
     (if (case dl_hook d of Some hook \<Rightarrow> \<not> hook (dl_msg d) | None \<Rightarrow> False) then x
      else deliv (dl_socket d) (dl_from d) (dl_dst d) (dl_msg d) x)"

text \<open>\<open>EndpointSocket::deliver\<close> on the mailboxes of the endpoints.\<close>

definition endpoint_deliver :: "(rx \<Rightarrow> bool) \<Rightarrow> sid \<Rightarrow> socket_addr \<Rightarrow> socket_addr \<Rightarrow> tag \<times> 'd
    \<Rightarrow> (sid \<Rightarrow> 'd mailbox) \<times> (rx \<rightharpoonup> 'd message) \<Rightarrow> (sid \<Rightarrow> 'd mailbox) \<times> (rx \<rightharpoonup> 'd message)" where
  "endpoint_deliver alive s src dst m x =
     (let msg = \<lparr>msg_tag = fst m, msg_data = snd m, msg_from = src\<rparr>;
          (got, b) = deliver alive msg (fst x s)
      in ((fst x)(s := b), case got of Some k \<Rightarrow> (snd x)(k \<mapsto> msg) | None \<Rightarrow> snd x))"

subsection \<open>Reliable channels\<close>

text \<open>
  \<open>NetSim::channel\<close>: a queue of values, each with the arrival time found when it was sent, or \<open>None\<close>
  when the link was down.  The receiving stream takes a value, waits for the link with an exponential
  backoff from 1 ms to 10 s, then for the arrival time, and yields it.  \<open>rx_state\<close> is where the stream stands
  between two polls.
\<close>

datatype 'p rx_state = RxIdle | RxBackoff 'p sleep duration | RxArrive 'p sleep

record 'p chan =
  ch_node :: node_id
  ch_dst :: socket_addr
  ch_proto :: ip_protocol
  ch_buf :: "('p \<times> instant option) list"
  ch_tx_open :: bool
  ch_rx_open :: bool
  ch_rx :: "'p rx_state"

definition mk_channel :: "node_id \<Rightarrow> socket_addr \<Rightarrow> ip_protocol \<Rightarrow> 'p chan" where
  "mk_channel i dst proto = \<lparr>ch_node = i, ch_dst = dst, ch_proto = proto, ch_buf = [], ch_tx_open = True,
     ch_rx_open = True, ch_rx = RxIdle\<rparr>"

definition chan_test_link :: "'r rng_ops \<Rightarrow> instant \<Rightarrow> 'p chan \<Rightarrow> network \<Rightarrow> 'r
    \<Rightarrow> ('e, instant option \<times> network \<times> 'r) res" where
  "chan_test_link R now c n r =
     bind_res (try_send R (ch_node c) (ch_dst c) (ch_proto c) n r)
       (\<lambda>(x, n, r). Ok (map_option (\<lambda>(_, _, _, latency). now + latency) x, n, r))"

definition payload_send :: "'r rng_ops \<Rightarrow> instant \<Rightarrow> 'p \<Rightarrow> 'p chan \<Rightarrow> network \<Rightarrow> 'r
    \<Rightarrow> ('e, unit option \<times> 'p chan \<times> network \<times> 'r) res" where
  "payload_send R now v c n r =
     bind_res (chan_test_link R now c n r) (\<lambda>(st, n, r).
       if ch_rx_open c then Ok (Some (), c\<lparr>ch_buf := ch_buf c @ [(v, st)]\<rparr>, n, r) else Ok (None, c, n, r))"

definition rx_wait :: "'p \<Rightarrow> instant option \<Rightarrow> duration \<Rightarrow> 'tm time_handle \<Rightarrow> 'p rx_state" where
  "rx_wait v st backoff h =
     (case st of Some t \<Rightarrow> RxArrive v (sleep_until t h) | None \<Rightarrow> RxBackoff v (sleep_for backoff h) backoff)"

primrec rx_sleep :: "'p rx_state \<Rightarrow> sleep option" where
  "rx_sleep RxIdle = None"
| "rx_sleep (RxBackoff v s b) = Some s"
| "rx_sleep (RxArrive v s) = Some s"

text \<open>The first poll of the sleep of a new state; a new sleep lasts at least 1 ms, so it is pending.\<close>

definition rx_park :: "('tm, 'cb) timer_ops \<Rightarrow> 'cb \<Rightarrow> 'p rx_state \<Rightarrow> 'tm time_handle \<Rightarrow> 'tm time_handle" where
  "rx_park T waker x h = (case rx_sleep x of None \<Rightarrow> h | Some s \<Rightarrow> snd (sleep_poll T waker s h))"

definition rx_poll :: "'r rng_ops \<Rightarrow> ('tm, 'cb) timer_ops \<Rightarrow> 'cb \<Rightarrow> 'p chan \<Rightarrow> 'tm time_handle \<Rightarrow> network \<Rightarrow> 'r
    \<Rightarrow> ('e, 'p option poll \<times> 'p chan \<times> 'tm time_handle \<times> network \<times> 'r) res" where
  "rx_poll R T waker c h n r =
     (case ch_rx c of
        RxIdle \<Rightarrow>
          (case ch_buf c of
             [] \<Rightarrow> Ok (if ch_tx_open c then Pending else Ready None, c, h, n, r)
           | (v, st) # rest \<Rightarrow>
               let x = rx_wait v st nanos_per_ms h
               in Ok (Pending, c\<lparr>ch_buf := rest, ch_rx := x\<rparr>, rx_park T waker x h, n, r))
      | RxBackoff v s b \<Rightarrow>
          (case sleep_poll T waker s h of
             (Pending, h) \<Rightarrow> Ok (Pending, c, h, n, r)
           | (Ready _, h) \<Rightarrow>
               bind_res (chan_test_link R (now_instant (clock h)) c n r) (\<lambda>(st, n, r).
                 let x = rx_wait v st (min (b * 2) (10 * nanos_per_sec)) h
                 in Ok (Pending, c\<lparr>ch_rx := x\<rparr>, rx_park T waker x h, n, r)))
      | RxArrive v s \<Rightarrow>
          (case sleep_poll T waker s h of
             (Pending, h) \<Rightarrow> Ok (Pending, c, h, n, r)
           | (Ready _, h) \<Rightarrow> Ok (Ready (Some v), c\<lparr>ch_rx := RxIdle\<rparr>, h, n, r)))"

text \<open>\<open>NetSim::connect1\<close> after its delay: the two channels, the socket of the destination, which is told of the connection
  (\<open>new_connection\<close> with the source, the destination and the channels' other ends), and both addresses.\<close>

definition connect1 :: "'r rng_ops \<Rightarrow> (string \<Rightarrow> socket_addr option) \<Rightarrow> (socket_addr \<Rightarrow> string)
    \<Rightarrow> node_id \<Rightarrow> port \<Rightarrow> socket_addr \<Rightarrow> ip_protocol \<Rightarrow> 'q net_sim \<Rightarrow> 'r
    \<Rightarrow> (io_error, 'p chan \<times> 'p chan \<times> sid \<times> socket_addr \<times> socket_addr, 'q net_sim \<times> 'r) outcome" where
  "connect1 R parse print i p dst proto ns r =
     (case via_ipvs parse print dst proto ns of
        Ok (dst, ns) \<Rightarrow>
          (case try_send R i dst proto (ns_network ns) r of
             Ok (None, n, r) \<Rightarrow> (Err ConnectionRefused, ns\<lparr>ns_network := n\<rparr>, r)
           | Ok (Some (ip, j, s, latency), n, r) \<Rightarrow>
               (Ok (mk_channel i dst proto, mk_channel j (ip, p) proto, s, (ip, p), dst), ns\<lparr>ns_network := n\<rparr>, r)
           | Err e \<Rightarrow> (Err e, ns, r)
           | Panic m \<Rightarrow> (Panic m, ns, r))
      | Err e \<Rightarrow> (Err e, ns, r)
      | Panic m \<Rightarrow> (Panic m, ns, r))"

subsection \<open>\<open>BindGuard\<close>\<close>

text \<open>\<open>BindGuard::bind\<close> on the addresses the host name resolves to (without the delays between attempts).\<close>

primrec guard_bind :: "node_id \<Rightarrow> ip_protocol \<Rightarrow> sid \<Rightarrow> socket_addr list \<Rightarrow> io_error option \<Rightarrow> network
    \<Rightarrow> (io_error, socket_addr \<times> network) res" where
  "guard_bind i proto s [] last_err n = (case last_err of Some e \<Rightarrow> Err e | None \<Rightarrow> Err InvalidInput)"
| "guard_bind i proto s (a # as) last_err n =
     (case bind i a proto s n of
        Ok x \<Rightarrow> Ok x
      | Err e \<Rightarrow> guard_bind i proto s as (Some e) n
      | Panic m \<Rightarrow> Panic m)"

text \<open>\<open>Drop for BindGuard\<close>: the socket of a killed node stays, since the node may have been restarted.\<close>

definition guard_drop :: "bool \<Rightarrow> bool \<Rightarrow> node_id \<Rightarrow> socket_addr \<Rightarrow> ip_protocol \<Rightarrow> network \<Rightarrow> ('e, network) res" where
  "guard_drop killed locked i a proto n =
     (if killed then Ok n else if locked then Ok n else close i a proto n)"

subsection \<open>The contract of a channel\<close>

text \<open>A history of a channel is a list of sends and of polls of the receiving stream with their results.\<close>

datatype 'v chan_event = Sent 'v | Polled "'v option poll"

fun chan_run :: "('v \<Rightarrow> 'c \<Rightarrow> 'c \<Rightarrow> bool) \<Rightarrow> ('c \<Rightarrow> 'v option poll \<Rightarrow> 'c \<Rightarrow> bool) \<Rightarrow> 'v chan_event list \<Rightarrow> 'c \<Rightarrow> 'c \<Rightarrow> bool" where
  "chan_run S P [] c c' \<longleftrightarrow> c' = c"
| "chan_run S P (Sent v # es) c c' \<longleftrightarrow> (\<exists>d. S v c d \<and> chan_run S P es d c')"
| "chan_run S P (Polled x # es) c c' \<longleftrightarrow> (\<exists>d. P c x d \<and> chan_run S P es d c')"

fun sent_values :: "'v chan_event list \<Rightarrow> 'v list" where
  "sent_values [] = []"
| "sent_values (Sent v # es) = v # sent_values es"
| "sent_values (Polled x # es) = sent_values es"

fun received_values :: "'v chan_event list \<Rightarrow> 'v list" where
  "received_values [] = []"
| "received_values (Sent v # es) = received_values es"
| "received_values (Polled x # es) = (case x of Ready (Some v) \<Rightarrow> [v] | _ \<Rightarrow> []) @ received_values es"

text \<open>
  What users of a channel rely on: \<open>content\<close> are the values sent and not yet received; sending
  appends, receiving takes from the front, and the end of the stream comes only when nothing is left.
\<close>

locale fifo_channel =
  fixes sends :: "'v \<Rightarrow> 'c \<Rightarrow> 'c \<Rightarrow> bool"
    and receives :: "'c \<Rightarrow> 'v option poll \<Rightarrow> 'c \<Rightarrow> bool"
    and content :: "'c \<Rightarrow> 'v list"
  assumes content_sends: "sends v c c' \<Longrightarrow> content c' = content c @ [v]"
    and content_receives_Some: "receives c (Ready (Some v)) c' \<Longrightarrow> content c = v # content c'"
    and content_receives_None: "receives c (Ready None) c' \<Longrightarrow> content c = [] \<and> content c' = []"
    and content_receives_Pending: "receives c Pending c' \<Longrightarrow> content c' = content c"
begin

lemma content_receives:
  "receives c x c' \<Longrightarrow> content c = (case x of Ready (Some v) \<Rightarrow> [v] | _ \<Rightarrow> []) @ content c'"
  using content_receives_Some content_receives_None content_receives_Pending
  by (cases x) (auto split: option.split)

lemma run_content: "chan_run sends receives es c c' \<Longrightarrow> content c @ sent_values es = received_values es @ content c'"
proof (induction es arbitrary: c)
  case (Cons e es)
  show ?case
  proof (cases e)
    case (Sent v)
    then obtain d where "sends v c d" "chan_run sends receives es d c'" using Cons.prems by auto
    then show ?thesis using Cons.IH content_sends Sent by fastforce
  next
    case (Polled x)
    then obtain d where "receives c x d" "chan_run sends receives es d c'" using Cons.prems by auto
    then show ?thesis using Cons.IH content_receives Polled by fastforce
  qed
qed simp

end

subsection \<open>The channel of \<open>NetSim\<close> satisfies it\<close>

definition in_flight :: "'p chan \<Rightarrow> 'p list" where
  "in_flight c = (case ch_rx c of RxIdle \<Rightarrow> [] | RxBackoff v _ _ \<Rightarrow> [v] | RxArrive v _ \<Rightarrow> [v]) @ map fst (ch_buf c)"

text \<open>A successful send, and a poll of the receiving stream, in some network, at some time.  The type
  arguments fix the random source and the timer queue.\<close>

definition chan_sends :: "'r rng_ops \<Rightarrow> 'p \<Rightarrow> 'p chan \<Rightarrow> 'p chan \<Rightarrow> bool" where
  "chan_sends R v c c' \<longleftrightarrow>
     (\<exists>now n r n' r'. payload_send R now v c n r = (Ok (Some (), c', n', r') :: (io_error, _) res))"

definition chan_receives :: "'r rng_ops \<Rightarrow> ('tm, 'cb) timer_ops \<Rightarrow> 'p chan \<Rightarrow> 'p option poll \<Rightarrow> 'p chan \<Rightarrow> bool" where
  "chan_receives R T c x c' \<longleftrightarrow>
     (\<exists>waker h n r h' n' r'. rx_poll R T waker c h n r = (Ok (x, c', h', n', r') :: (io_error, _) res))"

lemma in_flight_wait [simp]: "in_flight (c\<lparr>ch_rx := rx_wait v st b h\<rparr>) = v # map fst (ch_buf c)"
  "in_flight (c\<lparr>ch_buf := q, ch_rx := rx_wait v st b h\<rparr>) = v # map fst q"
  by (auto simp: in_flight_def rx_wait_def split: option.split)

lemma rx_poll_cases:
  assumes "rx_poll R T waker c h n r = (Ok (x, c', h', n', r') :: ('e, _) res)"
  obtains (idle) "ch_rx c = RxIdle" "ch_buf c = []" "c' = c" "x = (if ch_tx_open c then Pending else Ready None)"
  | (start) v st q where "ch_rx c = RxIdle" "ch_buf c = (v, st) # q" "x = Pending"
      "c' = c\<lparr>ch_buf := q, ch_rx := rx_wait v st nanos_per_ms h\<rparr>"
  | (sleeping) "ch_rx c \<noteq> RxIdle" "x = Pending" "c' = c"
  | (retry) v s b st where "ch_rx c = RxBackoff v s b" "is_elapsed s h" "x = Pending"
      "chan_test_link R (now_instant (clock h)) c n r = (Ok (st, n', r') :: ('e, _) res)"
      "c' = c\<lparr>ch_rx := rx_wait v st (min (b * 2) (10 * nanos_per_sec)) h\<rparr>"
  | (yield) v s where "ch_rx c = RxArrive v s" "is_elapsed s h" "x = Ready (Some v)" "c' = c\<lparr>ch_rx := RxIdle\<rparr>"
proof (cases "ch_rx c")
  case RxIdle
  show ?thesis
  proof (cases "ch_buf c")
    case Nil
    then show ?thesis using assms RxIdle by (intro idle) (auto simp: rx_poll_def)
  next
    case (Cons e q)
    obtain v st where "e = (v, st)" by (cases e)
    then show ?thesis using assms RxIdle Cons by (intro start [of v st q]) (simp_all add: rx_poll_def Let_def)
  qed
next
  case (RxBackoff v s b)
  show ?thesis
  proof (cases "is_elapsed s h")
    case True
    obtain st where "chan_test_link R (now_instant (clock h)) c n r = (Ok (st, n', r') :: ('e, _) res)" "x = Pending"
      "c' = c\<lparr>ch_rx := rx_wait v st (min (b * 2) (10 * nanos_per_sec)) h\<rparr>"
      using assms RxBackoff True by (auto simp: rx_poll_def sleep_poll_def Let_def)
    then show ?thesis using RxBackoff True by (intro retry)
  next
    case False
    then show ?thesis using assms RxBackoff by (intro sleeping) (simp_all add: rx_poll_def sleep_poll_def)
  qed
next
  case (RxArrive v s)
  show ?thesis
  proof (cases "is_elapsed s h")
    case True
    then show ?thesis using assms RxArrive by (intro yield [of v s]) (simp_all add: rx_poll_def sleep_poll_def)
  next
    case False
    then show ?thesis using assms RxArrive by (intro sleeping) (simp_all add: rx_poll_def sleep_poll_def)
  qed
qed

lemma in_flight_send:
  "payload_send R now v c n r = Ok (Some (), c', n', r') \<Longrightarrow> in_flight c' = in_flight c @ [v]"
  by (auto simp: payload_send_def in_flight_def split: if_splits)

lemma in_flight_poll:
  assumes "rx_poll R T waker c h n r = Ok (x, c', h', n', r')"
  shows "in_flight c = (case x of Ready (Some v) \<Rightarrow> [v] | _ \<Rightarrow> []) @ in_flight c' \<and> (x = Ready None \<longrightarrow> in_flight c = [])"
  using assms
proof (cases rule: rx_poll_cases)
  case idle
  then show ?thesis by (auto simp: in_flight_def)
next
  case (start v st q)
  then have "in_flight c = v # map fst q" by (simp add: in_flight_def)
  then show ?thesis using start by simp
next
  case sleeping
  then show ?thesis by simp
next
  case (retry v s b st)
  then have "in_flight c = v # map fst (ch_buf c)" by (simp add: in_flight_def)
  then show ?thesis using retry by simp
next
  case (yield v s)
  then show ?thesis by (simp add: in_flight_def)
qed

lemma chan_sends_content: "chan_sends R v c c' \<Longrightarrow> in_flight c' = in_flight c @ [v]"
  using in_flight_send unfolding chan_sends_def by metis

lemma chan_receives_content:
  assumes "chan_receives R T c x c'"
  shows "in_flight c = (case x of Ready (Some v) \<Rightarrow> [v] | _ \<Rightarrow> []) @ in_flight c'"
    and "x = Ready None \<Longrightarrow> in_flight c = []"
  using assms in_flight_poll unfolding chan_receives_def by metis+

interpretation netchan: fifo_channel "chan_sends R" "chan_receives R T" in_flight
proof (unfold_locales, goal_cases)
  case (1 v c c')
  then show ?case by (rule chan_sends_content)
next
  case (2 c v c')
  then show ?case using chan_receives_content(1) by fastforce
next
  case (3 c c')
  then show ?case using chan_receives_content [OF 3] by simp
next
  case (4 c c')
  then show ?case using chan_receives_content(1) by fastforce
qed

text \<open>Concrete steps of a channel: a socket on either node, a fixed delay, and the polls before and at the arrival.\<close>

definition echo_nodes :: network where
  "echo_nodes = two_nodes\<lparr>nodes := (nodes two_nodes)(1 \<mapsto> \<lparr>node_ip = Some (V4 1), sockets = [((V4 1, 80), Udp) \<mapsto> 7]\<rparr>)\<rparr>"

lemma echo_link:
  assumes "(ch_node c, ch_dst c) \<in> {(1, V4 2, 80), (2, V4 1, 80)}" "ch_proto c = Udp"
  shows "\<exists>n' r'. chan_test_link const_rng 0 c echo_nodes 0 = (Ok (Some 1000000, n', r') :: (io_error, _) res)"
  using assms by (auto simp: chan_test_link_def try_send_def resolve_dest_node_def echo_nodes_def two_nodes_def test_link_def
      link_clogged_def network_new_def config_default_def default_send_latency_def const_rng_def find_socket_def Let_def)

lemma echo_sends:
  assumes "(ch_node c, ch_dst c) \<in> {(1, V4 2, 80), (2, V4 1, 80)}" "ch_proto c = Udp" "ch_rx_open c"
  shows "chan_sends const_rng v c (c\<lparr>ch_buf := ch_buf c @ [(v, Some 1000000)]\<rparr>)"
proof -
  obtain n' r' where "chan_test_link const_rng 0 c echo_nodes 0 = (Ok (Some 1000000, n', r') :: (io_error, _) res)"
    using echo_link [OF assms(1,2)] by blast
  then have "payload_send const_rng 0 v c echo_nodes 0 =
      (Ok (Some (), c\<lparr>ch_buf := ch_buf c @ [(v, Some 1000000)]\<rparr>, n', r') :: (io_error, _) res)"
    using assms(3) by (simp add: payload_send_def)
  then show ?thesis unfolding chan_sends_def by blast
qed

lemma echo_starts:
  assumes "ch_rx c = RxIdle" "ch_buf c = (v, Some 1000000) # q"
  shows "chan_receives R (list_timer :: ((duration \<times> unit) list, unit) timer_ops) c Pending
    (c\<lparr>ch_buf := q, ch_rx := RxArrive v \<lparr>deadline = 1000000\<rparr>\<rparr>)"
  unfolding chan_receives_def
  by (rule exI [of _ "()"], rule exI [of _ "\<lparr>timer = [], clock = \<lparr>base_time = 0, base_instant = 0, advance = 0\<rparr>\<rparr>"])
    (use assms in \<open>simp add: Let_def rx_poll_def rx_wait_def sleep_until_def now_instant_def\<close>)

lemma echo_arrives:
  assumes "ch_rx c = RxArrive v \<lparr>deadline = 1000000\<rparr>"
  shows "chan_receives R (list_timer :: ((duration \<times> unit) list, unit) timer_ops) c (Ready (Some v)) (c\<lparr>ch_rx := RxIdle\<rparr>)"
  unfolding chan_receives_def
  by (rule exI [of _ "()"], rule exI [of _ "\<lparr>timer = [], clock = \<lparr>base_time = 0, base_instant = 0, advance = 1000000\<rparr>\<rparr>"])
    (use assms in \<open>simp add: Let_def rx_poll_def sleep_poll_def is_elapsed_def now_instant_def\<close>)

lemma chan_ends:
  assumes "ch_rx c = RxIdle" "ch_buf c = []" "\<not> ch_tx_open c"
  shows "chan_receives R T c (Ready None) c"
  using assms by (simp add: chan_receives_def rx_poll_def)

text \<open>
  C18: a connection is reliable and ordered.  Whatever happens to the links, on any history of a
  channel the values received, followed by those still under way, are exactly the values sent, in
  order; nothing is lost, duplicated or reordered.
\<close>

theorem channel_fifo:
  assumes "chan_run (chan_sends R) (chan_receives R T) es (mk_channel i dst proto) c"
  shows "sent_values es = received_values es @ in_flight c"
  using netchan.run_content [OF assms] by (simp add: in_flight_def mk_channel_def)

theorem channel_fifo_witness:
  "\<exists>c. chan_run (chan_sends const_rng) (chan_receives const_rng (list_timer :: ((duration \<times> unit) list, unit) timer_ops))
        [Sent ''a'', Sent ''b'', Polled Pending, Polled (Ready (Some ''a''))] (mk_channel 1 (V4 2, 80) Udp) c \<and>
     in_flight c = [''b'']"
proof -
  let ?T = "list_timer :: ((duration \<times> unit) list, unit) timer_ops"
  let ?c0 = "mk_channel 1 (V4 2, 80) Udp :: string chan"
  let ?c1 = "?c0\<lparr>ch_buf := [(''a'', Some 1000000)]\<rparr>"
  let ?c2 = "?c0\<lparr>ch_buf := [(''a'', Some 1000000), (''b'', Some 1000000)]\<rparr>"
  let ?c3 = "?c0\<lparr>ch_buf := [(''b'', Some 1000000)], ch_rx := RxArrive ''a'' \<lparr>deadline = 1000000\<rparr>\<rparr>"
  let ?c4 = "?c0\<lparr>ch_buf := [(''b'', Some 1000000)]\<rparr>"
  have 1: "chan_sends const_rng ''a'' ?c0 ?c1" "chan_sends const_rng ''b'' ?c1 ?c2"
    using echo_sends [of ?c0 "''a''"] echo_sends [of ?c1 "''b''"] by (simp_all add: mk_channel_def)
  have 2: "chan_receives const_rng ?T ?c2 Pending ?c3" "chan_receives const_rng ?T ?c3 (Ready (Some ''a'')) ?c4"
    using echo_starts [of ?c2 "''a''" "[(''b'', Some 1000000)]"] echo_arrives [of ?c3 "''a''"] by (simp_all add: mk_channel_def)
  have r: "chan_run (chan_sends const_rng) (chan_receives const_rng ?T)
        [Sent ''a'', Sent ''b'', Polled Pending, Polled (Ready (Some ''a''))] ?c0 ?c4"
    using 1 2 by auto
  from channel_fifo [OF this] show ?thesis using r by fastforce
qed

subsection \<open>A broken link heals\<close>

text \<open>The backoff stays between 1 ms and 10 s.\<close>

definition backoff_ok :: "'p chan \<Rightarrow> bool" where
  "backoff_ok c \<longleftrightarrow> (case ch_rx c of RxBackoff v s b \<Rightarrow> nanos_per_ms \<le> b \<and> b \<le> 10 * nanos_per_sec | _ \<Rightarrow> True)"

lemma rx_poll_backoff:
  assumes "rx_poll R T waker c h n r = (Ok (x, c', h', n', r') :: ('e, _) res)" "backoff_ok c"
  shows "backoff_ok c'"
  using assms(1)
proof (cases rule: rx_poll_cases)
  case idle
  then show ?thesis using assms(2) by simp
next
  case (start v st q)
  then show ?thesis by (simp add: backoff_ok_def rx_wait_def split: option.split)
next
  case sleeping
  then show ?thesis using assms(2) by simp
next
  case (retry v s b st)
  then show ?thesis using assms(2) by (simp add: backoff_ok_def rx_wait_def min_def split: option.split)
next
  case (yield v s)
  then show ?thesis by (simp add: backoff_ok_def)
qed

text \<open>
  A connection survives a broken link.  While a value waits for the link, the stream tries again
  at least every 10 seconds; a try when the link is up (\<open>try_send\<close> succeeds with a latency) schedules
  the arrival at that latency (at least 1 ms) from then, and a poll at or after the arrival time yields the
  value.
\<close>

theorem channel_recovers:
  assumes "ch_rx c = RxBackoff v s b" "backoff_ok c" "is_elapsed s h"
    and "try_send R (ch_node c) (ch_dst c) (ch_proto c) n r = (Ok (x, n', r') :: ('e, _) res)"
  shows "\<exists>c' h'. rx_poll R T waker c h n r = (Ok (Pending, c', h', n', r') :: ('e, _) res) \<and> backoff_ok c' \<and>
    (case x of
       None \<Rightarrow> \<exists>s' b'. ch_rx c' = RxBackoff v s' b' \<and> deadline s' \<le> now_instant (clock h) + 10 * nanos_per_sec
     | Some (ip, j, ep, lat) \<Rightarrow>
         (\<exists>s'. ch_rx c' = RxArrive v s' \<and> deadline s' = now_instant (clock h) + max lat nanos_per_ms \<and>
           (\<forall>h2 n2 r2. deadline s' \<le> now_instant (clock h2) \<longrightarrow>
              rx_poll R T waker c' h2 n2 r2 = (Ok (Ready (Some v), c'\<lparr>ch_rx := RxIdle\<rparr>, h2, n2, r2) :: ('e, _) res))))"
proof -
  let ?st = "map_option (\<lambda>(_, _, _, latency). now_instant (clock h) + latency) x"
  let ?x = "rx_wait v ?st (min (b * 2) (10 * nanos_per_sec)) h"
  have p: "rx_poll R T waker c h n r = (Ok (Pending, c\<lparr>ch_rx := ?x\<rparr>, rx_park T waker ?x h, n', r') :: ('e, _) res)"
    using assms(1,3,4) by (simp add: rx_poll_def sleep_poll_def chan_test_link_def Let_def)
  have bk: "backoff_ok (c\<lparr>ch_rx := ?x\<rparr>)" by (rule rx_poll_backoff [OF p assms(2)])
  show ?thesis
  proof (intro exI conjI, rule p, rule bk, cases x)
    case None
    then show "case x of
       None \<Rightarrow> \<exists>s' b'. ch_rx (c\<lparr>ch_rx := ?x\<rparr>) = RxBackoff v s' b' \<and> deadline s' \<le> now_instant (clock h) + 10 * nanos_per_sec
     | Some (ip, j, ep, lat) \<Rightarrow>
         (\<exists>s'. ch_rx (c\<lparr>ch_rx := ?x\<rparr>) = RxArrive v s' \<and> deadline s' = now_instant (clock h) + max lat nanos_per_ms \<and>
           (\<forall>h2 n2 r2. deadline s' \<le> now_instant (clock h2) \<longrightarrow>
              rx_poll R T waker (c\<lparr>ch_rx := ?x\<rparr>) h2 n2 r2 =
                (Ok (Ready (Some v), (c\<lparr>ch_rx := ?x\<rparr>)\<lparr>ch_rx := RxIdle\<rparr>, h2, n2, r2) :: ('e, _) res)))"
      by (simp add: rx_wait_def sleep_for_def sleep_until_def min_def)
  next
    case (Some y)
    then show "case x of
       None \<Rightarrow> \<exists>s' b'. ch_rx (c\<lparr>ch_rx := ?x\<rparr>) = RxBackoff v s' b' \<and> deadline s' \<le> now_instant (clock h) + 10 * nanos_per_sec
     | Some (ip, j, ep, lat) \<Rightarrow>
         (\<exists>s'. ch_rx (c\<lparr>ch_rx := ?x\<rparr>) = RxArrive v s' \<and> deadline s' = now_instant (clock h) + max lat nanos_per_ms \<and>
           (\<forall>h2 n2 r2. deadline s' \<le> now_instant (clock h2) \<longrightarrow>
              rx_poll R T waker (c\<lparr>ch_rx := ?x\<rparr>) h2 n2 r2 =
                (Ok (Ready (Some v), (c\<lparr>ch_rx := ?x\<rparr>)\<lparr>ch_rx := RxIdle\<rparr>, h2, n2, r2) :: ('e, _) res)))"
      by (cases y) (simp add: rx_wait_def sleep_until_def max_def rx_poll_def sleep_poll_def is_elapsed_def)
  qed
qed

theorem channel_recovers_witness:
  "let s = \<lparr>deadline = 5\<rparr>; c = (mk_channel 1 (V4 2, 80) Udp)\<lparr>ch_rx := RxBackoff ''a'' s nanos_per_ms\<rparr>;
       h = \<lparr>timer = [], clock = \<lparr>base_time = 0, base_instant = 0, advance = 7\<rparr>\<rparr> :: (duration \<times> unit) list time_handle
   in backoff_ok c \<and> is_elapsed s h \<and>
      (\<exists>c' h' n' r'. rx_poll const_rng list_timer () c h two_nodes 0 = (Ok (Pending, c', h', n', r') :: (unit, _) res) \<and>
         (\<exists>s'. ch_rx c' = RxArrive ''a'' s' \<and> deadline s' = 1000007))"
proof -
  let ?s = "\<lparr>deadline = 5\<rparr>" and ?c = "(mk_channel 1 (V4 2, 80) Udp)\<lparr>ch_rx := RxBackoff ''a'' \<lparr>deadline = 5\<rparr> nanos_per_ms\<rparr>"
  let ?h = "\<lparr>timer = [], clock = \<lparr>base_time = 0, base_instant = 0, advance = 7\<rparr>\<rparr> :: (duration \<times> unit) list time_handle"
  have a: "ch_rx ?c = RxBackoff ''a'' ?s nanos_per_ms" "backoff_ok ?c" "is_elapsed ?s ?h"
    by (simp_all add: backoff_ok_def is_elapsed_def now_instant_def)
  have t: "try_send const_rng (ch_node ?c) (ch_dst ?c) (ch_proto ?c) two_nodes 0 =
      (Ok (Some (V4 1, 2, 7, 1000000), two_nodes\<lparr>msg_count := 1\<rparr>, 2) :: (unit, _) res)"
    by (simp add: mk_channel_def try_send_def resolve_dest_node_def two_nodes_def test_link_def link_clogged_def
        network_new_def config_default_def default_send_latency_def const_rng_def find_socket_def Let_def)
  show ?thesis using channel_recovers [OF a t, of list_timer "()"] a(2,3) by (auto simp: now_instant_def)
qed

subsection \<open>Datagrams from end to end\<close>

lemma deliver_live:
  assumes "deliver alive m b = (None, b')" "(msg_tag m, x) \<in> set (registered b)"
  shows "\<not> alive x"
proof -
  obtain r reg where d: "deliver_loop alive (msg_tag m) 0 (registered b) = (r, reg)"
    by (cases "deliver_loop alive (msg_tag m) 0 (registered b)")
  have "r = None" using assms(1) d by (simp add: deliver_def split: option.splits)
  then obtain dead where "set_mset dead \<subseteq> {(msg_tag m, x) | x. \<not> alive x}" "mset (registered b) = dead + mset reg"
    "\<forall>(t', x) \<in> set reg. t' \<noteq> msg_tag m"
    using deliver_loop_spec [OF d] by auto
  then show ?thesis using assms(2) by (auto simp flip: set_mset_mset)
qed



subsection \<open>Bound sockets\<close>

lemma guard_bind_Ok:
  "guard_bind i proto s as e n = Ok (a, n') \<Longrightarrow>
     \<exists>a0 \<in> set as. bind i a0 proto s n = Ok (a, n')"
  by (induction as arbitrary: e) (auto split: option.splits res.splits)

text \<open>A refused connection leaves every socket as it was.\<close>

lemma connect1_nodes:
  assumes "connect1 R parse print i p a proto ns r = (x, ns', r')"
  shows "nodes (ns_network ns') = nodes (ns_network ns)"
  using assms
  by (auto simp: connect1_def via_ipvs_def dest!: try_send_Ok(1) split: res.splits option.splits prod.splits)

text \<open>What a guard has bound it unbinds, also after other operations that keep the nodes.\<close>

lemma guard_bind_drop:
  assumes "guard_bind i proto s as e n = Ok (a, n')" "nodes n2 = nodes n'"
  shows "\<exists>n3. guard_drop False False i a proto n2 = (Ok n3 :: ('e, _) res) \<and> nodes n3 = nodes n"
proof -
  obtain a0 where b: "bind i a0 proto s n = Ok (a, n')" using guard_bind_Ok [OF assms(1)] by blast
  then obtain nd where nd: "nodes n i = Some nd" by (auto simp: bind_def)
  have spec: "sockets nd (a, proto) = None"
    "nodes n' = (nodes n)(i \<mapsto> nd\<lparr>sockets := (sockets nd)((a, proto) \<mapsto> s)\<rparr>)"
    using b nd by (auto simp: bind_def Let_def split: if_splits)
  have "(sockets nd)((a, proto) := None) = sockets nd" "(nodes n)(i \<mapsto> nd) = nodes n" using spec(1) nd by auto
  then show ?thesis using spec(2) assms(2) by (simp add: guard_drop_def close_def)
qed

text \<open>
  A bound socket is released exactly.  \<open>BindGuard::bind\<close> succeeds on the first address that can be bound;
  dropping the guard of a live node then restores the network as it was, while dropping
  the guard of a killed node leaves it alone.
\<close>

theorem bind_guard_roundtrip:
  assumes "guard_bind i proto s as e n = Ok (a, n')"
  shows "guard_drop False False i a proto n' = (Ok n :: ('e, _) res) \<and> guard_drop True locked i a proto n' = (Ok n' :: ('e, _) res)"
proof -
  obtain a0 where b: "bind i a0 proto s n = Ok (a, n')" using guard_bind_Ok [OF assms] by blast
  then obtain nd where nd: "nodes n i = Some nd" by (auto simp: bind_def)
  have spec: "sockets nd (a, proto) = None"
    "n' = n\<lparr>nodes := (nodes n)(i \<mapsto> nd\<lparr>sockets := (sockets nd)((a, proto) \<mapsto> s)\<rparr>)\<rparr>"
    using b nd by (auto simp: bind_def Let_def split: if_splits)
  have "(sockets nd)((a, proto) := None) = sockets nd" "(nodes n)(i \<mapsto> nd) = nodes n" using spec(1) nd by auto
  then show ?thesis using spec(2) by (simp add: guard_drop_def close_def)
qed

theorem bind_guard_roundtrip_witness:
  "\<exists>a n'. guard_bind 1 Udp 4 [(V4 2, 80), (V4 1, 80)] None two_nodes = Ok (a, n') \<and> a = (V4 1, 80) \<and>
     guard_drop False False 1 a Udp n' = (Ok two_nodes :: (unit, _) res)"
proof -
  obtain n' where b: "guard_bind 1 Udp 4 [(V4 2, 80), (V4 1, 80)] None two_nodes = Ok ((V4 1, 80), n')"
    by (simp add: bind_def two_nodes_def Let_def)
  show ?thesis using bind_guard_roundtrip [OF b] b by blast
qed

end
