(* ===== verification/Plugin.thy ===== *)
theory Plugin
  imports Prelude
begin

section \<open>The simulator interface (\<open>madsim/src/sim/plugin.rs\<close>)\<close>

text \<open>
  The trait \<open>Simulator\<close>: a simulator is told of every node that is created (\<open>create_node\<close>) and
  reset when the node is killed (\<open>reset_node\<close>).  The executor and \<open>NodeBuilder::build\<close> rely on the
  laws below: a simulator knows exactly the nodes it was told of, and resetting a node it knows
  does not panic and forgets no node.
\<close>

locale simulator =
  fixes create :: "node_id \<Rightarrow> 's \<Rightarrow> 's"
    and reset :: "node_id \<Rightarrow> 's \<Rightarrow> (unit, 's) res"
    and knows :: "'s \<Rightarrow> node_id \<Rightarrow> bool"
  assumes knows_create: "knows (create i s) j \<longleftrightarrow> j = i \<or> knows s j"
    and reset_ok: "knows s i \<Longrightarrow> \<exists>s'. reset i s = Ok s'"
    and knows_reset: "reset i s = Ok s' \<Longrightarrow> knows s' j \<longleftrightarrow> knows s j"
begin

text \<open>Creating nodes and resetting known ones, in any order, never panics.\<close>

lemma reset_all:
  "(\<forall>i \<in> set is. knows s i) \<Longrightarrow>
     \<exists>s'. foldl (\<lambda>r i. bind_res r (reset i)) (Ok s) is = Ok s' \<and> (\<forall>j. knows s' j = knows s j)"
proof (induction "is" arbitrary: s)
  case (Cons i "is")
  then obtain s1 where s1: "reset i s = Ok s1" using reset_ok [of s i] by auto
  then have "\<forall>i \<in> set is. knows s1 i" using knows_reset [OF s1] Cons.prems by auto
  then show ?case using Cons.IH [of s1] s1 knows_reset [OF s1] by auto
qed simp

end

text \<open>Two simulators side by side are a simulator: \<open>for sim in self.sims.lock().values()\<close>.\<close>

definition pair_create :: "(node_id \<Rightarrow> 'a \<Rightarrow> 'a) \<Rightarrow> (node_id \<Rightarrow> 'b \<Rightarrow> 'b) \<Rightarrow> node_id \<Rightarrow> 'a \<times> 'b \<Rightarrow> 'a \<times> 'b" where
  "pair_create c1 c2 i s = (c1 i (fst s), c2 i (snd s))"

definition pair_reset :: "(node_id \<Rightarrow> 'a \<Rightarrow> (unit, 'a) res) \<Rightarrow> (node_id \<Rightarrow> 'b \<Rightarrow> (unit, 'b) res)
    \<Rightarrow> node_id \<Rightarrow> 'a \<times> 'b \<Rightarrow> (unit, 'a \<times> 'b) res" where
  "pair_reset r1 r2 i s = bind_res (r1 i (fst s)) (\<lambda>x. bind_res (r2 i (snd s)) (\<lambda>y. Ok (x, y)))"

definition pair_knows :: "('a \<Rightarrow> node_id \<Rightarrow> bool) \<Rightarrow> ('b \<Rightarrow> node_id \<Rightarrow> bool) \<Rightarrow> 'a \<times> 'b \<Rightarrow> node_id \<Rightarrow> bool" where
  "pair_knows k1 k2 s i \<longleftrightarrow> k1 (fst s) i \<and> k2 (snd s) i"

locale two_simulators = s1: simulator c1 r1 k1 + s2: simulator c2 r2 k2
  for c1 :: "node_id \<Rightarrow> 'a \<Rightarrow> 'a" and r1 k1 and c2 :: "node_id \<Rightarrow> 'b \<Rightarrow> 'b" and r2 k2

sublocale two_simulators \<subseteq> both: simulator "pair_create c1 c2" "pair_reset r1 r2" "pair_knows k1 k2"
proof (unfold_locales, goal_cases)
  case (1 i s j)
  then show ?case using s1.knows_create s2.knows_create by (auto simp: pair_create_def pair_knows_def)
next
  case (2 s i)
  then show ?case using s1.reset_ok [of "fst s" i] s2.reset_ok [of "snd s" i]
    by (auto simp: pair_knows_def pair_reset_def)
next
  case (3 i s s' j)
  then show ?case using s1.knows_reset s2.knows_reset by (auto simp: pair_reset_def pair_knows_def)
qed

end
