(* ===== verification/Fs.thy ===== *)
theory Fs
  imports Network Plugin "HOL-Library.Sublist"
begin

section \<open>The file system simulator (\<open>madsim/src/sim/fs.rs\<close>)\<close>

text \<open>
  Every node has a map from paths to inodes; an inode is shared by the open files on it, so it is
  a reference \<open>ino\<close> into the store \<open>fs_data\<close>.  Offsets and lengths are natural numbers; a slice whose start
  lies beyond its end panics.
\<close>

type_synonym path = string
type_synonym ino = nat

record fs_sim =
  fs_handles :: "node_id \<rightharpoonup> (path \<rightharpoonup> ino)"
  fs_data :: "ino \<Rightarrow> 8 word list"
  fs_next :: ino

record fs_file =
  f_inode :: ino
  f_can_write :: bool

definition fs_new :: fs_sim where
  "fs_new = \<lparr>fs_handles = Map.empty, fs_data = (\<lambda>_. []), fs_next = 0\<rparr>"

definition fs_create_node :: "node_id \<Rightarrow> fs_sim \<Rightarrow> fs_sim" where
  "fs_create_node i s = s\<lparr>fs_handles := (fs_handles s)(i \<mapsto> Map.empty)\<rparr>"

definition power_fail :: "node_id \<Rightarrow> fs_sim \<Rightarrow> fs_sim" where
  "power_fail i s = s"

definition fs_reset_node :: "node_id \<Rightarrow> fs_sim \<Rightarrow> (unit, fs_sim) res" where
  "fs_reset_node i s = Ok (power_fail i s)"

text \<open>\<open>handles[&id]\<close>.\<close>

definition fs_node :: "node_id \<Rightarrow> fs_sim \<Rightarrow> ('e, path \<rightharpoonup> ino) res" where
  "fs_node i s = expect ''no entry found for key'' (fs_handles s i)"

definition fs_metadata :: "node_id \<Rightarrow> path \<Rightarrow> fs_sim \<Rightarrow> (io_error, nat) res" where
  "fs_metadata i p s =
     bind_res (fs_node i s) (\<lambda>m. bind_res (ok_or NotFound (m p)) (\<lambda>k. Ok (length (fs_data s k))))"

definition get_file_size :: "node_id \<Rightarrow> path \<Rightarrow> fs_sim \<Rightarrow> (io_error, nat) res" where
  "get_file_size i p s = fs_metadata i p s"

definition fs_open :: "node_id \<Rightarrow> path \<Rightarrow> fs_sim \<Rightarrow> (io_error, fs_file) res" where
  "fs_open i p s =
     bind_res (fs_node i s) (\<lambda>m. bind_res (ok_or NotFound (m p)) (\<lambda>k. Ok \<lparr>f_inode = k, f_can_write = False\<rparr>))"

text \<open>\<open>create\<close>: an existing file is truncated, a new inode is made otherwise.\<close>

definition fs_create :: "node_id \<Rightarrow> path \<Rightarrow> fs_sim \<Rightarrow> (io_error, fs_file \<times> fs_sim) res" where
  "fs_create i p s =
     bind_res (fs_node i s) (\<lambda>m.
       case m p of
         Some k \<Rightarrow> Ok (\<lparr>f_inode = k, f_can_write = True\<rparr>, s\<lparr>fs_data := (fs_data s)(k := [])\<rparr>)
       | None \<Rightarrow>
           let k = fs_next s
           in Ok (\<lparr>f_inode = k, f_can_write = True\<rparr>,
                  s\<lparr>fs_handles := (fs_handles s)(i \<mapsto> m(p \<mapsto> k)), fs_data := (fs_data s)(k := []), fs_next := Suc k\<rparr>))"

text \<open>\<open>File::read_at\<close>: \<open>len\<close> is the length of the caller's buffer; the answer are the bytes read.\<close>

definition read_at :: "fs_file \<Rightarrow> nat \<Rightarrow> nat \<Rightarrow> fs_sim \<Rightarrow> (io_error, 8 word list) res" where
  "read_at f len off s =
     (let data = fs_data s (f_inode f); end = min (length data) (off + len) in
      if end < off then Panic ''attempt to subtract with overflow''
      else Ok (take (end - off) (drop off data)))"

definition write_all_at :: "fs_file \<Rightarrow> 8 word list \<Rightarrow> nat \<Rightarrow> fs_sim \<Rightarrow> (io_error, fs_sim) res" where
  "write_all_at f buf off s =
     (if \<not> f_can_write f then Err PermissionDenied
      else
        let data = fs_data s (f_inode f); end = min (length data) (off + length buf) in
        if end < off then Panic ''attempt to subtract with overflow''
        else
          let len = end - off;
              data = take off data @ take len buf @ drop end data;
              data = (if len < length buf then data @ drop len buf else data)
          in Ok (s\<lparr>fs_data := (fs_data s)(f_inode f := data)\<rparr>))"

text \<open>\<open>Vec::resize\<close> with zeroes; the file may be read-only.\<close>

definition set_len :: "fs_file \<Rightarrow> nat \<Rightarrow> fs_sim \<Rightarrow> fs_sim" where
  "set_len f n s =
     (let data = fs_data s (f_inode f)
      in s\<lparr>fs_data := (fs_data s)(f_inode f := take n data @ replicate (n - length data) 0)\<rparr>)"

definition sync_all :: "fs_file \<Rightarrow> fs_sim \<Rightarrow> fs_sim" where
  "sync_all f s = s"

definition file_len :: "fs_file \<Rightarrow> fs_sim \<Rightarrow> nat" where
  "file_len f s = length (fs_data s (f_inode f))"

definition fs_read :: "node_id \<Rightarrow> path \<Rightarrow> fs_sim \<Rightarrow> (io_error, 8 word list) res" where
  "fs_read i p s = bind_res (fs_open i p s) (\<lambda>f. Ok (fs_data s (f_inode f)))"

interpretation fs: simulator fs_create_node fs_reset_node "\<lambda>s i. fs_handles s i \<noteq> None"
  by unfold_locales (auto simp: fs_create_node_def fs_reset_node_def power_fail_def)

subsection \<open>Inodes are not shared\<close>

definition fs_inv :: "fs_sim \<Rightarrow> bool" where
  "fs_inv s \<longleftrightarrow>
     (\<forall>i m p k. fs_handles s i = Some m \<longrightarrow> m p = Some k \<longrightarrow> k < fs_next s) \<and>
     (\<forall>i m p j m' q k. fs_handles s i = Some m \<longrightarrow> m p = Some k \<longrightarrow> fs_handles s j = Some m' \<longrightarrow> m' q = Some k \<longrightarrow>
        i = j \<and> p = q)"

inductive fs_step :: "fs_sim \<Rightarrow> fs_sim \<Rightarrow> bool" where
  fss_node: "fs_step s (fs_create_node i s)"
| fss_create: "fs_create i p s = Ok (f, s') \<Longrightarrow> fs_step s s'"
| fss_write: "write_all_at f buf off s = Ok s' \<Longrightarrow> fs_step s s'"
| fss_len: "fs_step s (set_len f n s)"
| fss_reset: "fs_reset_node i s = Ok s' \<Longrightarrow> fs_step s s'"

inductive fs_reachable :: "fs_sim \<Rightarrow> bool" where
  fsr_new: "fs_reachable fs_new"
| fsr_step: "fs_reachable s \<Longrightarrow> fs_step s s' \<Longrightarrow> fs_reachable s'"

lemma fs_inv_same: "fs_handles s' = fs_handles s \<Longrightarrow> fs_next s' = fs_next s \<Longrightarrow> fs_inv s' = fs_inv s"
  by (simp add: fs_inv_def)

lemma fs_create_inv:
  assumes "fs_create i p s = Ok (f, s')" "fs_inv s"
  shows "fs_inv s'"
proof -
  obtain m where m: "fs_handles s i = Some m" using assms(1) by (auto simp: fs_create_def fs_node_def)
  show ?thesis
  proof (cases "m p")
    case (Some k)
    then have "fs_handles s' = fs_handles s" "fs_next s' = fs_next s"
      using assms(1) m by (auto simp: fs_create_def fs_node_def)
    then show ?thesis using assms(2) fs_inv_same by blast
  next
    case None
    then have h: "fs_handles s' = (fs_handles s)(i \<mapsto> m(p \<mapsto> fs_next s))" "fs_next s' = Suc (fs_next s)"
      using assms(1) m by (auto simp: fs_create_def fs_node_def Let_def)
    have old: "fs_handles s j = Some m' \<Longrightarrow> m' q = Some k \<Longrightarrow> k < fs_next s" for j m' q k
      using assms(2) by (auto simp: fs_inv_def)
    have ent: "fs_handles s' j = Some m' \<Longrightarrow> m' q = Some k \<Longrightarrow>
        (j = i \<and> q = p \<and> k = fs_next s) \<or> (\<exists>m0. fs_handles s j = Some m0 \<and> m0 q = Some k \<and> k < fs_next s)" for j m' q k
      using h(1) m old by (auto split: if_splits)
    have "k < fs_next s'" if "fs_handles s' j = Some m'" "m' q = Some k" for j m' q k
      using ent [OF that] h(2) by auto
    moreover have "j = l \<and> q = q'" if a: "fs_handles s' j = Some m1" "m1 q = Some k" "fs_handles s' l = Some m2" "m2 q' = Some k"
      for j m1 q l m2 q' k
      using ent [OF a(1,2)] ent [OF a(3,4)] assms(2) unfolding fs_inv_def by (metis less_irrefl)
    ultimately show ?thesis unfolding fs_inv_def by blast
  qed
qed

lemma fs_step_inv: "fs_step s s' \<Longrightarrow> fs_inv s \<Longrightarrow> fs_inv s'"
proof (induction rule: fs_step.induct)
  case (fss_node s i)
  then show ?case unfolding fs_inv_def fs_create_node_def by (simp split: if_splits)
next
  case (fss_create i p s f s')
  then show ?case using fs_create_inv by blast
next
  case (fss_write f buf off s s')
  then have "fs_handles s' = fs_handles s" "fs_next s' = fs_next s"
    by (auto simp: write_all_at_def Let_def split: if_splits)
  then show ?case using fss_write fs_inv_same by blast
next
  case (fss_len s f n)
  then show ?case using fs_inv_same [of "set_len f n s" s] by (simp add: set_len_def Let_def)
next
  case (fss_reset i s s')
  then show ?case by (simp add: fs_reset_node_def power_fail_def)
qed

lemma fs_reachable_inv: "fs_reachable s \<Longrightarrow> fs_inv s"
  by (induction rule: fs_reachable.induct) (simp add: fs_inv_def fs_new_def, blast intro: fs_step_inv)

lemma fs_open_Ok: "fs_open i p s = Ok f \<longleftrightarrow> (\<exists>m. fs_handles s i = Some m \<and> m p = Some (f_inode f) \<and> \<not> f_can_write f)"
  by (cases f) (auto simp: fs_open_def fs_node_def)

text \<open>
  C31: nodes do not see one another's files.  In every reachable file system, writing through a file created
  or opened at one path of one node changes neither the contents of any other path of that node nor of any path
  of another node.
\<close>

theorem fs_isolation:
  assumes "fs_reachable s" "fs_open i p s = Ok f" "(j, q) \<noteq> (i, p)"
    and "write_all_at (f\<lparr>f_can_write := True\<rparr>) buf off s = Ok s'"
  shows "fs_read j q s' = fs_read j q s"
proof (cases "\<exists>m k. fs_handles s j = Some m \<and> m q = Some k")
  case True
  then obtain m k where mk: "fs_handles s j = Some m" "m q = Some k" by blast
  obtain m0 where m0: "fs_handles s i = Some m0" "m0 p = Some (f_inode f)" using assms(2) fs_open_Ok by auto
  then have "k \<noteq> f_inode f"
    using mk assms(3) fs_reachable_inv [OF assms(1)] unfolding fs_inv_def by (metis prod.inject)
  then show ?thesis using assms(4) mk
    by (auto simp: write_all_at_def Let_def fs_read_def fs_open_def fs_node_def split: if_splits)
next
  case False
  have "fs_handles s' = fs_handles s" using assms(4) by (auto simp: write_all_at_def Let_def split: if_splits)
  then show ?thesis using False
    by (cases "fs_handles s j") (auto simp: fs_read_def fs_open_def fs_node_def split: option.splits)
qed

text \<open>Two files, \<open>a\<close> on node 1 and \<open>a\<close> on node 2.\<close>

definition two_files :: fs_sim where
  "two_files = \<lparr>fs_handles = [1 \<mapsto> [''a'' \<mapsto> 0], 2 \<mapsto> [''a'' \<mapsto> 1]], fs_data = (\<lambda>_. []), fs_next = 2\<rparr>"

lemma two_files_reachable: "fs_reachable two_files"
proof -
  define s2 where "s2 = fs_create_node 2 (fs_create_node 1 fs_new)"
  have r2: "fs_reachable s2" unfolding s2_def using fsr_step [OF fsr_step [OF fsr_new fss_node] fss_node] .
  define s3 where "s3 = s2\<lparr>fs_handles := [1 \<mapsto> [''a'' \<mapsto> 0], 2 \<mapsto> Map.empty], fs_next := 1\<rparr>"
  have "fs_create 1 ''a'' s2 = Ok (\<lparr>f_inode = 0, f_can_write = True\<rparr>, s3)"
    by (auto simp: fs_create_def fs_node_def s2_def s3_def fs_create_node_def fs_new_def fun_eq_iff)
  then have r3: "fs_reachable s3" using fsr_step [OF r2 fss_create] by blast
  have "fs_create 2 ''a'' s3 = Ok (\<lparr>f_inode = 1, f_can_write = True\<rparr>, two_files)"
    by (auto simp: fs_create_def fs_node_def s2_def s3_def fs_create_node_def fs_new_def two_files_def fun_eq_iff)
  then show ?thesis using fsr_step [OF r3 fss_create] by blast
qed

theorem fs_isolation_witness:
  "\<exists>s'. write_all_at \<lparr>f_inode = 0, f_can_write = True\<rparr> [7] 0 two_files = Ok s' \<and>
     fs_read 1 ''a'' s' = Ok [7] \<and> fs_read 2 ''a'' s' = fs_read 2 ''a'' two_files"
proof -
  have o: "fs_open 1 ''a'' two_files = Ok \<lparr>f_inode = 0, f_can_write = False\<rparr>"
    by (simp add: fs_open_def fs_node_def two_files_def)
  obtain s' where w: "write_all_at (\<lparr>f_inode = 0, f_can_write = False\<rparr>\<lparr>f_can_write := True\<rparr>) [7] 0 two_files = Ok s'"
    "fs_read 1 ''a'' s' = Ok [7]"
    by (simp add: write_all_at_def two_files_def Let_def fs_read_def fs_open_def fs_node_def)
  show ?thesis using fs_isolation [OF two_files_reachable o _ w(1), of 2 "''a''"] w by simp
qed

text \<open>
  What is written is read back.  A write within or at the end of a file succeeds on a writable file; reading
  the same range then gives exactly the bytes written, every byte outside the range is as before,
  and the file has grown to the end of the range if it was shorter.  A write (or read) that starts beyond
  the end of the file panics instead of padding the gap (or reading nothing).
\<close>

theorem write_read_roundtrip:
  assumes "f_can_write f"
  defines "data \<equiv> \<lambda>s. fs_data s (f_inode f)"
  shows "if off \<le> length (data s)
    then \<exists>s'. write_all_at f buf off s = Ok s' \<and> read_at f (length buf) off s' = Ok buf \<and>
      length (data s') = max (length (data s)) (off + length buf) \<and>
      (\<forall>i < length (data s'). i < off \<or> off + length buf \<le> i \<longrightarrow> data s' ! i = data s ! i)
    else is_panic (write_all_at f buf off s) \<and> is_panic (read_at f len off s)"
proof (cases "off \<le> length (data s)")
  case False
  then show ?thesis using assms(1) by (simp add: write_all_at_def read_at_def data_def Let_def)
next
  case True
  let ?d = "fs_data s (f_inode f)" and ?e = "off + length buf"
  let ?d' = "take off ?d @ buf @ drop ?e ?d"
  have len: "length ?d' = max (length ?d) ?e" using True by (simp add: data_def)
  have e: "(if min (length ?d) ?e - off < length buf
      then (take off ?d @ take (min (length ?d) ?e - off) buf @ drop (min (length ?d) ?e) ?d) @ drop (min (length ?d) ?e - off) buf
      else take off ?d @ take (min (length ?d) ?e - off) buf @ drop (min (length ?d) ?e) ?d) = ?d'"
    using True by (cases "?e \<le> length ?d") (auto simp: min_def data_def)
  have w: "write_all_at f buf off s = Ok (s\<lparr>fs_data := (fs_data s)(f_inode f := ?d')\<rparr>)"
    using assms(1) True e by (simp add: write_all_at_def Let_def data_def)
  have "read_at f (length buf) off (s\<lparr>fs_data := (fs_data s)(f_inode f := ?d')\<rparr>) = Ok buf"
    using True by (simp add: read_at_def Let_def data_def min_def)
  moreover have "\<forall>i < length ?d'. i < off \<or> ?e \<le> i \<longrightarrow> ?d' ! i = ?d ! i"
    using True by (auto simp: nth_append data_def)
  ultimately show ?thesis using w len True by (auto simp: data_def)
qed

theorem write_read_roundtrip_witness:
  "f_can_write \<lparr>f_inode = 0, f_can_write = True\<rparr> \<and>
   (\<exists>s'. write_all_at \<lparr>f_inode = 0, f_can_write = True\<rparr> [1, 2] 0 two_files = Ok s' \<and>
      read_at \<lparr>f_inode = 0, f_can_write = True\<rparr> 2 0 s' = Ok [1, 2]) \<and>
   is_panic (read_at \<lparr>f_inode = 0, f_can_write = True\<rparr> 2 5 two_files)"
proof -
  let ?f = "\<lparr>f_inode = 0, f_can_write = True\<rparr>"
  have w: "f_can_write ?f" by simp
  show ?thesis
    using write_read_roundtrip [OF w, of 0 two_files "[1, 2]"] write_read_roundtrip [OF w, of 5 two_files _ 2]
    by (auto simp: two_files_def numeral_2_eq_2)
qed

text \<open>
  Killing a node loses no file data.  \<open>reset_node\<close>, which the executor calls when a node is killed, is
  \<open>power_fail\<close>, and that changes nothing: every file keeps its contents whether or not it was synced.
\<close>

theorem kill_keeps_unsynced_data:
  "fs_reset_node i s = Ok s \<and> sync_all f s = s"
  by (simp add: fs_reset_node_def power_fail_def sync_all_def)

end
