(* ===== verification/Runtime.thy ===== *)
theory Runtime
  imports TaskProps NetSim Fs
begin

section \<open>The runtime (\<open>madsim/src/sim/runtime/mod.rs\<close>)\<close>

text \<open>
  The executor together with the two simulators that every runtime registers, the file system and the network.
  The simulators of \<open>plugin.rs\<close> live in a hash map; the two are independent of each other, so the order in which
  they are visited does not matter.
\<close>

type_synonym 'p rt_sims = "fs_sim \<times> 'p net_sim"

text \<open>\<open>add_simulator::<FsSim>\<close> and \<open>add_simulator::<NetSim>\<close>: both know the supervisor's node 0.\<close>

definition sims_new :: "net_config \<Rightarrow> 'p rt_sims" where
  "sims_new c = pair_create fs_create_node netsim_create_node 0 (fs_new, net_sim_new c)"

text \<open>
  The loop over the simulators in \<open>NodeBuilder::build\<close>.  When the address is in use, \<open>set_ip\<close> panics after it has given the
  address to the new node.
\<close>

definition sims_create :: "node_id \<Rightarrow> ip_addr option \<Rightarrow> 'p rt_sims \<Rightarrow> unit answer \<times> 'p rt_sims" where
  "sims_create i ip x =
     (let (f, ns) = pair_create fs_create_node netsim_create_node i x in
      case ip of
        None \<Rightarrow> (Ok (), (f, ns))
      | Some a \<Rightarrow>
          (case netsim_set_ip i a ns of
             Ok ns' \<Rightarrow> (Ok (), (f, ns'))
           | Err e \<Rightarrow> (Err e, (f, ns))
           | Panic m \<Rightarrow> (Panic m, (f, ns\<lparr>ns_network := (ns_network ns)
               \<lparr>nodes := (nodes (ns_network ns))(i \<mapsto> \<lparr>node_ip = Some a, sockets = Map.empty\<rparr>),
                addr_to_node := (addr_to_node (ns_network ns))(a \<mapsto> i)\<rparr>\<rparr>))))"

text \<open>The loop over the simulators in \<open>TaskHandle::kill_id\<close>.\<close>

definition sims_reset :: "node_id \<Rightarrow> 'p rt_sims \<Rightarrow> unit answer \<times> 'p rt_sims" where
  "sims_reset i x =
     (case pair_reset fs_reset_node netsim_reset_node i x of
        Ok x' \<Rightarrow> (Ok (), x')
      | Err e \<Rightarrow> (Err e, x)
      | Panic m \<Rightarrow> (Panic m, x))"

text \<open>An environment whose simulators are these.\<close>

definition rt_env :: "('a, 'g, 'tm, 'u, 'f, 'k, 'p rt_sims) env \<Rightarrow> bool" where
  "rt_env E \<longleftrightarrow> sims_create_node E = sims_create \<and> sims_reset_node E = sims_reset"

text \<open>\<open>Runtime::with_seed_and_config\<close>.\<close>

definition with_seed_and_config :: "('a, 'g, 'tm, 'u, 'f, 'k, 'p rt_sims) env \<Rightarrow> 'a \<Rightarrow> 'u \<Rightarrow> 64 word \<Rightarrow> net_config
    \<Rightarrow> ('a, 'g, 'tm, 'u, 'f, 'p rt_sims) exec answer" where
  "with_seed_and_config E a u seed c = executor_new E a u (sims_new c) (new_with_seed (rng E) seed)"

subsection \<open>The simulators satisfy the contract of \<open>plugin.rs\<close>\<close>

definition net_knows :: "'p net_sim \<Rightarrow> node_id \<Rightarrow> bool" where
  "net_knows ns i \<longleftrightarrow> nodes (ns_network ns) i \<noteq> None"

definition fs_knows :: "fs_sim \<Rightarrow> node_id \<Rightarrow> bool" where
  "fs_knows s i \<longleftrightarrow> fs_handles s i \<noteq> None"

lemmas netsim_node_defs = netsim_create_node_def netsim_reset_node_def netsim_set_ip_def netsim_lift_def
  insert_node_def reset_node_def set_ip_def net_knows_def

interpretation both_sims: two_simulators fs_create_node fs_reset_node fs_knows
    netsim_create_node netsim_reset_node net_knows
  by unfold_locales
    (auto simp: fs_knows_def fs_create_node_def fs_reset_node_def power_fail_def netsim_node_defs split: if_splits)

definition rt_knows :: "'p rt_sims \<Rightarrow> node_id \<Rightarrow> bool" where
  "rt_knows = pair_knows fs_knows net_knows"

lemma sims_create_knows: "rt_knows (snd (sims_create i ip x)) j \<longleftrightarrow> j = i \<or> rt_knows x j"
proof -
  obtain f ns where c: "pair_create fs_create_node netsim_create_node i x = (f, ns)"
    by (cases "pair_create fs_create_node netsim_create_node i x")
  have k: "rt_knows (f, ns) j \<longleftrightarrow> j = i \<or> rt_knows x j"
    using both_sims.both.knows_create [of i x j] c by (simp add: rt_knows_def)
  have i: "nodes (ns_network ns) i \<noteq> None" using c by (auto simp: pair_create_def netsim_node_defs)
  then have "netsim_set_ip i a ns = Ok ns' \<Longrightarrow> net_knows ns' j = net_knows ns j" for a ns'
    by (auto simp: netsim_node_defs Let_def split: if_splits)
  then show ?thesis using k c i
    by (auto simp: sims_create_def rt_knows_def pair_knows_def net_knows_def split: option.split res.split)
qed

lemma sims_reset_knows: "rt_knows (snd (sims_reset i x)) j \<longleftrightarrow> rt_knows x j"
  using both_sims.both.knows_reset [of i x _ j] by (auto simp: sims_reset_def rt_knows_def split: res.split)

lemma sims_reset_ok: "rt_knows x i \<Longrightarrow> \<exists>x'. sims_reset i x = (Ok (), x')"
  using both_sims.both.reset_ok [of x i] by (auto simp: sims_reset_def rt_knows_def)

lemma sims_reset_sockets:
  "sims_reset i x = (Ok (), x') \<Longrightarrow> \<exists>nd. nodes (ns_network (snd x')) i = Some nd \<and> sockets nd = Map.empty"
  by (auto simp: sims_reset_def pair_reset_def netsim_node_defs split: res.splits)

subsection \<open>Every node of the executor is known to the simulators\<close>

definition linked :: "('a, 'g, 'tm, 'u, 'f, 'p rt_sims) exec \<Rightarrow> bool" where
  "linked s \<longleftrightarrow> (\<forall>i. ex_nodes s i \<noteq> None \<longrightarrow> rt_knows (sims s) i)"

text \<open>\<open>links s s'\<close>: the operation from \<open>s\<close> to \<open>s'\<close> keeps the link.\<close>

definition links :: "('a, 'g, 'tm, 'u, 'f, 'p rt_sims) exec \<Rightarrow> ('a, 'g, 'tm, 'u, 'f, 'p rt_sims) exec \<Rightarrow> bool" where
  "links s s' \<longleftrightarrow> (\<forall>i. rt_knows (sims s) i \<longrightarrow> rt_knows (sims s') i) \<and>
     (\<forall>i. ex_nodes s' i \<noteq> None \<longrightarrow> ex_nodes s i \<noteq> None \<or> rt_knows (sims s') i)"

lemma links_linked: "links s s' \<Longrightarrow> linked s \<Longrightarrow> linked s'"
  unfolding links_def linked_def by blast

lemma links_trans: "links s s' \<Longrightarrow> links s' s'' \<Longrightarrow> links s s''"
  unfolding links_def by blast

lemma links_same: "sims s' = sims s \<Longrightarrow> dom (ex_nodes s') \<subseteq> dom (ex_nodes s) \<Longrightarrow> links s s'"
  by (auto simp: links_def)

lemma links_and_then:
  assumes "links s (snd m)" "\<And>r s. links s (snd (f r s))"
  shows "links s (snd (and_then m f))"
  using assms links_trans [OF assms(1) assms(2)] by (cases m; cases "fst m") (auto simp: and_then_def)

lemma links_updates [simp]:
  "links s s" "links s (s\<lparr>user := u\<rparr>)" "links s (s\<lparr>tasks := a\<rparr>)" "links s (s\<lparr>queue := q\<rparr>)" "links s (s\<lparr>ex_rand := r\<rparr>)"
  "links s (s\<lparr>ex_time := h\<rparr>)" "links s (upd_info n f s)" "links s (s\<lparr>tinfos := ti\<rparr>)"
  by (simp_all add: links_same upd_info_def)

lemma links_fold: "(\<And>x s. links s (f x s)) \<Longrightarrow> links s (fold f xs s)"
proof (induction xs arbitrary: s)
  case (Cons x xs)
  then show ?case using links_trans [of s "f x s"] by simp
qed simp

lemma links_wake: "links s (wake E t s)"
  by (auto simp: wake_def Let_def intro!: links_same split: prod.split)

lemma links_fold_wake: "links s (fold (wake E) ts (s\<lparr>tasks := a, user := u\<rparr>))"
  by (rule links_trans [OF _ links_fold [OF links_wake]]) (simp add: links_same)

lemma links_wake_info: "links s (wake_info E t s)"
  by (simp add: wake_info_def links_wake)

lemma links_drop: "links s (drop_runnable E t s)"
  by (auto simp: drop_runnable_def Let_def simp del: fold_append intro: links_fold_wake split: prod.split)

lemma links_kill_info: "links s (kill_info E n s)"
  unfolding kill_info_def by (rule links_trans [OF links_updates(7) links_fold [OF links_wake_info]])

lemma links_spawn: "links s (snd (spawn_inner E n name loc ex f s))"
  by (auto simp: spawn_inner_def new_task_def upd_info_def Let_def intro!: links_same)

lemma links_run_init: "links s (run_init E init n s)"
  by (cases init) (simp_all add: run_init_def links_spawn)

lemma links_abort: "links s (abort E t s)"
  using links_trans [OF links_updates(8) links_wake_info] by (auto simp: abort_def)

lemma links_cancel: "links s (cancel E t s)"
  by (auto simp: cancel_def intro!: links_same split: prod.split)

lemma links_kill_id: "rt_env E \<Longrightarrow> links s (snd (kill_id E i s))"
proof (cases "ex_nodes s i")
  case (Some nd)
  assume E: "rt_env E"
  let ?s1 = "s\<lparr>ex_nodes := (ex_nodes s)(i \<mapsto> nd\<lparr>n_paused := []\<rparr>)\<rparr>"
  let ?s2 = "kill_info E (n_info nd) (fold (drop_runnable E) (n_paused nd) ?s1)"
  have "links s ?s1" using Some by (intro links_same) auto
  then have "links s ?s2" by (rule links_trans [OF links_trans [OF _ links_fold [OF links_drop]] links_kill_info])
  moreover have "links ?s2 (?s2\<lparr>sims := snd (sims_reset i (sims ?s2))\<rparr>)" by (simp add: links_def sims_reset_knows)
  ultimately show ?thesis
    using Some E links_trans by (simp add: kill_id_def rt_env_def Let_def case_prod_beta)
qed (simp add: kill_id_def)

lemma links_restart: "links s (snd (restart E i s))"
proof (cases "ex_nodes s i")
  case (Some nd)
  have "links s (s\<lparr>infos := a, next_ref := b, ex_nodes := (ex_nodes s)(i \<mapsto> c)\<rparr>)" for a b c
    using Some by (intro links_same) auto
  then have "links s (run_init E init n (kill_info E old (fold (drop_runnable E) ts
      (s\<lparr>infos := a, next_ref := b, ex_nodes := (ex_nodes s)(i \<mapsto> c)\<rparr>))))" for a b c init n old ts
    by (rule links_trans [OF links_trans [OF links_trans [OF _ links_fold [OF links_drop]] links_kill_info] links_run_init])
  then show ?thesis using Some by (simp add: restart_def Let_def)
qed (simp add: restart_def)

lemma links_send_ctrl_c: "rt_env E \<Longrightarrow> links s (snd (send_ctrl_c E i s))"
  by (auto simp: send_ctrl_c_def links_kill_id case_prod_beta
      intro: links_trans [OF links_updates(2) links_fold [OF links_wake]] split: option.split)

lemma links_build: "rt_env E \<Longrightarrow> links s (snd (build E b s))"
proof -
  assume E: "rt_env E"
  let ?i = "next_node_id s" and ?s1 = "snd (create_node E b s)"
  have n: "fst (fst (create_node E b s)) = ?i" by (simp add: create_node_def Let_def)
  have "sims ?s1 = sims s" "\<forall>j. ex_nodes ?s1 j \<noteq> None \<longrightarrow> j = ?i \<or> ex_nodes s j \<noteq> None"
    by (cases "b_init b"; simp add: create_node_def run_init_def spawn_inner_def new_task_def upd_info_def Let_def)+
  then have "links s (?s1\<lparr>sims := snd (sims_create ?i ip (sims ?s1))\<rparr>)" for ip
    by (auto simp: links_def sims_create_knows)
  then show ?thesis using E n by (simp add: build_def rt_env_def case_prod_beta)
qed

lemma links_num_tasks: "links s (snd (num_tasks E s))"
proof -
  define f where "f = (\<lambda>i (k, s). case ex_nodes s i of
              None \<Rightarrow> (k, s)
            | Some nd \<Rightarrow> (let (m, s') = num_tasks_info E (n_info nd) s in (k + m, s')))"
  have f: "links s (snd (f i (k, s)))" for i k s
    by (simp add: f_def num_tasks_info_def Let_def split: option.split)
  have "links s (snd (fold f xs (k, s)))" for xs k
  proof (induction xs arbitrary: k s)
    case (Cons i xs)
    then show ?case using links_trans [OF f [of s i k]] by (metis fold_simps(2) prod.collapse)
  qed simp
  then show ?thesis by (simp add: num_tasks_def f_def)
qed

lemma links_run_callbacks: "links s (snd (run_callbacks E cbs s))"
proof (induction cbs arbitrary: s)
  case (Cons c cbs)
  have "links s (snd (run_callback E c s))"
    by (cases c) (auto simp: run_callback_def links_wake links_restart case_prod_beta
        intro: links_trans [OF links_updates(2) links_fold [OF links_wake]])
  then show ?case using Cons by (simp add: links_and_then)
qed simp

lemma links_advance_time: "links s (snd (advance_time E d s))"
  by (auto simp: advance_time_def intro: links_trans [OF links_updates(6) links_run_callbacks] split: prod.split)

lemma links_draw: "links s (snd (draw_range E lo hi s))"
  by (auto simp: draw_range_def split: res.split)

lemma links_exec_call:
  assumes "rt_env E"
  shows "links s (snd (exec_call E cur c s))"
proof -
  have node: "links s (snd (pause i s))" "links s (snd (resume i s))" "links s (ctrl_c E n s)" for i n
    by (auto simp: pause_def resume_def ctrl_c_def upd_info_def Let_def intro!: links_same split: option.split if_splits)
  note l = links_wake links_cancel links_abort links_kill_id [OF assms] links_restart node links_send_ctrl_c [OF assms]
    links_build [OF assms] links_advance_time links_draw links_kill_info
  show ?thesis
  proof (cases c)
    case (CSpawn n name loc f)
    then show ?thesis using links_spawn [of s E n name loc None f] by (simp add: exec_call_def case_prod_beta)
  next
    case CNumTasks
    then show ?thesis using links_num_tasks [of s E] by (simp add: exec_call_def case_prod_beta)
  qed (simp_all add: exec_call_def case_prod_beta links_and_then l exit_def)
qed

lemma links_run_prog:
  assumes "rt_env E"
  shows "links s (snd (run_prog E cur p s))"
proof (induction p arbitrary: s)
  case (Update f p)
  then show ?case using links_trans [OF links_updates(2) Update] by simp
next
  case (Call c p)
  obtain r s' where e: "exec_call E cur c s = (r, s')" by (cases "exec_call E cur c s")
  then have k: "links s s'" using links_exec_call [OF assms, of s cur c] by simp
  show ?case
  proof (cases r)
    case (Ok x)
    have "links s' (snd (run_prog E cur (p x) s'))" by (rule Call) simp
    then show ?thesis using e Ok links_trans [OF k] by simp
  qed (use e k in simp_all)
qed simp_all

lemma links_run_task: "rt_env E \<Longrightarrow> links s (snd (run_task E t s))"
proof -
  assume E: "rt_env E"
  have p: "links s (snd (poll_task E t s))" for s
    using links_run_prog [OF E, of s t "w_poll E t"] links_trans [OF links_run_prog [OF E, of s t "w_poll E t"] links_kill_info]
    by (auto simp: poll_task_def exit_def case_prod_beta split: option.split)
  have e: "links s (end_poll E t r s)" for r s
    by (auto simp: end_poll_def Let_def case_prod_beta intro!: links_trans [OF _ links_fold [OF links_wake]] links_same)
  have "links s (end_poll E t r (snd (poll_task E t (s\<lparr>tasks := a, polled := b\<rparr>))))" for a b r
    using links_trans [OF links_trans [OF _ p] e, of s "s\<lparr>tasks := a, polled := b\<rparr>"] by (simp add: links_same)
  then show ?thesis by (simp add: run_task_def links_drop case_prod_beta Let_def split: poll_result.split)
qed

lemma links_tick: "links s (snd (tick E s))"
  by (simp add: tick_def links_and_then links_draw links_advance_time)

lemma links_on_panic: "rt_env E \<Longrightarrow> links s (snd (on_panic E n m s))"
  by (simp add: on_panic_def Let_def links_and_then links_draw links_kill_id)

lemma links_run_runnable:
  assumes "rt_env E"
  shows "links s (snd (run_runnable E t s))"
proof -
  have d: "links s (snd (tick E (drop_runnable E t s)))" by (rule links_trans [OF links_drop links_tick])
  obtain r s1 where r: "run_task E t s = (r, s1)" by (cases "run_task E t s")
  have l: "links s s1" using links_run_task [OF assms, of s t] r by simp
  have "links s (snd (tick E s1))" "links s (snd (and_then (on_panic E n m s1) (\<lambda>_. tick E)))" for n m
    by (rule links_trans [OF l]; simp add: links_tick links_and_then links_on_panic assms)+
  then show ?thesis using d r
    by (auto simp: run_runnable_def Let_def links_drop intro!: links_same split: option.split res.split if_splits)
qed

lemma links_run_one: "rt_env E \<Longrightarrow> links s (snd (run_one E s))"
  unfolding run_one_def
  by (rule links_and_then [OF links_draw])
    (auto split: res.split intro: links_trans [OF links_updates(4) links_run_runnable])

text \<open>
  The reachable states of a runtime: steps of the executor, and any use of the simulators that forgets no node (the
  operations of the network and of the file system are such).
\<close>

inductive rt_reachable :: "('a, 'g, 'tm, 'u, 'f, 'k, 'p rt_sims) env \<Rightarrow> ('a, 'g, 'tm, 'u, 'f, 'p rt_sims) exec \<Rightarrow> bool" for E where
  rt_new: "with_seed_and_config E a u seed c = Ok s \<Longrightarrow> rt_reachable E s"
| rt_exec: "rt_reachable E s \<Longrightarrow> exec_step E s s' \<Longrightarrow> rt_reachable E s'"
| rt_sims: "rt_reachable E s \<Longrightarrow> (\<And>i. rt_knows (sims s) i \<Longrightarrow> rt_knows x i) \<Longrightarrow> rt_reachable E (s\<lparr>sims := x\<rparr>)"

lemma links_exec_step: "exec_step E s s' \<Longrightarrow> rt_env E \<Longrightarrow> links s s'"
proof (induction rule: exec_step.induct)
  case (es_main s f)
  then show ?case by (auto simp: push_main_def new_task_def upd_info_def Let_def intro!: links_same)
next
  case (es_time s going cbs h)
  then show ?case by (auto intro: links_trans [OF links_updates(6) links_run_callbacks])
qed (simp_all add: links_exec_call links_run_one)

lemma rt_reachable_linked:
  assumes "rt_reachable E s" "rt_env E"
  shows "linked s"
  using assms(1)
proof induction
  case (rt_new a u seed c s)
  then show ?case by (auto simp: with_seed_and_config_def executor_new_def linked_def split: prod.splits)
next
  case (rt_exec s s')
  then show ?case using links_linked links_exec_step assms(2) by blast
next
  case (rt_sims s x)
  then show ?case by (auto simp: linked_def)
qed

text \<open>
  C10: killing never fails and frees the node's network.  In every reachable state of a runtime, killing
  a node that was built does not panic in the simulators; afterwards the node exists, is marked killed, and has
  no open socket, so its ports can be bound again.
\<close>

theorem kill_resets_simulators:
  assumes "rt_env E" "rt_reachable E s" "ex_nodes s i = Some nd"
  shows "\<exists>s' nn. kill_id E i s = (Ok (), s') \<and> is_exit i s' = Ok True \<and>
    nodes (ns_network (snd (sims s'))) i = Some nn \<and> sockets nn = Map.empty"
proof -
  let ?s1 = "s\<lparr>ex_nodes := (ex_nodes s)(i \<mapsto> nd\<lparr>n_paused := []\<rparr>)\<rparr>"
  let ?s2 = "fold (drop_runnable E) (n_paused nd) ?s1"
  let ?s3 = "kill_info E (n_info nd) ?s2"
  have f: "ex_nodes ?s3 i = Some (nd\<lparr>n_paused := []\<rparr>)" "ni_killed (infos ?s3 (n_info nd))"
    using frame_fold_drop [of ?s1 E "n_paused nd"]
      frame_fold_wake_info [of "upd_info (n_info nd) (\<lambda>i. i\<lparr>ni_killed := True, ni_tasks := []\<rparr>) ?s2" E "ni_tasks (infos ?s2 (n_info nd))"]
    by (simp_all add: frame_def kill_info_def upd_info_def)
  have "links ?s1 ?s3" by (rule links_trans [OF links_fold [OF links_drop] links_kill_info])
  moreover have "rt_knows (sims ?s1) i" using rt_reachable_linked [OF assms(2,1)] assms(3) by (simp add: linked_def)
  ultimately have k: "rt_knows (sims ?s3) i" unfolding links_def by blast
  obtain x' where x': "sims_reset i (sims ?s3) = (Ok (), x')" using sims_reset_ok [OF k] by blast
  have e: "kill_id E i s = (Ok (), ?s3\<lparr>sims := x'\<rparr>)" using assms(1,3) x' by (simp add: kill_id_def rt_env_def Let_def)
  show ?thesis unfolding e using sims_reset_sockets [OF x'] f by (auto simp: is_exit_def)
qed

text \<open>A runtime with the scripted environment of \<open>TaskProps\<close> and a node.\<close>

definition rt_demo_env :: "(task_id \<Rightarrow> at_bits, nat, (duration \<times> unit callback) list, unit, nat, unit, unit rt_sims) env" where
  "rt_demo_env = \<lparr>rng = rng demo_env, tmr = tmr demo_env, at_new = at_new demo_env, at_alive = at_alive demo_env,
     at_sched = at_sched demo_env, at_running = at_running demo_env, at_closed = at_closed demo_env,
     at_has_output = at_has_output demo_env, at_finished = at_finished demo_env, at_wake = at_wake demo_env,
     at_cancel = at_cancel demo_env, at_begin = at_begin demo_env, at_ran = at_ran demo_env, at_drop = at_drop demo_env,
     w_spawn = w_spawn demo_env, w_poll = w_poll demo_env, w_drop = w_drop demo_env, w_timer = w_timer demo_env,
     w_subscribe = w_subscribe demo_env, w_ctrl_c = w_ctrl_c demo_env,
     sims_create_node = sims_create, sims_reset_node = sims_reset\<rparr>"

lemma rt_demo_new:
  "\<exists>s. with_seed_and_config rt_demo_env a u seed c = Ok s"
  by (simp add: with_seed_and_config_def executor_new_def time_runtime_new_def rt_demo_env_def demo_sel
      new_with_seed_def rng_with_def Let_def)

theorem kill_resets_simulators_witness:
  "\<exists>s nd s'. rt_reachable rt_demo_env s \<and> ex_nodes s 1 = Some nd \<and> kill_id rt_demo_env 1 s = (Ok (), s') \<and> is_exit 1 s' = Ok True"
proof -
  have E: "rt_env rt_demo_env" by (simp add: rt_env_def rt_demo_env_def)
  obtain s0 where s0: "with_seed_and_config rt_demo_env (\<lambda>_. \<lparr>bit_alive = False, bit_sched = False, bit_running = False,
      bit_closed = False\<rparr>) () 1 \<lparr>packet_loss_rate = 0, send_latency = (1, 10)\<rparr> = Ok s0"
    using rt_demo_new by blast
  define s where "s = snd (exec_call rt_demo_env 0 (CCreateNode demo_builder) s0)"
  have r: "rt_reachable rt_demo_env s" unfolding s_def by (intro rt_exec [OF rt_new [OF s0]] es_call)
  have "next_node_id s0 = 1" using s0 by (auto simp: with_seed_and_config_def executor_new_def split: prod.splits)
  then have "\<exists>nd. ex_nodes s 1 = Some nd"
    by (simp add: s_def exec_call_def build_def create_node_def run_init_def demo_builder_def Let_def case_prod_beta
        and_then_def split: res.split)
  then obtain nd where nd: "ex_nodes s 1 = Some nd" by blast
  show ?thesis using kill_resets_simulators [OF E r nd] r nd by blast
qed

end
