(* ===== verification/Determinism.thy ===== *)
theory Determinism
  imports Runtime
begin

section \<open>The determinism check of whole runs (\<open>Runtime::check_determinism\<close>)\<close>

text \<open>
  \<open>check_determinism\<close> runs a simulation twice with the same seed: the first run records a fingerprint of the generator at every
  draw, the second compares its own with the record.  The development shows that the check is transparent.  A run is described on
  the state without record and check; \<open>logm\<close> is the same state in a recording run, \<open>chkm\<close> in a checking one.  An operation
  \<open>mirrors\<close> when in the three modes it gives the same result and the same state, adding the same fingerprints to the record
  or consuming them from it.
\<close>

definition check_determinism :: "('a, 'g, 'tm, 'u, 'f, 'k, 'p rt_sims) env \<Rightarrow> 'a \<Rightarrow> 'u \<Rightarrow> 64 word \<Rightarrow> net_config \<Rightarrow> nat \<Rightarrow> 'f
    \<Rightarrow> (unit answer \<times> ('a, 'g, 'tm, 'u, 'f, 'p rt_sims) exec option) option" where
  "check_determinism E a u seed c fuel f =
     (case with_seed_and_config E a u seed c of
        Ok rt \<Rightarrow>
          (case block_on E False fuel f (rt\<lparr>ex_rand := enable_log (ex_rand rt)\<rparr>) of
             None \<Rightarrow> None
           | Some (Ok _, s) \<Rightarrow>
               (case fst (take_log (ex_rand s)) of
                  None \<Rightarrow> Some (Panic ''called Option::unwrap() on a None value'', None)
                | Some rec \<Rightarrow>
                    map_option (\<lambda>(r, s). (r, Some s)) (block_on E False fuel f (rt\<lparr>ex_rand := enable_check rec (ex_rand rt)\<rparr>)))
           | Some (r, s) \<Rightarrow> Some (r, Some s))
      | Err e \<Rightarrow> Some (Err e, None)
      | Panic m \<Rightarrow> Some (Panic m, None))"

subsection \<open>The three modes\<close>

text \<open>Replacing the generator; the replacement moves outwards past every other update.\<close>

definition wr :: "'g rng_inner \<Rightarrow> ('a, 'g, 'tm, 'u, 'f, 's) exec \<Rightarrow> ('a, 'g, 'tm, 'u, 'f, 's) exec" where
  "wr r s = s\<lparr>ex_rand := r\<rparr>"

lemma wr_sel [simp]:
  "queue (wr r s) = queue s" "ex_nodes (wr r s) = ex_nodes s" "next_node_id (wr r s) = next_node_id s"
  "infos (wr r s) = infos s" "next_ref (wr r s) = next_ref s" "main_info (wr r s) = main_info s"
  "tinfos (wr r s) = tinfos s" "next_task_id (wr r s) = next_task_id s" "ex_rand (wr r s) = r" "ex_time (wr r s) = ex_time s"
  "time_limit (wr r s) = time_limit s" "sims (wr r s) = sims s" "tasks (wr r s) = tasks s" "user (wr r s) = user s"
  "polled (wr r s) = polled s"
  by (simp_all add: wr_def)

lemma wr_upd [simp]:
  "(wr r s)\<lparr>queue := x1\<rparr> = wr r (s\<lparr>queue := x1\<rparr>)" "(wr r s)\<lparr>ex_nodes := x2\<rparr> = wr r (s\<lparr>ex_nodes := x2\<rparr>)"
  "(wr r s)\<lparr>next_node_id := x3\<rparr> = wr r (s\<lparr>next_node_id := x3\<rparr>)" "(wr r s)\<lparr>infos := x4\<rparr> = wr r (s\<lparr>infos := x4\<rparr>)"
  "(wr r s)\<lparr>next_ref := x5\<rparr> = wr r (s\<lparr>next_ref := x5\<rparr>)" "(wr r s)\<lparr>tinfos := x6\<rparr> = wr r (s\<lparr>tinfos := x6\<rparr>)"
  "(wr r s)\<lparr>next_task_id := x7\<rparr> = wr r (s\<lparr>next_task_id := x7\<rparr>)" "(wr r s)\<lparr>ex_time := x8\<rparr> = wr r (s\<lparr>ex_time := x8\<rparr>)"
  "(wr r s)\<lparr>sims := x9\<rparr> = wr r (s\<lparr>sims := x9\<rparr>)" "(wr r s)\<lparr>tasks := x10\<rparr> = wr r (s\<lparr>tasks := x10\<rparr>)"
  "(wr r s)\<lparr>user := x11\<rparr> = wr r (s\<lparr>user := x11\<rparr>)" "(wr r s)\<lparr>polled := x12\<rparr> = wr r (s\<lparr>polled := x12\<rparr>)"
  "(wr r s)\<lparr>ex_rand := r'\<rparr> = wr r' s" "wr r' (wr r s) = wr r' s" "wr (ex_rand s) s = s"
  by (simp_all add: wr_def)

definition plain :: "('a, 'g, 'tm, 'u, 'f, 's) exec \<Rightarrow> bool" where
  "plain s \<longleftrightarrow> rng_log (ex_rand s) = None \<and> rng_check (ex_rand s) = None"

definition logm :: "log \<Rightarrow> ('a, 'g, 'tm, 'u, 'f, 's) exec \<Rightarrow> ('a, 'g, 'tm, 'u, 'f, 's) exec" where
  "logm l s = wr ((ex_rand s)\<lparr>rng_log := Some l\<rparr>) s"

definition chkm :: "log \<Rightarrow> nat \<Rightarrow> ('a, 'g, 'tm, 'u, 'f, 's) exec \<Rightarrow> ('a, 'g, 'tm, 'u, 'f, 's) exec" where
  "chkm L n s = wr ((ex_rand s)\<lparr>rng_check := Some (L, n)\<rparr>) s"

definition mirrors :: "(('a, 'g, 'tm, 'u, 'f, 's) exec \<Rightarrow> ('r \<times> ('a, 'g, 'tm, 'u, 'f, 's) exec) option) \<Rightarrow> bool" where
  "mirrors f \<longleftrightarrow>
     (\<forall>s r s'. plain s \<longrightarrow> f s = Some (r, s') \<longrightarrow> plain s' \<and>
       (\<exists>v. (\<forall>l. f (logm l s) = Some (r, logm (l @ v) s')) \<and>
            (\<forall>a b. f (chkm (a @ v @ b) (length a) s) = Some (r, chkm (a @ v @ b) (length a + length v) s'))))"

lemma mirrorsD:
  assumes "mirrors f" "plain s" "f s = Some (r, s')"
  obtains v where "plain s'" "\<And>l. f (logm l s) = Some (r, logm (l @ v) s')"
    "\<And>a b. f (chkm (a @ v @ b) (length a) s) = Some (r, chkm (a @ v @ b) (length a + length v) s')"
  using assms unfolding mirrors_def by blast

lemma mirrors_bind:
  assumes "mirrors m" "\<And>x. mirrors (g x)"
  shows "mirrors (\<lambda>s. case m s of None \<Rightarrow> None | Some (x, s) \<Rightarrow> g x s)"
  unfolding mirrors_def
proof (intro allI impI)
  fix s r s'
  assume s: "plain s" "(case m s of None \<Rightarrow> None | Some (x, s) \<Rightarrow> g x s) = Some (r, s')"
  then obtain x s1 where m: "m s = Some (x, s1)" "g x s1 = Some (r, s')" by (auto split: option.splits)
  obtain v where v: "plain s1" "\<And>l. m (logm l s) = Some (x, logm (l @ v) s1)"
    "\<And>a b. m (chkm (a @ v @ b) (length a) s) = Some (x, chkm (a @ v @ b) (length a + length v) s1)"
    using mirrorsD [OF assms(1) s(1) m(1)] by blast
  obtain w where w: "plain s'" "\<And>l. g x (logm l s1) = Some (r, logm (l @ w) s')"
    "\<And>a b. g x (chkm (a @ w @ b) (length a) s1) = Some (r, chkm (a @ w @ b) (length a + length w) s')"
    using mirrorsD [OF assms(2) v(1) m(2)] by blast
  have "g x (chkm (a @ v @ w @ b) (length a + length v) s1) = Some (r, chkm (a @ v @ w @ b) (length a + (length v + length w)) s')" for a b
    using w(3) [of "a @ v" b] by (simp add: add.assoc)
  then show "plain s' \<and> (\<exists>v. (\<forall>l. (case m (logm l s) of None \<Rightarrow> None | Some (x, s) \<Rightarrow> g x s) = Some (r, logm (l @ v) s')) \<and>
      (\<forall>a b. (case m (chkm (a @ v @ b) (length a) s) of None \<Rightarrow> None | Some (x, s) \<Rightarrow> g x s) =
        Some (r, chkm (a @ v @ b) (length a + length v) s')))"
    using w(1,2) v(2,3) by (intro conjI exI [of _ "v @ w"]) auto
qed

text \<open>Reading a part of the state other than the generator.\<close>

lemma mirrors_read:
  assumes "\<And>y. mirrors (g y)" "\<And>s r. q (wr r s) = q s"
  shows "mirrors (\<lambda>s. g (q s) s)"
  using assms(1) unfolding mirrors_def logm_def chkm_def assms(2) by blast

text \<open>An operation that neither uses nor changes the generator.\<close>

lemma mirrors_indep:
  assumes "\<And>s r. f (wr r s) = apsnd (wr r) (f s)"
  shows "mirrors (\<lambda>s. Some (f s))"
  unfolding mirrors_def
proof (intro allI impI)
  fix s r s'
  assume s: "plain s" "Some (f s) = Some (r, s')"
  then have f: "f (wr q s) = (r, wr q s')" for q using assms by simp
  then have "s' = wr (ex_rand s) s'" using f [of "ex_rand s"] s(2) by simp
  then have "ex_rand s' = ex_rand s" using wr_sel(9) by metis
  then show "plain s' \<and> (\<exists>v. (\<forall>l. Some (f (logm l s)) = Some (r, logm (l @ v) s')) \<and>
      (\<forall>a b. Some (f (chkm (a @ v @ b) (length a) s)) = Some (r, chkm (a @ v @ b) (length a + length v) s')))"
    using s(1) f by (intro conjI exI [of _ "[]"]) (simp_all add: plain_def logm_def chkm_def)
qed

lemma mirrors_return: "mirrors (\<lambda>s. Some (r, s))"
  by (rule mirrors_indep [where f = "\<lambda>s. (r, s)"]) simp

lemma mirrors_None: "mirrors (\<lambda>s. None)"
  by (simp add: mirrors_def)

lemma mirrors_and_then:
  assumes "mirrors (\<lambda>s. Some (m s))" "\<And>x. mirrors (\<lambda>s. Some (g x s))"
  shows "mirrors (\<lambda>s. Some (and_then (m s) g))"
proof -
  have "mirrors (\<lambda>s. case Some (m s) of None \<Rightarrow> None | Some (x, s) \<Rightarrow>
      (case x of Ok a \<Rightarrow> Some (g a s) | Err e \<Rightarrow> Some (Err e, s) | Panic p \<Rightarrow> Some (Panic p, s)))"
  proof (rule mirrors_bind [OF assms(1)])
    show "mirrors (\<lambda>s. case x of Ok a \<Rightarrow> Some (g a s) | Err e \<Rightarrow> Some (Err e, s) | Panic p \<Rightarrow> Some (Panic p, s))" for x
      by (cases x) (simp_all add: assms(2) mirrors_return)
  qed
  moreover have "(\<lambda>s. case Some (m s) of None \<Rightarrow> None | Some (x, s) \<Rightarrow>
      (case x of Ok a \<Rightarrow> Some (g a s) | Err e \<Rightarrow> Some (Err e, s) | Panic p \<Rightarrow> Some (Panic p, s))) = (\<lambda>s. Some (and_then (m s) g))"
    by (auto simp: fun_eq_iff and_then_def split: res.split prod.split)
  ultimately show ?thesis by simp
qed

subsection \<open>Operations that leave the generator alone\<close>

named_theorems rand_frame \<open>operations commute with replacing the generator\<close>

lemma fold_rand:
  assumes "\<And>x s. f x (wr r s) = wr r (f x s)"
  shows "fold f xs (wr r s) = wr r (fold f xs s)"
  by (induction xs arbitrary: s) (simp_all add: assms)

lemma upd_info_rand [rand_frame]: "upd_info n g (wr r s) = wr r (upd_info n g s)"
  by (simp add: upd_info_def)

lemma wake_rand [rand_frame]: "wake E t (wr r s) = wr r (wake E t s)"
  by (simp add: wake_def Let_def split: prod.split)

lemma wake_info_rand [rand_frame]: "wake_info E t (wr r s) = wr r (wake_info E t s)"
  by (simp add: wake_info_def rand_frame)

lemma fold_wake_rand [rand_frame]: "fold (wake E) ts (wr r s) = wr r (fold (wake E) ts s)"
  by (rule fold_rand) (rule wake_rand)

lemma drop_runnable_rand [rand_frame]: "drop_runnable E t (wr r s) = wr r (drop_runnable E t s)"
  by (simp add: drop_runnable_def Let_def rand_frame split: prod.split)

lemma fold_drop_rand [rand_frame]: "fold (drop_runnable E) ts (wr r s) = wr r (fold (drop_runnable E) ts s)"
  by (rule fold_rand) (rule drop_runnable_rand)

lemma fold_wake_info_rand [rand_frame]: "fold (wake_info E) ts (wr r s) = wr r (fold (wake_info E) ts s)"
  by (rule fold_rand) (rule wake_info_rand)

lemma kill_info_rand [rand_frame]: "kill_info E n (wr r s) = wr r (kill_info E n s)"
  by (simp add: kill_info_def rand_frame)

lemma new_task_rand [rand_frame]: "new_task n name loc w ex (wr r s) = apsnd (wr r) (new_task n name loc w ex s)"
  by (simp add: new_task_def Let_def rand_frame)

lemma spawn_inner_rand [rand_frame]: "spawn_inner E n name loc ex f (wr r s) = apsnd (wr r) (spawn_inner E n name loc ex f s)"
  by (simp add: spawn_inner_def new_task_def Let_def rand_frame upd_info_def)

lemma run_init_rand [rand_frame]: "run_init E init n (wr r s) = wr r (run_init E init n s)"
  by (simp add: run_init_def rand_frame split: option.split)

lemma num_tasks_info_rand [rand_frame]: "num_tasks_info E n (wr r s) = apsnd (wr r) (num_tasks_info E n s)"
  by (simp add: num_tasks_info_def Let_def rand_frame)

lemma kill_id_rand [rand_frame]: "kill_id E i (wr r s) = apsnd (wr r) (kill_id E i s)"
  by (simp add: kill_id_def Let_def rand_frame split: option.split prod.split)

lemma restart_rand [rand_frame]: "restart E i (wr r s) = apsnd (wr r) (restart E i s)"
  by (simp add: restart_def Let_def rand_frame split: option.split)

lemma node_ops_rand [rand_frame]:
  "pause i (wr r s) = apsnd (wr r) (pause i s)" "resume i (wr r s) = apsnd (wr r) (resume i s)"
  "send_ctrl_c E i (wr r s) = apsnd (wr r) (send_ctrl_c E i s)" "ctrl_c E n (wr r s) = wr r (ctrl_c E n s)"
  "abort E t (wr r s) = wr r (abort E t s)" "cancel E t (wr r s) = wr r (cancel E t s)" "exit E n (wr r s) = wr r (exit E n s)"
  by (simp_all add: pause_def resume_def send_ctrl_c_def ctrl_c_def abort_def cancel_def exit_def Let_def rand_frame
      split: option.split prod.split)

lemma create_node_rand [rand_frame]: "create_node E b (wr r s) = apsnd (wr r) (create_node E b s)"
  by (simp add: create_node_def Let_def rand_frame)

lemma build_rand [rand_frame]: "build E b (wr r s) = apsnd (wr r) (build E b s)"
  by (simp add: build_def rand_frame Let_def split: prod.split)

lemma queries_rand [rand_frame]:
  "is_exit i (wr r s) = is_exit i s" "get_node i (wr r s) = get_node i s" "abort_is_finished E t (wr r s) = abort_is_finished E t s"
  by (simp_all add: is_exit_def get_node_def abort_is_finished_def split: option.split)

lemma num_tasks_rand [rand_frame]: "num_tasks E (wr r s) = apsnd (wr r) (num_tasks E s)"
proof -
  let ?f = "\<lambda>i (k, s). case ex_nodes s i of None \<Rightarrow> (k, s) | Some nd \<Rightarrow> (let (m, s') = num_tasks_info E (n_info nd) s in (k + m, s'))"
  have "fold ?f xs (k, wr r s) = apsnd (wr r) (fold ?f xs (k, s))" for xs k
  proof (induction xs arbitrary: k s)
    case (Cons i xs)
    then show ?case by (simp add: rand_frame Let_def split: option.split prod.split)
  qed simp
  then show ?thesis by (simp add: num_tasks_def)
qed

lemma run_callback_rand [rand_frame]: "run_callback E cb (wr r s) = apsnd (wr r) (run_callback E cb s)"
  by (simp add: run_callback_def rand_frame Let_def split: callback.split prod.split)

lemma run_callbacks_rand [rand_frame]: "run_callbacks E cbs (wr r s) = apsnd (wr r) (run_callbacks E cbs s)"
proof (induction cbs arbitrary: s)
  case (Cons c cs)
  then show ?case by (cases "run_callback E c s"; cases "fst (run_callback E c s)") (auto simp: rand_frame)
qed simp

lemma advance_time_rand [rand_frame]: "advance_time E d (wr r s) = apsnd (wr r) (advance_time E d s)"
  by (simp add: advance_time_def rand_frame Let_def split: prod.split)

lemma and_then_rand:
  "(\<And>a s. g a (wr r s) = apsnd (wr r) (g a s)) \<Longrightarrow> and_then (apsnd (wr r) m) g = apsnd (wr r) (and_then m g)"
  by (cases m; cases "fst m") auto

lemma exec_call_rand:
  assumes "\<And>lo hi. c \<noteq> CGenRange lo hi"
  shows "exec_call E cur c (wr r s) = apsnd (wr r) (exec_call E cur c s)"
proof (cases c)
  case (CGenRange lo hi)
  then show ?thesis using assms by blast
qed (simp_all add: exec_call_def rand_frame and_then_rand Let_def split: prod.split)

subsection \<open>A run in the three modes\<close>

lemma draw_range_mirrors: "mirrors (\<lambda>s. Some (draw_range E lo hi s))"
  unfolding mirrors_def
proof (intro allI impI)
  fix s x s'
  assume s: "plain s" "Some (draw_range E lo hi s) = Some (x, s')"
  show "plain s' \<and> (\<exists>v. (\<forall>l. Some (draw_range E lo hi (logm l s)) = Some (x, logm (l @ v) s')) \<and>
      (\<forall>a b. Some (draw_range E lo hi (chkm (a @ v @ b) (length a) s)) = Some (x, chkm (a @ v @ b) (length a + length v) s')))"
  proof (cases "hi \<le> lo")
    case True
    then show ?thesis using s by (intro conjI exI [of _ "[]"]) (auto simp: draw_range_def)
  next
    case False
    define n g where ng: "n = fst (gen_range (rng E) lo hi (rng_state (ex_rand s)))"
      "g = snd (gen_range (rng E) lo hi (rng_state (ex_rand s)))"
    define v where "v = fingerprint (rng E) (Some (elapsed (clock (ex_time s)))) g"
    have d: "draw_range E lo hi s = (Ok n, wr ((ex_rand s)\<lparr>rng_state := g\<rparr>) s)"
      using s(1) False by (simp add: draw_range_def rng_with_def plain_def ng case_prod_beta Let_def wr_def)
    have "draw_range E lo hi (logm l s) = (Ok n, logm (l @ [v]) s')" for l
      using s d False by (simp add: draw_range_def rng_with_def plain_def logm_def ng v_def case_prod_beta Let_def)
    moreover have "draw_range E lo hi (chkm (a @ [v] @ b) (length a) s) = (Ok n, chkm (a @ [v] @ b) (length a + 1) s')" for a b
      using s d False by (simp add: draw_range_def rng_with_def plain_def chkm_def ng v_def case_prod_beta Let_def nth_append)
    ultimately show ?thesis using s d by (intro conjI exI [of _ "[v]"]) (auto simp: plain_def)
  qed
qed

lemma exec_call_mirrors: "mirrors (\<lambda>s. Some (exec_call E cur c s))"
proof (cases "\<exists>lo hi. c = CGenRange lo hi")
  case True
  then show ?thesis
    by (auto simp: exec_call_def intro!: mirrors_and_then draw_range_mirrors mirrors_return)
next
  case False
  then show ?thesis by (intro mirrors_indep exec_call_rand) blast
qed

text \<open>Sequencing of total operations.\<close>

lemma mirrors_case:
  assumes "mirrors (\<lambda>s. Some (m s))" "\<And>x. mirrors (g x)"
  shows "mirrors (\<lambda>s. case m s of (x, s) \<Rightarrow> g x s)"
  using mirrors_bind [OF assms] by (simp add: case_prod_beta)

lemma mirrors_then:
  assumes "mirrors (\<lambda>s. Some (m s))" "\<And>x s r. h x (wr r s) = wr r (h x s)"
  shows "mirrors (\<lambda>s. Some (case m s of (x, s) \<Rightarrow> (x, h x s)))"
proof -
  have "mirrors (\<lambda>s. case m s of (x, s) \<Rightarrow> Some (x, h x s))"
    by (rule mirrors_case [OF assms(1)]) (rule mirrors_indep, simp add: assms(2))
  then show ?thesis by (simp add: case_prod_beta)
qed

lemma run_prog_mirrors: "mirrors (\<lambda>s. Some (run_prog E cur p s))"
proof (induction p)
  case (Return x)
  then show ?case by (simp add: mirrors_return)
next
  case (Update f p)
  have "mirrors (\<lambda>s. case ((), s\<lparr>user := f (user s)\<rparr>) of (_, s) \<Rightarrow> Some (run_prog E cur p s))"
    by (rule mirrors_case [OF mirrors_indep Update.IH]) simp
  then show ?case by simp
next
  case (Read p)
  have "mirrors (\<lambda>s. Some (run_prog E cur (p (user s)) s))"
    by (rule mirrors_read [where q = user and g = "\<lambda>u s. Some (run_prog E cur (p u) s)"]) (use Read.IH in auto)
  then show ?case by simp
next
  case (Call c p)
  have "mirrors (\<lambda>s. case x of Ok r \<Rightarrow> Some (run_prog E cur (p r) s) | Err e \<Rightarrow> Some (Panicked ''error'', s) | Panic m \<Rightarrow> Some (Panicked m, s))" for x :: "reply answer"
    by (cases x) (use Call.IH in \<open>auto simp: mirrors_return\<close>)
  from mirrors_case [OF exec_call_mirrors this]
  have "mirrors (\<lambda>s. case exec_call E cur c s of (x, s) \<Rightarrow>
      (case x of Ok r \<Rightarrow> Some (run_prog E cur (p r) s) | Err e \<Rightarrow> Some (Panicked ''error'', s) | Panic m \<Rightarrow> Some (Panicked m, s)))" .
  moreover have "(\<lambda>s. case exec_call E cur c s of (x, s) \<Rightarrow>
      (case x of Ok r \<Rightarrow> Some (run_prog E cur (p r) s) | Err e \<Rightarrow> Some (Panicked ''error'', s) | Panic m \<Rightarrow> Some (Panicked m, s))) =
      (\<lambda>s. Some (run_prog E cur (Call c p) s))"
    by (auto simp: fun_eq_iff split: prod.split res.split)
  ultimately show ?case by simp
qed

lemma poll_task_mirrors: "mirrors (\<lambda>s. Some (poll_task E t s))"
proof -
  define h where "h = (\<lambda>r s. case ti_then_exit (tinfos s t) of Some n \<Rightarrow> if r = Finished then exit E n s else s | None \<Rightarrow> s)"
  have eq: "(\<lambda>s. Some (poll_task E t s)) = (\<lambda>s. Some (case run_prog E t (w_poll E t) s of (r, s) \<Rightarrow> (r, h r s)))"
    by (auto simp: fun_eq_iff poll_task_def h_def split: prod.split option.split)
  show ?thesis
    unfolding eq by (rule mirrors_then [OF run_prog_mirrors]) (simp add: h_def rand_frame split: option.split)
qed

lemma end_poll_rand [rand_frame]: "end_poll E t r (wr q s) = wr q (end_poll E t r s)"
  by (simp add: end_poll_def Let_def rand_frame split: prod.split)

text \<open>A preparation that leaves the generator alone, and a choice that does not look at it.\<close>

lemma mirrors_prep:
  assumes "mirrors (\<lambda>s. m s)" "\<And>s r. h (wr r s) = wr r (h s)"
  shows "mirrors (\<lambda>s. m (h s))"
proof -
  have "mirrors (\<lambda>s. case ((), h s) of (_, s) \<Rightarrow> m s)"
    by (rule mirrors_case [OF mirrors_indep]) (simp_all add: assms)
  then show ?thesis by simp
qed

lemma mirrors_const_if: "(b \<Longrightarrow> mirrors f) \<Longrightarrow> (\<not> b \<Longrightarrow> mirrors g) \<Longrightarrow> mirrors (\<lambda>s. if b then f s else g s)"
  by (cases b) simp_all

lemma mirrors_if:
  assumes "mirrors f" "mirrors g" "\<And>s r. P (wr r s) = P s"
  shows "mirrors (\<lambda>s. if P s then f s else g s)"
  by (rule mirrors_read [where q = P and g = "\<lambda>b s. if b then f s else g s"])
    (rule mirrors_const_if [OF assms(1,2)], rule assms(3))

lemma mirrors_state: "(\<And>s r. h (wr r s) = wr r (h s)) \<Longrightarrow> mirrors (\<lambda>s. Some (x, h s))"
  by (rule mirrors_indep) simp

lemma run_task_mirrors: "mirrors (\<lambda>s. Some (run_task E t s))"
proof -
  let ?prep = "\<lambda>s. s\<lparr>tasks := at_begin E t (tasks s), polled := polled s @ [t]\<rparr>"
  define ret where "ret = (\<lambda>r. case r of Panicked m \<Rightarrow> Panic m :: unit answer | _ \<Rightarrow> Ok ())"
  have "mirrors (\<lambda>s. case poll_task E t (?prep s) of (r, s) \<Rightarrow> Some (ret r, end_poll E t r s))"
    by (rule mirrors_case [OF mirrors_prep [OF poll_task_mirrors]]) (simp, rule mirrors_state, simp add: rand_frame)
  then have "mirrors (\<lambda>s. if at_closed E (tasks s) t then Some (Ok (), drop_runnable E t s)
      else case poll_task E t (?prep s) of (r, s) \<Rightarrow> Some (ret r, end_poll E t r s))"
    by (intro mirrors_if mirrors_state) (simp_all add: rand_frame)
  moreover have "(\<lambda>s. Some (run_task E t s)) = (\<lambda>s. if at_closed E (tasks s) t then Some (Ok (), drop_runnable E t s)
      else case poll_task E t (?prep s) of (r, s) \<Rightarrow> Some (ret r, end_poll E t r s))"
    by (auto simp: fun_eq_iff run_task_def ret_def Let_def split: prod.split poll_result.split)
  ultimately show ?thesis by simp
qed

lemma tick_mirrors: "mirrors (\<lambda>s. Some (tick E s))"
  unfolding tick_def by (intro mirrors_and_then draw_range_mirrors mirrors_indep advance_time_rand)

lemma on_panic_mirrors: "mirrors (\<lambda>s. Some (on_panic E n m s))"
proof -
  let ?revive = "\<lambda>ni s. and_then (draw_range E nanos_per_sec (10 * nanos_per_sec) s) (\<lambda>delay s.
    and_then (kill_id E (ni_id ni) s) (\<lambda>_ s.
      (Ok () :: unit answer, s\<lparr>ex_time := add_timer (tmr E) delay (RestartNode (ni_id ni)) (ex_time s)\<rparr>)))"
  have "mirrors (\<lambda>s. Some (?revive ni s))" for ni
    by (intro mirrors_and_then draw_range_mirrors mirrors_indep kill_id_rand) simp
  then have "mirrors (\<lambda>s. if ni_restart_on_panic ni \<or> list_ex (\<lambda>p. sublist p m) (ni_restart_on_panic_matching ni)
      then Some (?revive ni s) else Some (Panic m, s))" for ni
    by (intro mirrors_const_if mirrors_return)
  then have "mirrors (\<lambda>s. if ni_restart_on_panic (infos s n) \<or> list_ex (\<lambda>p. sublist p m) (ni_restart_on_panic_matching (infos s n))
      then Some (?revive (infos s n) s) else Some (Panic m, s))"
    by (rule mirrors_read [where q = "\<lambda>s. infos s n"]) simp
  moreover have "(\<lambda>s. Some (on_panic E n m s)) = (\<lambda>s. if ni_restart_on_panic (infos s n) \<or> list_ex (\<lambda>p. sublist p m) (ni_restart_on_panic_matching (infos s n))
      then Some (?revive (infos s n) s) else Some (Panic m, s))"
    by (auto simp: fun_eq_iff on_panic_def Let_def)
  ultimately show ?thesis by simp
qed

lemma run_runnable_mirrors: "mirrors (\<lambda>s. Some (run_runnable E t s))"
proof -
  let ?park = "\<lambda>s. case ex_nodes s (ni_id (infos s (ti_node (tinfos s t)))) of
      None \<Rightarrow> (Panic ''called Option::unwrap() on a None value'' :: unit answer, drop_runnable E t s)
    | Some nd \<Rightarrow> (Ok (), s\<lparr>ex_nodes := (ex_nodes s)(ni_id (infos s (ti_node (tinfos s t))) \<mapsto> nd\<lparr>n_paused := n_paused nd @ [t]\<rparr>)\<rparr>)"
  let ?after = "\<lambda>n r s. case r of Panic m \<Rightarrow> Some (and_then (on_panic E n m s) (\<lambda>_. tick E)) | _ \<Rightarrow> Some (tick E s)"
  let ?run = "\<lambda>n s. case run_task E t s of (r, s) \<Rightarrow> ?after n r s"
  have after: "mirrors (?after n r)" for n and r :: "unit answer"
    by (cases r) (auto intro: mirrors_and_then on_panic_mirrors tick_mirrors)
  have run: "mirrors (\<lambda>s. ?run (ti_node (tinfos s t)) s)"
    by (rule mirrors_read [where q = "\<lambda>s. ti_node (tinfos s t)"]) (rule mirrors_case [OF run_task_mirrors after], simp)
  have park: "mirrors (\<lambda>s. Some (?park s))"
    by (rule mirrors_indep) (simp add: rand_frame split: option.split)
  have dead: "mirrors (\<lambda>s. Some (tick E (drop_runnable E t s)))"
    by (rule mirrors_prep [OF tick_mirrors drop_runnable_rand])
  have "mirrors (\<lambda>s. if \<not> at_alive E (tasks s) t then Some (Ok (), s)
      else if ti_cancelled (tinfos s t) \<or> ni_killed (infos s (ti_node (tinfos s t))) then Some (tick E (drop_runnable E t s))
      else if ni_paused (infos s (ti_node (tinfos s t))) then Some (?park s)
      else ?run (ti_node (tinfos s t)) s)"
    by (intro mirrors_if mirrors_return dead park run) simp_all
  moreover have "(\<lambda>s. Some (run_runnable E t s)) = (\<lambda>s. if \<not> at_alive E (tasks s) t then Some (Ok (), s)
      else if ti_cancelled (tinfos s t) \<or> ni_killed (infos s (ti_node (tinfos s t))) then Some (tick E (drop_runnable E t s))
      else if ni_paused (infos s (ti_node (tinfos s t))) then Some (?park s)
      else ?run (ti_node (tinfos s t)) s)"
    by (auto simp: fun_eq_iff run_runnable_def Let_def split: prod.split option.split res.split)
  ultimately show ?thesis by simp
qed

lemma run_one_mirrors: "mirrors (\<lambda>s. Some (run_one E s))"
proof -
  let ?next = "\<lambda>r s. case r of Ok (t, q) \<Rightarrow> run_runnable E t (s\<lparr>queue := q\<rparr>) | _ \<Rightarrow> (Ok () :: unit answer, s)"
  have "mirrors (\<lambda>s. Some (?next r s))" for r :: "(try_recv_error, task_id \<times> task_id mpsc) res"
  proof (cases r)
    case (Ok x)
    obtain t q where "x = (t, q)" by (cases x)
    then show ?thesis using Ok mirrors_prep [OF run_runnable_mirrors, of "\<lambda>s. s\<lparr>queue := q\<rparr>"] by simp
  qed (simp_all add: mirrors_return)
  then have "mirrors (\<lambda>s. Some (?next (try_recv_random 0 i (queue s)) s))" for i
    by (rule mirrors_read [where q = "\<lambda>s. try_recv_random 0 i (queue s)"]) simp
  then have "mirrors (\<lambda>s. Some (and_then (draw_range E 0 n s) (\<lambda>i s. ?next (try_recv_random 0 i (queue s)) s)))" for n
    by (intro mirrors_and_then draw_range_mirrors)
  then have "mirrors (\<lambda>s. Some (and_then (draw_range E 0 (length (queue s)) s) (\<lambda>i s. ?next (try_recv_random 0 i (queue s)) s)))"
    by (rule mirrors_read [where q = "\<lambda>s. length (queue s)"]) simp
  then show ?thesis by (simp add: run_one_def)
qed

lemma run_all_ready_mirrors: "mirrors (run_all_ready E k)"
proof (induction k)
  case 0
  have "run_all_ready E 0 = (\<lambda>s. None)" by (simp add: fun_eq_iff)
  then show ?case by (simp add: mirrors_None)
next
  case (Suc k)
  let ?next = "\<lambda>r s. case r of Ok _ \<Rightarrow> run_all_ready E k s | _ \<Rightarrow> Some (r, s)"
  have "mirrors (?next r)" for r by (cases r) (simp_all add: Suc mirrors_return)
  then have "mirrors (\<lambda>s. if queue s = [] then Some (Ok (), s) else case run_one E s of (r, s) \<Rightarrow> ?next r s)"
    by (intro mirrors_if mirrors_return mirrors_case [OF run_one_mirrors]) simp_all
  moreover have "run_all_ready E (Suc k) = (\<lambda>s. if queue s = [] then Some (Ok (), s) else case run_one E s of (r, s) \<Rightarrow> ?next r s)"
    by (auto simp: fun_eq_iff split: prod.split res.split)
  ultimately show ?case by simp
qed

lemma block_loop_mirrors: "mirrors (block_loop E allow t k)"
proof (induction k)
  case 0
  have "block_loop E allow t 0 = (\<lambda>s. None)" by (simp add: fun_eq_iff)
  then show ?case by (simp add: mirrors_None)
next
  case (Suc k)
  let ?limit = "\<lambda>tl s. case tl of
      Some l \<Rightarrow> if elapsed (clock (ex_time s)) < l then block_loop E allow t k s else Some (Panic ''time limit exceeded'', s)
    | None \<Rightarrow> block_loop E allow t k s"
  let ?go = "\<lambda>going s. if \<not> going \<and> \<not> allow then Some (Panic ''no events, all tasks will block forever'', s)
    else ?limit (time_limit s) s"
  let ?fired = "\<lambda>going r s. case r of Ok _ \<Rightarrow> ?go going s | _ \<Rightarrow> Some (r, s)"
  let ?idle = "\<lambda>(going, cbs, h) s. case run_callbacks E cbs (s\<lparr>ex_time := h\<rparr>) of (r, s) \<Rightarrow> ?fired going r s"
  let ?done = "\<lambda>a s. Some (if at_has_output E a t then Ok () else Panic ''called Option::unwrap() on a None value'' :: unit answer, s)"
  let ?body = "\<lambda>r s. case r of
      Ok _ \<Rightarrow> if at_finished E (tasks s) t then ?done (tasks s) s else ?idle (advance_to_next_event (tmr E) (ex_time s)) s
    | _ \<Rightarrow> Some (r, s)"
  have "mirrors (?limit tl)" for tl
    by (cases tl) (simp_all add: Suc, intro mirrors_if Suc mirrors_return, simp)
  then have "mirrors (\<lambda>s. ?limit (time_limit s) s)" by (rule mirrors_read [where q = time_limit]) simp
  then have "mirrors (?go going)" for going by (intro mirrors_const_if mirrors_return)
  then have "mirrors (?fired going r)" for going and r :: "unit answer" by (cases r) (simp_all add: mirrors_return)
  then have "mirrors (?idle x)" for x
    by (cases x) (simp, rule mirrors_case [OF mirrors_prep [OF mirrors_indep [OF run_callbacks_rand]]], simp_all)
  then have idle: "mirrors (\<lambda>s. ?idle (advance_to_next_event (tmr E) (ex_time s)) s)"
    by (rule mirrors_read [where q = "\<lambda>s. advance_to_next_event (tmr E) (ex_time s)"]) simp
  have fin: "mirrors (\<lambda>s. ?done (tasks s) s)" by (rule mirrors_read [where q = tasks and g = ?done]) (simp_all add: mirrors_return)
  have "mirrors (?body r)" for r :: "unit answer"
    by (cases r) (simp_all add: mirrors_return, intro mirrors_if fin idle, simp)
  from mirrors_bind [OF run_all_ready_mirrors this]
  have "mirrors (\<lambda>s. case run_all_ready E k s of None \<Rightarrow> None | Some (r, s) \<Rightarrow> ?body r s)" .
  moreover have "block_loop E allow t (Suc k) = (\<lambda>s. case run_all_ready E k s of None \<Rightarrow> None | Some (r, s) \<Rightarrow> ?body r s)"
    by (auto simp: fun_eq_iff Let_def split: option.split prod.split res.split)
  ultimately show ?case by simp
qed

lemma block_on_mirrors: "mirrors (block_on E allow fuel f)"
proof -
  let ?start = "\<lambda>s. case new_task (main_info s) None ''block_on'' False None s of (t, s) \<Rightarrow>
    (t, s\<lparr>tasks := at_new E t (tasks s), user := w_spawn E t f (user s), queue := push_ready t (queue s)\<rparr>)"
  have "mirrors (\<lambda>s. Some (?start s))"
    by (rule mirrors_indep) (simp add: rand_frame split: prod.split)
  from mirrors_case [OF this block_loop_mirrors]
  have "mirrors (\<lambda>s. case ?start s of (t, s) \<Rightarrow> block_loop E allow t fuel s)" .
  moreover have "block_on E allow fuel f = (\<lambda>s. case ?start s of (t, s) \<Rightarrow> block_loop E allow t fuel s)"
    by (auto simp: fun_eq_iff block_on_def split: prod.split)
  ultimately show ?thesis by simp
qed

text \<open>
  C2: the determinism check is transparent: it raises no false alarm.  For every seed, configuration and program (a function of the
  seed, as in this model): if the plain run of the program ends, with whatever result, then \<open>check_determinism\<close> ends with the same result, and
  its final state is that of the plain run except for the record or the check in the generator.
\<close>

theorem check_determinism_transparent:
  assumes "with_seed_and_config E a u seed c = Ok rt" "block_on E False fuel f rt = Some (r, s)"
  shows "\<exists>q. check_determinism E a u seed c fuel f = Some (r, Some (s\<lparr>ex_rand := q\<rparr>))"
proof -
  have rt: "plain rt"
    using assms(1) by (auto simp: with_seed_and_config_def executor_new_def time_runtime_new_def new_with_seed_def rng_with_def plain_def
        Let_def split: prod.splits)
  obtain v where v: "plain s" "\<And>l. block_on E False fuel f (logm l rt) = Some (r, logm (l @ v) s)"
    "\<And>a b. block_on E False fuel f (chkm (a @ v @ b) (length a) rt) = Some (r, chkm (a @ v @ b) (length a + length v) s)"
    using mirrorsD [OF block_on_mirrors rt assms(2)] by blast
  have "rt\<lparr>ex_rand := enable_log (ex_rand rt)\<rparr> = logm [] rt" "rt\<lparr>ex_rand := enable_check v (ex_rand rt)\<rparr> = chkm ([] @ v @ []) (length []) rt"
    by (simp_all add: logm_def chkm_def wr_def enable_log_def enable_check_def)
  moreover have "fst (take_log (ex_rand (logm ([] @ v) s))) = Some v" by (simp add: logm_def take_log_def)
  moreover have "\<exists>q. logm ([] @ v) s = s\<lparr>ex_rand := q\<rparr>" "\<exists>q. chkm ([] @ v @ []) (length [] + length v) s = s\<lparr>ex_rand := q\<rparr>"
    unfolding logm_def chkm_def wr_def by blast+
  ultimately show ?thesis
    using v(2) [of "[]"] v(3) [of "[]" "[]"] assms(1) by (cases r) (auto simp: check_determinism_def)
qed

lemma rt_demo_sel:
  "rng rt_demo_env = rng demo_env" "tmr rt_demo_env = tmr demo_env" "at_new rt_demo_env = at_new demo_env"
  "at_alive rt_demo_env = at_alive demo_env" "at_closed rt_demo_env = at_closed demo_env" "at_has_output rt_demo_env = at_has_output demo_env"
  "at_finished rt_demo_env = at_finished demo_env" "at_wake rt_demo_env = at_wake demo_env" "at_begin rt_demo_env = at_begin demo_env"
  "at_ran rt_demo_env = at_ran demo_env" "at_drop rt_demo_env = at_drop demo_env" "w_spawn rt_demo_env = w_spawn demo_env"
  "w_poll rt_demo_env = w_poll demo_env" "w_drop rt_demo_env = w_drop demo_env"
  by (simp_all add: rt_demo_env_def)

abbreviation no_tasks :: "task_id \<Rightarrow> at_bits" where
  "no_tasks \<equiv> \<lambda>_. \<lparr>bit_alive = False, bit_sched = False, bit_running = False, bit_closed = False\<rparr>"

lemma rt_demo_run:
  assumes "with_seed_and_config rt_demo_env no_tasks () seed c = Ok rt"
  shows "\<exists>s. block_on rt_demo_env False 3 0 rt = Some (Panic ''no events, all tasks will block forever'', s)"
proof -
  have "queue rt = []" "main_info rt = 0" "next_task_id rt = 0" "tasks rt = no_tasks" "user rt = ()"
    "infos rt 0 = \<lparr>ni_id = 0, ni_name = Some ''madsim-main'', ni_cores = 1, ni_restart_on_panic = False,
          ni_restart_on_panic_matching = [], ni_paused = False, ni_killed = False, ni_tasks = [], ni_ctrl_c = False\<rparr>"
    "rng_log (ex_rand rt) = None" "rng_check (ex_rand rt) = None" "timer (ex_time rt) = []"
    using assms by (auto simp: with_seed_and_config_def executor_new_def rt_demo_sel demo_sel time_runtime_new_def new_with_seed_def
        rng_with_def Let_def channel_def)
  then show ?thesis by (simp add: block_on_def new_task_def rt_demo_sel demo_eval advance_to_next_event_def)
qed

theorem check_determinism_transparent_witness:
  "\<exists>rt s q. with_seed_and_config rt_demo_env no_tasks () 1 \<lparr>packet_loss_rate = 0, send_latency = (1, 10)\<rparr> = Ok rt \<and>
     block_on rt_demo_env False 3 0 rt = Some (Panic ''no events, all tasks will block forever'', s) \<and>
     check_determinism rt_demo_env no_tasks () 1 \<lparr>packet_loss_rate = 0, send_latency = (1, 10)\<rparr> 3 0 =
       Some (Panic ''no events, all tasks will block forever'', Some (s\<lparr>ex_rand := q\<rparr>))"
proof -
  obtain rt where rt: "with_seed_and_config rt_demo_env no_tasks () 1 \<lparr>packet_loss_rate = 0, send_latency = (1, 10)\<rparr> = Ok rt"
    using rt_demo_new by blast
  then show ?thesis using rt_demo_run [OF rt] check_determinism_transparent [OF rt] by blast
qed

end
