(* ===== verification/Strings.thy ===== *)
theory Strings
  imports Main "HOL-Library.Char_ord"
begin

section \<open>Text of the Rust standard library\<close>

text \<open>
  Strings are lists of characters; the sources use them only with ASCII separators.  Numbers as decimal text, with the round trip of
  printing and parsing, and splitting at a separator.
\<close>

subsection \<open>Numbers as text\<close>

text \<open>\<open>to_string\<close> of an unsigned number, and \<open>str::parse\<close> to an unsigned number of \<open>w\<close> bits, which allows a plus sign.\<close>

definition digit_char :: "nat \<Rightarrow> char" where
  "digit_char d = char_of (48 + d)"

fun string_of_nat :: "nat \<Rightarrow> string" where
  "string_of_nat n = (if n < 10 then [digit_char n] else string_of_nat (n div 10) @ [digit_char (n mod 10)])"

declare string_of_nat.simps [simp del]

definition is_digit :: "char \<Rightarrow> bool" where
  "is_digit c \<longleftrightarrow> 48 \<le> (of_char c :: nat) \<and> (of_char c :: nat) \<le> 57"

definition digits_value :: "string \<Rightarrow> nat" where
  "digits_value s = foldl (\<lambda>n c. 10 * n + (of_char c - 48)) 0 s"

definition parse_uint :: "nat \<Rightarrow> string \<Rightarrow> nat option" where
  "parse_uint w s =
     (let ds = (case s of [] \<Rightarrow> [] | c # r \<Rightarrow> if c = CHR ''+'' then r else s) in
      if ds = [] \<or> \<not> list_all is_digit ds \<or> 2 ^ w \<le> digits_value ds then None else Some (digits_value ds))"

abbreviation parse_usize :: "string \<Rightarrow> nat option" where
  "parse_usize \<equiv> parse_uint 64"

lemma digit_char_code [simp]: "d < 10 \<Longrightarrow> (of_char (digit_char d) :: nat) = 48 + d"
  by (simp add: digit_char_def)

lemma digit_char_digit [simp]: "d < 10 \<Longrightarrow> is_digit (digit_char d)"
  by (simp add: is_digit_def)

lemma string_of_nat_digits: "list_all is_digit (string_of_nat n) \<and> string_of_nat n \<noteq> []"
proof (induction n rule: string_of_nat.induct)
  case (1 n)
  then show ?case by (subst (1 2) string_of_nat.simps) auto
qed

lemma digits_value_string_of_nat [simp]: "digits_value (string_of_nat n) = n"
proof (induction n rule: string_of_nat.induct)
  case (1 n)
  then show ?case by (subst string_of_nat.simps) (auto simp: digits_value_def)
qed

lemma parse_string_of_nat: "n < 2 ^ w \<Longrightarrow> parse_uint w (string_of_nat n) = Some n"
proof -
  assume n: "n < 2 ^ w"
  obtain c r where s: "string_of_nat n = c # r" using string_of_nat_digits [of n] by (cases "string_of_nat n") auto
  have "is_digit c" using string_of_nat_digits [of n] s by simp
  then have "c \<noteq> CHR ''+''" by (auto simp: is_digit_def)
  then show ?thesis using n s string_of_nat_digits [of n] digits_value_string_of_nat [of n]
    by (simp add: parse_uint_def Let_def)
qed

subsection \<open>Splitting\<close>

text \<open>\<open>str::split_once\<close>, \<open>str::rsplit_once\<close> and \<open>str::split\<close> at a character.\<close>

definition split_once :: "char \<Rightarrow> string \<Rightarrow> (string \<times> string) option" where
  "split_once c s =
     (if c \<in> set s then Some (takeWhile (\<lambda>x. x \<noteq> c) s, tl (dropWhile (\<lambda>x. x \<noteq> c) s)) else None)"

definition rsplit_once :: "char \<Rightarrow> string \<Rightarrow> (string \<times> string) option" where
  "rsplit_once c s = map_option (\<lambda>(b, a). (rev a, rev b)) (split_once c (rev s))"

fun str_split :: "char \<Rightarrow> string \<Rightarrow> string list" where
  "str_split c [] = [[]]"
| "str_split c (x # s) = (if x = c then [] # str_split c s else (x # hd (str_split c s)) # tl (str_split c s))"

lemma split_once_append: "c \<notin> set a \<Longrightarrow> split_once c (a @ c # b) = Some (a, b)"
  by (simp add: split_once_def takeWhile_append dropWhile_append)

lemma rsplit_once_append: "c \<notin> set b \<Longrightarrow> rsplit_once c (a @ c # b) = Some (a, b)"
  by (simp add: rsplit_once_def split_once_append)

lemma str_split_append: "c \<notin> set a \<Longrightarrow> str_split c (a @ c # b) = a # str_split c b"
  by (induction a) auto

lemma str_split_single: "c \<notin> set a \<Longrightarrow> str_split c a = [a]"
  by (induction a) auto

end
