(* ===== verification/Builder.thy ===== *)
theory Builder
  imports Determinism Strings
begin

section \<open>The test builder (\<open>madsim/src/sim/runtime/builder.rs\<close>)\<close>

text \<open>
  \<open>Builder::from_env\<close> reads the parameters of a test from environment variables, \<open>Builder::run\<close> runs the test for a range of
  seeds.  The variables are a map; the current time, the reading of the configuration file and the parsing of a decimal number of seconds
  are arguments.  Each seed runs on a thread of its own with a new runtime; several jobs run at the same time, so
  that the order in which the runs end is an argument (\<open>ord\<close>, the seeds in that order; the number of jobs is at least 1).
\<close>

record builder =
  bl_seed :: nat
  bl_count :: nat
  bl_jobs :: nat
  bl_config :: net_config
  bl_time_limit :: "duration option"
  bl_check :: bool
  bl_allow_system_thread :: bool

definition parse_var :: "nat \<Rightarrow> string \<Rightarrow> string option \<Rightarrow> nat \<Rightarrow> nat answer" where
  "parse_var bound msg v dflt =
     (case v of
        None \<Rightarrow> Ok dflt
      | Some x \<Rightarrow> (case parse_usize x of Some n \<Rightarrow> if n < bound then Ok n else Panic msg | None \<Rightarrow> Panic msg))"

definition from_env :: "nat \<Rightarrow> (string \<Rightarrow> net_config answer) \<Rightarrow> (string \<Rightarrow> duration answer) \<Rightarrow> (string \<Rightarrow> string option) \<Rightarrow> builder answer" where
  "from_env now_nanos read_config parse_secs var =
     bind_res (parse_var (2 ^ 64) ''MADSIM_TEST_SEED should be an integer'' (var ''MADSIM_TEST_SEED'') (now_nanos mod 2 ^ 64)) (\<lambda>seed.
     bind_res (parse_var (2 ^ 16) ''MADSIM_TEST_JOBS should be an integer'' (var ''MADSIM_TEST_JOBS'') 1) (\<lambda>jobs.
     bind_res (case var ''MADSIM_TEST_CONFIG'' of Some p \<Rightarrow> read_config p | None \<Rightarrow> Ok config_default) (\<lambda>config.
     bind_res (parse_var (2 ^ 64) ''MADSIM_TEST_NUM should be an integer'' (var ''MADSIM_TEST_NUM'') 1) (\<lambda>count.
     bind_res (case var ''MADSIM_TEST_TIME_LIMIT'' of Some x \<Rightarrow> bind_res (parse_secs x) (\<lambda>d. Ok (Some d)) | None \<Rightarrow> Ok None) (\<lambda>limit.
     let check = var ''MADSIM_TEST_CHECK_DETERMINISM'' \<noteq> None;
         count = (if check then max count 2 else count)
     in Ok \<lparr>bl_seed = seed, bl_count = count, bl_jobs = jobs, bl_config = config, bl_time_limit = limit, bl_check = check,
          bl_allow_system_thread = (var ''MADSIM_ALLOW_SYSTEM_THREAD'' \<noteq> None)\<rparr>)))))"

text \<open>The run of one seed.\<close>

definition run_seed :: "('a, 'g, 'tm, 'u, 'f, 'k, 'p rt_sims) env \<Rightarrow> 'a \<Rightarrow> 'u \<Rightarrow> builder \<Rightarrow> nat \<Rightarrow> 'f \<Rightarrow> nat \<Rightarrow> unit answer option" where
  "run_seed E a u b fuel f seed =
     (case with_seed_and_config E a u (word_of_nat seed) (bl_config b) of
        Ok rt \<Rightarrow>
          (let rt = (case bl_time_limit b of Some l \<Rightarrow> set_time_limit l rt | None \<Rightarrow> rt)
           in map_option fst (block_on E (bl_allow_system_thread b) fuel f rt))
      | Err e \<Rightarrow> Some (Err e)
      | Panic m \<Rightarrow> Some (Panic m))"

text \<open>The loop over the results; the seed is the one that \<open>panic_with_info\<close> prints.\<close>

primrec run_seeds :: "(nat \<Rightarrow> unit answer option) \<Rightarrow> nat list \<Rightarrow> unit option \<Rightarrow> (unit answer \<times> nat option) option" where
  "run_seeds run [] ret = Some (expect ''called Option::unwrap() on a None value'' ret, None)"
| "run_seeds run (seed # seeds) ret =
     (case run seed of
        None \<Rightarrow> None
      | Some (Ok x) \<Rightarrow> run_seeds run seeds (Some x)
      | Some r \<Rightarrow> Some (r, Some seed))"

definition builder_run :: "('a, 'g, 'tm, 'u, 'f, 'k, 'p rt_sims) env \<Rightarrow> 'a \<Rightarrow> 'u \<Rightarrow> builder \<Rightarrow> nat \<Rightarrow> 'f \<Rightarrow> nat list
    \<Rightarrow> (unit answer \<times> nat option) option" where
  "builder_run E a u b fuel f ord =
     (if bl_check b then
        map_option (\<lambda>(r, _). (r, if is_ok r then None else Some (bl_seed b))) (check_determinism E a u (word_of_nat (bl_seed b)) (bl_config b) fuel f)
      else if 2 ^ 64 \<le> bl_seed b + bl_count b then Some (Panic ''attempt to add with overflow'', None)
      else run_seeds (run_seed E a u b fuel f) ord None)"

subsection \<open>Verdict and reproduction\<close>

lemma parse_var_number: "n < bound \<Longrightarrow> n < 2 ^ 64 \<Longrightarrow> parse_var bound msg (Some (string_of_nat n)) d = Ok n"
  by (simp add: parse_var_def parse_string_of_nat)

text \<open>The orders in which the runs may end.\<close>

definition seeds_of :: "builder \<Rightarrow> nat list" where
  "seeds_of b = [bl_seed b..<bl_seed b + bl_count b]"

lemma run_seeds_Ok:
  "run_seeds run seeds ret = Some (Ok (), None) \<longleftrightarrow> (ret \<noteq> None \<or> seeds \<noteq> []) \<and> (\<forall>x \<in> set seeds. run x = Some (Ok ()))"
proof (induction seeds arbitrary: ret)
  case Nil
  then show ?case by (cases ret) auto
next
  case (Cons x xs)
  show ?case
  proof (cases "run x")
    case (Some r)
    then show ?thesis using Cons.IH [of "Some ()"] by (cases r) auto
  qed simp
qed

lemma run_seeds_fails:
  "run_seeds run seeds ret = Some (r, Some x) \<Longrightarrow> x \<in> set seeds \<and> run x = Some r \<and> (\<forall>y. r \<noteq> Ok y)"
proof (induction seeds arbitrary: ret)
  case (Cons y ys)
  show ?case
  proof (cases "run y")
    case (Some q)
    then show ?thesis using Cons by (cases q) auto
  qed (use Cons.prems in simp)
qed simp

text \<open>
  A batch of tests succeeds exactly if every seed does.  Without the determinism check, and when the range of seeds does not overflow, the batch ends well,
  in whatever order its jobs finish, if and only if there is a seed and the run of every seed from \<open>seed\<close> to \<open>seed + count - 1\<close>
  ends well; in particular the verdict does not depend on the number of jobs.
\<close>

theorem builder_verdict:
  assumes "\<not> bl_check b" "bl_seed b + bl_count b < 2 ^ 64" "mset ord = mset (seeds_of b)"
  shows "builder_run E a u b fuel f ord = Some (Ok (), None) \<longleftrightarrow>
    0 < bl_count b \<and> (\<forall>seed \<in> {bl_seed b..<bl_seed b + bl_count b}. run_seed E a u b fuel f seed = Some (Ok ()))"
proof -
  have "set ord = {bl_seed b..<bl_seed b + bl_count b}" using assms(3) by (metis seeds_of_def set_mset_mset set_upt)
  moreover have "length ord = bl_count b" using mset_eq_length [OF assms(3)] by (simp add: seeds_of_def)
  then have "ord \<noteq> [] \<longleftrightarrow> 0 < bl_count b" by (metis length_greater_0_conv)
  ultimately show ?thesis using assms(1,2) by (simp add: builder_run_def run_seeds_Ok)
qed

text \<open>Two seeds of a program that waits for ever.\<close>

definition two_seeds :: builder where
  "two_seeds = \<lparr>bl_seed = 5, bl_count = 2, bl_jobs = 1, bl_config = config_default, bl_time_limit = None, bl_check = False,
     bl_allow_system_thread = False\<rparr>"

lemma two_seeds_run:
  "run_seed rt_demo_env no_tasks () two_seeds 3 0 seed = Some (Panic ''no events, all tasks will block forever'')"
proof -
  obtain rt where rt: "with_seed_and_config rt_demo_env no_tasks () (word_of_nat seed) config_default = Ok rt" using rt_demo_new by blast
  then show ?thesis using rt_demo_run [OF rt] by (auto simp: run_seed_def two_seeds_def)
qed

theorem builder_verdict_witness: "builder_run rt_demo_env no_tasks () two_seeds 3 0 [6, 5] \<noteq> Some (Ok (), None)"
proof -
  have "mset [6, 5] = mset (seeds_of two_seeds)" by (simp add: seeds_of_def two_seeds_def upt_conv_Cons)
  then show ?thesis using builder_verdict [of two_seeds "[6, 5]" rt_demo_env no_tasks "()" 3 0] two_seeds_run by (simp add: two_seeds_def) presburger
qed

text \<open>
  C13: a failure is reproduced by the seed that is printed.  When a batch configured from the environment fails with seed \<open>x\<close>,
  the same environment with \<open>MADSIM_TEST_SEED\<close> set to the printed number and without \<open>MADSIM_TEST_NUM\<close> is accepted and makes a batch of
  this one seed, which fails with the same panic.
\<close>

theorem builder_failure_reproduces:
  assumes "from_env now rc ps var = Ok b" "\<not> bl_check b" "mset ord = mset (seeds_of b)"
    and "builder_run E a u b fuel f ord = Some (r, Some x)"
  shows "\<exists>b'. from_env now' rc ps (var(''MADSIM_TEST_SEED'' := Some (string_of_nat x), ''MADSIM_TEST_NUM'' := None)) = Ok b' \<and>
    seeds_of b' = [x] \<and> builder_run E a u b' fuel f [x] = Some (r, Some x)"
proof -
  let ?var = "var(''MADSIM_TEST_SEED'' := Some (string_of_nat x), ''MADSIM_TEST_NUM'' := None)"
  have fail: "bl_seed b + bl_count b < 2 ^ 64" "run_seeds (run_seed E a u b fuel f) ord None = Some (r, Some x)"
    using assms(2,4) by (auto simp: builder_run_def split: if_splits)
  have x: "x \<in> set ord" "run_seed E a u b fuel f x = Some r" "\<forall>y. r \<noteq> Ok y" using run_seeds_fails [OF fail(2)] by auto
  have "x < bl_seed b + bl_count b" using x(1) assms(3) by (metis atLeastLessThan_iff seeds_of_def set_mset_mset set_upt)
  then have lt: "x + 1 < 2 ^ 64" using fail(1) by simp
  let ?b = "b\<lparr>bl_seed := x, bl_count := 1\<rparr>"
  obtain jobs config limit where parts:
    "parse_var (2 ^ 16) ''MADSIM_TEST_JOBS should be an integer'' (var ''MADSIM_TEST_JOBS'') 1 = Ok jobs"
    "(case var ''MADSIM_TEST_CONFIG'' of Some p \<Rightarrow> rc p | None \<Rightarrow> Ok config_default) = Ok config"
    "(case var ''MADSIM_TEST_TIME_LIMIT'' of Some x \<Rightarrow> bind_res (ps x) (\<lambda>d. Ok (Some d)) | None \<Rightarrow> Ok None) = Ok limit"
    "var ''MADSIM_TEST_CHECK_DETERMINISM'' = None"
    "?b = \<lparr>bl_seed = x, bl_count = 1, bl_jobs = jobs, bl_config = config, bl_time_limit = limit, bl_check = False,
       bl_allow_system_thread = (var ''MADSIM_ALLOW_SYSTEM_THREAD'' \<noteq> None)\<rparr>"
    using assms(1,2) unfolding from_env_def Let_def bind_res_Ok_iff by fastforce
  have "from_env now' rc ps ?var = Ok ?b"
    using parts lt by (simp add: from_env_def parse_var_number Let_def del: bind_res_Ok_iff) (simp add: parse_var_def)
  moreover have "seeds_of ?b = [x]" by (simp add: seeds_of_def)
  moreover have "run_seed E a u ?b fuel f x = Some r"
    using x(2) by (cases "with_seed_and_config E a u (word_of_nat x) (bl_config b)") (simp_all add: run_seed_def)
  then have "builder_run E a u ?b fuel f [x] = Some (r, Some x)"
    using assms(2) lt x(3) by (cases r) (auto simp: builder_run_def)
  ultimately show ?thesis by blast
qed

theorem builder_failure_reproduces_witness:
  "\<exists>b'. from_env 0 (\<lambda>_. Panic []) (\<lambda>_. Panic []) [''MADSIM_TEST_SEED'' \<mapsto> string_of_nat 6] = Ok b' \<and>
     builder_run rt_demo_env no_tasks () b' 3 0 [6] = Some (Panic ''no events, all tasks will block forever'', Some 6)"
proof -
  let ?var = "[''MADSIM_TEST_SEED'' \<mapsto> string_of_nat 5, ''MADSIM_TEST_NUM'' \<mapsto> string_of_nat 2]"
  have env: "from_env 0 (\<lambda>_. Panic []) (\<lambda>_. Panic []) ?var = Ok two_seeds"
    by (simp add: from_env_def parse_var_def parse_string_of_nat two_seeds_def Let_def)
  have ord: "mset [6, 5] = mset (seeds_of two_seeds)" by (simp add: seeds_of_def two_seeds_def upt_conv_Cons)
  have "builder_run rt_demo_env no_tasks () two_seeds 3 0 [6, 5] = Some (Panic ''no events, all tasks will block forever'', Some 6)"
    using two_seeds_run by (simp add: builder_run_def two_seeds_def)
  moreover have "?var(''MADSIM_TEST_SEED'' := Some (string_of_nat 6), ''MADSIM_TEST_NUM'' := None) = [''MADSIM_TEST_SEED'' \<mapsto> string_of_nat 6]"
    by auto
  ultimately show ?thesis
    using builder_failure_reproduces [OF env _ ord, of rt_demo_env no_tasks "()" 3 0 _ 6 0] by (auto simp: two_seeds_def)
qed

end
