(* ===== verification/Addr.thy ===== *)
theory Addr
  imports NetSim Strings
begin

section \<open>Address lookup (\<open>madsim/src/sim/net/addr.rs\<close>)\<close>

text \<open>
  What the socket operations accept as an address: socket addresses, a text \<open>host:port\<close>, or a host and a port.  A host that is not
  an IP address is looked up in the cluster's name server.  The parsers of the standard library are the fields of \<open>addr_parsers\<close>.
\<close>

datatype host = Addr socket_addr | AddrList "socket_addr list" | HostText string | HostPort string port

record addr_parsers =
  ap_socket :: "string \<Rightarrow> socket_addr option"
  ap_v4 :: "string \<Rightarrow> 32 word option"
  ap_v6 :: "string \<Rightarrow> 128 word option"

definition resolve_host :: "addr_parsers \<Rightarrow> string \<Rightarrow> port \<Rightarrow> 'p net_sim \<Rightarrow> (io_error, socket_addr list) res" where
  "resolve_host A h p ns =
     (case ap_v4 A h of
        Some a \<Rightarrow> Ok [(V4 a, p)]
      | None \<Rightarrow>
          (case ap_v6 A h of
             Some a \<Rightarrow> Ok [(V6 a, p)]
           | None \<Rightarrow> bind_res (ok_or InvalidInput (lookup_dns h ns)) (\<lambda>ip. Ok [(ip, p)])))"

definition resolve_text :: "addr_parsers \<Rightarrow> string \<Rightarrow> 'p net_sim \<Rightarrow> (io_error, socket_addr list) res" where
  "resolve_text A s ns =
     (case ap_socket A s of
        Some a \<Rightarrow> Ok [a]
      | None \<Rightarrow>
          bind_res (ok_or InvalidInput (rsplit_once (CHR '':'') s)) (\<lambda>(h, ps).
            bind_res (ok_or InvalidInput (parse_uint 16 ps)) (\<lambda>p. resolve_host A h (of_nat p) ns)))"

primrec lookup_host :: "addr_parsers \<Rightarrow> host \<Rightarrow> 'p net_sim \<Rightarrow> (io_error, socket_addr list) res" where
  "lookup_host A (Addr a) ns = Ok [a]"
| "lookup_host A (AddrList as) ns = Ok as"
| "lookup_host A (HostText s) ns = resolve_text A s ns"
| "lookup_host A (HostPort h p) ns = resolve_host A h p ns"

text \<open>\<open>lookup_host(addr).await?.next().unwrap()\<close>: only an empty list of addresses has no first one.\<close>

definition lookup_first :: "addr_parsers \<Rightarrow> host \<Rightarrow> 'p net_sim \<Rightarrow> (io_error, socket_addr) res" where
  "lookup_first A h ns =
     bind_res (lookup_host A h ns) (\<lambda>as. case as of [] \<Rightarrow> Panic ''called `Option::unwrap()` on a `None` value'' | a # _ \<Rightarrow> Ok a)"

text \<open>
  A name that is registered resolves, in both forms, to its address with the given port, and a name that is not gives
  \<open>InvalidInput\<close>.  (A name is not itself an IP address.)
\<close>

theorem lookup_host_names:
  assumes "ap_v4 A h = None" "ap_v6 A h = None" "\<And>s. ap_socket A (h @ CHR '':'' # s) = None"
  shows "lookup_host A (HostText (h @ CHR '':'' # string_of_nat (unat p))) (add_dns_record h ip ns) = Ok [(ip, p)] \<and>
    lookup_host A (HostPort h p) (add_dns_record h ip ns) = Ok [(ip, p)] \<and>
    (lookup_dns h ns = None \<longrightarrow> lookup_host A (HostText (h @ CHR '':'' # string_of_nat (unat p))) ns = Err InvalidInput \<and>
       lookup_host A (HostPort h p) ns = Err InvalidInput)"
proof -
  have "CHR '':'' \<notin> set (string_of_nat (unat p))"
    using string_of_nat_digits [of "unat p"] by (auto simp: list_all_iff is_digit_def)
  then have sp: "rsplit_once (CHR '':'') (h @ CHR '':'' # string_of_nat (unat p)) = Some (h, string_of_nat (unat p))"
    by (rule rsplit_once_append)
  have "unat p < 2 ^ LENGTH(16)" by (rule unsigned_less)
  then have pp: "parse_uint 16 (string_of_nat (unat p)) = Some (unat p)" by (intro parse_string_of_nat) simp
  have "lookup_dns h (add_dns_record h ip ns) = Some ip"
    by (simp add: lookup_dns_def add_dns_record_def dns.lookup_add)
  then show ?thesis using assms sp pp by (simp add: resolve_text_def resolve_host_def)
qed

theorem lookup_host_names_witness:
  "let A = \<lparr>ap_socket = (\<lambda>_. None), ap_v4 = (\<lambda>_. None), ap_v6 = (\<lambda>_. None)\<rparr> in
   lookup_host A (HostPort ''db'' 80) (add_dns_record ''db'' (V4 7) (net_sim_new config_default :: string net_sim)) = Ok [(V4 7, 80)]"
  using lookup_host_names [of "\<lparr>ap_socket = (\<lambda>_. None), ap_v4 = (\<lambda>_. None), ap_v6 = (\<lambda>_. None)\<rparr>" "''db''" 80 "V4 7"
      "net_sim_new config_default :: string net_sim"] by (simp add: Let_def)

end
