(* ===== verification/Tcp.thy ===== *)
theory Tcp
  imports Addr
begin

section \<open>TCP streams (\<open>madsim/src/sim/net/tcp\<close>)\<close>

text \<open>
  A stream is a write buffer in front of a channel of byte strings and a read buffer behind it
  (\<open>tcp/stream.rs\<close>); a listener hands out the streams of incoming connections in order
  (\<open>tcp/listener.rs\<close>).  \<open>cid\<close> stands for the two channel ends of a stream, \<open>gid\<close> for its \<open>BindGuard\<close>.
\<close>

type_synonym bytes = "8 word list"
type_synonym cid = nat
type_synonym gid = nat

record tcp_stream =
  ts_guard :: "gid option"
  ts_addr :: socket_addr
  ts_peer :: socket_addr
  write_buf :: bytes
  read_buf :: bytes
  ts_tx :: cid
  ts_rx :: cid

subsection \<open>Reading and writing\<close>

definition poll_write :: "bytes \<Rightarrow> bytes \<Rightarrow> nat \<times> bytes" where
  "poll_write buf wb = (length buf, wb @ buf)"

text \<open>\<open>poll_flush\<close>: the buffer is emptied before the send, which may fail.\<close>

definition poll_flush :: "'r rng_ops \<Rightarrow> instant \<Rightarrow> bytes \<Rightarrow> bytes chan \<Rightarrow> network \<Rightarrow> 'r
    \<Rightarrow> (io_error, bytes \<times> bytes chan \<times> network \<times> 'r) res" where
  "poll_flush R now wb c n r =
     bind_res (payload_send R now wb c n r) (\<lambda>(ok, c, n, r).
       case ok of Some _ \<Rightarrow> Ok ([], c, n, r) | None \<Rightarrow> Err ConnectionReset)"

text \<open>\<open>try_read_buf\<close>: \<open>room\<close> is the space in the caller's buffer.\<close>

definition try_read_buf :: "nat \<Rightarrow> bytes \<Rightarrow> (io_error, bytes \<times> bytes) res" where
  "try_read_buf room rb = (if rb \<noteq> [] then Ok (take room rb, drop room rb) else Err WouldBlock)"

lemma rx_poll_shrinks:
  assumes "rx_poll R T waker c h n r = Ok (Ready (Some v), c', h', n', r')"
  shows "length (in_flight c') < length (in_flight c)"
  using in_flight_poll [OF assms] by simp

text \<open>\<open>poll_read\<close>: an empty message is skipped by the recursion; the end of the stream reads zero bytes.\<close>

function poll_read :: "'r rng_ops \<Rightarrow> ('tm, 'cb) timer_ops \<Rightarrow> 'cb \<Rightarrow> nat \<Rightarrow> bytes \<Rightarrow> bytes chan \<Rightarrow> 'tm time_handle
    \<Rightarrow> network \<Rightarrow> 'r \<Rightarrow> (io_error, bytes poll \<times> bytes \<times> bytes chan \<times> 'tm time_handle \<times> network \<times> 'r) res" where
  "poll_read R T waker room rb c h n r =
     (if rb \<noteq> [] then Ok (Ready (take room rb), drop room rb, c, h, n, r)
      else case rx_poll R T waker c h n r of
             Ok (Pending, c', h', n', r') \<Rightarrow> Ok (Pending, [], c', h', n', r')
           | Ok (Ready (Some d), c', h', n', r') \<Rightarrow> poll_read R T waker room d c' h' n' r'
           | Ok (Ready None, c', h', n', r') \<Rightarrow> Ok (Ready [], [], c', h', n', r')
           | Err e \<Rightarrow> Err e
           | Panic m \<Rightarrow> Panic m)"
  by pat_completeness auto
termination
  by (relation "measure (\<lambda>(R, T, waker, room, rb, c, h, n, r). length (in_flight c))")
    (auto dest: rx_poll_shrinks)

declare poll_read.simps [simp del]

subsection \<open>The listener\<close>

definition new_connection :: "socket_addr \<Rightarrow> socket_addr \<Rightarrow> cid \<Rightarrow> cid \<Rightarrow> bool \<Rightarrow> tcp_stream list \<Rightarrow> tcp_stream list" where
  "new_connection peer a tx rx gone q =
     (if gone then q
      else q @ [\<lparr>ts_guard = None, ts_addr = a, ts_peer = peer, write_buf = [], read_buf = [], ts_tx = tx, ts_rx = rx\<rparr>])"

text \<open>\<open>accept\<close> after its delay; \<open>None\<close> is the wait for a connection.\<close>

definition accept :: "gid \<Rightarrow> tcp_stream list \<Rightarrow> (tcp_stream \<times> socket_addr) option \<times> tcp_stream list" where
  "accept g q = (case q of [] \<Rightarrow> (None, []) | s # q \<Rightarrow> (Some (s\<lparr>ts_guard := Some g\<rparr>, ts_peer s), q))"

subsection \<open>Connecting\<close>

text \<open>
  \<open>TcpStream::connect_one\<close> after its delay.  The stream's guard binds a socket of its own (\<open>s\<close>) to a free port; when the connection is
  refused the guard is dropped.  Returns the stream, the ends of its channels, the listener's socket and both addresses, with
  which the listener is told of the connection.
\<close>

definition connect_one :: "'r rng_ops \<Rightarrow> addr_parsers \<Rightarrow> (socket_addr \<Rightarrow> string) \<Rightarrow> node_id \<Rightarrow> sid \<Rightarrow> gid \<Rightarrow> cid \<Rightarrow> cid \<Rightarrow> socket_addr
    \<Rightarrow> 'q net_sim \<Rightarrow> 'r \<Rightarrow> (io_error, tcp_stream \<times> bytes chan \<times> bytes chan \<times> sid \<times> socket_addr \<times> socket_addr, 'q net_sim \<times> 'r) outcome" where
  "connect_one R A print i s g tx rx a ns r =
     st_bind (bind_res (lookup_host A (HostText ''0.0.0.0:0'') ns) (\<lambda>as. guard_bind i Tcp s as None (ns_network ns)), ns, r)
       (\<lambda>(local, n) (_, r).
          case connect1 R (ap_socket A) print i (snd local) a Tcp (ns\<lparr>ns_network := n\<rparr>) r of
            (Ok (ctx, crx, sk, src, dst), x) \<Rightarrow>
              (Ok (\<lparr>ts_guard = Some g, ts_addr = src, ts_peer = a, write_buf = [], read_buf = [], ts_tx = tx, ts_rx = rx\<rparr>,
                 ctx, crx, sk, src, dst), x)
          | (Err e, ns, r) \<Rightarrow>
              (case netsim_lift (guard_drop False False i local Tcp) ns of
                 Ok ns \<Rightarrow> (Err e, ns, r)
               | Err e' \<Rightarrow> (Err e', ns, r)
               | Panic m \<Rightarrow> (Panic m, ns, r))
          | (Panic m, x) \<Rightarrow> (Panic m, x))"

text \<open>\<open>TcpStream::connect\<close> on the addresses of the host: the first that accepts, or the last error.\<close>

primrec connect_any :: "'r rng_ops \<Rightarrow> addr_parsers \<Rightarrow> (socket_addr \<Rightarrow> string) \<Rightarrow> node_id \<Rightarrow> sid \<Rightarrow> gid \<Rightarrow> cid \<Rightarrow> cid \<Rightarrow> io_error option
    \<Rightarrow> socket_addr list \<Rightarrow> 'q net_sim \<Rightarrow> 'r
    \<Rightarrow> (io_error, tcp_stream \<times> bytes chan \<times> bytes chan \<times> sid \<times> socket_addr \<times> socket_addr, 'q net_sim \<times> 'r) outcome" where
  "connect_any R A print i s g tx rx last_err [] ns r = (Err (case last_err of Some e \<Rightarrow> e | None \<Rightarrow> InvalidInput), ns, r)"
| "connect_any R A print i s g tx rx last_err (a # as) ns r =
     (case connect_one R A print i s g tx rx a ns r of
        (Ok x, y) \<Rightarrow> (Ok x, y)
      | (Err e, ns, r) \<Rightarrow> connect_any R A print i s g tx rx (Some e) as ns r
      | (Panic m, y) \<Rightarrow> (Panic m, y))"

definition tcp_connect :: "'r rng_ops \<Rightarrow> addr_parsers \<Rightarrow> (socket_addr \<Rightarrow> string) \<Rightarrow> node_id \<Rightarrow> sid \<Rightarrow> gid \<Rightarrow> cid \<Rightarrow> cid \<Rightarrow> host \<Rightarrow> 'q net_sim \<Rightarrow> 'r
    \<Rightarrow> (io_error, tcp_stream \<times> bytes chan \<times> bytes chan \<times> sid \<times> socket_addr \<times> socket_addr, 'q net_sim \<times> 'r) outcome" where
  "tcp_connect R A print i s g tx rx h ns r =
     st_bind (lookup_host A h ns, ns, r) (\<lambda>as (ns, r). connect_any R A print i s g tx rx None as ns r)"

definition tcp_bind :: "addr_parsers \<Rightarrow> node_id \<Rightarrow> sid \<Rightarrow> host \<Rightarrow> 'q net_sim \<Rightarrow> (io_error, socket_addr \<times> 'q net_sim) res" where
  "tcp_bind A i s h ns =
     bind_res (lookup_host A h ns) (\<lambda>as.
       bind_res (guard_bind i Tcp s as None (ns_network ns)) (\<lambda>(a, n). Ok (a, ns\<lparr>ns_network := n\<rparr>)))"

text \<open>A failed connection leaves every socket as it was.\<close>

lemma connect_one_Err:
  assumes "connect_one R A print i s g tx rx a ns r = (Err e, ns', r')"
  shows "nodes (ns_network ns') = nodes (ns_network ns)"
proof (cases "bind_res (lookup_host A (HostText ''0.0.0.0:0'') ns) (\<lambda>as. guard_bind i Tcp s as None (ns_network ns))")
  case (Ok x)
  obtain l n where x: "x = (l, n)" by (cases x)
  obtain as where b: "guard_bind i Tcp s as None (ns_network ns) = Ok (l, n)" using Ok x by (auto simp: bind_res_Ok_iff)
  obtain y ns2 r2 where c: "connect1 R (ap_socket A) print i (snd l) a Tcp (ns\<lparr>ns_network := n\<rparr>) r =
      (y :: (io_error, bytes chan \<times> bytes chan \<times> sid \<times> socket_addr \<times> socket_addr) res, ns2, r2)"
    by (metis prod.collapse)
  have "nodes (ns_network ns2) = nodes n" using connect1_nodes [OF c] by simp
  from guard_bind_drop [OF b this] obtain n3 where
    d: "guard_drop False False i l Tcp (ns_network ns2) = (Ok n3 :: (io_error, _) res)" "nodes n3 = nodes (ns_network ns)" by blast
  show ?thesis using assms Ok x c d by (cases y) (auto simp: connect_one_def netsim_lift_def)
qed (use assms in \<open>auto simp: connect_one_def\<close>)

lemma connect_any_Err:
  "connect_any R A print i s g tx rx le as ns r = (Err e, ns', r') \<Longrightarrow> nodes (ns_network ns') = nodes (ns_network ns)"
proof (induction as arbitrary: le ns r)
  case (Cons a as)
  then show ?case
    by (auto simp: connect_one_Err split: res.splits prod.splits dest!: connect_one_Err Cons.IH)
qed auto

text \<open>
  C22: a connection that fails leaks nothing.  When \<open>connect\<close> returns an error, whatever addresses it tried and bound sockets
  for, the nodes with their addresses and bound sockets are exactly as before.
\<close>

theorem tcp_connect_no_leak:
  assumes "tcp_connect R A print i s g tx rx h ns r = (Err e, ns', r')"
  shows "nodes (ns_network ns') = nodes (ns_network ns)"
proof (cases "lookup_host A h ns")
  case (Ok as)
  then show ?thesis using assms connect_any_Err by (simp add: tcp_connect_def)
qed (use assms in \<open>auto simp: tcp_connect_def\<close>)

theorem tcp_connect_no_leak_witness:
  "\<exists>ns' r'. tcp_connect const_rng \<lparr>ap_socket = (\<lambda>_. Some (V4 0, 0)), ap_v4 = (\<lambda>_. None), ap_v6 = (\<lambda>_. None)\<rparr> (\<lambda>_. []) 1 5 0 0 0
       (Addr (V4 2, 81)) ((net_sim_new config_default :: string net_sim)\<lparr>ns_network := two_nodes\<rparr>) 0 = (Err ConnectionRefused, ns', r') \<and>
     nodes (ns_network ns') = nodes two_nodes"
proof -
  let ?A = "\<lparr>ap_socket = (\<lambda>_. Some (V4 0, 0)), ap_v4 = (\<lambda>_. None), ap_v6 = (\<lambda>_. None)\<rparr>"
  let ?ns = "(net_sim_new config_default :: string net_sim)\<lparr>ns_network := two_nodes\<rparr>"
  have "bind 1 (V4 0, 0) Tcp 5 two_nodes = Ok ((V4 0, 1), two_nodes\<lparr>nodes := (nodes two_nodes)(1 \<mapsto>
      (the (nodes two_nodes 1))\<lparr>sockets := [((V4 0, 1), Tcp) \<mapsto> 5]\<rparr>)\<rparr>)"
    by (simp add: bind_def two_nodes_def Let_def find_port.simps)
  then obtain ns' r' where c: "tcp_connect const_rng ?A (\<lambda>_. []) 1 5 0 0 0 (Addr (V4 2, 81)) ?ns 0 = (Err ConnectionRefused, ns', r')"
    by (simp add: tcp_connect_def connect_one_def connect1_def net_sim_new_def via_ipvs_def get_server_def try_send_def
        resolve_dest_node_def two_nodes_def test_link_def link_clogged_def network_new_def config_default_def
        default_send_latency_def const_rng_def find_socket_def netsim_lift_def guard_drop_def close_def Let_def resolve_text_def)
  show ?thesis using tcp_connect_no_leak [OF c] c by simp
qed

subsection \<open>A byte stream over a channel\<close>

text \<open>The reads of a stream over any channel: \<open>P\<close> is a poll of the channel.\<close>

inductive stream_reads :: "('c \<Rightarrow> 'b list option poll \<Rightarrow> 'c \<Rightarrow> bool) \<Rightarrow> 'b list \<Rightarrow> 'c \<Rightarrow> 'b list \<Rightarrow> 'b list \<Rightarrow> 'c \<Rightarrow> bool" for P where
  sr_buffer: "rb \<noteq> [] \<Longrightarrow> stream_reads P rb c (take k rb) (drop k rb) c"
| sr_next: "P c (Ready (Some d)) c' \<Longrightarrow> stream_reads P d c' bs rb c'' \<Longrightarrow> stream_reads P [] c bs rb c''"
| sr_pending: "P c Pending c' \<Longrightarrow> stream_reads P [] c [] [] c'"
| sr_eof: "P c (Ready None) c' \<Longrightarrow> stream_reads P [] c [] [] c'"

datatype 'b stream_event = Wrote "'b list" | Flushed | DidRead "'b list"

fun stream_run :: "('b list \<Rightarrow> 'c \<Rightarrow> 'c \<Rightarrow> bool) \<Rightarrow> ('c \<Rightarrow> 'b list option poll \<Rightarrow> 'c \<Rightarrow> bool) \<Rightarrow> 'b stream_event list
    \<Rightarrow> 'b list \<times> 'c \<times> 'b list \<Rightarrow> 'b list \<times> 'c \<times> 'b list \<Rightarrow> bool" where
  "stream_run S P [] x x' \<longleftrightarrow> x' = x"
| "stream_run S P (Wrote bs # es) (wb, c, rb) x' \<longleftrightarrow> stream_run S P es (wb @ bs, c, rb) x'"
| "stream_run S P (Flushed # es) (wb, c, rb) x' \<longleftrightarrow> (\<exists>c'. S wb c c' \<and> stream_run S P es ([], c', rb) x')"
| "stream_run S P (DidRead bs # es) (wb, c, rb) x' \<longleftrightarrow>
     (\<exists>rb' c'. stream_reads P rb c bs rb' c' \<and> stream_run S P es (wb, c', rb') x')"

fun written :: "'b stream_event list \<Rightarrow> 'b list" where
  "written [] = []"
| "written (Wrote bs # es) = bs @ written es"
| "written (Flushed # es) = written es"
| "written (DidRead bs # es) = written es"

fun bytes_read :: "'b stream_event list \<Rightarrow> 'b list" where
  "bytes_read [] = []"
| "bytes_read (Wrote bs # es) = bytes_read es"
| "bytes_read (Flushed # es) = bytes_read es"
| "bytes_read (DidRead bs # es) = bs @ bytes_read es"

text \<open>Over a FIFO channel the stream delivers the bytes written, in order.\<close>

locale byte_stream = fifo_channel sends receives content
  for sends :: "'b list \<Rightarrow> 'c \<Rightarrow> 'c \<Rightarrow> bool" and receives :: "'c \<Rightarrow> 'b list option poll \<Rightarrow> 'c \<Rightarrow> bool"
    and content :: "'c \<Rightarrow> 'b list list"
begin

lemma reads_content:
  "stream_reads receives rb c bs rb' c' \<Longrightarrow> rb @ concat (content c) = bs @ rb' @ concat (content c')"
proof (induction rule: stream_reads.induct)
  case (sr_buffer rb c k)
  then show ?case by (metis append_assoc append_take_drop_id)
next
  case (sr_next c d c' bs rb c'')
  then show ?case using content_receives_Some by simp
next
  case (sr_pending c c')
  then show ?case using content_receives_Pending by simp
next
  case (sr_eof c c')
  then show ?case using content_receives_None by simp
qed

lemma stream_run_bytes:
  "stream_run sends receives es (wb, c, rb) (wb', c', rb') \<Longrightarrow>
     rb @ concat (content c) @ wb @ written es = bytes_read es @ rb' @ concat (content c') @ wb'"
proof (induction es arbitrary: wb c rb)
  case (Cons e es)
  show ?case
  proof (cases e)
    case (Wrote bs)
    then show ?thesis using Cons by fastforce
  next
    case Flushed
    then obtain d where d: "sends wb c d" "stream_run sends receives es ([], d, rb) (wb', c', rb')"
      using Cons.prems by auto
    then have "content d = content c @ [wb]" using content_sends by blast
    then show ?thesis using Cons.IH [OF d(2)] Flushed by simp
  next
    case (DidRead bs)
    then obtain rb1 d where d: "stream_reads receives rb c bs rb1 d" "stream_run sends receives es (wb, d, rb1) (wb', c', rb')"
      using Cons.prems by auto
    then show ?thesis using Cons.IH [OF d(2)] reads_content [OF d(1)] DidRead by (metis append_assoc written.simps(4) bytes_read.simps(4))
  qed
qed simp

end

interpretation tcp: byte_stream "chan_sends R" "chan_receives R T" in_flight
  by unfold_locales

text \<open>The reads and flushes of the code are those of the abstract stream.\<close>

lemma poll_read_refines:
  "poll_read R T waker room rb c h n r = Ok (x, rb', c', h', n', r') \<Longrightarrow>
     stream_reads (chan_receives R T) rb c (case x of Ready bs \<Rightarrow> bs | Pending \<Rightarrow> []) rb' c'"
proof (induction R T waker room rb c h n r rule: poll_read.induct)
  case (1 R T waker room rb c h n r)
  show ?case
  proof (cases "rb = []")
    case False
    then show ?thesis using "1.prems" sr_buffer [of rb] by (auto simp: poll_read.simps [of R T waker room rb])
  next
    case True
    obtain y c1 h1 n1 r1 where p: "rx_poll R T waker c h n r = (Ok (y, c1, h1, n1, r1) :: (io_error, _) res)"
      using "1.prems" True by (cases "rx_poll R T waker c h n r :: (io_error, _) res")
        (auto simp: poll_read.simps [of R T waker room "[]"])
    then have rc: "chan_receives R T c y c1" unfolding chan_receives_def by blast
    show ?thesis
    proof (cases "\<exists>d. y = Ready (Some d)")
      case True
      then obtain d where d: "y = Ready (Some d)" by blast
      then have "poll_read R T waker room d c1 h1 n1 r1 = Ok (x, rb', c', h', n', r')"
        using "1.prems" \<open>rb = []\<close> p by (simp add: poll_read.simps [of R T waker room "[]"])
      then have "stream_reads (chan_receives R T) d c1 (case x of Ready bs \<Rightarrow> bs | Pending \<Rightarrow> []) rb' c'"
        using \<open>rb = []\<close> by (intro "1.IH" [OF _ p refl d refl refl refl refl]) simp_all
      then show ?thesis unfolding \<open>rb = []\<close> using rc d by (intro sr_next [of "chan_receives R T" c d c1]) simp_all
    next
      case False
      then show ?thesis using "1.prems" \<open>rb = []\<close> p rc sr_pending [of "chan_receives R T"] sr_eof [of "chan_receives R T"]
        by (cases y) (auto simp: poll_read.simps [of R T waker room "[]"] split: option.splits)
    qed
  qed
qed

lemma poll_flush_refines:
  assumes "poll_flush R now wb c n r = Ok (wb', c', n', r')"
  shows "wb' = [] \<and> chan_sends R wb c c'"
proof -
  have "payload_send R now wb c n r = (Ok (Some (), c', n', r') :: (io_error, _) res)" "wb' = []"
    using assms by (auto simp: poll_flush_def split: option.splits)
  then show ?thesis unfolding chan_sends_def by blast
qed



end
