(* ===== verification/Endpoint.thy ===== *)
theory Endpoint
  imports Addr
begin

section \<open>Endpoints (\<open>madsim/src/sim/net/endpoint.rs\<close>) and UDP sockets (\<open>madsim/src/sim/net/udp.rs\<close>)\<close>

text \<open>
  An endpoint is a bound socket with a mailbox for tagged messages, an optional peer, and a queue of incoming connections.
  Receiving is a future; \<open>ep_mail\<close> is the mailbox together with the state of every receive that was begun, numbered as the
  \<open>oneshot\<close> channels of \<open>Mailbox\<close>.  A message is untyped (\<open>Box<dyn Any>\<close>): bytes or a value of another type.
\<close>

datatype 'x payload = Bytes "8 word list" | Boxed 'x

record endpoint =
  ep_node :: node_id
  ep_addr :: socket_addr
  ep_sid :: sid
  ep_peer :: "socket_addr option"

subsection \<open>Opening\<close>

definition endpoint_bind :: "addr_parsers \<Rightarrow> node_id \<Rightarrow> sid \<Rightarrow> host \<Rightarrow> 'p net_sim \<Rightarrow> (io_error, endpoint \<times> 'p net_sim) res" where
  "endpoint_bind A i s h ns =
     bind_res (lookup_host A h ns) (\<lambda>as.
       bind_res (guard_bind i Udp s as None (ns_network ns)) (\<lambda>(a, n).
         Ok (\<lparr>ep_node = i, ep_addr = a, ep_sid = s, ep_peer = None\<rparr>, ns\<lparr>ns_network := n\<rparr>)))"

definition endpoint_connect :: "addr_parsers \<Rightarrow> node_id \<Rightarrow> sid \<Rightarrow> host \<Rightarrow> 'p net_sim \<Rightarrow> (io_error, endpoint \<times> 'p net_sim) res" where
  "endpoint_connect A i s h ns =
     bind_res (lookup_first A h ns) (\<lambda>peer.
       bind_res (endpoint_bind A i s (HostText ''0.0.0.0:0'') ns) (\<lambda>(ep, ns). Ok (ep\<lparr>ep_peer := Some peer\<rparr>, ns)))"

definition local_addr :: "endpoint \<Rightarrow> (io_error, socket_addr) res" where
  "local_addr ep = Ok (ep_addr ep)"

definition peer_addr :: "endpoint \<Rightarrow> (io_error, socket_addr) res" where
  "peer_addr ep = ok_or NotConnected (ep_peer ep)"

text \<open>\<open>Drop\<close> for the last clone of an endpoint.\<close>

definition endpoint_drop :: "bool \<Rightarrow> bool \<Rightarrow> endpoint \<Rightarrow> 'p net_sim \<Rightarrow> ('e, 'p net_sim) res" where
  "endpoint_drop killed locked ep = netsim_lift (guard_drop killed locked (ep_node ep) (ep_addr ep) Udp)"

subsection \<open>Sending\<close>

text \<open>The result of a send (after its delay) is the timer that \<open>net_send\<close> adds.\<close>

definition send_to_raw :: "'r rng_ops \<Rightarrow> addr_parsers \<Rightarrow> (socket_addr \<Rightarrow> string) \<Rightarrow> endpoint \<Rightarrow> socket_addr \<Rightarrow> tag \<Rightarrow> 'd
    \<Rightarrow> (tag \<times> 'd) net_sim \<Rightarrow> 'r \<Rightarrow> (io_error, (duration \<times> (tag \<times> 'd) delivery) option \<times> (tag \<times> 'd) net_sim \<times> 'r) res" where
  "send_to_raw R A print ep dst t d ns r = net_send R (ap_socket A) print (ep_node ep) (snd (ep_addr ep)) dst Udp (t, d) ns r"

definition send_to :: "'r rng_ops \<Rightarrow> addr_parsers \<Rightarrow> (socket_addr \<Rightarrow> string) \<Rightarrow> endpoint \<Rightarrow> host \<Rightarrow> tag \<Rightarrow> 8 word list
    \<Rightarrow> (tag \<times> 'x payload) net_sim \<Rightarrow> 'r
    \<Rightarrow> (io_error, (duration \<times> (tag \<times> 'x payload) delivery) option \<times> (tag \<times> 'x payload) net_sim \<times> 'r) res" where
  "send_to R A print ep h t buf ns r =
     bind_res (lookup_first A h ns) (\<lambda>dst. send_to_raw R A print ep dst t (Bytes buf) ns r)"

definition ep_send :: "'r rng_ops \<Rightarrow> addr_parsers \<Rightarrow> (socket_addr \<Rightarrow> string) \<Rightarrow> endpoint \<Rightarrow> tag \<Rightarrow> 8 word list
    \<Rightarrow> (tag \<times> 'x payload) net_sim \<Rightarrow> 'r
    \<Rightarrow> (io_error, (duration \<times> (tag \<times> 'x payload) delivery) option \<times> (tag \<times> 'x payload) net_sim \<times> 'r) res" where
  "ep_send R A print ep t buf ns r = bind_res (peer_addr ep) (\<lambda>peer. send_to R A print ep (Addr peer) t buf ns r)"

definition send_raw :: "'r rng_ops \<Rightarrow> addr_parsers \<Rightarrow> (socket_addr \<Rightarrow> string) \<Rightarrow> endpoint \<Rightarrow> tag \<Rightarrow> 'd
    \<Rightarrow> (tag \<times> 'd) net_sim \<Rightarrow> 'r \<Rightarrow> (io_error, (duration \<times> (tag \<times> 'd) delivery) option \<times> (tag \<times> 'd) net_sim \<times> 'r) res" where
  "send_raw R A print ep t d ns r = bind_res (peer_addr ep) (\<lambda>peer. send_to_raw R A print ep peer t d ns r)"

subsection \<open>Receiving\<close>

text \<open>
  A receive waits for its channel (\<open>Waiting\<close>), has a message in it (\<open>Filled\<close>), sleeps for the random delay with the
  message in hand (\<open>Delaying\<close>), or is over or dropped (\<open>Gone\<close>).  The future holds its tag.
\<close>

datatype 'd recv_state = Waiting | Filled "'d message" | Delaying "'d message" sleep | Gone

record 'd ep_mail =
  em_box :: "'d mailbox"
  em_recvs :: "(tag \<times> 'd recv_state) list"

definition ep_mail_new :: "'d ep_mail" where
  "ep_mail_new = \<lparr>em_box = mailbox_default, em_recvs = []\<rparr>"

definition em_alive :: "'d ep_mail \<Rightarrow> rx \<Rightarrow> bool" where
  "em_alive e x \<longleftrightarrow> x < length (em_recvs e) \<and> snd (em_recvs e ! x) = Waiting"

definition em_set :: "rx \<Rightarrow> 'd recv_state \<Rightarrow> 'd ep_mail \<Rightarrow> 'd ep_mail" where
  "em_set x st e = e\<lparr>em_recvs := (em_recvs e)[x := (fst (em_recvs e ! x), st)]\<rparr>"

text \<open>\<open>EndpointSocket::deliver\<close>.\<close>

definition em_arrive :: "'d message \<Rightarrow> 'd ep_mail \<Rightarrow> 'd ep_mail" where
  "em_arrive m e =
     (case deliver (em_alive e) m (em_box e) of
        (Some x, b) \<Rightarrow> em_set x (Filled m) (e\<lparr>em_box := b\<rparr>)
      | (None, b) \<Rightarrow> e\<lparr>em_box := b\<rparr>)"

text \<open>\<open>recv_from_raw\<close>: the first poll makes the request, this and the later polls go on as \<open>recv_poll\<close>.\<close>

definition recv_begin :: "tag \<Rightarrow> 'd ep_mail \<Rightarrow> rx \<times> 'd ep_mail" where
  "recv_begin t e =
     (let x = length (em_recvs e); (got, b) = recv t x (em_box e)
      in (x, \<lparr>em_box = b, em_recvs = em_recvs e @ [(t, case got of Some m \<Rightarrow> Filled m | None \<Rightarrow> Waiting)]\<rparr>))"

definition recv_poll :: "'r rng_ops \<Rightarrow> bool \<Rightarrow> ('tm, 'cb) timer_ops \<Rightarrow> 'cb \<Rightarrow> rx \<Rightarrow> 'd ep_mail \<Rightarrow> 'tm time_handle \<Rightarrow> 'r
    \<Rightarrow> (io_error, ('d \<times> socket_addr) poll \<times> 'd ep_mail \<times> 'tm time_handle \<times> 'r) res" where
  "recv_poll R bug T waker x e h r =
     (case snd (em_recvs e ! x) of
        Waiting \<Rightarrow> if x \<in> snd ` set (registered (em_box e)) then Ok (Pending, e, h, r) else Err BrokenPipe
      | Filled m \<Rightarrow>
          let (d, r) = rand_delay R bug r; s = sleep_for d h
          in Ok (Pending, em_set x (Delaying m s) e, snd (sleep_poll T waker s h), r)
      | Delaying m s \<Rightarrow>
          (case sleep_poll T waker s h of
             (Pending, h) \<Rightarrow> Ok (Pending, e, h, r)
           | (Ready _, h) \<Rightarrow> Ok (Ready (msg_data m, msg_from m), em_set x Gone e, h, r))
      | Gone \<Rightarrow> Panic ''async fn resumed after completion'')"

text \<open>A receive that is cancelled.\<close>

definition recv_drop :: "rx \<Rightarrow> 'd ep_mail \<Rightarrow> 'd ep_mail" where
  "recv_drop x e = em_set x Gone e"

text \<open>What the other receiving operations do with the message: \<open>recv_raw\<close> checks the sender, \<open>recv_from\<close> and \<open>recv\<close> fill a buffer
  and return the length.\<close>

definition recv_raw_done :: "endpoint \<Rightarrow> 'd \<times> socket_addr \<Rightarrow> (io_error, 'd) res" where
  "recv_raw_done ep x =
     bind_res (peer_addr ep) (\<lambda>peer.
       if snd x = peer then Ok (fst x) else Panic ''receive a message but not from the connected address'')"

definition recv_from_done :: "8 word list \<Rightarrow> 'x payload \<times> socket_addr \<Rightarrow> (io_error, (nat \<times> socket_addr) \<times> 8 word list) res" where
  "recv_from_done buf x =
     (case fst x of
        Bytes d \<Rightarrow> let len = min (length buf) (length d) in Ok ((len, snd x), take len d @ drop len buf)
      | Boxed _ \<Rightarrow> Panic ''message is not data'')"

definition recv_done :: "endpoint \<Rightarrow> 8 word list \<Rightarrow> 'x payload \<times> socket_addr \<Rightarrow> (io_error, nat \<times> 8 word list) res" where
  "recv_done ep buf x =
     bind_res (peer_addr ep) (\<lambda>peer.
       bind_res (recv_from_done buf x) (\<lambda>((len, from), buf).
         if from = peer then Ok (len, buf) else Panic ''receive a message but not from the connected address''))"

subsection \<open>Connections\<close>

definition ep_connect1 :: "'r rng_ops \<Rightarrow> addr_parsers \<Rightarrow> (socket_addr \<Rightarrow> string) \<Rightarrow> endpoint \<Rightarrow> socket_addr \<Rightarrow> 'q net_sim \<Rightarrow> 'r
    \<Rightarrow> (io_error, 'p chan \<times> 'p chan \<times> sid \<times> socket_addr \<times> socket_addr, 'q net_sim \<times> 'r) outcome" where
  "ep_connect1 R A print ep dst ns r = connect1 R (ap_socket A) print (ep_node ep) (snd (ep_addr ep)) dst Udp ns r"

text \<open>The queue \<open>conn_tx\<close>, \<open>conn_rx\<close> of incoming connections: \<open>EndpointSocket::new_connection\<close>, and \<open>accept1\<close> after its delay,
  which waits while the queue is empty.  (The endpoint itself keeps the queue open.)\<close>

definition ep_new_connection :: "socket_addr \<Rightarrow> 'tx \<Rightarrow> 'rx \<Rightarrow> ('tx \<times> 'rx \<times> socket_addr) list \<Rightarrow> ('tx \<times> 'rx \<times> socket_addr) list" where
  "ep_new_connection src tx rx q = q @ [(tx, rx, src)]"

definition accept1 :: "('tx \<times> 'rx \<times> socket_addr) list \<Rightarrow> ('tx \<times> 'rx \<times> socket_addr) poll \<times> ('tx \<times> 'rx \<times> socket_addr) list" where
  "accept1 q = (case q of [] \<Rightarrow> (Pending, []) | c # q \<Rightarrow> (Ready c, q))"

text \<open>\<open>Sender::send\<close>, \<open>Sender::is_closed\<close>, \<open>Receiver::recv\<close>.\<close>

definition conn_send :: "'r rng_ops \<Rightarrow> instant \<Rightarrow> 'p \<Rightarrow> 'p chan \<Rightarrow> network \<Rightarrow> 'r
    \<Rightarrow> (io_error, unit, 'p chan \<times> network \<times> 'r) outcome" where
  "conn_send R now v c n r =
     (case payload_send R now v c n r of
        Ok (x, s) \<Rightarrow> (ok_or ConnectionReset x, s)
      | Err e \<Rightarrow> (Err e, c, n, r)
      | Panic m \<Rightarrow> (Panic m, c, n, r))"

definition conn_is_closed :: "'p chan \<Rightarrow> bool" where
  "conn_is_closed c \<longleftrightarrow> \<not> ch_rx_open c"

text \<open>The drop of a \<open>Sender\<close> and of a \<open>Receiver\<close>.\<close>

definition chan_shut :: "'p chan \<Rightarrow> 'p chan" where
  "chan_shut c = c\<lparr>ch_tx_open := False\<rparr>"

definition chan_hang :: "'p chan \<Rightarrow> 'p chan" where
  "chan_hang c = c\<lparr>ch_rx_open := False\<rparr>"

definition conn_recv :: "'r rng_ops \<Rightarrow> ('tm, 'cb) timer_ops \<Rightarrow> 'cb \<Rightarrow> 'p chan \<Rightarrow> 'tm time_handle \<Rightarrow> network \<Rightarrow> 'r
    \<Rightarrow> (io_error, (io_error, 'p) res poll \<times> 'p chan \<times> 'tm time_handle \<times> network \<times> 'r) res" where
  "conn_recv R T waker c h n r =
     bind_res (rx_poll R T waker c h n r) (\<lambda>(x, s).
       Ok (case x of Pending \<Rightarrow> Pending | Ready v \<Rightarrow> Ready (ok_or ConnectionReset v), s))"

subsection \<open>UDP sockets\<close>

text \<open>A \<open>UdpSocket\<close> is an endpoint; its datagrams have the tag 0.\<close>

definition udp_bind :: "addr_parsers \<Rightarrow> node_id \<Rightarrow> sid \<Rightarrow> host \<Rightarrow> 'p net_sim \<Rightarrow> (io_error, endpoint \<times> 'p net_sim) res" where
  "udp_bind A i s h ns = endpoint_bind A i s h ns"

definition udp_connect :: "addr_parsers \<Rightarrow> host \<Rightarrow> endpoint \<Rightarrow> 'p net_sim \<Rightarrow> (io_error, endpoint) res" where
  "udp_connect A h ep ns = bind_res (lookup_first A h ns) (\<lambda>a. Ok (ep\<lparr>ep_peer := Some a\<rparr>))"

definition udp_send_to :: "'r rng_ops \<Rightarrow> addr_parsers \<Rightarrow> (socket_addr \<Rightarrow> string) \<Rightarrow> endpoint \<Rightarrow> host \<Rightarrow> 8 word list
    \<Rightarrow> (tag \<times> 'x payload) net_sim \<Rightarrow> 'r
    \<Rightarrow> (io_error, (duration \<times> (tag \<times> 'x payload) delivery) option \<times> (tag \<times> 'x payload) net_sim \<times> 'r) res" where
  "udp_send_to R A print ep h buf = send_to R A print ep h 0 buf"

definition udp_send :: "'r rng_ops \<Rightarrow> addr_parsers \<Rightarrow> (socket_addr \<Rightarrow> string) \<Rightarrow> endpoint \<Rightarrow> 8 word list
    \<Rightarrow> (tag \<times> 'x payload) net_sim \<Rightarrow> 'r
    \<Rightarrow> (io_error, (duration \<times> (tag \<times> 'x payload) delivery) option \<times> (tag \<times> 'x payload) net_sim \<times> 'r) res" where
  "udp_send R A print ep buf = ep_send R A print ep 0 buf"

definition udp_recv_begin :: "'d ep_mail \<Rightarrow> rx \<times> 'd ep_mail" where
  "udp_recv_begin e = recv_begin 0 e"

subsection \<open>The contract of a receiver\<close>

text \<open>
  What users of an endpoint rely on.  \<open>content\<close> are the messages that arrived and were neither handed out nor lost, \<open>tags\<close>
  the tags of the receives begun so far.  A receive gets only a message with its tag, only a cancelled receive loses anything,
  and a poll never fails.
\<close>

datatype 'm recv_event = Came 'm | Began tag | Gave rx 'm | Waited rx | Cancelled rx

fun recv_run :: "('m \<Rightarrow> 's \<Rightarrow> 's) \<Rightarrow> (tag \<Rightarrow> 's \<Rightarrow> rx \<times> 's) \<Rightarrow> (rx \<Rightarrow> 's \<Rightarrow> 'm option \<Rightarrow> 's \<Rightarrow> bool) \<Rightarrow> (rx \<Rightarrow> 's \<Rightarrow> 's)
    \<Rightarrow> 'm recv_event list \<Rightarrow> 's \<Rightarrow> 's \<Rightarrow> bool" where
  "recv_run A B P C [] s s' \<longleftrightarrow> s' = s"
| "recv_run A B P C (Came m # es) s s' \<longleftrightarrow> recv_run A B P C es (A m s) s'"
| "recv_run A B P C (Began t # es) s s' \<longleftrightarrow> recv_run A B P C es (snd (B t s)) s'"
| "recv_run A B P C (Gave x m # es) s s' \<longleftrightarrow> (\<exists>d. P x s (Some m) d \<and> recv_run A B P C es d s')"
| "recv_run A B P C (Waited x # es) s s' \<longleftrightarrow> (\<exists>d. P x s None d \<and> recv_run A B P C es d s')"
| "recv_run A B P C (Cancelled x # es) s s' \<longleftrightarrow> recv_run A B P C es (C x s) s'"

definition came :: "'m recv_event list \<Rightarrow> 'm list" where
  "came es = List.map_filter (\<lambda>e. case e of Came m \<Rightarrow> Some m | _ \<Rightarrow> None) es"

definition gave :: "'m recv_event list \<Rightarrow> (rx \<times> 'm) list" where
  "gave es = List.map_filter (\<lambda>e. case e of Gave x m \<Rightarrow> Some (x, m) | _ \<Rightarrow> None) es"

definition cancelled :: "'m recv_event list \<Rightarrow> bool" where
  "cancelled es \<longleftrightarrow> (\<exists>x. Cancelled x \<in> set es)"

lemma history_simps [simp]:
  "came [] = []" "gave [] = []" "\<not> cancelled []"
  "came (Came m # es) = m # came es" "came (Began t # es) = came es" "came (Gave x m # es) = came es"
  "came (Waited x # es) = came es" "came (Cancelled x # es) = came es"
  "gave (Came m # es) = gave es" "gave (Began t # es) = gave es" "gave (Gave x m # es) = (x, m) # gave es"
  "gave (Waited x # es) = gave es" "gave (Cancelled x # es) = gave es"
  "cancelled (Came m # es) = cancelled es" "cancelled (Began t # es) = cancelled es" "cancelled (Gave x m # es) = cancelled es"
  "cancelled (Waited x # es) = cancelled es" "cancelled (Cancelled x # es)"
  by (auto simp: came_def gave_def cancelled_def map_filter_simps)

locale receiver =
  fixes arrives :: "'m \<Rightarrow> 's \<Rightarrow> 's"
    and begins :: "tag \<Rightarrow> 's \<Rightarrow> rx \<times> 's"
    and polls :: "rx \<Rightarrow> 's \<Rightarrow> 'm option \<Rightarrow> 's \<Rightarrow> bool"
    and cancels :: "rx \<Rightarrow> 's \<Rightarrow> 's"
    and tag_of :: "'m \<Rightarrow> tag"
    and content :: "'s \<Rightarrow> 'm multiset"
    and tags :: "'s \<Rightarrow> tag list"
    and inv :: "'s \<Rightarrow> bool"
  assumes inv_arrives: "inv s \<Longrightarrow> inv (arrives m s)"
    and inv_begins: "inv s \<Longrightarrow> inv (snd (begins t s))"
    and inv_polls: "inv s \<Longrightarrow> polls x s r s' \<Longrightarrow> inv s'"
    and inv_cancels: "inv s \<Longrightarrow> inv (cancels x s)"
    and content_arrives: "inv s \<Longrightarrow> content (arrives m s) = add_mset m (content s)"
    and content_begins: "inv s \<Longrightarrow> content (snd (begins t s)) = content s"
    and content_polls_None: "inv s \<Longrightarrow> polls x s None s' \<Longrightarrow> content s' = content s"
    and content_polls_Some: "inv s \<Longrightarrow> polls x s (Some m) s' \<Longrightarrow>
          content s = add_mset m (content s') \<and> x < length (tags s) \<and> tags s ! x = tag_of m"
    and content_cancels: "inv s \<Longrightarrow> content (cancels x s) \<subseteq># content s"
    and tags_arrives: "tags (arrives m s) = tags s"
    and tags_begins: "fst (begins t s) = length (tags s) \<and> tags (snd (begins t s)) = tags s @ [t]"
    and tags_polls: "polls x s r s' \<Longrightarrow> tags s' = tags s"
    and tags_cancels: "tags (cancels x s) = tags s"
begin

lemma content_polls:
  "inv s \<Longrightarrow> polls x s r s' \<Longrightarrow> content s = (case r of Some m \<Rightarrow> {#m#} | None \<Rightarrow> {#}) + content s'"
  using content_polls_None content_polls_Some by (cases r) auto

lemma content_subset: "inv s \<Longrightarrow> polls x s r s' \<Longrightarrow> content s' \<subseteq># content s"
  using content_polls [of s x r s'] by simp

lemma tags_grow: "recv_run arrives begins polls cancels es s s' \<Longrightarrow> \<exists>ts. tags s' = tags s @ ts"
proof (induction es arbitrary: s)
  case (Cons e es)
  then show ?case
    by (cases e) (auto dest!: Cons.IH tags_polls simp: tags_arrives tags_begins tags_cancels)
qed simp

text \<open>Over any history what came is given out, kept or lost, and every receive is given messages with its tag only.\<close>

lemma run_content:
  "inv s \<Longrightarrow> recv_run arrives begins polls cancels es s s' \<Longrightarrow>
     inv s' \<and> (\<exists>lost. content s + mset (came es) = mset (map snd (gave es)) + content s' + lost \<and> (\<not> cancelled es \<longrightarrow> lost = {#})) \<and>
     (\<forall>(x, m) \<in> set (gave es). x < length (tags s') \<and> tags s' ! x = tag_of m)"
proof (induction es arbitrary: s)
  case (Cons e es)
  show ?case
  proof (cases e)
    case (Came m)
    then show ?thesis using Cons.IH [OF inv_arrives [OF Cons.prems(1), of m]] Cons.prems content_arrives [of s m]
      by (auto simp: ac_simps)
  next
    case (Began t)
    then show ?thesis using Cons.IH [OF inv_begins [OF Cons.prems(1), of t]] Cons.prems content_begins [of s t] by auto
  next
    case (Gave x m)
    then obtain d where d: "polls x s (Some m) d" "recv_run arrives begins polls cancels es d s'" using Cons.prems by auto
    from tags_grow [OF d(2)] tags_polls [OF d(1)] obtain ts where "tags s' = tags s @ ts" by auto
    then show ?thesis using Cons.IH [OF inv_polls [OF Cons.prems(1) d(1)] d(2)] content_polls_Some [OF Cons.prems(1) d(1)] Gave
      by (auto simp: nth_append)
  next
    case (Waited x)
    then obtain d where d: "polls x s None d" "recv_run arrives begins polls cancels es d s'" using Cons.prems by auto
    then show ?thesis using Cons.IH [OF inv_polls [OF Cons.prems(1) d(1)] d(2)] content_polls_None [OF Cons.prems(1) d(1)] Waited
      by auto
  next
    case (Cancelled x)
    obtain l where l: "content s = content (cancels x s) + l"
      using content_cancels [OF Cons.prems(1), of x] by (metis mset_subset_eq_exists_conv)
    from Cons.IH [OF inv_cancels [OF Cons.prems(1), of x]] Cons.prems Cancelled obtain lost where
      "content (cancels x s) + mset (came es) = mset (map snd (gave es)) + content s' + lost"
      "inv s'" "\<forall>(x, m) \<in> set (gave es). x < length (tags s') \<and> tags s' ! x = tag_of m" by auto
    then show ?thesis using l Cancelled by (auto intro!: exI [of _ "lost + l"] simp: ac_simps)
  qed
qed simp

lemmas receiver_rules = inv_arrives inv_begins inv_polls inv_cancels content_arrives content_begins
  tags_arrives tags_begins tags_cancels

end

subsection \<open>Endpoints keep the contract\<close>

primrec held :: "'d recv_state \<Rightarrow> 'd message multiset" where
  "held Waiting = {#}"
| "held (Filled m) = {#m#}"
| "held (Delaying m s) = {#m#}"
| "held Gone = {#}"

definition em_content :: "'d ep_mail \<Rightarrow> 'd message multiset" where
  "em_content e = mset (msgs (em_box e)) + sum_list (map (held \<circ> snd) (em_recvs e))"

definition em_inv :: "'d ep_mail \<Rightarrow> bool" where
  "em_inv e \<longleftrightarrow> mailbox_inv (em_alive e) (em_box e) \<and> distinct (map snd (registered (em_box e))) \<and>
     (\<forall>(t, x) \<in> set (registered (em_box e)). x < length (em_recvs e) \<and> fst (em_recvs e ! x) = t) \<and>
     (\<forall>x. em_alive e x \<longrightarrow> x \<in> snd ` set (registered (em_box e))) \<and>
     (\<forall>x < length (em_recvs e). \<forall>m \<in># held (snd (em_recvs e ! x)). msg_tag m = fst (em_recvs e ! x))"

definition received :: "tag \<Rightarrow> ('d \<times> socket_addr) poll \<Rightarrow> 'd message option" where
  "received t a = (case a of Pending \<Rightarrow> None | Ready (d, from) \<Rightarrow> Some \<lparr>msg_tag = t, msg_data = d, msg_from = from\<rparr>)"

definition em_polls :: "'r rng_ops \<Rightarrow> ('tm, 'cb) timer_ops \<Rightarrow> rx \<Rightarrow> 'd ep_mail \<Rightarrow> 'd message option \<Rightarrow> 'd ep_mail \<Rightarrow> bool" where
  "em_polls R T x e m e' \<longleftrightarrow> x < length (em_recvs e) \<and>
     (\<exists>bug waker h r h' r' a. recv_poll R bug T waker x e h r = Ok (a, e', h', r') \<and> m = received (fst (em_recvs e ! x)) a)"

lemma em_set_simps [simp]:
  "em_box (em_set x st e) = em_box e" "length (em_recvs (em_set x st e)) = length (em_recvs e)"
  "map fst (em_recvs (em_set x st e)) = map fst (em_recvs e)"
  by (simp_all add: em_set_def map_update) (metis length_map list_update_beyond list_update_id linorder_not_less nth_map)

lemma em_set_nth:
  "y < length (em_recvs e) \<Longrightarrow> fst (em_recvs (em_set x st e) ! y) = fst (em_recvs e ! y) \<and>
     snd (em_recvs (em_set x st e) ! y) = (if y = x then st else snd (em_recvs e ! y))"
  by (auto simp: em_set_def nth_list_update)

lemma em_set_alive: "em_alive (em_set x st e) y \<longleftrightarrow> (if y = x \<and> x < length (em_recvs e) then st = Waiting else em_alive e y)"
  by (auto simp: em_alive_def em_set_nth)

lemma sum_list_update:
  "x < length xs \<Longrightarrow> sum_list (map f (xs[x := v])) + f (xs ! x) = sum_list (map f xs) + (f v :: 'b multiset)"
proof (induction xs arbitrary: x)
  case (Cons a xs)
  then show ?case by (cases x) (auto simp: ac_simps)
qed simp

lemma em_set_content:
  assumes "x < length (em_recvs e)"
  shows "em_content (em_set x st e) + held (snd (em_recvs e ! x)) = em_content e + held st"
  using sum_list_update [OF assms, of "held \<circ> snd" "(fst (em_recvs e ! x), st)"]
  by (simp add: em_content_def em_set_def ac_simps)

lemma em_box_simps [simp]:
  "em_alive (e\<lparr>em_box := b\<rparr>) = em_alive e" "em_recvs (e\<lparr>em_box := b\<rparr>) = em_recvs e"
  by (auto simp: em_alive_def)

lemma em_box_content: "em_content (e\<lparr>em_box := b\<rparr>) + mset (msgs (em_box e)) = em_content e + mset (msgs b)"
  by (simp add: em_content_def ac_simps)

text \<open>A change of one receive that does not make it wait keeps the invariant.\<close>

lemma em_set_inv:
  assumes "em_inv e" "st \<noteq> Waiting" "\<And>m. x < length (em_recvs e) \<Longrightarrow> m \<in># held st \<Longrightarrow> msg_tag m = fst (em_recvs e ! x)"
  shows "em_inv (em_set x st e)"
proof -
  have sub: "em_alive (em_set x st e) y \<Longrightarrow> em_alive e y" for y using assms(2) by (auto simp: em_set_alive split: if_splits)
  show ?thesis unfolding em_inv_def
  proof (intro conjI allI impI ballI)
    show "mailbox_inv (em_alive (em_set x st e)) (em_box (em_set x st e))"
      using assms(1) mailbox_inv_dying [of "em_alive e" "em_box e"] sub by (simp add: em_inv_def)
  next
    fix y m assume y: "y < length (em_recvs (em_set x st e))" "m \<in># held (snd (em_recvs (em_set x st e) ! y))"
    then show "msg_tag m = fst (em_recvs (em_set x st e) ! y)"
      using assms em_set_nth [of y e x st] by (cases "y = x") (auto simp: em_inv_def)
  qed (use assms(1) sub em_set_nth [of _ e x st] in \<open>auto simp: em_inv_def\<close>)
qed

text \<open>A delivery takes dead requests out of the mailbox, and one live request when it finds one.\<close>

lemma deliver_split:
  assumes "em_inv e" "deliver (em_alive e) m (em_box e) = (g, b)"
  obtains dead where "distinct (map snd ((case g of Some x \<Rightarrow> [(msg_tag m, x)] | None \<Rightarrow> []) @ dead @ registered b))"
    "set (registered (em_box e)) = set ((case g of Some x \<Rightarrow> [(msg_tag m, x)] | None \<Rightarrow> []) @ dead @ registered b)"
    "\<forall>(t, x) \<in> set dead. \<not> em_alive e x"
    "g = Some x \<Longrightarrow> em_alive e x" "mailbox_inv (em_alive e) b"
    "msgs b = (case g of Some x \<Rightarrow> msgs (em_box e) | None \<Rightarrow> msgs (em_box e) @ [m])"
proof -
  obtain r where d: "deliver_loop (em_alive e) (msg_tag m) 0 (registered (em_box e)) = (r, registered b)" "r = g"
    using assms(2) by (auto simp: deliver_def split: prod.splits option.splits)
  obtain D where dead: "set_mset D \<subseteq> {(msg_tag m, x) | x. \<not> em_alive e x}"
    "mset (registered (em_box e)) = (case g of None \<Rightarrow> {#} | Some x \<Rightarrow> {#(msg_tag m, x)#}) + D + mset (registered b)"
    using deliver_loop_spec [OF d(1)] d(2) by auto
  obtain dead where D: "mset dead = D" using ex_mset by blast
  let ?l = "(case g of Some x \<Rightarrow> [(msg_tag m, x)] | None \<Rightarrow> []) @ dead @ registered b"
  have ms: "mset (registered (em_box e)) = mset ?l" using dead(2) D by (cases g) simp_all
  then have "mset (map snd (registered (em_box e))) = mset (map snd ?l)" by (simp only: mset_map)
  from mset_eq_imp_distinct_iff [OF this] have 1: "distinct (map snd ?l)" using assms(1) unfolding em_inv_def by blast
  have 2: "set (registered (em_box e)) = set ?l" using ms by (rule mset_eq_setD)
  have 3: "\<forall>(t, x) \<in> set dead. \<not> em_alive e x" using dead(1) D by auto
  have 4: "em_alive e x" if "g = Some x" for x using deliver_registered(3) [OF assms(2) that] by simp
  have 5: "mailbox_inv (em_alive e) b" using assms deliver_inv by (auto simp: em_inv_def)
  have 6: "msgs b = (case g of Some x \<Rightarrow> msgs (em_box e) | None \<Rightarrow> msgs (em_box e) @ [m])"
    using deliver_registered(2,3) [OF assms(2)] by (cases g) auto
  show thesis by (rule that [OF 1 2 3 4 5 6])
qed

lemma em_arrive_spec:
  assumes "em_inv e"
  shows "em_inv (em_arrive m e)" "em_content (em_arrive m e) = add_mset m (em_content e)"
proof -
  obtain g b where d: "deliver (em_alive e) m (em_box e) = (g, b)" by (cases "deliver (em_alive e) m (em_box e)")
  from deliver_split [OF assms d] obtain dead where
    dead: "distinct (map snd ((case g of Some x \<Rightarrow> [(msg_tag m, x)] | None \<Rightarrow> []) @ dead @ registered b))"
    "set (registered (em_box e)) = set ((case g of Some x \<Rightarrow> [(msg_tag m, x)] | None \<Rightarrow> []) @ dead @ registered b)"
    "\<forall>(t, x) \<in> set dead. \<not> em_alive e x" and al: "\<And>x. g = Some x \<Longrightarrow> em_alive e x" and mi: "mailbox_inv (em_alive e) b"
    and ms: "msgs b = (case g of Some x \<Rightarrow> msgs (em_box e) | None \<Rightarrow> msgs (em_box e) @ [m])" by metis
  let ?e = "e\<lparr>em_box := b\<rparr>"
  have wait: "x \<in> snd ` set (registered b)" if "em_alive e x" "g \<noteq> Some x" for x
  proof -
    obtain p where "p \<in> set (registered (em_box e))" "snd p = x" using assms \<open>em_alive e x\<close> unfolding em_inv_def by blast
    then have "p \<in> set (registered b)" using that dead(2,3) by (cases g) auto
    then show ?thesis using \<open>snd p = x\<close> by blast
  qed
  show "em_inv (em_arrive m e)"
  proof (cases g)
    case None
    then have "em_inv ?e" using assms dead(1,2) mi wait by (auto simp: em_inv_def)
    then show ?thesis using d None by (simp add: em_arrive_def)
  next
    case (Some x)
    have alx: "em_alive e x" and xt: "fst (em_recvs e ! x) = msg_tag m" "x < length (em_recvs e)"
      using al [OF Some] assms dead(2) Some by (auto simp: em_inv_def em_alive_def)
    have al': "em_alive (em_set x (Filled m) ?e) y \<longleftrightarrow> em_alive e y \<and> y \<noteq> x" for y
      using xt(2) by (auto simp: em_set_alive)
    have "em_inv (em_set x (Filled m) ?e)"
      unfolding em_inv_def
    proof (intro conjI allI impI ballI)
      show "mailbox_inv (em_alive (em_set x (Filled m) ?e)) (em_box (em_set x (Filled m) ?e))"
        using mailbox_inv_dying [OF mi, of "em_alive (em_set x (Filled m) ?e)"] al' by simp
    next
      fix y n assume y: "y < length (em_recvs (em_set x (Filled m) ?e))" "n \<in># held (snd (em_recvs (em_set x (Filled m) ?e) ! y))"
      then show "msg_tag n = fst (em_recvs (em_set x (Filled m) ?e) ! y)"
        using assms em_set_nth [of y ?e x "Filled m"] xt by (cases "y = x") (auto simp: em_inv_def)
    next
      fix p assume "p \<in> set (registered (em_box (em_set x (Filled m) ?e)))"
      then have p: "p \<in> set (registered (em_box e))" using dead(2) by auto
      then have "snd p < length (em_recvs e)" "fst (em_recvs e ! snd p) = fst p" using assms by (auto simp: em_inv_def)
      then show "case p of (t, y) \<Rightarrow> y < length (em_recvs (em_set x (Filled m) ?e)) \<and> fst (em_recvs (em_set x (Filled m) ?e) ! y) = t"
        using em_set_nth [of "snd p" ?e x "Filled m"] by (auto simp: case_prod_beta)
    qed (use dead(1) wait Some al' in auto)
    then show ?thesis using d Some by (simp add: em_arrive_def)
  qed
  show "em_content (em_arrive m e) = add_mset m (em_content e)"
  proof (cases g)
    case None
    then show ?thesis using d ms by (simp add: em_arrive_def em_content_def)
  next
    case (Some x)
    then have "x < length (em_recvs ?e)" "snd (em_recvs ?e ! x) = Waiting" using al by (auto simp: em_alive_def)
    then show ?thesis using d Some ms em_set_content [of x ?e "Filled m"] by (simp add: em_arrive_def) (simp add: em_content_def)
  qed
qed

lemma em_arrive_tags [simp]: "map fst (em_recvs (em_arrive m e)) = map fst (em_recvs e)"
  by (simp add: em_arrive_def split: prod.split option.split)

lemma recv_begin_spec:
  assumes "em_inv e"
  shows "em_inv (snd (recv_begin t e))" "em_content (snd (recv_begin t e)) = em_content e"
    "fst (recv_begin t e) = length (em_recvs e)" "map fst (em_recvs (snd (recv_begin t e))) = map fst (em_recvs e) @ [t]"
proof -
  let ?x = "length (em_recvs e)"
  obtain g b where r: "recv t ?x (em_box e) = (g, b)" by (cases "recv t ?x (em_box e)")
  have al: "em_alive \<lparr>em_box = b, em_recvs = em_recvs e @ [(t, st)]\<rparr> y \<longleftrightarrow> em_alive e y \<or> y = ?x \<and> st = Waiting" for y st
    by (auto simp: em_alive_def nth_append)
  have snoc: "length (em_recvs \<lparr>em_box = b, em_recvs = em_recvs e @ [(t, st)]\<rparr>) = Suc ?x" for st by simp
  have x: "?x \<notin> snd ` set (registered (em_box e))" using assms by (auto simp: em_inv_def)
  have "em_inv (snd (recv_begin t e)) \<and> em_content (snd (recv_begin t e)) = em_content e"
  proof (cases "position (\<lambda>m. t = msg_tag m) (msgs (em_box e))")
    case None
    then have b: "g = None" "b = (em_box e)\<lparr>registered := registered (em_box e) @ [(t, ?x)]\<rparr>" using r by (auto simp: recv_def)
    let ?e = "\<lparr>em_box = b, em_recvs = em_recvs e @ [(t, Waiting)]\<rparr>"
    have "mailbox_inv (em_alive ?e) b"
    proof -
      have "\<forall>m \<in> set (msgs (em_box e)). msg_tag m \<noteq> t" using None by (auto simp: position_None_iff)
      moreover have "\<not> em_alive e ?x" by (simp add: em_alive_def)
      ultimately show ?thesis using assms x b al [of Waiting] by (auto simp: em_inv_def mailbox_inv_def image_iff)
    qed
    then have "em_inv ?e" using assms x b al [of Waiting] by (auto simp: em_inv_def nth_append)
    then show ?thesis using r b by (simp add: recv_begin_def em_content_def Let_def)
  next
    case (Some i)
    then have i: "i < length (msgs (em_box e))" "msg_tag (msgs (em_box e) ! i) = t" using position_Some by auto
    let ?m = "msgs (em_box e) ! i"
    have b: "g = Some ?m" "b = (em_box e)\<lparr>msgs := swap_remove i (msgs (em_box e))\<rparr>" using r Some by (auto simp: recv_def)
    let ?e = "\<lparr>em_box = b, em_recvs = em_recvs e @ [(t, Filled ?m)]\<rparr>"
    have "mailbox_inv (em_alive ?e) b"
      using recv_inv [OF _ r, of "em_alive e"] assms mailbox_inv_dying [of "em_alive e" b "em_alive ?e"] al [of "Filled ?m"]
      by (simp add: em_inv_def)
    then have "em_inv ?e" using assms b al [of "Filled ?m"] i(2) by (auto simp: em_inv_def nth_append less_Suc_eq)
    then show ?thesis using r b mset_swap_remove [OF i(1)] by (simp add: recv_begin_def em_content_def Let_def)
  qed
  then show "em_inv (snd (recv_begin t e))" "em_content (snd (recv_begin t e)) = em_content e" by auto
  show "fst (recv_begin t e) = ?x" "map fst (em_recvs (snd (recv_begin t e))) = map fst (em_recvs e) @ [t]"
    using r by (simp_all add: recv_begin_def Let_def)
qed

lemma em_waiting_registered: "em_inv e \<Longrightarrow> em_alive e x \<Longrightarrow> x \<in> snd ` set (registered (em_box e))"
  by (simp add: em_inv_def)

lemma recv_poll_cases:
  assumes "x < length (em_recvs e)" "recv_poll R bug T waker x e h r = (Ok (a, e', h', r'))"
  obtains (waiting) "a = Pending" "e' = e"
  | (delay) m s where "snd (em_recvs e ! x) = Filled m" "a = Pending" "e' = em_set x (Delaying m s) e"
  | (give) m s where "snd (em_recvs e ! x) = Delaying m s" "a = Ready (msg_data m, msg_from m)" "e' = em_set x Gone e"
  using assms(2)
  by (auto simp: recv_poll_def Let_def case_prod_beta split: recv_state.splits if_splits poll.splits prod.splits)

lemma em_polls_spec:
  assumes "em_inv e" "em_polls R T x e m e'"
  shows "em_inv e'" "em_content e = (case m of Some m \<Rightarrow> {#m#} | None \<Rightarrow> {#}) + em_content e'"
    "x < length (em_recvs e)" "m = Some n \<Longrightarrow> fst (em_recvs e ! x) = msg_tag n"
proof -
  obtain bug waker h r h' r' a where p: "recv_poll R bug T waker x e h r = Ok (a, e', h', r')"
    "m = received (fst (em_recvs e ! x)) a" "x < length (em_recvs e)"
    using assms(2) by (auto simp: em_polls_def)
  have tag: "msg_tag m = fst (em_recvs e ! x)" if "m \<in># held (snd (em_recvs e ! x))" for m
    using assms(1) p(3) that by (auto simp: em_inv_def)
  show "x < length (em_recvs e)" by (rule p(3))
  show "m = Some n \<Longrightarrow> fst (em_recvs e ! x) = msg_tag n" using p(2) by (auto simp: received_def split: poll.splits prod.splits)
  show "em_inv e'" using p(3,1)
  proof (cases rule: recv_poll_cases)
    case (delay m s)
    then show ?thesis using tag by (auto intro!: em_set_inv [OF assms(1)])
  qed (auto intro!: em_set_inv assms(1))
  show "em_content e = (case m of Some m \<Rightarrow> {#m#} | None \<Rightarrow> {#}) + em_content e'" using p(3,1)
  proof (cases rule: recv_poll_cases)
    case waiting
    then show ?thesis using p(2) by (simp add: received_def)
  next
    case (delay n s)
    then show ?thesis using p(2) em_set_content [OF p(3), of "Delaying n s"] by (simp add: received_def)
  next
    case (give n s)
    then have "m = Some n" using p(2) tag [of n] by (simp add: received_def)
    then show ?thesis using give em_set_content [OF p(3), of Gone] by simp
  qed
qed

lemma em_polls_tags: "em_polls R T x e m e' \<Longrightarrow> map fst (em_recvs e') = map fst (em_recvs e)"
  by (auto simp: em_polls_def elim!: recv_poll_cases)

lemma recv_drop_spec:
  assumes "em_inv e"
  shows "em_inv (recv_drop x e)" "em_content (recv_drop x e) \<subseteq># em_content e"
proof -
  show "em_inv (recv_drop x e)" unfolding recv_drop_def by (rule em_set_inv [OF assms]) simp_all
  show "em_content (recv_drop x e) \<subseteq># em_content e"
  proof (cases "x < length (em_recvs e)")
    case True
    then show ?thesis using em_set_content [OF True, of Gone] unfolding recv_drop_def by (metis mset_subset_eq_add_left add.right_neutral held.simps(4))
  next
    case False
    then show ?thesis by (simp add: recv_drop_def em_set_def em_content_def not_less list_update_beyond)
  qed
qed

lemma recv_drop_tags [simp]: "map fst (em_recvs (recv_drop x e)) = map fst (em_recvs e)"
  by (simp add: recv_drop_def)

interpretation ep: receiver em_arrive recv_begin "em_polls R T" recv_drop msg_tag em_content "\<lambda>e. map fst (em_recvs e)" em_inv
proof (unfold_locales, goal_cases)
  case (11 t s)
  show ?case by (cases "recv t (length (em_recvs s)) (em_box s)") (simp add: recv_begin_def Let_def)
next
  case (8 s x m s')
  then show ?case using em_polls_spec [OF 8] by simp
next
  case (12 x s r s')
  then show ?case by (rule em_polls_tags)
qed (auto simp: em_arrive_spec recv_begin_spec recv_drop_spec em_polls_spec dest: em_polls_spec)



end
