(* ===== verification/Rpc.thy ===== *)
theory Rpc
  imports Endpoint
begin

section \<open>Remote procedure calls (\<open>madsim/src/sim/net/rpc.rs\<close>)\<close>

text \<open>
  A call sends its request under the tag of the request's type, together with a random tag under which it waits for the response; a
  handler is a loop that receives requests and answers each in a task of its own.  \<open>'q\<close> and \<open>'a\<close> are the requests and the responses of
  all types; a message of another kind than expected is the failure of a \<open>downcast\<close>.
\<close>

type_synonym data = "8 word list"

datatype ('q, 'a) rpc_msg = RpcReq tag 'q data | RpcRsp 'a data

type_synonym ('q, 'a) rpc_payload = "('q, 'a) rpc_msg payload"

text \<open>\<open>hash_str\<close> gives the \<open>ID\<close> of a request type from its name, in wrapping arithmetic.\<close>

definition hash_str :: "8 word list \<Rightarrow> 64 word" where
  "hash_str s = foldl (\<lambda>h c. h * 33 + ucast c) 0 s"

subsection \<open>Calls and handlers\<close>

text \<open>\<open>call_with_data\<close>: what is sent under the tag \<open>R::ID\<close>, and what is done with the message received under the response tag.\<close>

definition call_request :: "tag \<Rightarrow> 'q \<Rightarrow> data \<Rightarrow> ('q, 'a) rpc_payload" where
  "call_request rsp_tag q d = Boxed (RpcReq rsp_tag q d)"

definition call_answer :: "socket_addr \<Rightarrow> ('q, 'a) rpc_payload \<times> socket_addr \<Rightarrow> (io_error, 'a \<times> data) res" where
  "call_answer dst x =
     (if snd x \<noteq> dst then Panic ''assertion failed: from == dst''
      else case fst x of
             Boxed (RpcRsp a d) \<Rightarrow> Ok (a, d)
           | _ \<Rightarrow> Panic ''message type mismatch'')"

text \<open>\<open>call\<close> sends no data and drops the data of the answer; \<open>call_timeout\<close> gives \<open>TimedOut\<close> when the time is over first.\<close>

definition call_result :: "(io_error, 'a \<times> data) res \<Rightarrow> (io_error, 'a) res" where
  "call_result x = bind_res x (\<lambda>(a, d). Ok a)"

definition call_timeout_result :: "(io_error, 'a \<times> data) res option \<Rightarrow> (io_error, 'a) res" where
  "call_timeout_result x = (case x of Some y \<Rightarrow> call_result y | None \<Rightarrow> Err TimedOut)"

text \<open>\<open>add_rpc_handler_with_data\<close>: a received request, and the response, which goes to the sender under the response tag.\<close>

definition handler_request :: "('q, 'a) rpc_payload \<Rightarrow> (io_error, tag \<times> 'q \<times> data) res" where
  "handler_request x = (case x of Boxed (RpcReq t q d) \<Rightarrow> Ok (t, q, d) | _ \<Rightarrow> Panic ''message type mismatch'')"

definition handler_response :: "'a \<times> data \<Rightarrow> ('q, 'a) rpc_payload" where
  "handler_response x = Boxed (RpcRsp (fst x) (snd x))"

subsection \<open>A system of endpoints\<close>

text \<open>
  The endpoints of a cluster, by their addresses, with the datagrams on the way.  As \<open>NetSim\<close> does, the network hands a datagram
  at most once to the endpoint at its destination, with the address of the sender; it may delay, reorder and lose datagrams.  The user's
  functions give any response.  \<open>runs\<close> lists the handlers that were run with what they answered, \<open>broken\<close> tells whether a task
  panicked on a received message.
\<close>

record ('q, 'a) call_state =
  c_client :: socket_addr
  c_dst :: socket_addr
  c_id :: tag
  c_tag :: tag
  c_req :: 'q
  c_data :: data
  c_rx :: rx
  c_out :: "(io_error, 'a \<times> data) res option"

record 'q rpc_job =
  j_server :: socket_addr
  j_from :: socket_addr
  j_id :: tag
  j_tag :: tag
  j_req :: 'q
  j_data :: data

record ('q, 'a) rpc_sys =
  mail :: "socket_addr \<Rightarrow> ('q, 'a) rpc_payload ep_mail"
  flight :: "(socket_addr \<times> ('q, 'a) rpc_payload message) list"
  calls :: "('q, 'a) call_state list"
  loops :: "(socket_addr \<times> tag \<times> rx) list"
  jobs :: "'q rpc_job list"
  runs :: "('q rpc_job \<times> 'a \<times> data) list"
  broken :: bool

definition rpc_start :: "('q, 'a) rpc_sys" where
  "rpc_start = \<lparr>mail = (\<lambda>_. ep_mail_new), flight = [], calls = [], loops = [], jobs = [], runs = [], broken = False\<rparr>"

definition post :: "socket_addr \<Rightarrow> ('q, 'a) rpc_payload message \<Rightarrow> ('q, 'a) rpc_sys \<Rightarrow> ('q, 'a) rpc_sys" where
  "post dst m s = s\<lparr>flight := flight s @ [(dst, m)]\<rparr>"

text \<open>\<open>call_with_data\<close> up to its wait for the response.\<close>

definition rpc_call :: "socket_addr \<Rightarrow> socket_addr \<Rightarrow> tag \<Rightarrow> tag \<Rightarrow> 'q \<Rightarrow> data \<Rightarrow> ('q, 'a) rpc_sys \<Rightarrow> ('q, 'a) rpc_sys" where
  "rpc_call c dst rid t q d s =
     (let (x, e) = recv_begin t (mail s c)
      in post dst \<lparr>msg_tag = rid, msg_data = call_request t q d, msg_from = c\<rparr>
           (s\<lparr>mail := (mail s)(c := e),
              calls := calls s @ [\<lparr>c_client = c, c_dst = dst, c_id = rid, c_tag = t, c_req = q, c_data = d, c_rx = x, c_out = None\<rparr>]\<rparr>))"

text \<open>A poll of the call \<open>k\<close> that received \<open>m\<close>.\<close>

definition rpc_return :: "nat \<Rightarrow> ('q, 'a) rpc_payload message option \<Rightarrow> ('q, 'a) rpc_payload ep_mail \<Rightarrow> ('q, 'a) rpc_sys \<Rightarrow> ('q, 'a) rpc_sys" where
  "rpc_return k m e s =
     (let c = calls s ! k; s = s\<lparr>mail := (mail s)(c_client c := e)\<rparr> in
      case m of
        None \<Rightarrow> s
      | Some m \<Rightarrow>
          let r = call_answer (c_dst c) (msg_data m, msg_from m)
          in s\<lparr>calls := (calls s)[k := c\<lparr>c_out := Some r\<rparr>], broken := broken s \<or> is_panic r\<rparr>)"

definition rpc_cancel :: "nat \<Rightarrow> ('q, 'a) rpc_sys \<Rightarrow> ('q, 'a) rpc_sys" where
  "rpc_cancel k s = (let c = calls s ! k in s\<lparr>mail := (mail s)(c_client c := recv_drop (c_rx c) (mail s (c_client c)))\<rparr>)"

text \<open>\<open>add_rpc_handler\<close>, and a poll of the handler loop \<open>l\<close> that received \<open>m\<close>: it starts a task and receives again.\<close>

definition rpc_serve :: "socket_addr \<Rightarrow> tag \<Rightarrow> ('q, 'a) rpc_sys \<Rightarrow> ('q, 'a) rpc_sys" where
  "rpc_serve a rid s =
     (let (x, e) = recv_begin rid (mail s a) in s\<lparr>mail := (mail s)(a := e), loops := loops s @ [(a, rid, x)]\<rparr>)"

definition rpc_accept :: "nat \<Rightarrow> ('q, 'a) rpc_payload message option \<Rightarrow> ('q, 'a) rpc_payload ep_mail \<Rightarrow> ('q, 'a) rpc_sys \<Rightarrow> ('q, 'a) rpc_sys" where
  "rpc_accept l m e s =
     (let (a, rid, x) = loops s ! l in
      case m of
        None \<Rightarrow> s\<lparr>mail := (mail s)(a := e)\<rparr>
      | Some m \<Rightarrow>
          (case handler_request (msg_data m) of
             Ok (t, q, d) \<Rightarrow>
               let (y, e) = recv_begin rid e
               in s\<lparr>mail := (mail s)(a := e), loops := (loops s)[l := (a, rid, y)],
                    jobs := jobs s @ [\<lparr>j_server = a, j_from = msg_from m, j_id = rid, j_tag = t, j_req = q, j_data = d\<rparr>]\<rparr>
           | _ \<Rightarrow> s\<lparr>mail := (mail s)(a := e), broken := True\<rparr>))"

text \<open>The task of a request: the user's function has answered.\<close>

definition rpc_respond :: "nat \<Rightarrow> 'a \<times> data \<Rightarrow> ('q, 'a) rpc_sys \<Rightarrow> ('q, 'a) rpc_sys" where
  "rpc_respond k x s =
     (let j = jobs s ! k
      in post (j_from j) \<lparr>msg_tag = j_tag j, msg_data = handler_response x, msg_from = j_server j\<rparr>
           (s\<lparr>jobs := take k (jobs s) @ drop (Suc k) (jobs s), runs := runs s @ [(j, x)]\<rparr>))"

definition net_deliver :: "nat \<Rightarrow> ('q, 'a) rpc_sys \<Rightarrow> ('q, 'a) rpc_sys" where
  "net_deliver k s =
     (let (dst, m) = flight s ! k
      in s\<lparr>mail := (mail s)(dst := em_arrive m (mail s dst)), flight := take k (flight s) @ drop (Suc k) (flight s)\<rparr>)"

definition net_lose :: "nat \<Rightarrow> ('q, 'a) rpc_sys \<Rightarrow> ('q, 'a) rpc_sys" where
  "net_lose k s = s\<lparr>flight := take k (flight s) @ drop (Suc k) (flight s)\<rparr>"

inductive rpc_step :: "'r rng_ops \<Rightarrow> ('tm, 'cb) timer_ops \<Rightarrow> ('q, 'a) rpc_sys \<Rightarrow> ('q, 'a) rpc_sys \<Rightarrow> bool" for R T where
  step_call: "rpc_step R T s (rpc_call c dst rid t q d s)"
| step_return: "k < length (calls s) \<Longrightarrow> c_out (calls s ! k) = None \<Longrightarrow>
    em_polls R T (c_rx (calls s ! k)) (mail s (c_client (calls s ! k))) m e \<Longrightarrow> rpc_step R T s (rpc_return k m e s)"
| step_cancel: "k < length (calls s) \<Longrightarrow> rpc_step R T s (rpc_cancel k s)"
| step_serve: "rpc_step R T s (rpc_serve a rid s)"
| step_accept: "l < length (loops s) \<Longrightarrow> loops s ! l = (a, rid, x) \<Longrightarrow> em_polls R T x (mail s a) m e \<Longrightarrow>
    rpc_step R T s (rpc_accept l m e s)"
| step_respond: "k < length (jobs s) \<Longrightarrow> rpc_step R T s (rpc_respond k x s)"
| step_deliver: "k < length (flight s) \<Longrightarrow> rpc_step R T s (net_deliver k s)"
| step_lose: "k < length (flight s) \<Longrightarrow> rpc_step R T s (net_lose k s)"

inductive rpc_reachable :: "'r rng_ops \<Rightarrow> ('tm, 'cb) timer_ops \<Rightarrow> ('q, 'a) rpc_sys \<Rightarrow> bool" for R T where
  rpc_init: "rpc_reachable R T rpc_start"
| rpc_next: "rpc_reachable R T s \<Longrightarrow> rpc_step R T s s' \<Longrightarrow> rpc_reachable R T s'"

subsection \<open>The invariant\<close>

text \<open>The job a call asks for; the messages bound for an endpoint (on the way or in its mailbox).\<close>

definition job_of :: "('q, 'a) call_state \<Rightarrow> 'q rpc_job" where
  "job_of c = \<lparr>j_server = c_dst c, j_from = c_client c, j_id = c_id c, j_tag = c_tag c, j_req = c_req c, j_data = c_data c\<rparr>"

definition asked :: "('q, 'a) rpc_sys \<Rightarrow> 'q rpc_job list" where
  "asked s = map job_of (calls s)"

definition bound_for :: "('q, 'a) rpc_sys \<Rightarrow> socket_addr \<Rightarrow> ('q, 'a) rpc_payload message multiset" where
  "bound_for s a = em_content (mail s a) + image_mset snd (filter_mset (\<lambda>p. fst p = a) (mset (flight s)))"

text \<open>The random tags are new and are no request type's.\<close>

definition rpc_fresh :: "('q, 'a) rpc_sys \<Rightarrow> bool" where
  "rpc_fresh s \<longleftrightarrow> distinct (map j_tag (asked s)) \<and> (\<forall>j \<in> set (asked s). \<forall>i \<in> set (asked s). j_tag j \<noteq> j_id i) \<and>
     (\<forall>j \<in> set (asked s). \<forall>(a, rid, x) \<in> set (loops s). j_tag j \<noteq> rid)"

definition msg_ok :: "'q rpc_job set \<Rightarrow> ('q rpc_job \<times> 'a \<times> data) set \<Rightarrow> socket_addr \<Rightarrow> ('q, 'a) rpc_payload message \<Rightarrow> bool" where
  "msg_ok J D a m \<longleftrightarrow>
     (case msg_data m of
        Bytes _ \<Rightarrow> False
      | Boxed (RpcReq t q d) \<Rightarrow> \<lparr>j_server = a, j_from = msg_from m, j_id = msg_tag m, j_tag = t, j_req = q, j_data = d\<rparr> \<in> J
      | Boxed (RpcRsp x d) \<Rightarrow> \<exists>j. (j, x, d) \<in> D \<and> j_tag j = msg_tag m \<and> j_from j = a \<and> j_server j = msg_from m)"

definition is_req :: "tag \<Rightarrow> ('q, 'a) rpc_payload message \<Rightarrow> bool" where
  "is_req t m \<longleftrightarrow> (\<exists>q d. msg_data m = Boxed (RpcReq t q d))"

text \<open>How often the request of a call exists: on its way, with its handler, or handled.\<close>

definition copies :: "('q, 'a) rpc_sys \<Rightarrow> socket_addr \<Rightarrow> tag \<Rightarrow> nat" where
  "copies s a t = size (filter_mset (is_req t) (bound_for s a)) + length (filter (\<lambda>j. j_tag j = t) (jobs s)) +
     length (filter (\<lambda>x. j_tag (fst x) = t) (runs s))"

definition rx_tags :: "('q, 'a) rpc_sys \<Rightarrow> socket_addr \<Rightarrow> tag list" where
  "rx_tags s a = map fst (em_recvs (mail s a))"

definition waits :: "('q, 'a) rpc_sys \<Rightarrow> socket_addr \<Rightarrow> rx \<Rightarrow> tag \<Rightarrow> bool" where
  "waits s a x t \<longleftrightarrow> x < length (rx_tags s a) \<and> rx_tags s a ! x = t"

definition rpc_inv :: "('q, 'a) rpc_sys \<Rightarrow> bool" where
  "rpc_inv s \<longleftrightarrow> (\<forall>a. em_inv (mail s a)) \<and>
     (\<forall>a. \<forall>m \<in># bound_for s a. msg_ok (set (asked s)) (set (runs s)) a m) \<and>
     set (jobs s) \<union> fst ` set (runs s) \<subseteq> set (asked s) \<and>
     (\<forall>c \<in> set (calls s). \<forall>r. c_out c = Some r \<longrightarrow> (\<exists>x. r = Ok x \<and> (job_of c, x) \<in> set (runs s))) \<and>
     (\<forall>c \<in> set (calls s). waits s (c_client c) (c_rx c) (c_tag c)) \<and>
     (\<forall>(a, rid, x) \<in> set (loops s). waits s a x rid) \<and>
     (\<forall>j \<in> set (asked s). copies s (j_server j) (j_tag j) \<le> 1) \<and> \<not> broken s"

lemma rpc_invD:
  assumes "rpc_inv s"
  shows "em_inv (mail s a)" "m \<in># bound_for s a \<Longrightarrow> msg_ok (set (asked s)) (set (runs s)) a m"
    "j \<in> set (jobs s) \<Longrightarrow> j \<in> set (asked s)" "y \<in> set (runs s) \<Longrightarrow> fst y \<in> set (asked s)"
    "c \<in> set (calls s) \<Longrightarrow> c_out c = Some r \<Longrightarrow> \<exists>x. r = Ok x \<and> (job_of c, x) \<in> set (runs s)"
    "c \<in> set (calls s) \<Longrightarrow> waits s (c_client c) (c_rx c) (c_tag c)"
    "(b, rid, x) \<in> set (loops s) \<Longrightarrow> waits s b x rid"
    "j \<in> set (asked s) \<Longrightarrow> copies s (j_server j) (j_tag j) \<le> 1" "\<not> broken s"
  using assms unfolding rpc_inv_def by (blast, blast, fast, fast, blast, blast, fast, blast, blast)

lemma rpc_invI:
  assumes "\<And>a. em_inv (mail s a)" "\<And>a m. m \<in># bound_for s a \<Longrightarrow> msg_ok (set (asked s)) (set (runs s)) a m"
    "\<And>j. j \<in> set (jobs s) \<Longrightarrow> j \<in> set (asked s)" "\<And>y. y \<in> set (runs s) \<Longrightarrow> fst y \<in> set (asked s)"
    "\<And>c r. c \<in> set (calls s) \<Longrightarrow> c_out c = Some r \<Longrightarrow> \<exists>x. r = Ok x \<and> (job_of c, x) \<in> set (runs s)"
    "\<And>c. c \<in> set (calls s) \<Longrightarrow> waits s (c_client c) (c_rx c) (c_tag c)"
    "\<And>b rid x. (b, rid, x) \<in> set (loops s) \<Longrightarrow> waits s b x rid"
    "\<And>j. j \<in> set (asked s) \<Longrightarrow> copies s (j_server j) (j_tag j) \<le> 1" "\<not> broken s"
  shows "rpc_inv s"
  unfolding rpc_inv_def
  using assms(1,2,5,6,8,9) by (intro conjI allI ballI impI) (auto dest: assms(3,4,7))

lemma mset_remove_nth: "k < length xs \<Longrightarrow> mset xs = add_mset (xs ! k) (mset (take k xs @ drop (Suc k) xs))"
  by (subst (1) id_take_nth_drop [of k xs]) simp_all

lemma msg_ok_mono: "msg_ok J D a m \<Longrightarrow> J \<subseteq> J' \<Longrightarrow> D \<subseteq> D' \<Longrightarrow> msg_ok J' D' a m"
  by (auto simp: msg_ok_def split: payload.splits rpc_msg.splits)

lemma msg_ok_req: "msg_ok J D a m \<Longrightarrow> is_req t m \<Longrightarrow> \<exists>j \<in> J. j_tag j = t \<and> j_id j = msg_tag m \<and> j_server j = a"
  unfolding msg_ok_def is_req_def by force

text \<open>A change of the state that only takes messages away keeps the invariant.\<close>

lemma waits_grow:
  assumes "waits s a x t" "rx_tags s' a = rx_tags s a @ ts"
  shows "waits s' a x t"
  using assms by (simp add: waits_def nth_append)

lemma copies_mono:
  assumes "bound_for s' a \<subseteq># bound_for s a" "jobs s' = jobs s" "runs s' = runs s"
  shows "copies s' a t \<le> copies s a t"
  using size_mset_mono [OF multiset_filter_mono [OF assms(1), of "is_req t"]] assms(2,3) by (simp add: copies_def)

lemma rpc_inv_fewer:
  assumes inv: "rpc_inv s" and "\<And>a. em_inv (mail s' a)" "\<And>a. bound_for s' a \<subseteq># bound_for s a"
    and same: "calls s' = calls s" "jobs s' = jobs s" "runs s' = runs s" "broken s' = broken s"
    and tags: "\<And>a. \<exists>ts. rx_tags s' a = rx_tags s a @ ts"
    and loops: "\<And>a rid x. (a, rid, x) \<in> set (loops s') \<Longrightarrow> (a, rid, x) \<notin> set (loops s) \<Longrightarrow> waits s' a x rid"
  shows "rpc_inv s'"
proof -
  have W: "waits s' a x t" if "waits s a x t" for a x t using waits_grow [OF that] tags [of a] by blast
  have A: "asked s' = asked s" using same by (simp add: asked_def)
  have m: "m \<in># bound_for s a" if "m \<in># bound_for s' a" for m a using that assms(3) [of a] by (meson mset_subset_eqD)
  show ?thesis
  proof (rule rpc_invI)
    show "em_inv (mail s' a)" for a by (rule assms(2))
    show "waits s' b x rid" if "(b, rid, x) \<in> set (loops s')" for b rid x
      using loops [OF that] W rpc_invD(7) [OF inv] by blast
    show "copies s' (j_server j) (j_tag j) \<le> 1" if "j \<in> set (asked s')" for j
      using copies_mono [OF assms(3) same(2,3)] rpc_invD(8) [OF inv] that A by (metis le_trans)
    show "msg_ok (set (asked s')) (set (runs s')) a n" if "n \<in># bound_for s' a" for a n
      using rpc_invD(2) [OF inv m [OF that]] A same by simp
    show "waits s' (c_client c) (c_rx c) (c_tag c)" if "c \<in> set (calls s')" for c
      using W rpc_invD(6) [OF inv] that same by simp
    show "j \<in> set (asked s')" if "j \<in> set (jobs s')" for j using rpc_invD(3) [OF inv] that A same by simp
    show "fst y \<in> set (asked s')" if "y \<in> set (runs s')" for y using rpc_invD(4) [OF inv] that A same by simp
    show "\<exists>x. r = Ok x \<and> (job_of c, x) \<in> set (runs s')" if "c \<in> set (calls s')" "c_out c = Some r" for c r
      using rpc_invD(5) [OF inv] that same by simp
    show "\<not> broken s'" using rpc_invD(9) [OF inv] same by simp
  qed
qed

subsection \<open>Every step keeps the invariant\<close>

definition put_mail :: "socket_addr \<Rightarrow> ('q, 'a) rpc_payload ep_mail \<Rightarrow> ('q, 'a) rpc_sys \<Rightarrow> ('q, 'a) rpc_sys" where
  "put_mail a e s = s\<lparr>mail := (mail s)(a := e)\<rparr>"

lemma put_mail_simps [simp]:
  "mail (put_mail a e s) = (mail s)(a := e)" "flight (put_mail a e s) = flight s" "calls (put_mail a e s) = calls s"
  "loops (put_mail a e s) = loops s" "jobs (put_mail a e s) = jobs s" "runs (put_mail a e s) = runs s"
  "broken (put_mail a e s) = broken s" "asked (put_mail a e s) = asked s"
  by (simp_all add: put_mail_def asked_def)

lemma put_mail_inv:
  assumes "rpc_inv s" "em_inv e" "em_content e \<subseteq># em_content (mail s a)" "map fst (em_recvs e) = rx_tags s a @ ts"
  shows "rpc_inv (put_mail a e s)"
proof (rule rpc_inv_fewer [OF assms(1)])
  show "\<exists>ts. rx_tags (put_mail a e s) b = rx_tags s b @ ts" for b using assms(4) by (auto simp: rx_tags_def)
qed (use assms rpc_invD [OF assms(1)] in \<open>auto simp: bound_for_def\<close>)

lemma bound_for_post:
  "bound_for (post dst m s) a = (if a = dst then {#m#} else {#}) + bound_for s a"
  by (simp add: post_def bound_for_def)

lemma cancel_inv:
  assumes "rpc_inv s"
  shows "rpc_inv (rpc_cancel k s)"
proof -
  let ?a = "c_client (calls s ! k)"
  note i = rpc_invD(1) [OF assms, of ?a]
  have "rpc_inv (put_mail ?a (recv_drop (c_rx (calls s ! k)) (mail s ?a)) s)"
    by (rule put_mail_inv [OF assms ep.inv_cancels [OF i] ep.content_cancels [OF i], of _ "[]"]) (simp add: rx_tags_def)
  then show ?thesis by (simp add: rpc_cancel_def put_mail_def Let_def)
qed

lemma begin_put_mail:
  assumes "rpc_inv s" "recv_begin t (mail s a) = (x, e)"
  shows "rpc_inv (put_mail a e s)" "waits (put_mail a e s) a x t" "em_content e = em_content (mail s a)"
    "\<And>b y u. waits s b y u \<Longrightarrow> waits (put_mail a e s) b y u"
proof -
  have e: "e = snd (recv_begin t (mail s a))" "x = fst (recv_begin t (mail s a))" using assms(2) by simp_all
  note i = rpc_invD(1) [OF assms(1), of a]
  have t: "map fst (em_recvs e) = rx_tags s a @ [t]" "x = length (rx_tags s a)"
    using ep.tags_begins [of t "mail s a"] e by (simp_all add: rx_tags_def)
  show "em_content e = em_content (mail s a)" using ep.content_begins [OF i, of t] e by simp
  then show "rpc_inv (put_mail a e s)" using put_mail_inv [OF assms(1) _ _ t(1)] ep.inv_begins [OF i, of t] e by simp
  show "waits (put_mail a e s) a x t" using t by (simp add: waits_def rx_tags_def nth_append)
  show "waits (put_mail a e s) b y u" if "waits s b y u" for b y u
    by (rule waits_grow [OF that, of _ "if b = a then [t] else []"]) (use t in \<open>simp add: rx_tags_def\<close>)
qed

lemma serve_inv:
  assumes "rpc_inv s"
  shows "rpc_inv (rpc_serve a rid s)"
proof -
  obtain x e where b: "recv_begin rid (mail s a) = (x, e)" by (cases "recv_begin rid (mail s a)")
  let ?s = "put_mail a e s"
  have "rpc_inv (?s\<lparr>loops := loops s @ [(a, rid, x)]\<rparr>)"
    by (rule rpc_inv_fewer [OF begin_put_mail(1) [OF assms b]])
      (use begin_put_mail [OF assms b] rpc_invD(1) [OF begin_put_mail(1) [OF assms b]] in
        \<open>auto simp: bound_for_def waits_def rx_tags_def\<close>)
  then show ?thesis using b by (simp add: rpc_serve_def put_mail_def)
qed

lemma bound_for_remove:
  assumes "k < length (flight s)" "flight s ! k = (dst, m)"
  shows "bound_for s a = (if a = dst then {#m#} else {#}) +
    bound_for (s\<lparr>flight := take k (flight s) @ drop (Suc k) (flight s)\<rparr>) a"
  using mset_remove_nth [OF assms(1)] assms(2) by (simp add: bound_for_def)

lemma lose_inv:
  assumes "rpc_inv s" "k < length (flight s)"
  shows "rpc_inv (net_lose k s)"
proof -
  obtain dst m where f: "flight s ! k = (dst, m)" by (cases "flight s ! k")
  show ?thesis unfolding net_lose_def
    by (rule rpc_inv_fewer [OF assms(1)])
      (use bound_for_remove [OF assms(2) f] rpc_invD(1) [OF assms(1)] in \<open>auto simp: rx_tags_def\<close>)
qed

lemma net_deliver_inv:
  assumes "rpc_inv s" "k < length (flight s)"
  shows "rpc_inv (net_deliver k s)"
proof -
  obtain dst m where f: "flight s ! k = (dst, m)" by (cases "flight s ! k")
  let ?s = "s\<lparr>flight := take k (flight s) @ drop (Suc k) (flight s)\<rparr>"
  note i = rpc_invD(1) [OF assms(1)]
  have c: "em_content (em_arrive m (mail s dst)) = add_mset m (em_content (mail s dst))" by (rule ep.content_arrives [OF i])
  have b: "bound_for (net_deliver k s) a = bound_for s a" for a
    using bound_for_remove [OF assms(2) f, of a] f c by (simp add: net_deliver_def bound_for_def)
  show ?thesis
    by (rule rpc_inv_fewer [OF assms(1)])
      (use b f i ep.inv_arrives [OF i] in \<open>auto simp: net_deliver_def rx_tags_def\<close>)
qed

text \<open>A poll that received a message takes it out of those bound for the endpoint.\<close>

lemma poll_put_mail:
  assumes "rpc_inv s" "em_polls R T x (mail s a) m e"
  shows "rpc_inv (put_mail a e s)" "waits s b y u \<Longrightarrow> waits (put_mail a e s) b y u"
    "bound_for s b = (if b = a then (case m of Some m \<Rightarrow> {#m#} | None \<Rightarrow> {#}) else {#}) + bound_for (put_mail a e s) b"
    "m = Some n \<Longrightarrow> msg_ok (set (asked s)) (set (runs s)) a n"
    "m = Some n \<Longrightarrow> waits s a x u \<Longrightarrow> msg_tag n = u"
proof -
  note i = rpc_invD(1) [OF assms(1), of a]
  have t: "map fst (em_recvs e) = rx_tags s a" using ep.tags_polls [OF assms(2)] by (simp add: rx_tags_def)
  show "rpc_inv (put_mail a e s)"
    using put_mail_inv [OF assms(1) ep.inv_polls [OF i assms(2)] ep.content_subset [OF i assms(2)], of "[]"] t by simp
  show "waits s b y u \<Longrightarrow> waits (put_mail a e s) b y u"
    by (rule waits_grow [of s b y u _ "[]"]) (use t in \<open>simp_all add: rx_tags_def\<close>)
  show B: "bound_for s b = (if b = a then (case m of Some m \<Rightarrow> {#m#} | None \<Rightarrow> {#}) else {#}) + bound_for (put_mail a e s) b" for b
    using ep.content_polls [OF i assms(2)] by (simp add: bound_for_def)
  show "m = Some n \<Longrightarrow> msg_ok (set (asked s)) (set (runs s)) a n"
    using rpc_invD(2) [OF assms(1), of n a] B [of a] by simp
  show "m = Some n \<Longrightarrow> waits s a x u \<Longrightarrow> msg_tag n = u"
    using ep.content_polls_Some [OF i, of R T x n e] assms(2) by (simp add: waits_def rx_tags_def)
qed

lemma respond_inv:
  assumes "rpc_inv s" "k < length (jobs s)"
  shows "rpc_inv (rpc_respond k x s)"
proof -
  let ?j = "jobs s ! k" and ?js = "take k (jobs s) @ drop (Suc k) (jobs s)" and ?s = "rpc_respond k x s"
  let ?m = "\<lparr>msg_tag = j_tag ?j, msg_data = handler_response x, msg_from = j_server ?j\<rparr> :: ('a, 'b) rpc_payload message"
  note D = rpc_invD [OF assms(1)]
  have eq: "mail ?s = mail s" "calls ?s = calls s" "loops ?s = loops s" "jobs ?s = ?js" "runs ?s = runs s @ [(?j, x)]"
    "broken ?s = broken s" "asked ?s = asked s" "rx_tags ?s = rx_tags s"
    by (simp_all add: rpc_respond_def post_def Let_def asked_def rx_tags_def fun_eq_iff)
  have b: "bound_for ?s a = (if a = j_from ?j then {#?m#} else {#}) + bound_for s a" for a
    by (simp add: rpc_respond_def Let_def bound_for_post) (simp add: bound_for_def)
  have js: "mset (jobs s) = add_mset ?j (mset ?js)" by (rule mset_remove_nth [OF assms(2)])
  have j: "?j \<in> set (asked s)" using D(3) assms(2) by simp
  have len: "length (filter P (jobs s)) = (if P ?j then 1 else 0) + length (filter P ?js)" for P
    using arg_cong [OF js, of "\<lambda>M. size (filter_mset P M)"] by (simp flip: mset_filter size_mset)
  have cp: "copies ?s a t = copies s a t" for a t
    using len [of "\<lambda>j. j_tag j = t"] by (simp add: copies_def eq b is_req_def handler_response_def)
  have ok: "msg_ok J (insert (?j, x) D) (j_from ?j) ?m" for J D by (auto simp: msg_ok_def handler_response_def)
  show ?thesis
  proof (rule rpc_invI, unfold eq)
    show "msg_ok (set (asked s)) (set (runs s @ [(?j, x)])) a n" if "n \<in># bound_for ?s a" for a n
    proof (cases "n \<in># bound_for s a")
      case True
      from msg_ok_mono [OF D(2) [OF this] order.refl] show ?thesis by auto
    next
      case False
      then show ?thesis using that b [of a] ok by (auto split: if_splits)
    qed
    show "i \<in> set (asked s)" if "i \<in> set ?js" for i using D(3) that by (auto dest: in_set_takeD in_set_dropD)
    show "fst y \<in> set (asked s)" if "y \<in> set (runs s @ [(?j, x)])" for y
      using D(4) [of y] that j by (cases "y = (?j, x)") simp_all
    show "\<exists>x'. r = Ok x' \<and> (job_of c, x') \<in> set (runs s @ [(?j, x)])" if "c \<in> set (calls s)" "c_out c = Some r" for c r
      using D(5) [OF that] by auto
    show "copies ?s (j_server i) (j_tag i) \<le> 1" if "i \<in> set (asked s)" for i using cp D(8) [OF that] by simp
  qed (use D in \<open>auto simp: waits_def eq\<close>)
qed

lemma call_inv:
  assumes "rpc_inv s" "rpc_fresh (rpc_call c dst rid t q d s)"
  shows "rpc_inv (rpc_call c dst rid t q d s)"
proof -
  obtain x e where b: "recv_begin t (mail s c) = (x, e)" by (cases "recv_begin t (mail s c)")
  let ?s1 = "put_mail c e s" and ?s = "rpc_call c dst rid t q d s"
  let ?c = "\<lparr>c_client = c, c_dst = dst, c_id = rid, c_tag = t, c_req = q, c_data = d, c_rx = x, c_out = None\<rparr> :: ('a, 'b) call_state"
  let ?m = "\<lparr>msg_tag = rid, msg_data = call_request t q d, msg_from = c\<rparr> :: ('a, 'b) rpc_payload message"
  note B = begin_put_mail [OF assms(1) b]
  note D = rpc_invD [OF B(1)] rpc_invD(2,3,4,8) [OF assms(1)]
  have eq: "mail ?s = mail ?s1" "calls ?s = calls s @ [?c]" "loops ?s = loops s" "jobs ?s = jobs s" "runs ?s = runs s"
    "broken ?s = broken s" "asked ?s = asked s @ [job_of ?c]" "rx_tags ?s = rx_tags ?s1"
    by (simp_all add: rpc_call_def b post_def asked_def rx_tags_def fun_eq_iff put_mail_def)
  have bd: "bound_for ?s a = (if a = dst then {#?m#} else {#}) + bound_for s a" for a
    using B(3) by (simp add: rpc_call_def b bound_for_post) (simp add: bound_for_def)
  have fr: "t \<noteq> j_tag j" if "j \<in> set (asked s)" for j using assms(2) that by (auto simp: rpc_fresh_def eq job_of_def)
  have no: "\<not> is_req t m" if "m \<in># bound_for s a" for m a
    using msg_ok_req [OF rpc_invD(2) [OF assms(1) that]] fr by blast
  have cp: "copies ?s a u = (if a = dst \<and> u = t then 1 else copies s a u)" if "a = dst \<or> u \<noteq> t" for a u
  proof (cases "u = t")
    case True
    have "filter_mset (is_req t) (bound_for s a) = {#}" using no by (simp add: filter_mset_eq_mempty_iff)
    moreover have "filter (\<lambda>j. j_tag j = t) (jobs s) = []"
      unfolding filter_empty_conv using fr rpc_invD(3) [OF assms(1)] by blast
    moreover have "filter (\<lambda>x. j_tag (fst x) = t) (runs s) = []"
      unfolding filter_empty_conv using fr rpc_invD(4) [OF assms(1)] by blast
    ultimately show ?thesis using True that by (simp add: copies_def bd eq is_req_def call_request_def)
  next
    case False
    then show ?thesis by (simp add: copies_def bd eq is_req_def call_request_def)
  qed
  show ?thesis
  proof (rule rpc_invI, unfold eq)
    show "em_inv (mail ?s1 a)" for a by (rule D(1))
    show "msg_ok (set (asked s @ [job_of ?c])) (set (runs s)) a n" if "n \<in># bound_for ?s a" for a n
    proof (cases "n \<in># bound_for s a")
      case True
      from msg_ok_mono [OF rpc_invD(2) [OF assms(1) this] _ order.refl] show ?thesis by auto
    next
      case False
      then show ?thesis using that bd [of a] by (auto simp: msg_ok_def call_request_def job_of_def split: if_splits)
    qed
    show "copies ?s (j_server j) (j_tag j) \<le> 1" if "j \<in> set (asked s @ [job_of ?c])" for j
    proof (cases "j \<in> set (asked s)")
      case True
      then show ?thesis using cp [of "j_server j" "j_tag j"] fr [OF True] rpc_invD(8) [OF assms(1) True] by auto
    next
      case False
      then show ?thesis using that cp [of dst t] by (simp add: job_of_def)
    qed
    show "fst y \<in> set (asked s @ [job_of ?c])" if "y \<in> set (runs s)" for y using rpc_invD(4) [OF assms(1) that] by simp
    show "waits ?s (c_client c') (c_rx c') (c_tag c')" if "c' \<in> set (calls s @ [?c])" for c'
      using that D(6) B(2) by (auto simp: waits_def eq)
    show "\<exists>x'. r = Ok x' \<and> (job_of c', x') \<in> set (runs s)" if "c' \<in> set (calls s @ [?c])" "c_out c' = Some r" for c' r
      using that rpc_invD(5) [OF assms(1)] by auto
    show "waits ?s b y u" if "(b, u, y) \<in> set (loops s)" for b y u
      using that D(7) by (simp add: waits_def eq)
  qed (use rpc_invD(3,9) [OF assms(1)] in auto)
qed

lemma job_of_upd [simp]: "job_of (c\<lparr>c_out := r\<rparr>) = job_of c"
  by (simp add: job_of_def)

lemma asked_upd [simp]: "map job_of (cs[k := (cs ! k)\<lparr>c_out := r\<rparr>]) = map job_of cs"
  by (metis map_update job_of_upd list_update_id)

lemma return_inv:
  assumes "rpc_inv s" "rpc_fresh s" "k < length (calls s)" "em_polls R T (c_rx (calls s ! k)) (mail s (c_client (calls s ! k))) m e"
  shows "rpc_inv (rpc_return k m e s)"
proof (cases m)
  case None
  then show ?thesis using poll_put_mail(1) [OF assms(1,4)] by (simp add: rpc_return_def put_mail_def Let_def)
next
  case (Some n)
  let ?c = "calls s ! k"
  let ?s1 = "put_mail (c_client ?c) e s" and ?r = "call_answer (c_dst ?c) (msg_data n, msg_from n)"
  let ?s = "?s1\<lparr>calls := (calls s)[k := ?c\<lparr>c_out := Some ?r\<rparr>], broken := broken s \<or> is_panic ?r\<rparr>"
  note P = poll_put_mail [OF assms(1,4)]
  note D = rpc_invD [OF P(1)]
  have c: "?c \<in> set (calls s)" "job_of ?c \<in> set (asked s)" using assms(3) by (auto simp: asked_def)
  have tag: "msg_tag n = c_tag ?c" using P(5) [OF Some] rpc_invD(6) [OF assms(1) c(1)] by blast
  have "\<exists>x. ?r = Ok x \<and> (job_of ?c, x) \<in> set (runs s)"
  proof (cases "msg_data n")
    case (Bytes b)
    then show ?thesis using P(4) [OF Some] by (simp add: msg_ok_def)
  next
    case (Boxed z)
    show ?thesis
    proof (cases z)
      case (RpcReq t q d)
      then obtain j where "j \<in> set (asked s)" "j_id j = c_tag ?c"
        using msg_ok_req [OF P(4) [OF Some], of t] Boxed tag by (auto simp: is_req_def)
      moreover have "j_tag (job_of ?c) = c_tag ?c" by (simp add: job_of_def)
      ultimately show ?thesis using assms(2) c(2) unfolding rpc_fresh_def by metis
    next
      case (RpcRsp y d)
      then obtain j where j: "(j, y, d) \<in> set (runs s)" "j_tag j = c_tag ?c" "j_server j = msg_from n"
        using P(4) [OF Some] Boxed tag by (auto simp: msg_ok_def)
      have "j \<in> set (asked s)" using rpc_invD(4) [OF assms(1) j(1)] by simp
      then have "j = job_of ?c" using assms(2) c(2) j(2) by (auto simp: rpc_fresh_def distinct_map inj_on_def job_of_def)
      then show ?thesis using j RpcRsp Boxed by (auto simp: call_answer_def job_of_def)
    qed
  qed
  then obtain x where x: "?r = Ok x" "(job_of ?c, x) \<in> set (runs s)" by blast
  have eq: "asked ?s = asked s" by (simp add: asked_def)
  have same: "bound_for ?s a = bound_for ?s1 a" "waits ?s a y u = waits ?s1 a y u" "copies ?s a u = copies ?s1 a u" for a y u
    by (simp_all add: bound_for_def waits_def rx_tags_def copies_def)
  have mem: "c' = ?c\<lparr>c_out := Some ?r\<rparr> \<or> c' \<in> set (calls s)" if "c' \<in> set (calls ?s)" for c'
    using that set_update_subset_insert [of "calls s" k] by auto
  have "rpc_inv ?s"
  proof (rule rpc_invI, unfold eq same)
    show "\<exists>x. r = Ok x \<and> (job_of c', x) \<in> set (runs ?s)" if "c' \<in> set (calls ?s)" "c_out c' = Some r" for c' r
      using mem [OF that(1)] that(2) x rpc_invD(5) [OF assms(1), of c' r] by (cases x) auto
    show "waits ?s1 (c_client c') (c_rx c') (c_tag c')" if "c' \<in> set (calls ?s)" for c'
      using mem [OF that] D(6) c(1) by auto
  qed (use D x(1) in auto)
  then show ?thesis using Some by (simp add: rpc_return_def put_mail_def Let_def)
qed

lemma accept_inv:
  assumes "rpc_inv s" "rpc_fresh s" "l < length (loops s)" "loops s ! l = (a, rid, x)" "em_polls R T x (mail s a) m e"
  shows "rpc_inv (rpc_accept l m e s)"
proof (cases m)
  case None
  then show ?thesis using poll_put_mail(1) [OF assms(1,5)] assms(4) by (simp add: rpc_accept_def put_mail_def)
next
  case (Some n)
  note P = poll_put_mail [OF assms(1,5)]
  have lp: "(a, rid, x) \<in> set (loops s)" using assms(3,4) nth_mem by metis
  have tag: "msg_tag n = rid" using P(5) [OF Some] rpc_invD(7) [OF assms(1) lp] by blast
  have "\<exists>t q d. msg_data n = Boxed (RpcReq t q d)"
  proof (cases "msg_data n")
    case (Bytes b)
    then show ?thesis using P(4) [OF Some] by (simp add: msg_ok_def)
  next
    case (Boxed z)
    have "z \<noteq> RpcRsp y d" for y d
    proof
      assume "z = RpcRsp y d"
      then obtain j where j: "(j, y, d) \<in> set (runs s)" "j_tag j = rid" using P(4) [OF Some] Boxed tag by (auto simp: msg_ok_def)
      then have "j \<in> set (asked s)" using rpc_invD(4) [OF assms(1) j(1)] by simp
      then show False using assms(2) j(2) lp unfolding rpc_fresh_def by fastforce
    qed
    then show ?thesis using Boxed by (cases z) auto
  qed
  then obtain t q d where n: "msg_data n = Boxed (RpcReq t q d)" by blast
  let ?j = "\<lparr>j_server = a, j_from = msg_from n, j_id = rid, j_tag = t, j_req = q, j_data = d\<rparr>"
  have j: "?j \<in> set (asked s)" using P(4) [OF Some] n tag by (simp add: msg_ok_def)
  let ?s1 = "put_mail a e s"
  obtain y e' where b: "recv_begin rid (mail ?s1 a) = (y, e')" by (cases "recv_begin rid (mail ?s1 a)")
  note B = begin_put_mail [OF P(1) b]
  let ?s2 = "put_mail a e' ?s1"
  let ?s = "?s2\<lparr>loops := (loops s)[l := (a, rid, y)], jobs := jobs s @ [?j]\<rparr>"
  note D = rpc_invD [OF B(1)]
  have bd: "bound_for ?s b = bound_for ?s1 b" for b using B(3) by (simp add: bound_for_def)
  have same: "bound_for ?s b = bound_for ?s2 b" "waits ?s b z u = waits ?s2 b z u" for b z u
    by (simp_all add: bound_for_def waits_def rx_tags_def)
  have cp: "copies ?s b u = copies s b u" if "b = a \<or> u \<noteq> t" for b u
    using P(3) [of b] that n Some by (cases "b = a") (auto simp: copies_def bd is_req_def)
  have eq: "asked ?s = asked s" by (simp add: asked_def)
  have mem: "p = (a, rid, y) \<or> p \<in> set (loops s)" if "p \<in> set (loops ?s)" for p
    using that by simp (metis insert_iff set_update_subset_insert subsetD)
  have "rpc_inv ?s"
  proof (rule rpc_invI, unfold eq same)
    show "i \<in> set (asked s)" if "i \<in> set (jobs ?s)" for i using that j rpc_invD(3) [OF assms(1)] by auto
    show "copies ?s (j_server i) (j_tag i) \<le> 1" if "i \<in> set (asked s)" for i
    proof -
      have "inj_on j_tag (set (asked s))" using assms(2) by (simp add: rpc_fresh_def distinct_map)
      from inj_onD [OF this _ that j] have "j_server i = a" if "j_tag i = t" using that by auto
      then show ?thesis using cp [of "j_server i" "j_tag i"] rpc_invD(8) [OF assms(1) that] by (cases "j_tag i = t") auto
    qed
    show "waits ?s2 b z u" if "(b, u, z) \<in> set (loops ?s)" for b z u
      using mem [OF that] D(7) [of b u z] B(2) by auto
  qed (use D in auto)
  then show ?thesis using Some assms(4) n b by (simp add: rpc_accept_def put_mail_def handler_request_def)
qed

lemma list_update_keeps: "p \<in> set xs \<Longrightarrow> p \<noteq> xs ! l \<Longrightarrow> p \<in> set (xs[l := v])"
  by (metis in_set_conv_nth length_list_update nth_list_update_neq)

text \<open>Calls and handlers are only added.\<close>

lemma step_grows:
  assumes "rpc_step R T s s'"
  shows "(\<exists>js. asked s' = asked s @ js) \<and> (\<forall>(a, rid, x) \<in> set (loops s). \<exists>y. (a, rid, y) \<in> set (loops s'))"
  using assms
proof cases
  case (step_call c dst rid t q d)
  then show ?thesis by (auto simp: rpc_call_def post_def asked_def split: prod.split)
next
  case (step_return k m e)
  then show ?thesis
    by (auto simp: rpc_return_def asked_def Let_def split: option.split)
next
  case (step_accept l a rid x m e)
  have "\<exists>y. (b, u, y) \<in> set ((loops s)[l := (a, rid, z)])" if p: "(b, u, v) \<in> set (loops s)" for b u v z
  proof (cases "(b, u, v) = loops s ! l")
    case True
    then have "b = a" "u = rid" using step_accept(3) by simp_all
    then show ?thesis using set_update_memI [OF step_accept(2)] by blast
  next
    case False
    then show ?thesis using list_update_keeps [OF p] by blast
  qed
  moreover have "asked (rpc_accept l m e s) = asked s"
    by (simp add: rpc_accept_def asked_def split: option.split res.split prod.split)
  moreover have "loops (rpc_accept l m e s) = loops s \<or> (\<exists>z. loops (rpc_accept l m e s) = (loops s)[l := (a, rid, z)])"
    using step_accept(3) by (auto simp: rpc_accept_def split: option.split res.split prod.split)
  ultimately show ?thesis using step_accept(1) by auto
qed (auto simp: rpc_cancel_def rpc_serve_def rpc_respond_def net_deliver_def net_lose_def post_def asked_def Let_def split: prod.split)

lemma fresh_before: "rpc_step R T s s' \<Longrightarrow> rpc_fresh s' \<Longrightarrow> rpc_fresh s"
  using step_grows [of R T s s'] unfolding rpc_fresh_def by fastforce

lemma rpc_step_inv: "rpc_step R T s s' \<Longrightarrow> rpc_inv s \<Longrightarrow> rpc_fresh s' \<Longrightarrow> rpc_inv s'"
proof (induction rule: rpc_step.induct)
  case (step_return k s m e)
  then show ?case using return_inv fresh_before [OF rpc_step.step_return] by metis
next
  case (step_accept l s a rid x m e)
  then show ?case using accept_inv fresh_before [OF rpc_step.step_accept] by metis
qed (auto intro: call_inv cancel_inv serve_inv respond_inv net_deliver_inv lose_inv)

lemma rpc_reachable_inv: "rpc_reachable R T s \<Longrightarrow> rpc_fresh s \<Longrightarrow> rpc_inv s"
proof (induction rule: rpc_reachable.induct)
  case rpc_init
  have "em_inv ep_mail_new" by (simp add: em_inv_def ep_mail_new_def mailbox_default_def mailbox_inv_def em_alive_def)
  then show ?case
    by (intro rpc_invI) (simp_all add: rpc_start_def bound_for_def em_content_def ep_mail_new_def mailbox_default_def asked_def)
next
  case (rpc_next s s')
  then show ?case using fresh_before rpc_step_inv by blast
qed

text \<open>
  C19: a remote procedure call is answered by its own handler run, which happens at most once.  In every state reachable by calls,
  cancellations, handlers, answers, and any delays, reorderings and losses of the network, provided that the random response tags are new
  and not those of a request type: a call that has finished has the answer that a handler at its destination gave to its
  request, no call was handled twice, and no task panicked on what it received.
\<close>

theorem rpc_at_most_once:
  assumes "rpc_reachable R T s" "rpc_fresh s"
  shows "(\<forall>c \<in> set (calls s). (\<forall>r. c_out c = Some r \<longrightarrow> (\<exists>x. r = Ok x \<and> (job_of c, x) \<in> set (runs s))) \<and>
            length (filter (\<lambda>y. j_tag (fst y) = c_tag c) (runs s)) \<le> 1) \<and>
         (\<forall>y \<in> set (runs s). \<exists>c \<in> set (calls s). fst y = job_of c) \<and> \<not> broken s"
proof (intro conjI ballI allI impI)
  note D = rpc_invD [OF rpc_reachable_inv [OF assms]]
  fix c assume c: "c \<in> set (calls s)"
  show "\<exists>x. r = Ok x \<and> (job_of c, x) \<in> set (runs s)" if "c_out c = Some r" for r by (rule D(5) [OF c that])
  have "job_of c \<in> set (asked s)" using c by (simp add: asked_def)
  from D(8) [OF this] show "length (filter (\<lambda>y. j_tag (fst y) = c_tag c) (runs s)) \<le> 1" by (simp add: copies_def job_of_def)
next
  note D = rpc_invD [OF rpc_reachable_inv [OF assms]]
  show "\<exists>c \<in> set (calls s). fst y = job_of c" if "y \<in> set (runs s)" for y using D(4) [OF that] by (auto simp: asked_def)
  show "\<not> broken s" by (rule D(9))
qed

text \<open>A call of a service that adds one, from beginning to end.\<close>

lemma demo_polls:
  assumes "x < length (em_recvs e)"
  shows "snd (em_recvs e ! x) = Filled m \<Longrightarrow>
      em_polls const_rng (list_timer :: ((duration \<times> unit) list, unit) timer_ops) x e None (em_set x (Delaying m \<lparr>deadline = 1000000\<rparr>) e)"
    and "em_recvs e ! x = (msg_tag m, Delaying m s) \<Longrightarrow>
      em_polls const_rng (list_timer :: ((duration \<times> unit) list, unit) timer_ops) x e (Some m) (em_set x Gone e)"
proof -
  let ?T = "list_timer :: ((duration \<times> unit) list, unit) timer_ops"
  assume "snd (em_recvs e ! x) = Filled m"
  then obtain h' r' where "recv_poll const_rng False ?T () x e \<lparr>timer = [], clock = clock_new 0\<rparr> 0 =
      Ok (Pending, em_set x (Delaying m \<lparr>deadline = 1000000\<rparr>) e, h', r')"
    by (simp add: recv_poll_def rand_delay_def const_rng_def Let_def sleep_for_def sleep_until_def now_instant_def clock_new_def)
  then show "em_polls const_rng ?T x e None (em_set x (Delaying m \<lparr>deadline = 1000000\<rparr>) e)"
    using assms unfolding em_polls_def by (fastforce simp: received_def)
next
  let ?T = "list_timer :: ((duration \<times> unit) list, unit) timer_ops"
  let ?h = "\<lparr>timer = [], clock = \<lparr>base_time = 0, base_instant = 0, advance = deadline s\<rparr>\<rparr> :: (duration \<times> unit) list time_handle"
  assume "em_recvs e ! x = (msg_tag m, Delaying m s)"
  then have "recv_poll const_rng False ?T () x e ?h 0 = Ok (Ready (msg_data m, msg_from m), em_set x Gone e, ?h, 0)"
    by (simp add: recv_poll_def sleep_poll_def is_elapsed_def now_instant_def)
  then show "em_polls const_rng ?T x e (Some m) (em_set x Gone e)"
    using assms \<open>em_recvs e ! x = (msg_tag m, Delaying m s)\<close> unfolding em_polls_def by (fastforce simp: received_def)
qed

lemmas demo_step_defs = rpc_start_def rpc_serve_def rpc_call_def rpc_accept_def rpc_respond_def rpc_return_def net_deliver_def post_def
  recv_begin_def ep_mail_new_def mailbox_default_def recv_def em_arrive_def deliver_def deliver_loop.simps em_alive_def em_set_def
  swap_remove_def call_request_def handler_request_def handler_response_def call_answer_def Let_def

definition demo_client :: socket_addr where "demo_client = (V4 1, 9)"
definition demo_server :: socket_addr where "demo_server = (V4 2, 80)"

definition demo_req :: "(nat, nat) rpc_payload message" where
  "demo_req = \<lparr>msg_tag = 7, msg_data = Boxed (RpcReq 99 5 []), msg_from = demo_client\<rparr>"

definition demo_rsp :: "(nat, nat) rpc_payload message" where
  "demo_rsp = \<lparr>msg_tag = 99, msg_data = Boxed (RpcRsp 6 []), msg_from = demo_server\<rparr>"

lemma demo_neq: "demo_client \<noteq> demo_server" by (simp add: demo_client_def demo_server_def)

lemma demo_two_polls:
  fixes T :: "((duration \<times> unit) list, unit) timer_ops" and s :: "(nat, nat) rpc_sys"
  assumes "rpc_reachable const_rng T s" "T = list_timer" "em_recvs (mail s a) ! x = (msg_tag m, Filled m)" "x < length (em_recvs (mail s a))"
  shows "l < length (loops s) \<Longrightarrow> loops s ! l = (a, rid, x) \<Longrightarrow>
      rpc_reachable const_rng T (rpc_accept l (Some m) (em_set x Gone (mail s a)) s)"
    and "k < length (calls s) \<Longrightarrow> c_out (calls s ! k) = None \<Longrightarrow> c_client (calls s ! k) = a \<Longrightarrow> c_rx (calls s ! k) = x \<Longrightarrow>
      rpc_reachable const_rng T (rpc_return k (Some m) (em_set x Gone (mail s a)) s)"
proof -
  let ?e1 = "em_set x (Delaying m \<lparr>deadline = 1000000\<rparr>) (mail s a)"
  have 1: "em_polls const_rng T x (mail s a) None ?e1"
    unfolding assms(2) by (rule demo_polls(1) [OF assms(4)]) (simp add: assms(3))
  have 2: "em_polls const_rng T x ?e1 (Some m) (em_set x Gone (mail s a))"
    using demo_polls(2) [of x ?e1 m] assms(3,4) by (simp add: assms(2) em_set_def)
  {
    assume l: "l < length (loops s)" "loops s ! l = (a, rid, x)"
    let ?s = "rpc_accept l None ?e1 s"
    have "rpc_reachable const_rng T ?s" by (rule rpc_next [OF assms(1) step_accept [OF l 1]])
    then have "rpc_reachable const_rng T (rpc_accept l (Some m) (em_set x Gone (mail s a)) ?s)"
      by (rule rpc_next) (rule step_accept [of l _ a rid x], use l 2 in \<open>simp_all add: rpc_accept_def\<close>)
    moreover have "rpc_accept l (Some m) e ?s = rpc_accept l (Some m) e s" for e
      using l by (simp add: rpc_accept_def split: res.split prod.split)
    ultimately show "rpc_reachable const_rng T (rpc_accept l (Some m) (em_set x Gone (mail s a)) s)" by simp
  next
    assume k: "k < length (calls s)" "c_out (calls s ! k) = None" "c_client (calls s ! k) = a" "c_rx (calls s ! k) = x"
    let ?s = "rpc_return k None ?e1 s"
    have "rpc_reachable const_rng T ?s" by (rule rpc_next [OF assms(1) step_return [OF k(1,2)]]) (simp add: k 1)
    then have "rpc_reachable const_rng T (rpc_return k (Some m) (em_set x Gone (mail s a)) ?s)"
      by (rule rpc_next) (rule step_return, use k 2 in \<open>simp_all add: rpc_return_def Let_def\<close>)
    then show "rpc_reachable const_rng T (rpc_return k (Some m) (em_set x Gone (mail s a)) s)"
      using k by (simp add: rpc_return_def Let_def)
  }
qed

lemma rpc_demo_reachable:
  "\<exists>s c. rpc_reachable const_rng (list_timer :: ((duration \<times> unit) list, unit) timer_ops) s \<and> rpc_fresh s \<and>
     calls s = [c] \<and> c_tag c = 99 \<and> c_req c = (5 :: nat) \<and> c_out c = Some (Ok (6 :: nat, []))"
proof -
  let ?T = "list_timer :: ((duration \<times> unit) list, unit) timer_ops"
  define s2 where "s2 = rpc_call demo_client demo_server 7 99 5 [] (rpc_serve demo_server 7 (rpc_start :: (nat, nat) rpc_sys))"
  define s3 where "s3 = net_deliver 0 s2"
  define s4 where "s4 = rpc_accept 0 (Some demo_req) (em_set 0 Gone (mail s3 demo_server)) s3"
  define s5 where "s5 = net_deliver 0 (rpc_respond 0 (6, []) s4)"
  define s6 where "s6 = rpc_return 0 (Some demo_rsp) (em_set 0 Gone (mail s5 demo_client)) s5"
  note ne = demo_neq demo_neq [symmetric]
  have r3: "rpc_reachable const_rng ?T s3"
    unfolding s3_def s2_def
    by (rule rpc_next [OF _ step_deliver], rule rpc_next [OF _ step_call], rule rpc_next [OF rpc_init step_serve])
      (simp add: demo_step_defs)
  have s3: "mail s3 demo_server = \<lparr>em_box = \<lparr>registered = [], msgs = []\<rparr>, em_recvs = [(7, Filled demo_req)]\<rparr>"
    "loops s3 = [(demo_server, 7, 0)]"
    using ne by (simp_all add: s3_def s2_def demo_step_defs demo_req_def)
  have r4: "rpc_reachable const_rng ?T s4"
    unfolding s4_def by (rule demo_two_polls(1) [OF r3 refl]) (simp_all add: s3 demo_req_def)
  have "jobs s4 = [\<lparr>j_server = demo_server, j_from = demo_client, j_id = 7, j_tag = 99, j_req = 5, j_data = []\<rparr>]" "flight s4 = []"
    "mail s4 demo_client = \<lparr>em_box = \<lparr>registered = [(99, 0)], msgs = []\<rparr>, em_recvs = [(99, Waiting)]\<rparr>"
    using ne by (simp_all add: s4_def s3_def s2_def demo_step_defs demo_req_def)
  note s4 = this
  have r5: "rpc_reachable const_rng ?T s5"
    unfolding s5_def by (rule rpc_next [OF _ step_deliver], rule rpc_next [OF r4 step_respond])
      (simp_all add: s4 rpc_respond_def post_def)
  have s5: "mail s5 demo_client = \<lparr>em_box = \<lparr>registered = [], msgs = []\<rparr>, em_recvs = [(99, Filled demo_rsp)]\<rparr>"
    "calls s5 = [\<lparr>c_client = demo_client, c_dst = demo_server, c_id = 7, c_tag = 99, c_req = 5, c_data = [], c_rx = 0, c_out = None\<rparr>]"
    "loops s5 = [(demo_server, 7, 1)]"
    using ne by (simp_all add: s5_def s4_def s3_def s2_def demo_step_defs demo_req_def demo_rsp_def)
  have r6: "rpc_reachable const_rng ?T s6"
    unfolding s6_def by (rule demo_two_polls(2) [OF r5 refl]) (simp_all add: s5 demo_rsp_def)
  have s6: "calls s6 = [\<lparr>c_client = demo_client, c_dst = demo_server, c_id = 7, c_tag = 99, c_req = 5, c_data = [], c_rx = 0,
      c_out = Some (Ok (6, []))\<rparr>]" "loops s6 = [(demo_server, 7, 1)]"
    by (simp_all add: s6_def rpc_return_def s5 call_answer_def demo_rsp_def Let_def)
  then have "rpc_fresh s6" by (simp add: rpc_fresh_def asked_def job_of_def)
  then show ?thesis using r6 s6 by auto
qed

theorem rpc_at_most_once_witness:
  "\<exists>s c x. rpc_reachable const_rng (list_timer :: ((duration \<times> unit) list, unit) timer_ops) s \<and> rpc_fresh s \<and> c \<in> set (calls s) \<and>
     c_out c = Some (Ok (6 :: nat, [])) \<and> (job_of c, 6, []) \<in> set (runs s) \<and> j_req (job_of c) = (5 :: nat)"
proof -
  obtain s c where s: "rpc_reachable const_rng (list_timer :: ((duration \<times> unit) list, unit) timer_ops) s" "rpc_fresh s"
    "calls s = [c]" "c_req c = (5 :: nat)" "c_out c = Some (Ok (6 :: nat, []))"
    using rpc_demo_reachable by blast
  then show ?thesis using rpc_at_most_once [OF s(1,2)] by (fastforce simp: job_of_def)
qed

end
