(* ===== verification/Kafka.thy ===== *)
theory Kafka
  imports Prelude "HOL-Library.AList"
begin

section \<open>The Kafka broker (\<open>madsim-rdkafka/src/sim/broker.rs\<close>, \<open>sim_broker.rs\<close>, \<open>message.rs\<close>, \<open>topic_partition_list.rs\<close>)\<close>

text \<open>
  Topics of partitions of messages: round-robin production, fetching with size limits, watermarks and the lookup of offsets by time.
  Offsets and timestamps (\<open>i64\<close>) and partition numbers (\<open>i32\<close>) are integers, sizes are naturals: a log does not reach
  \<open>2\<^sup>6\<^sup>3\<close> messages.  The hash map of the topics is an association list; the order in which \<open>metadata\<close> lists the topics is
  that of the list.
\<close>

type_synonym blob = "8 word list"

subsection \<open>Messages\<close>

datatype timestamp = NotAvailable | CreateTime int | LogAppendTime int

fun to_millis :: "timestamp \<Rightarrow> int option" where
  "to_millis NotAvailable = None"
| "to_millis (CreateTime t) = (if t = -1 then None else Some t)"
| "to_millis (LogAppendTime t) = (if t = -1 then None else Some t)"

record owned_message =
  m_payload :: "blob option"
  m_key :: "blob option"
  m_topic :: string
  m_timestamp :: timestamp
  m_partition :: int
  m_offset :: int
  m_headers :: "(string \<times> blob) list option"

definition message_size :: "owned_message \<Rightarrow> nat" where
  "message_size m =
     10 + (case m_payload m of Some p \<Rightarrow> length p | None \<Rightarrow> 0) + (case m_key m of Some k \<Rightarrow> length k | None \<Rightarrow> 0)"

subsection \<open>Topic partition lists\<close>

datatype offset = Beginning | End | Stored | Invalid | Offset int | OffsetTail int

record elem =
  e_topic :: string
  e_partition :: int
  e_offset :: offset

type_synonym topic_partition_list = "elem list"

definition add_partition :: "string \<Rightarrow> int \<Rightarrow> topic_partition_list \<Rightarrow> topic_partition_list" where
  "add_partition t p l = l @ [\<lparr>e_topic = t, e_partition = p, e_offset = Invalid\<rparr>]"

definition add_partition_offset :: "string \<Rightarrow> int \<Rightarrow> offset \<Rightarrow> topic_partition_list \<Rightarrow> topic_partition_list" where
  "add_partition_offset t p off l = l @ [\<lparr>e_topic = t, e_partition = p, e_offset = off\<rparr>]"

definition elements_for_topic :: "string \<Rightarrow> topic_partition_list \<Rightarrow> elem list" where
  "elements_for_topic t l = filter (\<lambda>e. e_topic e = t) l"

subsection \<open>Errors\<close>

datatype error_code =
    UnknownTopic | UnknownPartition | NoOffset | InvalidTimestamp | QueueFull | RequestTimedOut | InvalidTransactionalState string

datatype kafka_error =
    MessageProduction error_code | MessageConsumption error_code | MetadataFetch error_code | OffsetFetch error_code
  | Flush error_code | Seek string | Transaction error_code | Io string

definition map_err :: "('e \<Rightarrow> 'f) \<Rightarrow> ('e, 'a) res \<Rightarrow> ('f, 'a) res" where
  "map_err f r = (case r of Ok a \<Rightarrow> Ok a | Err e \<Rightarrow> Err (f e) | Panic p \<Rightarrow> Panic p)"

lemma map_err_simps [simp]:
  "map_err f (Ok a) = Ok a" "map_err f (Err e) = Err (f e)" "map_err f (Panic p) = Panic p"
  by (simp_all add: map_err_def)

lemma map_err_Ok_iff [simp]: "map_err f r = Ok a \<longleftrightarrow> r = Ok a"
  by (cases r) auto

subsection \<open>State\<close>

record partition =
  p_id :: int
  log_end_offset :: int
  low_watermark :: int
  high_watermark :: int
  p_msgs :: "owned_message list"

record topic =
  t_name :: string
  t_partitions :: "partition list"
  last_partition :: nat

record broker =
  topics :: "(string \<times> topic) list"

definition broker_default :: broker where
  "broker_default = \<lparr>topics = []\<rparr>"

definition partition_new :: "int \<Rightarrow> partition" where
  "partition_new i = \<lparr>p_id = i, log_end_offset = 0, low_watermark = 0, high_watermark = 0, p_msgs = []\<rparr>"

definition topic_new :: "string \<Rightarrow> nat \<Rightarrow> topic" where
  "topic_new n k = \<lparr>t_name = n, t_partitions = map (\<lambda>i. partition_new (int i)) [0..<k], last_partition = 0\<rparr>"

subsection \<open>Operations\<close>

fun time_of :: "timestamp \<Rightarrow> int" where
  "time_of NotAvailable = 0"
| "time_of (CreateTime t) = t"
| "time_of (LogAppendTime t) = t"

definition offset_for_time :: "partition \<Rightarrow> int \<Rightarrow> int option" where
  "offset_for_time p t =
     (let idx = partition_point (\<lambda>m. time_of (m_timestamp m) < t) (p_msgs p)
      in if idx < length (p_msgs p) then Some (m_offset (p_msgs p ! idx)) else None)"

definition create_topic :: "string \<Rightarrow> nat \<Rightarrow> broker \<Rightarrow> (kafka_error, unit, broker) outcome" where
  "create_topic n k b = (Ok (), b\<lparr>topics := AList.update n (topic_new n k) (topics b)\<rparr>)"

text \<open>The partition takes the message in with the next offset.\<close>

definition push_message :: "owned_message \<Rightarrow> nat \<Rightarrow> partition \<Rightarrow> partition" where
  "push_message m idx p =
     p\<lparr>p_msgs := p_msgs p @ [m\<lparr>m_partition := int idx, m_offset := log_end_offset p\<rparr>],
       log_end_offset := log_end_offset p + 1, high_watermark := log_end_offset p + 1\<rparr>"

definition produce_one :: "owned_message \<Rightarrow> broker \<Rightarrow> (kafka_error, unit, broker) outcome" where
  "produce_one m b =
     (case map_of (topics b) (m_topic m) of
        None \<Rightarrow> (Err (MessageProduction UnknownTopic), b)
      | Some t \<Rightarrow>
          (let idx = last_partition t;
               nxt = (if length (t_partitions t) \<le> idx + 1 then 0 else idx + 1);
               t = t\<lparr>last_partition := nxt\<rparr>
           in if length (t_partitions t) \<le> idx then
                (Panic ''index out of bounds'', b\<lparr>topics := AList.update (m_topic m) t (topics b)\<rparr>)
              else
                (Ok (), b\<lparr>topics := AList.update (m_topic m)
                   (t\<lparr>t_partitions := (t_partitions t)[idx := push_message m idx (t_partitions t ! idx)]\<rparr>) (topics b)\<rparr>)))"

primrec produce :: "owned_message list \<Rightarrow> broker \<Rightarrow> (kafka_error, unit, broker) outcome" where
  "produce [] b = (Ok (), b)"
| "produce (m # ms) b = st_bind (produce_one m b) (\<lambda>_. produce ms)"

text \<open>\<open>partition as usize\<close> of a negative number is larger than every vector.\<close>

definition get_partition :: "string \<Rightarrow> int \<Rightarrow> broker \<Rightarrow> (error_code, partition) res" where
  "get_partition t p b =
     bind_res (ok_or UnknownTopic (map_of (topics b) t)) (\<lambda>tp.
       if 0 \<le> p \<and> nat p < length (t_partitions tp) then Ok (t_partitions tp ! nat p) else Err UnknownPartition)"

record fetch_options =
  max_partition_fetch_bytes :: nat
  fetch_max_bytes :: nat

definition fetch_options_default :: fetch_options where
  "fetch_options_default = \<lparr>max_partition_fetch_bytes = 1048576, fetch_max_bytes = 52428800\<rparr>"

definition start_idx :: "partition \<Rightarrow> offset \<Rightarrow> (kafka_error, nat) res" where
  "start_idx p off =
     (case off of
        Beginning \<Rightarrow> Ok 0
      | End \<Rightarrow> Ok (length (p_msgs p) - 1)
      | Stored \<Rightarrow> Panic ''stored offset is not available''
      | Invalid \<Rightarrow> Err (MessageConsumption NoOffset)
      | Offset i \<Rightarrow> Ok (partition_point (\<lambda>m. m_offset m < i) (p_msgs p))
      | OffsetTail _ \<Rightarrow> Panic ''not yet implemented: offset tail'')"

text \<open>
  The loop over the messages of one partition.  The state is the messages returned so far, the bytes in all and in this partition, and
  the offset of the element; the first component says that a limit was hit, which ends the whole fetch.
\<close>

fun fetch_msgs :: "fetch_options \<Rightarrow> int \<Rightarrow> owned_message list \<Rightarrow> owned_message list \<Rightarrow> nat \<Rightarrow> nat \<Rightarrow> offset
    \<Rightarrow> bool \<times> owned_message list \<times> nat \<times> offset" where
  "fetch_msgs opts hw [] rets tot here off = (False, rets, tot, off)"
| "fetch_msgs opts hw (m # ms) rets tot here off =
     (if hw \<le> m_offset m then fetch_msgs opts hw ms rets tot here off
      else if fetch_max_bytes opts < tot + message_size m \<or> max_partition_fetch_bytes opts < here + message_size m
        then (True, rets, tot, off)
      else fetch_msgs opts hw ms (rets @ [m]) (tot + message_size m) (here + message_size m) (Offset (m_offset m + 1)))"

fun fetch_loop :: "fetch_options \<Rightarrow> broker \<Rightarrow> elem list \<Rightarrow> elem list \<Rightarrow> owned_message list \<Rightarrow> nat
    \<Rightarrow> (kafka_error, owned_message list \<times> topic_partition_list) res" where
  "fetch_loop opts b [] seen rets tot = Ok (rets, seen)"
| "fetch_loop opts b (e # es) seen rets tot =
     bind_res (map_err MessageConsumption (get_partition (e_topic e) (e_partition e) b)) (\<lambda>p.
       if p_msgs p = [] then fetch_loop opts b es (seen @ [e]) rets tot
       else bind_res (start_idx p (e_offset e)) (\<lambda>i.
         case fetch_msgs opts (high_watermark p) (drop i (p_msgs p)) rets tot 0 (e_offset e) of
           (limit, rets, tot, off) \<Rightarrow>
             if limit then Ok (rets, seen @ [e\<lparr>e_offset := off\<rparr>] @ es)
             else fetch_loop opts b es (seen @ [e\<lparr>e_offset := off\<rparr>]) rets tot))"

definition fetch :: "topic_partition_list \<Rightarrow> fetch_options \<Rightarrow> broker \<Rightarrow> (kafka_error, owned_message list \<times> topic_partition_list) res" where
  "fetch tpl opts b = fetch_loop opts b tpl [] [] 0"

text \<open>The metadata of a topic: its name and the ids of its partitions.\<close>

definition topic_metadata :: "topic \<Rightarrow> string \<times> int list" where
  "topic_metadata t = (t_name t, map p_id (t_partitions t))"

definition metadata :: "broker \<Rightarrow> (kafka_error, (string \<times> int list) list) res" where
  "metadata b = Ok (map (topic_metadata \<circ> snd) (topics b))"

definition metadata_of_topic :: "string \<Rightarrow> broker \<Rightarrow> (kafka_error, string \<times> int list) res" where
  "metadata_of_topic t b =
     bind_res (ok_or (MetadataFetch UnknownTopic) (map_of (topics b) t)) (\<lambda>tp. Ok (topic_metadata tp))"

definition fetch_watermarks :: "string \<Rightarrow> int \<Rightarrow> broker \<Rightarrow> (kafka_error, int \<times> int) res" where
  "fetch_watermarks t p b =
     bind_res (map_err OffsetFetch (get_partition t p b)) (\<lambda>p. Ok (low_watermark p, high_watermark p))"

primrec offsets_for_times_loop :: "broker \<Rightarrow> elem list \<Rightarrow> topic_partition_list \<Rightarrow> (kafka_error, topic_partition_list) res" where
  "offsets_for_times_loop b [] ret = Ok ret"
| "offsets_for_times_loop b (e # es) ret =
     bind_res (map_err OffsetFetch (get_partition (e_topic e) (e_partition e) b)) (\<lambda>p.
       case e_offset e of
         Offset ts \<Rightarrow>
           offsets_for_times_loop b es (add_partition_offset (e_topic e) (e_partition e)
             (case offset_for_time p ts of Some i \<Rightarrow> Offset i | None \<Rightarrow> Invalid) ret)
       | _ \<Rightarrow> Err (OffsetFetch InvalidTimestamp))"

definition offsets_for_times :: "topic_partition_list \<Rightarrow> broker \<Rightarrow> (kafka_error, topic_partition_list) res" where
  "offsets_for_times tpl b = offsets_for_times_loop b tpl []"

subsection \<open>Requests\<close>

datatype kafka_request =
    CreateTopic string nat
  | Produce "owned_message list"
  | Fetch topic_partition_list fetch_options
  | FetchMetadata "string option"
  | FetchWatermarks string int
  | OffsetsForTimes topic_partition_list

datatype kafka_response =
    KDone
  | KFetched "owned_message list" topic_partition_list
  | KMetadata "(string \<times> int list) list"
  | KWatermarks int int
  | KOffsets topic_partition_list

definition kmap :: "('a \<Rightarrow> 'b) \<Rightarrow> ('e, 'a) res \<Rightarrow> ('e, 'b) res" where
  "kmap f r = bind_res r (\<lambda>a. Ok (f a))"

fun broker_serve :: "kafka_request \<Rightarrow> broker \<Rightarrow> (kafka_error, kafka_response, broker) outcome" where
  "broker_serve (CreateTopic n k) b = st_bind (create_topic n k b) (\<lambda>_ b. (Ok KDone, b))"
| "broker_serve (Produce ms) b = st_bind (produce ms b) (\<lambda>_ b. (Ok KDone, b))"
| "broker_serve (Fetch tpl opts) b = (kmap (\<lambda>(ms, tpl). KFetched ms tpl) (fetch tpl opts b), b)"
| "broker_serve (FetchMetadata (Some t)) b = (kmap (\<lambda>m. KMetadata [m]) (metadata_of_topic t b), b)"
| "broker_serve (FetchMetadata None) b = (kmap KMetadata (metadata b), b)"
| "broker_serve (FetchWatermarks t p) b = (kmap (\<lambda>(lo, hi). KWatermarks lo hi) (fetch_watermarks t p b), b)"
| "broker_serve (OffsetsForTimes tpl) b = (kmap KOffsets (offsets_for_times tpl b), b)"

end
