(* ===== verification/KafkaClient.thy ===== *)
theory KafkaClient
  imports Kafka
begin

section \<open>Kafka producers and consumers (\<open>madsim-rdkafka/src/sim/producer\<close>, \<open>consumer.rs\<close>, \<open>admin.rs\<close>)\<close>

text \<open>
  The state machine of the producer with its buffer and transactions, the delivery reports, and the consumer with its assignment
  and its buffer of fetched messages, on top of the broker.  How the connection to the broker fares is an argument, the
  \<open>fate\<close> of a request: it is answered, or an I/O error ends it, or the time limit of the caller does; in the last two cases the
  broker may have served the request or not.
\<close>

datatype fate = Answered | Broken bool string | TimedOut bool

text \<open>The broker's state after a request whose answer is lost.\<close>

definition lose_answer :: "kafka_error \<Rightarrow> bool \<Rightarrow> kafka_request \<Rightarrow> broker \<Rightarrow> (kafka_error, 'a, broker) outcome" where
  "lose_answer e served q b =
     (if served then (case broker_serve q b of (Panic p, b) \<Rightarrow> (Panic p, b) | (_, b) \<Rightarrow> (Err e, b)) else (Err e, b))"

subsection \<open>Records\<close>

record 'd base_record =
  r_topic :: string
  r_partition :: "int option"
  r_payload :: "blob option"
  r_key :: "blob option"
  r_timestamp :: "int option"
  r_headers :: "(string \<times> blob) list option"
  delivery_opaque :: 'd

definition with_opaque_to :: "string \<Rightarrow> 'd \<Rightarrow> 'd base_record" where
  "with_opaque_to t d =
     \<lparr>r_topic = t, r_partition = None, r_payload = None, r_key = None, r_timestamp = None, r_headers = None, delivery_opaque = d\<rparr>"

definition into_owned :: "'d base_record \<Rightarrow> owned_message \<times> 'd" where
  "into_owned r =
     (\<lparr>m_payload = r_payload r, m_key = r_key r, m_topic = r_topic r,
       m_timestamp = (case r_timestamp r of Some t \<Rightarrow> CreateTime t | None \<Rightarrow> NotAvailable),
       m_partition = (case r_partition r of Some p \<Rightarrow> p | None \<Rightarrow> -1), m_offset = 0, m_headers = r_headers r\<rparr>,
      delivery_opaque r)"

subsection \<open>The producer\<close>

record producer_config =
  transactional_id :: "string option"
  queue_buffering_max_messages :: nat

datatype 'd inner =
    Init
  | NonTxn "(owned_message \<times> 'd) list"
  | Txn "(owned_message \<times> 'd) list option"

definition producer_send :: "producer_config \<Rightarrow> 'd base_record \<Rightarrow> 'd inner \<Rightarrow> (kafka_error \<times> 'd base_record, unit, 'd inner) outcome" where
  "producer_send cfg r i =
     (case (case i of Init \<Rightarrow> NonTxn [] | _ \<Rightarrow> i) of
        NonTxn buffer \<Rightarrow>
          if queue_buffering_max_messages cfg \<le> length buffer then (Err (MessageProduction QueueFull, r), NonTxn buffer)
          else (Ok (), NonTxn (buffer @ [into_owned r]))
      | Txn None \<Rightarrow> (Panic ''messages should only be sent when a transaction is active'', i)
      | Txn (Some buffer) \<Rightarrow> (Ok (), Txn (Some (buffer @ [into_owned r])))
      | Init \<Rightarrow> (Panic ''unreachable'', i))"

text \<open>
  The delivery reports that a flush makes: the opaque value of the record with the message, or with the error of the broker.  They
  are the result of a flush that goes through, even of one that the broker rejects.
\<close>

type_synonym 'd report = "'d \<times> ((kafka_error \<times> owned_message) + owned_message)"

definition flush_internal :: "fate \<Rightarrow> (owned_message \<times> 'd) list \<Rightarrow> broker \<Rightarrow> (kafka_error, 'd report list, broker) outcome" where
  "flush_internal f records b =
     (let q = Produce (map fst records) in
      case f of
        Answered \<Rightarrow>
          (case broker_serve q b of
             (Ok _, b) \<Rightarrow> (Ok (map (\<lambda>(m, d). (d, Inr m)) records), b)
           | (Err e, b) \<Rightarrow> (Ok (map (\<lambda>(m, d). (d, Inl (e, m))) records), b)
           | (Panic p, b) \<Rightarrow> (Panic p, b))
      | Broken served e \<Rightarrow> lose_answer (Io e) served q b
      | TimedOut served \<Rightarrow> lose_answer (Flush RequestTimedOut) served q b)"

definition producer_flush :: "fate \<Rightarrow> 'd inner \<Rightarrow> broker \<Rightarrow> (kafka_error, 'd report list, 'd inner \<times> broker) outcome" where
  "producer_flush f i b =
     (case i of
        NonTxn buffer \<Rightarrow>
          if buffer \<noteq> [] then (let (r, b) = flush_internal f buffer b in (r, NonTxn [], b))
          else (Ok [], i, b)
      | _ \<Rightarrow> (Ok [], i, b))"

definition invalid_transaction_state :: "string \<Rightarrow> kafka_error" where
  "invalid_transaction_state msg = Transaction (InvalidTransactionalState msg)"

definition init_transactions :: "producer_config \<Rightarrow> 'd inner \<Rightarrow> (kafka_error, unit, 'd inner) outcome" where
  "init_transactions cfg i =
     (if transactional_id cfg = None then (Err (invalid_transaction_state ''transactional ID not set''), i)
      else case i of
        Init \<Rightarrow> (Ok (), Txn None)
      | _ \<Rightarrow> (Err (invalid_transaction_state ''init_transactions must be called before any operations''), i))"

definition begin_transaction :: "'d inner \<Rightarrow> (kafka_error, unit, 'd inner) outcome" where
  "begin_transaction i =
     (case i of
        Txn buffer \<Rightarrow>
          if buffer = None then (Ok (), Txn (Some []))
          else (Err (invalid_transaction_state ''transaction already in progress''), i)
      | _ \<Rightarrow> (Err (invalid_transaction_state ''transaction not initialized''), i))"

text \<open>\<open>std::mem::take\<close> leaves an empty buffer in place.\<close>

definition commit_transaction :: "fate \<Rightarrow> 'd inner \<Rightarrow> broker \<Rightarrow> (kafka_error, 'd report list, 'd inner \<times> broker) outcome" where
  "commit_transaction f i b =
     (case i of
        Txn (Some buffer) \<Rightarrow> (let (r, b) = flush_internal f buffer b in (r, Txn (Some []), b))
      | _ \<Rightarrow> (Err (invalid_transaction_state ''no opened transaction''), i, b))"

definition abort_transaction :: "'d inner \<Rightarrow> (kafka_error, unit, 'd inner) outcome" where
  "abort_transaction i =
     (case i of
        Txn (Some _) \<Rightarrow> (Ok (), Txn None)
      | _ \<Rightarrow> (Err (invalid_transaction_state ''no opened transaction''), i))"

text \<open>The report of the future producer: partition and offset of the message it has.\<close>

definition future_delivery :: "(kafka_error \<times> owned_message) + owned_message \<Rightarrow> (kafka_error \<times> owned_message) + (int \<times> int)" where
  "future_delivery r = (case r of Inl em \<Rightarrow> Inl em | Inr m \<Rightarrow> Inr (m_partition m, m_offset m))"

subsection \<open>The consumer\<close>

datatype auto_offset_reset_strategy = Latest | Earliest | ResetNone

record consumer =
  auto_offset_reset :: auto_offset_reset_strategy
  c_opts :: fetch_options
  c_tpl :: topic_partition_list
  c_msgs :: "owned_message list"

definition consumer_new :: "auto_offset_reset_strategy \<Rightarrow> fetch_options \<Rightarrow> consumer" where
  "consumer_new rs opts = \<lparr>auto_offset_reset = rs, c_opts = opts, c_tpl = [], c_msgs = []\<rparr>"

definition reset_offset :: "consumer \<Rightarrow> elem \<Rightarrow> elem" where
  "reset_offset c e =
     (if e_offset e = Invalid then
        (case auto_offset_reset c of
           Latest \<Rightarrow> e\<lparr>e_offset := End\<rparr>
         | Earliest \<Rightarrow> e\<lparr>e_offset := Beginning\<rparr>
         | ResetNone \<Rightarrow> e)
      else e)"

definition assign :: "topic_partition_list \<Rightarrow> consumer \<Rightarrow> consumer" where
  "assign tpl c = c\<lparr>c_tpl := map (reset_offset c) tpl\<rparr>"

definition elem_id :: "elem \<Rightarrow> string \<times> int" where
  "elem_id e = (e_topic e, e_partition e)"

fun assign_loop :: "(string \<times> int) set \<Rightarrow> elem list \<Rightarrow> topic_partition_list \<Rightarrow> topic_partition_list" where
  "assign_loop assigned [] cur = cur"
| "assign_loop assigned (e # es) cur =
     (if elem_id e \<in> assigned then assign_loop assigned es cur
      else assign_loop (insert (elem_id e) assigned) es (cur @ [e]))"

definition incremental_assign :: "topic_partition_list \<Rightarrow> consumer \<Rightarrow> consumer" where
  "incremental_assign tpl c =
     c\<lparr>c_tpl := assign_loop (set (map elem_id (c_tpl c))) (map (reset_offset c) tpl) (c_tpl c)\<rparr>"

definition incremental_unassign :: "topic_partition_list \<Rightarrow> consumer \<Rightarrow> consumer" where
  "incremental_unassign tpl c =
     (if c_tpl c = [] then c
      else c\<lparr>c_tpl := filter (\<lambda>e. elem_id e \<notin> set (map elem_id tpl)) (c_tpl c)\<rparr>)"

text \<open>\<open>index_by_key\<close>: of several elements with the same key the last one counts.\<close>

definition index_by_key :: "topic_partition_list \<Rightarrow> (string \<times> int) \<Rightarrow> nat option" where
  "index_by_key l = map_of (rev (zip (map elem_id l) [0..<length l]))"

definition seek_check :: "elem \<Rightarrow> (kafka_error, unit) res" where
  "seek_check r =
     (case e_offset r of
        Invalid \<Rightarrow> Err (Seek ''invalid offset'')
      | Stored \<Rightarrow> Err (Seek ''stored offset is not supported'')
      | OffsetTail _ \<Rightarrow> Err (Seek ''offset tail is not supported'')
      | _ \<Rightarrow> Ok ())"

primrec target_indices :: "topic_partition_list \<Rightarrow> elem list \<Rightarrow> (kafka_error, nat list) res" where
  "target_indices cur [] = Ok []"
| "target_indices cur (r # rs) =
     bind_res (seek_check r) (\<lambda>_.
     bind_res (ok_or (Seek ''partition is not currently assigned'') (index_by_key cur (elem_id r))) (\<lambda>i.
     bind_res (target_indices cur rs) (\<lambda>is. Ok (i # is))))"

definition seek_partitions :: "topic_partition_list \<Rightarrow> consumer \<Rightarrow> (kafka_error, topic_partition_list, consumer) outcome" where
  "seek_partitions rs c =
     st_bind (target_indices (c_tpl c) rs, c) (\<lambda>is c.
       (Ok rs, c\<lparr>c_msgs := [],
         c_tpl := fold (\<lambda>(r, i) l. l[i := (l ! i)\<lparr>e_offset := e_offset r\<rparr>]) (zip rs is) (c_tpl c)\<rparr>))"

text \<open>A poll takes a buffered message, or fetches; the argument is the I/O error that the fetch meets, if it meets one.\<close>

definition pop_front :: "consumer \<Rightarrow> (kafka_error, owned_message option, consumer) outcome" where
  "pop_front c = (case c_msgs c of [] \<Rightarrow> (Ok None, c) | m # ms \<Rightarrow> (Ok (Some m), c\<lparr>c_msgs := ms\<rparr>))"

definition poll_internal :: "string option \<Rightarrow> broker \<Rightarrow> consumer \<Rightarrow> (kafka_error, owned_message option, consumer) outcome" where
  "poll_internal f b c =
     (if c_msgs c = [] then
        if c_tpl c = [] then (Ok None, c)
        else (case f of
                None \<Rightarrow>
                  st_bind (fetch (c_tpl c) (c_opts c) b, c) (\<lambda>(ms, tpl) c. pop_front (c\<lparr>c_msgs := ms, c_tpl := tpl\<rparr>))
              | Some e \<Rightarrow> (Err (Io e), c))
      else pop_front c)"

text \<open>
  One round of the task of the stream consumer: what the poll gives goes into the channel, errors too; without a message the task
  sleeps for a second, which the result says.
\<close>

definition stream_round :: "string option \<Rightarrow> broker \<Rightarrow> consumer \<Rightarrow> (kafka_error + owned_message) list
    \<Rightarrow> (kafka_error, bool, consumer \<times> (kafka_error + owned_message) list) outcome" where
  "stream_round f b c chn =
     (case poll_internal f b c of
        (Ok (Some m), c) \<Rightarrow> (Ok False, c, chn @ [Inr m])
      | (Ok None, c) \<Rightarrow> (Ok True, c, chn)
      | (Err e, c) \<Rightarrow> (Ok False, c, chn @ [Inl e])
      | (Panic p, c) \<Rightarrow> (Panic p, c, chn))"

subsection \<open>The admin client\<close>

text \<open>One request per topic; an I/O error, before or after the broker has served the request, ends the loop.\<close>

definition usize_of_i32 :: "int \<Rightarrow> nat" where
  "usize_of_i32 n = nat (n mod 2 ^ 64)"

primrec create_topics :: "(string \<times> int) list \<Rightarrow> (bool \<times> string) option list \<Rightarrow> broker \<Rightarrow> (kafka_error, string list, broker) outcome" where
  "create_topics [] fs b = (Ok [], b)"
| "create_topics (t # ts) fs b =
     (let q = CreateTopic (fst t) (usize_of_i32 (snd t)) in
      case fs of
        Some (served, e) # _ \<Rightarrow> lose_answer (Io e) served q b
      | _ \<Rightarrow>
          (case broker_serve q b of
             (Ok _, b) \<Rightarrow> st_bind (create_topics ts (drop 1 fs) b) (\<lambda>rs b. (Ok (fst t # rs), b))
           | (Err _, b) \<Rightarrow> (Panic ''not yet implemented: failed to create topic'', b)
           | (Panic p, b) \<Rightarrow> (Panic p, b)))"

end
