(* ===== verification/KafkaProps.thy ===== *)
theory KafkaProps
  imports KafkaClient "HOL-Library.Sublist"
begin

section \<open>Correctness of the Kafka simulation\<close>

text \<open>
  The invariant of the broker (dense offsets, watermarks at the end of the log), round-robin production, the lookup by
  time, and the consumer: it sees every log in order, without gaps and without repetition, and makes progress.
\<close>

subsection \<open>The invariant of the broker\<close>

definition msg_id :: "owned_message \<Rightarrow> string \<times> int" where
  "msg_id m = (m_topic m, m_partition m)"

definition partition_ok :: "string \<times> int \<Rightarrow> partition \<Rightarrow> bool" where
  "partition_ok x p \<longleftrightarrow>
     p_id p = snd x \<and> low_watermark p = 0 \<and> log_end_offset p = int (length (p_msgs p)) \<and>
     high_watermark p = int (length (p_msgs p)) \<and>
     (\<forall>j < length (p_msgs p). m_offset (p_msgs p ! j) = int j \<and> msg_id (p_msgs p ! j) = x)"

definition topic_ok :: "string \<Rightarrow> topic \<Rightarrow> bool" where
  "topic_ok n t \<longleftrightarrow>
     t_name t = n \<and> (last_partition t = 0 \<or> last_partition t < length (t_partitions t)) \<and>
     (\<forall>i < length (t_partitions t). partition_ok (n, int i) (t_partitions t ! i))"

definition broker_inv :: "broker \<Rightarrow> bool" where
  "broker_inv b \<longleftrightarrow> (\<forall>n t. map_of (topics b) n = Some t \<longrightarrow> topic_ok n t)"

inductive broker_reachable :: "broker \<Rightarrow> bool" where
  start: "broker_reachable broker_default"
| serve: "broker_reachable b \<Longrightarrow> broker_reachable (snd (broker_serve q b))"

lemma broker_invD: "broker_inv b \<Longrightarrow> map_of (topics b) n = Some t \<Longrightarrow> topic_ok n t"
  by (simp add: broker_inv_def)

lemma broker_inv_update:
  "broker_inv b \<Longrightarrow> topic_ok n t \<Longrightarrow> broker_inv (b\<lparr>topics := AList.update n t (topics b)\<rparr>)"
  by (auto simp: broker_inv_def update_conv')

lemma topic_ok_new: "topic_ok n (topic_new n k)"
  by (simp add: topic_ok_def topic_new_def partition_ok_def partition_new_def)

lemma partition_ok_push:
  "partition_ok (m_topic m, int i) p \<Longrightarrow> partition_ok (m_topic m, int i) (push_message m i p)"
  by (auto simp: partition_ok_def push_message_def nth_append msg_id_def less_Suc_eq)

lemma topic_ok_push:
  assumes "topic_ok (m_topic m) t" "i < length (t_partitions t)" "n = 0 \<or> n < length (t_partitions t)"
  shows "topic_ok (m_topic m)
    (t\<lparr>last_partition := n, t_partitions := (t_partitions t)[i := push_message m i (t_partitions t ! i)]\<rparr>)"
  using assms partition_ok_push by (auto simp: topic_ok_def nth_list_update)

lemma produce_one_inv: "broker_inv b \<Longrightarrow> broker_inv (snd (produce_one m b))"
proof (cases "map_of (topics b) (m_topic m)")
  case None
  then show "broker_inv b \<Longrightarrow> ?thesis" by (simp add: produce_one_def)
next
  case (Some t)
  assume inv: "broker_inv b"
  note ok = broker_invD [OF inv Some]
  let ?n = "if length (t_partitions t) \<le> last_partition t + 1 then 0 else last_partition t + 1"
  have "topic_ok (m_topic m) (t\<lparr>last_partition := ?n\<rparr>)" using ok by (auto simp: topic_ok_def)
  moreover have "last_partition t < length (t_partitions t) \<Longrightarrow>
    topic_ok (m_topic m) (t\<lparr>last_partition := ?n, t_partitions :=
      (t_partitions t)[last_partition t := push_message m (last_partition t) (t_partitions t ! last_partition t)]\<rparr>)"
    by (rule topic_ok_push [OF ok]) auto
  ultimately show ?thesis
    using Some broker_inv_update [OF inv] by (auto simp: produce_one_def Let_def not_le)
qed

lemma produce_inv: "broker_inv b \<Longrightarrow> broker_inv (snd (produce ms b))"
proof (induction ms arbitrary: b)
  case (Cons m ms)
  then show ?case
    using produce_one_inv [OF Cons.prems, of m]
    by (cases "produce_one m b"; cases "fst (produce_one m b)") auto
qed simp

lemma broker_serve_inv: "broker_inv b \<Longrightarrow> broker_inv (snd (broker_serve q b))"
proof (induction q b rule: broker_serve.induct)
  case (1 n k b)
  then show ?case by (simp add: create_topic_def broker_inv_update topic_ok_new)
next
  case (2 ms b)
  then show ?case using produce_inv [of b ms] by (cases "produce ms b"; cases "fst (produce ms b)") auto
qed simp_all

lemma broker_reachable_inv: "broker_reachable b \<Longrightarrow> broker_inv b"
  by (induction rule: broker_reachable.induct) (simp_all add: broker_inv_def [of broker_default] broker_serve_inv, simp add: broker_default_def)

lemma get_partition_ok:
  assumes "broker_inv b" "get_partition n i b = Ok p"
  shows "partition_ok (n, i) p"
proof -
  obtain t where t: "map_of (topics b) n = Some t" "0 \<le> i" "nat i < length (t_partitions t)" "p = t_partitions t ! nat i"
    using assms(2) by (auto simp: get_partition_def split: if_splits)
  then have "partition_ok (n, int (nat i)) p" using broker_invD [OF assms(1) t(1)] unfolding topic_ok_def by blast
  then show ?thesis using t(2) by simp
qed

subsection \<open>The logs\<close>

definition plog :: "broker \<Rightarrow> string \<times> int \<Rightarrow> owned_message list" where
  "plog b x = (case get_partition (fst x) (snd x) b of Ok p \<Rightarrow> p_msgs p | _ \<Rightarrow> [])"

lemma plog_props:
  assumes "broker_inv b" "j < length (plog b x)"
  shows "m_offset (plog b x ! j) = int j" "msg_id (plog b x ! j) = x"
  using assms get_partition_ok [OF assms(1), of "fst x" "snd x"]
  by (auto simp: plog_def partition_ok_def split: res.splits)

lemma plog_msg_id: "broker_inv b \<Longrightarrow> m \<in> set (plog b x) \<Longrightarrow> msg_id m = x"
  by (metis in_set_conv_nth plog_props(2))

lemma get_partition_update:
  "get_partition n i (b\<lparr>topics := AList.update n' t (topics b)\<rparr>) =
     (if n = n' then
        if 0 \<le> i \<and> nat i < length (t_partitions t) then Ok (t_partitions t ! nat i) else Err UnknownPartition
      else get_partition n i b)"
  by (simp add: get_partition_def update_conv')

text \<open>A produced message is appended to one log, and nothing else changes.\<close>

definition next_partition :: "broker \<Rightarrow> string \<Rightarrow> int" where
  "next_partition b n = (case map_of (topics b) n of Some t \<Rightarrow> int (last_partition t) | None \<Rightarrow> 0)"

definition stamp :: "broker \<Rightarrow> owned_message \<Rightarrow> owned_message" where
  "stamp b m = (let i = next_partition b (m_topic m) in
     m\<lparr>m_partition := i, m_offset := int (length (plog b (m_topic m, i)))\<rparr>)"

lemma produce_one_plog:
  assumes "broker_inv b"
  shows "plog (snd (produce_one m b)) x =
    plog b x @ (if fst (produce_one m b) = Ok () \<and> x = (m_topic m, next_partition b (m_topic m)) then [stamp b m] else [])"
proof (cases "map_of (topics b) (m_topic m)")
  case None
  then show ?thesis by (simp add: produce_one_def)
next
  case (Some t)
  let ?i = "last_partition t"
  have here: "get_partition (m_topic m) i b =
    (if 0 \<le> i \<and> nat i < length (t_partitions t) then Ok (t_partitions t ! nat i) else Err UnknownPartition)" for i
    using Some by (simp add: get_partition_def)
  show ?thesis
  proof (cases "?i < length (t_partitions t)")
    case True
    then have "log_end_offset (t_partitions t ! ?i) = int (length (p_msgs (t_partitions t ! ?i)))"
      using broker_invD [OF assms Some] by (simp add: topic_ok_def partition_ok_def)
    then have st: "stamp b m = m\<lparr>m_partition := int ?i, m_offset := log_end_offset (t_partitions t ! ?i)\<rparr>"
      using True Some by (simp add: stamp_def next_partition_def plog_def here)
    show ?thesis
      using True Some unfolding st
      by (cases x) (auto simp: produce_one_def Let_def plog_def get_partition_update here next_partition_def nth_list_update
          push_message_def split: if_splits)
  next
    case False
    then show ?thesis
      using Some by (cases x) (auto simp: produce_one_def Let_def plog_def get_partition_update here)
  qed
qed

lemma produce_extends:
  "broker_inv b \<Longrightarrow> prefix (plog b x) (plog (snd (produce ms b)) x)"
proof (induction ms arbitrary: b)
  case (Cons m ms)
  let ?b = "snd (produce_one m b)"
  have one: "prefix (plog b x) (plog ?b x)" by (simp add: produce_one_plog [OF Cons.prems])
  then have "prefix (plog b x) (plog (snd (produce ms ?b)) x)"
    using Cons.IH [OF produce_one_inv [OF Cons.prems], of m] prefix_order.trans by blast
  then show ?case using one by (cases "produce_one m b"; cases "fst (produce_one m b)") auto
qed simp

text \<open>
  The offsets of a partition are dense.  In every state the broker can reach, the message at position \<open>j\<close> of a partition has the offset
  \<open>j\<close> and carries the topic and the number of its partition, and the watermarks that \<open>fetch_watermarks\<close> reports are 0 and the
  number of messages.
\<close>

theorem kafka_offsets_dense:
  assumes "broker_reachable b" "get_partition t i b = Ok p"
  shows "fetch_watermarks t i b = Ok (0, int (length (p_msgs p))) \<and>
    map m_offset (p_msgs p) = map int [0..<length (p_msgs p)] \<and>
    (\<forall>m \<in> set (p_msgs p). m_topic m = t \<and> m_partition m = i)"
proof -
  have ok: "partition_ok (t, i) p" by (rule get_partition_ok [OF broker_reachable_inv [OF assms(1)] assms(2)])
  then have "map m_offset (p_msgs p) = map int [0..<length (p_msgs p)]"
    by (intro nth_equalityI) (auto simp: partition_ok_def)
  moreover have "\<forall>m \<in> set (p_msgs p). m_topic m = t \<and> m_partition m = i"
    using ok by (auto simp: partition_ok_def msg_id_def in_set_conv_nth)
  ultimately show ?thesis using ok assms(2) by (simp add: fetch_watermarks_def partition_ok_def)
qed

text \<open>A broker with a topic of two partitions and three messages, for the witnesses.\<close>

definition memo :: "nat \<Rightarrow> owned_message" where
  "memo n = \<lparr>m_payload = Some [word_of_nat n], m_key = None, m_topic = ''t'', m_timestamp = CreateTime (int n),
     m_partition = -1, m_offset = 0, m_headers = None\<rparr>"

definition empty_topic :: broker where
  "empty_topic = snd (broker_serve (CreateTopic ''t'' 2) broker_default)"

definition demo_broker :: broker where
  "demo_broker = snd (broker_serve (Produce [memo 1, memo 2, memo 3]) empty_topic)"

lemma demo_reachable: "broker_reachable empty_topic" "broker_reachable demo_broker"
  unfolding demo_broker_def empty_topic_def by (intro broker_reachable.intros)+

lemma empty_topic_eq: "empty_topic =
  \<lparr>topics = [(''t'', \<lparr>t_name = ''t'', t_partitions = [partition_new 0, partition_new 1], last_partition = 0\<rparr>)]\<rparr>"
  by (simp add: empty_topic_def create_topic_def broker_default_def topic_new_def upt_conv_Cons)

lemma demo_broker_eq: "demo_broker =
  \<lparr>topics = [(''t'', \<lparr>t_name = ''t'', t_partitions =
    [\<lparr>p_id = 0, log_end_offset = 2, low_watermark = 0, high_watermark = 2,
       p_msgs = [(memo 1)\<lparr>m_partition := 0, m_offset := 0\<rparr>, (memo 3)\<lparr>m_partition := 0, m_offset := 1\<rparr>]\<rparr>,
     \<lparr>p_id = 1, log_end_offset = 1, low_watermark = 0, high_watermark = 1,
       p_msgs = [(memo 2)\<lparr>m_partition := 1, m_offset := 0\<rparr>]\<rparr>], last_partition = 1\<rparr>)]\<rparr>"
  by (simp add: demo_broker_def empty_topic_eq produce_one_def push_message_def partition_new_def memo_def Let_def)

theorem kafka_offsets_dense_witness: "fetch_watermarks ''t'' 0 demo_broker = Ok (0, 2)"
  using kafka_offsets_dense [OF demo_reachable(2), of "''t''" 0 "t_partitions (snd (hd (topics demo_broker))) ! 0"]
  by (simp add: demo_broker_eq get_partition_def)

subsection \<open>Production\<close>

definition content :: "owned_message \<Rightarrow> blob option \<times> blob option \<times> timestamp \<times> (string \<times> blob) list option" where
  "content m = (m_payload m, m_key m, m_timestamp m, m_headers m)"

lemma content_stamp [simp]: "content (stamp b m) = content m"
  by (simp add: content_def stamp_def Let_def)

lemma produce_one_Ok:
  assumes "broker_inv b" "map_of (topics b) (m_topic m) = Some t" "t_partitions t \<noteq> []"
  shows "fst (produce_one m b) = Ok () \<and>
    (\<exists>t'. map_of (topics (snd (produce_one m b))) (m_topic m) = Some t' \<and>
      length (t_partitions t') = length (t_partitions t) \<and>
      last_partition t' = (last_partition t + 1) mod length (t_partitions t))"
proof -
  let ?k = "length (t_partitions t)"
  have lt: "last_partition t < ?k" using broker_invD [OF assms(1,2)] assms(3) by (auto simp: topic_ok_def)
  then have "(if ?k \<le> last_partition t + 1 then 0 else last_partition t + 1) = (last_partition t + 1) mod ?k"
    by (metis Suc_eq_plus1 le_antisym less_eq_Suc_le linorder_not_le mod_less mod_self)
  then show ?thesis using assms(2) lt by (auto simp: produce_one_def Let_def update_conv')
qed

lemma produce_spread:
  assumes "broker_inv b" "map_of (topics b) n = Some t" "t_partitions t \<noteq> []" "\<forall>m \<in> set ms. m_topic m = n"
  shows "\<exists>b'. produce ms b = (Ok (), b') \<and>
    (\<forall>i < length (t_partitions t). map content (plog b' (n, int i)) =
       map content (plog b (n, int i)) @ map content (nths ms {j. (last_partition t + j) mod length (t_partitions t) = i}))"
  using assms
proof (induction ms arbitrary: b t)
  case Nil
  then show ?case by simp
next
  case (Cons m ms)
  let ?k = "length (t_partitions t)"
  let ?b = "snd (produce_one m b)"
  have n: "m_topic m = n" "\<forall>m \<in> set ms. m_topic m = n" using Cons.prems(4) by auto
  have lt: "last_partition t < ?k" using broker_invD [OF Cons.prems(1,2)] Cons.prems(3) by (auto simp: topic_ok_def)
  obtain t' where t': "fst (produce_one m b) = Ok ()" "map_of (topics ?b) n = Some t'" "length (t_partitions t') = ?k"
    "last_partition t' = (last_partition t + 1) mod ?k"
    using produce_one_Ok [of b m t] Cons.prems n by auto
  have shift: "{j. (last_partition t' + j) mod ?k = i} = {j. Suc j \<in> {j. (last_partition t + j) mod ?k = i}}" for i
    by (simp add: t'(4) mod_simps)
  have ne: "t_partitions t' \<noteq> []" using t'(3) Cons.prems(3) by auto
  obtain b' where b': "produce ms ?b = (Ok (), b')"
    "\<And>i. i < ?k \<Longrightarrow> map content (plog b' (n, int i)) = map content (plog ?b (n, int i)) @
       map content (nths ms {j. (last_partition t' + j) mod ?k = i})"
    using Cons.IH [OF produce_one_inv [OF Cons.prems(1)] t'(2) ne n(2)] unfolding t'(3) by blast
  have "next_partition b n = int (last_partition t)" using Cons.prems(2) by (simp add: next_partition_def)
  then have "map content (plog ?b (n, int i)) =
      map content (plog b (n, int i)) @ (if i = last_partition t then [content m] else [])" for i
    using produce_one_plog [OF Cons.prems(1), of m "(n, int i)"] n(1) t'(1) by auto
  then have "map content (plog b' (n, int i)) = map content (plog b (n, int i)) @
      map content (nths (m # ms) {j. (last_partition t + j) mod ?k = i})" if "i < ?k" for i
    using b'(2) [OF that] lt unfolding nths_Cons shift by auto
  moreover have "produce (m # ms) b = (Ok (), b')" using t'(1) b'(1) by (cases "produce_one m b") auto
  ultimately show ?case by blast
qed

text \<open>
  Messages are spread round robin.  Messages for an existing topic with \<open>k > 0\<close> partitions are all accepted.  Whatever partition they ask for, the
  \<open>j\<close>-th of them goes to partition \<open>(last + j) mod k\<close>: partition \<open>i\<close> keeps its log and gets, in their order and with their
  content unchanged, exactly the messages whose turn it is.
\<close>

theorem kafka_produce_round_robin:
  assumes "broker_reachable b" "map_of (topics b) n = Some t" "t_partitions t \<noteq> []" "\<forall>m \<in> set ms. m_topic m = n"
  shows "\<exists>b'. produce ms b = (Ok (), b') \<and>
    (\<forall>i < length (t_partitions t). prefix (plog b (n, int i)) (plog b' (n, int i)) \<and>
       map content (drop (length (plog b (n, int i))) (plog b' (n, int i))) =
         map content (nths ms {j. (last_partition t + j) mod length (t_partitions t) = i}))"
proof -
  note inv = broker_reachable_inv [OF assms(1)]
  obtain b' where b': "produce ms b = (Ok (), b')" "\<And>i. i < length (t_partitions t) \<Longrightarrow>
    map content (plog b' (n, int i)) = map content (plog b (n, int i)) @
      map content (nths ms {j. (last_partition t + j) mod length (t_partitions t) = i})"
    using produce_spread [OF inv assms(2-4)] by blast
  have "prefix (plog b x) (plog b' x)" for x using produce_extends [OF inv, of x ms] b'(1) by simp
  moreover have "map content (drop (length (plog b (n, int i))) (plog b' (n, int i))) =
      map content (nths ms {j. (last_partition t + j) mod length (t_partitions t) = i})"
    if "i < length (t_partitions t)" for i
    using b'(2) [OF that] by (simp add: drop_map [symmetric])
  ultimately show ?thesis using b'(1) by blast
qed

theorem kafka_produce_round_robin_witness:
  "\<exists>b'. produce [memo 4, memo 5] demo_broker = (Ok (), b') \<and>
     map content (drop 2 (plog b' (''t'', 0))) = [content (memo 5)]"
proof -
  define t where "t = snd (hd (topics demo_broker))"
  have t: "map_of (topics demo_broker) ''t'' = Some t" "length (t_partitions t) = 2" "last_partition t = 1"
    "length (plog demo_broker (''t'', 0)) = 2"
    by (simp_all add: t_def plog_def get_partition_def demo_broker_eq)
  have ne: "t_partitions t \<noteq> []" using t(2) by auto
  have ms: "\<forall>m \<in> set [memo 4, memo 5]. m_topic m = ''t''" by (simp add: memo_def)
  have "nths [memo 4, memo 5] {j. (1 + j) mod 2 = (0::nat)} = [memo 5]" by (simp add: nths_Cons)
  note turn = this
  obtain b' where "produce [memo 4, memo 5] demo_broker = (Ok (), b')"
    "\<forall>i < 2. map content (drop (length (plog demo_broker (''t'', int i))) (plog b' (''t'', int i))) =
       map content (nths [memo 4, memo 5] {j. (1 + j) mod 2 = i})"
    using kafka_produce_round_robin [OF demo_reachable(2) t(1) ne ms] unfolding t(2,3) by blast
  then show ?thesis using turn t(4) by fastforce
qed

subsection \<open>Offsets by time\<close>

text \<open>
  The lookup by time finds the earliest message.  When the timestamps of a partition do not decrease (a message without a timestamp
  counts as time 0), \<open>offset_for_time\<close> returns the offset of the first message whose timestamp is at least the given one, and nothing
  exactly when all messages are older.
\<close>

theorem kafka_offset_for_time:
  assumes "broker_reachable b" "get_partition t i b = Ok p" "sorted (map (time_of \<circ> m_timestamp) (p_msgs p))"
  shows "(offset_for_time p ts = None \<longleftrightarrow> (\<forall>m \<in> set (p_msgs p). time_of (m_timestamp m) < ts)) \<and>
    (\<forall>off. offset_for_time p ts = Some off \<longleftrightarrow>
      (\<exists>j < length (p_msgs p). off = int j \<and> ts \<le> time_of (m_timestamp (p_msgs p ! j)) \<and>
        (\<forall>k < j. time_of (m_timestamp (p_msgs p ! k)) < ts)))"
proof -
  let ?ms = "p_msgs p" and ?P = "\<lambda>m. time_of (m_timestamp m) < ts"
  let ?k = "partition_point ?P ?ms"
  have offs: "\<And>j. j < length ?ms \<Longrightarrow> m_offset (?ms ! j) = int j"
    using get_partition_ok [OF broker_reachable_inv [OF assms(1)] assms(2)] by (simp add: partition_ok_def)
  have part: "partitioned ?P ?ms" using partitioned_sorted [OF assms(3), of ts] by (simp add: comp_def)
  note pp = partition_point_correct [OF part]
  have uniq: "?k = j" if "j < length ?ms" "ts \<le> time_of (m_timestamp (?ms ! j))" "\<forall>k < j. ?P (?ms ! k)" for j
  proof (rule antisym)
    show "?k \<le> j" using pp(1) [of j] that(2) by (meson not_le)
    show "j \<le> ?k" using pp(2) [of ?k] that(1,3) by (meson le_refl less_trans not_le)
  qed
  show ?thesis
  proof (cases "?k < length ?ms")
    case True
    then have found: "ts \<le> time_of (m_timestamp (?ms ! ?k))" "\<forall>k < ?k. ?P (?ms ! k)" using pp(1) pp(2) [of ?k] by auto
    have "offset_for_time p ts = Some (int ?k)" using True offs by (simp add: offset_for_time_def Let_def)
    moreover have "\<not> (\<forall>m \<in> set ?ms. ?P m)" using found(1) True by (meson not_le nth_mem)
    moreover have "(int ?k = off) \<longleftrightarrow> (\<exists>j < length ?ms. off = int j \<and> ts \<le> time_of (m_timestamp (?ms ! j)) \<and>
        (\<forall>k < j. ?P (?ms ! k)))" for off
      using uniq found True by blast
    ultimately show ?thesis by simp
  next
    case False
    then have "\<forall>j < length ?ms. ?P (?ms ! j)" using pp(1) partition_point_le [of ?P ?ms] by auto
    moreover from this have "\<forall>m \<in> set ?ms. ?P m" by (metis in_set_conv_nth)
    moreover have "offset_for_time p ts = None" using False by (simp add: offset_for_time_def Let_def)
    ultimately show ?thesis by (metis not_le option.distinct(1))
  qed
qed

theorem kafka_offset_for_time_witness:
  "\<exists>p. get_partition ''t'' 0 demo_broker = Ok p \<and> offset_for_time p 2 = Some 1 \<and> offset_for_time p 4 = None"
proof -
  define p where "p = t_partitions (snd (hd (topics demo_broker))) ! 0"
  have p: "get_partition ''t'' 0 demo_broker = Ok p" by (simp add: p_def demo_broker_eq get_partition_def)
  have ms: "p_msgs p = [(memo 1)\<lparr>m_partition := 0, m_offset := 0\<rparr>, (memo 3)\<lparr>m_partition := 0, m_offset := 1\<rparr>]"
    by (simp add: p_def demo_broker_eq)
  have "sorted (map (time_of \<circ> m_timestamp) (p_msgs p))" by (simp add: ms memo_def)
  note lookup = kafka_offset_for_time [OF demo_reachable(2) p this]
  have "\<exists>j < length (p_msgs p). (1::int) = int j \<and> 2 \<le> time_of (m_timestamp (p_msgs p ! j)) \<and>
      (\<forall>k < j. time_of (m_timestamp (p_msgs p ! k)) < 2)"
    by (rule exI [of _ "Suc 0"]) (simp add: ms memo_def)
  then have "offset_for_time p 2 = Some 1" using lookup [of 2] by blast
  moreover have "offset_for_time p 4 = None" using lookup [of 4] by (simp add: ms memo_def)
  ultimately show ?thesis using p by blast
qed

subsection \<open>Fetching\<close>

text \<open>The position that an offset stands for, where it stands for one.\<close>

fun next_pos :: "offset \<Rightarrow> nat option" where
  "next_pos Beginning = Some 0"
| "next_pos (Offset i) = (if 0 \<le> i then Some (nat i) else None)"
| "next_pos _ = None"

lemma start_idx_pos:
  assumes "partition_ok x p" "next_pos off = Some n" "n \<le> length (p_msgs p)"
  shows "start_idx p off = Ok n"
proof (cases off)
  case (Offset i)
  then have i: "i = int n" using assms(2) by (auto split: if_splits)
  let ?P = "\<lambda>m. m_offset m < i"
  have offs: "\<And>j. j < length (p_msgs p) \<Longrightarrow> m_offset (p_msgs p ! j) = int j" using assms(1) by (simp add: partition_ok_def)
  then have "partitioned ?P (p_msgs p)" by (auto simp: partitioned_def)
  note pp = partition_point_correct [OF this]
  have "partition_point ?P (p_msgs p) = n"
  proof (rule antisym)
    show "partition_point ?P (p_msgs p) \<le> n"
      using pp(1) [of n] offs [of n] i partition_point_le [of ?P "p_msgs p"] by (cases "n < length (p_msgs p)") (force, simp)
    show "n \<le> partition_point ?P (p_msgs p)"
    proof (rule ccontr)
      assume "\<not> n \<le> partition_point ?P (p_msgs p)"
      then have "partition_point ?P (p_msgs p) < n" "partition_point ?P (p_msgs p) < length (p_msgs p)" using assms(3) by auto
      then show False using pp(2) [OF le_refl] offs i by simp
    qed
  qed
  then show ?thesis using Offset by (simp add: start_idx_def)
qed (use assms in \<open>auto simp: start_idx_def\<close>)

text \<open>The loop over a partition takes a run of the messages, all of them unless a limit is hit.\<close>

lemma fetch_msgs_run:
  assumes "\<forall>m \<in> set ms. m_offset m < hw"
  shows "\<exists>limit k tot'. k \<le> length ms \<and> (\<not> limit \<longrightarrow> k = length ms) \<and>
    fetch_msgs opts hw ms rets tot here off =
      (limit, rets @ take k ms, tot', if k = 0 then off else Offset (m_offset (ms ! (k - 1)) + 1))"
  using assms
proof (induction ms arbitrary: rets tot here off)
  case Nil
  show ?case by (rule exI [of _ False], rule exI [of _ 0], rule exI [of _ tot]) simp
next
  case (Cons m ms)
  show ?case
  proof (cases "fetch_max_bytes opts < tot + message_size m \<or> max_partition_fetch_bytes opts < here + message_size m")
    case True
    then have "fetch_msgs opts hw (m # ms) rets tot here off = (True, rets, tot, off)" using Cons.prems by simp
    then show ?thesis by - (rule exI [of _ True], rule exI [of _ 0], rule exI [of _ tot], simp)
  next
    case False
    obtain limit k tot' where k: "k \<le> length ms" "\<not> limit \<longrightarrow> k = length ms"
      "fetch_msgs opts hw ms (rets @ [m]) (tot + message_size m) (here + message_size m) (Offset (m_offset m + 1)) =
        (limit, (rets @ [m]) @ take k ms, tot', if k = 0 then Offset (m_offset m + 1) else Offset (m_offset (ms ! (k - 1)) + 1))"
      using Cons.IH [of "rets @ [m]" "tot + message_size m" "here + message_size m" "Offset (m_offset m + 1)"] Cons.prems by auto
    then show ?thesis
      using False Cons.prems by (intro exI [of _ limit] exI [of _ "Suc k"] exI [of _ tot']) (auto simp: nth_Cons')
  qed
qed

text \<open>
  What a fetch does to one element: it takes \<open>k\<close> messages from the position of the element and moves it on by \<open>k\<close>.
\<close>

definition takes :: "broker \<Rightarrow> elem \<Rightarrow> owned_message list \<Rightarrow> elem \<Rightarrow> bool" where
  "takes b e ms e' \<longleftrightarrow>
     (\<forall>n. next_pos (e_offset e) = Some n \<longrightarrow> n \<le> length (plog b (elem_id e)) \<longrightarrow>
       (\<exists>k. n + k \<le> length (plog b (elem_id e)) \<and> ms = take k (drop n (plog b (elem_id e))) \<and>
         next_pos (e_offset e') = Some (n + k))) \<and> elem_id e' = elem_id e"

inductive fetched :: "broker \<Rightarrow> elem list \<Rightarrow> owned_message list \<Rightarrow> elem list \<Rightarrow> bool" for b where
  stop: "fetched b es [] es"
| step: "takes b e ms e' \<Longrightarrow> fetched b es mss es' \<Longrightarrow> fetched b (e # es) (ms @ mss) (e' # es')"

lemma takes_partition:
  assumes "broker_inv b" "get_partition (e_topic e) (e_partition e) b = Ok p" "start_idx p (e_offset e) = Ok i"
    and "fetch_msgs opts (high_watermark p) (drop i (p_msgs p)) rets tot 0 (e_offset e) = (limit, rets', tot', off)"
  shows "\<exists>ms. rets' = rets @ ms \<and> takes b e ms (e\<lparr>e_offset := off\<rparr>)"
proof -
  let ?ms = "drop i (p_msgs p)"
  have ok: "partition_ok (elem_id e) p" using get_partition_ok [OF assms(1,2)] by (simp add: elem_id_def)
  have log: "plog b (elem_id e) = p_msgs p" using assms(2) by (simp add: plog_def elem_id_def)
  have "\<forall>m \<in> set ?ms. m_offset m < high_watermark p"
  proof
    fix m assume "m \<in> set ?ms"
    then obtain j where "j < length (p_msgs p)" "m = p_msgs p ! j" by (metis in_set_conv_nth in_set_dropD)
    then show "m_offset m < high_watermark p" using ok by (simp add: partition_ok_def)
  qed
  then obtain k where k: "k \<le> length ?ms" "rets' = rets @ take k ?ms"
    "off = (if k = 0 then e_offset e else Offset (m_offset (?ms ! (k - 1)) + 1))"
    using fetch_msgs_run [of ?ms "high_watermark p" opts rets tot 0 "e_offset e"] assms(4) by auto
  have "\<exists>k. n + k \<le> length (p_msgs p) \<and> take k' ?ms = take k (drop n (p_msgs p)) \<and> next_pos off = Some (n + k)"
    if n: "next_pos (e_offset e) = Some n" "n \<le> length (p_msgs p)" "k' = k" for n k'
  proof (intro exI [of _ k] conjI)
    have i: "i = n" using start_idx_pos [OF ok n(1,2)] assms(3) by simp
    show "n + k \<le> length (p_msgs p)" using k(1) n(2) i by simp
    show "take k' ?ms = take k (drop n (p_msgs p))" using i n(3) by simp
    show "next_pos off = Some (n + k)"
    proof (cases k)
      case (Suc j)
      then have "m_offset (?ms ! (k - 1)) = int (n + j)" using ok k(1) i n(2) by (simp add: partition_ok_def)
      then show ?thesis using k(3) Suc by (simp add: nat_add_distrib)
    qed (use k(3) n(1) in simp)
  qed
  then show ?thesis using k(2) log unfolding takes_def elem_id_def by fastforce
qed

lemma fetch_loop_fetched:
  assumes "broker_inv b" "fetch_loop opts b es seen rets tot = Ok (rets', tpl')"
  shows "\<exists>ms es'. rets' = rets @ ms \<and> tpl' = seen @ es' \<and> fetched b es ms es'"
  using assms(2)
proof (induction es arbitrary: seen rets tot)
  case Nil
  then show ?case by (auto intro: fetched.stop)
next
  case (Cons e es)
  obtain p where p: "get_partition (e_topic e) (e_partition e) b = Ok p" using Cons.prems by auto
  show ?case
  proof (cases "p_msgs p = []")
    case True
    then have "takes b e [] e" using p by (simp add: takes_def plog_def elem_id_def)
    moreover obtain ms es' where "rets' = rets @ ms" "tpl' = (seen @ [e]) @ es'" "fetched b es ms es'"
      using Cons.IH [of "seen @ [e]" rets tot] Cons.prems p True by auto
    ultimately show ?thesis using fetched.step by fastforce
  next
    case False
    then obtain i where i: "start_idx p (e_offset e) = Ok i" using Cons.prems p by auto
    obtain limit rets1 tot1 off where f:
      "fetch_msgs opts (high_watermark p) (drop i (p_msgs p)) rets tot 0 (e_offset e) = (limit, rets1, tot1, off)"
      by (metis prod_cases4)
    obtain ms where ms: "rets1 = rets @ ms" "takes b e ms (e\<lparr>e_offset := off\<rparr>)"
      using takes_partition [OF assms(1) p i f] by blast
    have rest: "if limit then rets' = rets1 \<and> tpl' = seen @ [e\<lparr>e_offset := off\<rparr>] @ es
      else fetch_loop opts b es (seen @ [e\<lparr>e_offset := off\<rparr>]) rets1 tot1 = Ok (rets', tpl')"
      using Cons.prems p False i f by (auto split: if_splits)
    show ?thesis
    proof (cases limit)
      case True
      then show ?thesis
        using rest ms(1) fetched.step [OF ms(2) fetched.stop, of es] by (intro exI [of _ "ms @ []"]) auto
    next
      case False
      then obtain mss es' where "rets' = rets1 @ mss" "tpl' = (seen @ [e\<lparr>e_offset := off\<rparr>]) @ es'" "fetched b es mss es'"
        using Cons.IH [of "seen @ [e\<lparr>e_offset := off\<rparr>]" rets1 tot1] rest by auto
      then show ?thesis
        using fetched.step [OF ms(2)] ms(1) by (intro exI [of _ "ms @ mss"] exI [of _ "e\<lparr>e_offset := off\<rparr> # es'"]) auto
    qed
  qed
qed

subsection \<open>Consuming\<close>

definition off_of :: "topic_partition_list \<Rightarrow> (string \<times> int) \<Rightarrow> offset option" where
  "off_of es = map_of (map (\<lambda>e. (elem_id e, e_offset e)) es)"

lemma dom_off_of: "off_of es x \<noteq> None \<longleftrightarrow> x \<in> set (map elem_id es)"
  by (induction es) (auto simp: off_of_def)

lemma off_of_SomeD: "off_of es x = Some off \<Longrightarrow> \<exists>e \<in> set es. elem_id e = x \<and> e_offset e = off"
  by (auto simp: off_of_def dest!: map_of_SomeD)

abbreviation of_partition :: "string \<times> int \<Rightarrow> owned_message list \<Rightarrow> owned_message list" where
  "of_partition x ms \<equiv> filter (\<lambda>m. msg_id m = x) ms"

definition placed :: "broker \<Rightarrow> topic_partition_list \<Rightarrow> bool" where
  "placed b es \<longleftrightarrow> (\<forall>e \<in> set es. \<exists>n. next_pos (e_offset e) = Some n \<and> n \<le> length (plog b (elem_id e)))"

lemma takes_msgs:
  assumes "broker_inv b" "takes b e ms e'" "placed b [e]" "m \<in> set ms"
  shows "msg_id m = elem_id e"
proof -
  obtain n k where "ms = take k (drop n (plog b (elem_id e)))" using assms(2,3) by (auto simp: takes_def placed_def)
  then have "m \<in> set (plog b (elem_id e))" using assms(4) by (meson in_set_dropD in_set_takeD)
  then show ?thesis using plog_msg_id [OF assms(1)] by blast
qed

lemma fetched_ids: "fetched b es ms es' \<Longrightarrow> map elem_id es' = map elem_id es"
  by (induction rule: fetched.induct) (auto simp: takes_def)

lemma fetched_msgs:
  "fetched b es ms es' \<Longrightarrow> broker_inv b \<Longrightarrow> placed b es \<Longrightarrow> m \<in> set ms \<Longrightarrow> msg_id m \<in> set (map elem_id es)"
proof (induction rule: fetched.induct)
  case (step e ms e' es mss es')
  then show ?case using takes_msgs [of b e ms e' m] by (auto simp: placed_def)
qed simp

lemma fetched_reads:
  assumes "fetched b es ms es'" "broker_inv b" "placed b es" "distinct (map elem_id es)" "off_of es x = Some off"
  shows "\<exists>n k off'. next_pos off = Some n \<and> off_of es' x = Some off' \<and> next_pos off' = Some (n + k) \<and>
    n + k \<le> length (plog b x) \<and> of_partition x ms = take k (drop n (plog b x))"
  using assms
proof (induction rule: fetched.induct)
  case (stop es)
  then obtain e where e: "e \<in> set es" "off = e_offset e" "x = elem_id e"
    using off_of_SomeD by blast
  then obtain n where "next_pos off = Some n" "n \<le> length (plog b x)" using stop by (auto simp: placed_def)
  then show ?case using stop by (intro exI [of _ n] exI [of _ 0] exI [of _ off]) simp
next
  case (step e ms e' es mss es')
  have pl: "placed b [e]" "placed b es" using step.prems(2) by (auto simp: placed_def)
  have id': "elem_id e' = elem_id e" using step.hyps(1) by (simp add: takes_def)
  note head = takes_msgs [OF step.prems(1) step.hyps(1) pl(1)]
  note tail = fetched_msgs [OF step.hyps(2) step.prems(1) pl(2)]
  show ?case
  proof (cases "x = elem_id e")
    case True
    have "of_partition x ms = ms" using head True by (simp add: filter_id_conv)
    moreover have "msg_id m \<noteq> x" if "m \<in> set mss" for m using tail [OF that] True step.prems(3) by auto
    then have "of_partition x mss = []" by (simp add: filter_empty_conv)
    moreover have "off = e_offset e" "off_of (e' # es') x = Some (e_offset e')"
      using step.prems(4) True id' by (simp_all add: off_of_def)
    moreover obtain n where "next_pos (e_offset e) = Some n" "n \<le> length (plog b (elem_id e))"
      using pl(1) by (auto simp: placed_def)
    ultimately show ?thesis using step.hyps(1) True unfolding takes_def by auto
  next
    case False
    then have "off_of es x = Some off" "off_of (e' # es') x = off_of es' x"
      using step.prems(4) id' by (simp_all add: off_of_def)
    moreover have "of_partition x ms = []" using head False by (auto simp: filter_empty_conv)
    ultimately show ?thesis using step.IH [OF step.prems(1) pl(2)] step.prems(3) by simp
  qed
qed

text \<open>What a consumer has read: for every assigned partition the log up to the position of the consumer.\<close>

definition reads :: "broker \<Rightarrow> consumer \<Rightarrow> owned_message list \<Rightarrow> bool" where
  "reads b c received \<longleftrightarrow>
     distinct (map elem_id (c_tpl c)) \<and>
     (\<forall>m \<in> set (received @ c_msgs c). msg_id m \<in> set (map elem_id (c_tpl c))) \<and>
     (\<forall>x off. off_of (c_tpl c) x = Some off \<longrightarrow>
       (\<exists>n \<le> length (plog b x). next_pos off = Some n \<and> of_partition x (received @ c_msgs c) = take n (plog b x)))"

lemma reads_placed: "reads b c received \<Longrightarrow> placed b (c_tpl c)"
  unfolding placed_def
proof
  fix e assume r: "reads b c received" and e: "e \<in> set (c_tpl c)"
  then have "off_of (c_tpl c) (elem_id e) = Some (e_offset e)"
    unfolding off_of_def by (intro map_of_is_SomeI) (auto simp: reads_def comp_def)
  then show "\<exists>n. next_pos (e_offset e) = Some n \<and> n \<le> length (plog b (elem_id e))"
    using r unfolding reads_def by blast
qed

lemma reads_fetched:
  assumes "reads b c received" "c_msgs c = []" "broker_inv b" "fetched b (c_tpl c) ms tpl"
  shows "reads b (c\<lparr>c_msgs := ms, c_tpl := tpl\<rparr>) received"
proof -
  note pl = reads_placed [OF assms(1)]
  note ids = fetched_ids [OF assms(4)]
  have d: "distinct (map elem_id (c_tpl c))" using assms(1) by (simp add: reads_def)
  have "\<exists>n \<le> length (plog b x). next_pos off = Some n \<and> of_partition x (received @ ms) = take n (plog b x)"
    if off: "off_of tpl x = Some off" for x off
  proof -
    have "x \<in> set (map elem_id (c_tpl c))"
      using off ids dom_off_of [of tpl x] by simp
    then obtain off0 where off0: "off_of (c_tpl c) x = Some off0"
      using dom_off_of [of "c_tpl c" x] by auto
    obtain n where n: "next_pos off0 = Some n" "of_partition x received = take n (plog b x)"
      using assms(1,2) off0 unfolding reads_def by fastforce
    obtain k where "next_pos off = Some (n + k)" "n + k \<le> length (plog b x)" "of_partition x ms = take k (drop n (plog b x))"
      using fetched_reads [OF assms(4,3) pl d off0] n(1) off by auto
    then show ?thesis using n(2) by (auto simp: take_add intro!: exI [of _ "n + k"])
  qed
  moreover have "\<forall>m \<in> set (received @ ms). msg_id m \<in> set (map elem_id tpl)"
    using assms(1) fetched_msgs [OF assms(4,3) pl] ids unfolding reads_def by fastforce
  ultimately show ?thesis using d ids unfolding reads_def by simp
qed

definition got :: "(kafka_error, owned_message option) res \<Rightarrow> owned_message list" where
  "got r = (case r of Ok (Some m) \<Rightarrow> [m] | _ \<Rightarrow> [])"

lemma reads_pop: "reads b c received \<Longrightarrow> reads b (snd (pop_front c)) (received @ got (fst (pop_front c)))"
  by (cases "c_msgs c") (simp_all add: pop_front_def got_def reads_def)

lemma poll_fetches:
  assumes "c_msgs c = []" "c_tpl c \<noteq> []"
  shows "poll_internal None b c =
    st_bind (fetch (c_tpl c) (c_opts c) b, c) (\<lambda>(ms, tpl) c. pop_front (c\<lparr>c_msgs := ms, c_tpl := tpl\<rparr>))"
  using assms by (simp add: poll_internal_def)

lemma reads_poll:
  assumes "reads b c received" "broker_inv b"
  shows "reads b (snd (poll_internal f b c)) (received @ got (fst (poll_internal f b c)))"
proof (cases "c_msgs c = [] \<and> c_tpl c \<noteq> [] \<and> f = None")
  case False
  then show ?thesis
    using assms(1) reads_pop [OF assms(1)] by (auto simp: poll_internal_def got_def split: option.splits)
next
  case True
  note poll = poll_fetches [of c b]
  show ?thesis
  proof (cases "fetch (c_tpl c) (c_opts c) b")
    case (Ok r)
    obtain ms tpl where r: "r = (ms, tpl)" by (cases r)
    then have "fetched b (c_tpl c) ms tpl"
      using fetch_loop_fetched [OF assms(2), of "c_opts c" "c_tpl c" "[]" "[]" 0 ms tpl] Ok by (auto simp: fetch_def)
    then have "reads b (c\<lparr>c_msgs := ms, c_tpl := tpl\<rparr>) received"
      using reads_fetched [OF assms(1) _ assms(2)] True by blast
    then show ?thesis using reads_pop poll True Ok r by simp
  qed (use True poll assms(1) in \<open>simp_all add: got_def\<close>)
qed

text \<open>A broker whose topics are not created anew only adds to the logs.\<close>

definition keeps_topics :: "broker \<Rightarrow> kafka_request \<Rightarrow> bool" where
  "keeps_topics b q \<longleftrightarrow> (case q of CreateTopic n k \<Rightarrow> map_of (topics b) n = None | _ \<Rightarrow> True)"

lemma serve_extends:
  assumes "broker_inv b" "keeps_topics b q"
  shows "prefix (plog b x) (plog (snd (broker_serve q b)) x)"
  using assms
proof (induction q b rule: broker_serve.induct)
  case (1 n k b)
  then have "plog b x = []" if "fst x = n" using that by (simp add: keeps_topics_def plog_def get_partition_def)
  moreover have "plog (snd (broker_serve (CreateTopic n k) b)) x = plog b x" if "fst x \<noteq> n"
    using that by (simp add: create_topic_def plog_def get_partition_update)
  ultimately show ?case by (cases "fst x = n") simp_all
next
  case (2 ms b)
  then show ?case using produce_extends [of b x ms] by (cases "produce ms b"; cases "fst (produce ms b)") auto
qed simp_all

lemma reads_serve:
  assumes "reads b c received" "broker_inv b" "keeps_topics b q"
  shows "reads (snd (broker_serve q b)) c received"
proof -
  let ?b = "snd (broker_serve q b)"
  have ext: "n \<le> length (plog ?b x) \<and> take n (plog ?b x) = take n (plog b x)" if "n \<le> length (plog b x)" for n x
    using serve_extends [OF assms(2,3), of x] that by (auto simp: prefix_def)
  have "\<exists>n \<le> length (plog ?b x). next_pos off = Some n \<and> of_partition x (received @ c_msgs c) = take n (plog ?b x)"
    if off: "off_of (c_tpl c) x = Some off" for x off
  proof -
    obtain n where "n \<le> length (plog b x)" "next_pos off = Some n" "of_partition x (received @ c_msgs c) = take n (plog b x)"
      using assms(1) off unfolding reads_def by blast
    then show ?thesis using ext by auto
  qed
  then show ?thesis using assms(1) unfolding reads_def by blast
qed

lemma assign_loop_new:
  "\<exists>new. assign_loop A es cur = cur @ new \<and> set new \<subseteq> set es \<and> distinct (map elem_id new) \<and>
     elem_id ` set new \<inter> A = {}"
proof (induction A es cur rule: assign_loop.induct)
  case (2 A e es cur)
  show ?case
  proof (cases "elem_id e \<in> A")
    case True
    then show ?thesis using 2(1) by auto
  next
    case False
    then obtain new where new: "assign_loop (insert (elem_id e) A) es (cur @ [e]) = (cur @ [e]) @ new" "set new \<subseteq> set es"
      "distinct (map elem_id new)" "elem_id ` set new \<inter> insert (elem_id e) A = {}"
      using 2(2) by blast
    show ?thesis by (rule exI [of _ "e # new"]) (use False new in auto)
  qed
qed simp

definition from_start :: "topic_partition_list \<Rightarrow> bool" where
  "from_start tpl \<longleftrightarrow> (\<forall>e \<in> set tpl. e_offset e = Invalid \<or> e_offset e = Beginning)"

lemma reset_offset_start:
  "auto_offset_reset c = Earliest \<Longrightarrow> e_offset e = Invalid \<or> e_offset e = Beginning \<Longrightarrow> e_offset (reset_offset c e) = Beginning"
  by (auto simp: reset_offset_def)

lemma elem_id_reset [simp]: "elem_id (reset_offset c e) = elem_id e"
  by (simp add: reset_offset_def elem_id_def split: auto_offset_reset_strategy.split)

lemma off_of_append: "off_of (es @ new) x = (case off_of es x of Some off \<Rightarrow> Some off | None \<Rightarrow> off_of new x)"
  by (induction es) (auto simp: off_of_def)

lemma reads_assign:
  assumes "reads b c received" "auto_offset_reset c = Earliest" "from_start tpl"
  shows "reads b (incremental_assign tpl c) received"
proof -
  obtain new where new: "c_tpl (incremental_assign tpl c) = c_tpl c @ new" "set new \<subseteq> set (map (reset_offset c) tpl)"
    "distinct (map elem_id new)" "elem_id ` set new \<inter> set (map elem_id (c_tpl c)) = {}"
    using assign_loop_new [of "set (map elem_id (c_tpl c))" "map (reset_offset c) tpl" "c_tpl c"]
    by (auto simp: incremental_assign_def)
  have same: "c_msgs (incremental_assign tpl c) = c_msgs c" by (simp add: incremental_assign_def)
  have "\<exists>n \<le> length (plog b x). next_pos off = Some n \<and> of_partition x (received @ c_msgs c) = take n (plog b x)"
    if off: "off_of new x = Some off" "off_of (c_tpl c) x = None" for x off
  proof -
    obtain e where "e \<in> set new" "off = e_offset e" using off_of_SomeD [OF off(1)] by blast
    then have "off = Beginning" using new(2) reset_offset_start [OF assms(2)] assms(3) by (auto simp: from_start_def)
    moreover have "x \<notin> set (map elem_id (c_tpl c))" using off(2) dom_off_of [of "c_tpl c" x] by simp
    then have "of_partition x (received @ c_msgs c) = []"
      using assms(1) unfolding reads_def filter_empty_conv by blast
    ultimately show ?thesis by simp
  qed
  then show ?thesis
    using assms(1) new unfolding reads_def same by (auto simp: off_of_append split: option.splits)
qed

text \<open>
  The histories of a consumer that starts reading at the beginning: requests to the broker that do not create a topic anew, further
  assignments, and polls, each of which may fail.
\<close>

inductive consuming :: "broker \<Rightarrow> consumer \<Rightarrow> owned_message list \<Rightarrow> bool" where
  start: "broker_reachable b \<Longrightarrow> distinct (map elem_id tpl) \<Longrightarrow> from_start tpl \<Longrightarrow>
    consuming b (assign tpl (consumer_new Earliest opts)) []"
| more: "consuming b c received \<Longrightarrow> from_start tpl \<Longrightarrow> consuming b (incremental_assign tpl c) received"
| serve: "consuming b c received \<Longrightarrow> keeps_topics b q \<Longrightarrow> consuming (snd (broker_serve q b)) c received"
| poll: "consuming b c received \<Longrightarrow>
    consuming b (snd (poll_internal f b c)) (received @ got (fst (poll_internal f b c)))"

lemma poll_frame:
  "c_opts (snd (poll_internal f b c)) = c_opts c" "auto_offset_reset (snd (poll_internal f b c)) = auto_offset_reset c"
  by (cases f; cases "fetch (c_tpl c) (c_opts c) b"; cases "c_msgs c";
      auto simp: poll_internal_def pop_front_def split: prod.splits list.splits)+

lemma poll_ids:
  assumes "broker_inv b"
  shows "map elem_id (c_tpl (snd (poll_internal f b c))) = map elem_id (c_tpl c)"
proof (cases "c_msgs c = [] \<and> c_tpl c \<noteq> [] \<and> f = None")
  case False
  then show ?thesis by (auto simp: poll_internal_def pop_front_def split: option.splits list.splits)
next
  case True
  note poll = poll_fetches [of c b]
  show ?thesis
  proof (cases "fetch (c_tpl c) (c_opts c) b")
    case (Ok r)
    obtain ms tpl where r: "r = (ms, tpl)" by (cases r)
    have "map elem_id tpl = map elem_id (c_tpl c)"
      using fetch_loop_fetched [OF assms, of "c_opts c" "c_tpl c" "[]" "[]" 0 ms tpl] Ok r fetched_ids by (auto simp: fetch_def)
    then show ?thesis using poll True Ok r by (simp add: pop_front_def split: list.splits)
  qed (use poll True in simp_all)
qed

lemma from_start_reset:
  assumes "from_start tpl" "e \<in> set (map (reset_offset (consumer_new Earliest opts)) tpl)"
  shows "e_offset e = Beginning"
  using assms reset_offset_start [of "consumer_new Earliest opts"] by (auto simp: from_start_def consumer_new_def)

lemma consuming_reads:
  "consuming b c received \<Longrightarrow> broker_inv b \<and> reads b c received \<and> auto_offset_reset c = Earliest"
proof (induction rule: consuming.induct)
  case (start b tpl opts)
  let ?es = "map (reset_offset (consumer_new Earliest opts)) tpl"
  let ?c = "assign tpl (consumer_new Earliest opts)"
  have c: "c_tpl ?c = ?es" "c_msgs ?c = []" by (simp_all add: assign_def consumer_new_def)
  have "off = Beginning" if "off_of ?es x = Some off" for x off
    using from_start_reset [OF start(3)] off_of_SomeD [OF that] by blast
  then have "\<forall>x off. off_of ?es x = Some off \<longrightarrow> (\<exists>n \<le> length (plog b x). next_pos off = Some n \<and> [] = take n (plog b x))"
    by (metis le0 next_pos.simps(1) take0)
  moreover have "distinct (map elem_id ?es)" using start(2) by (simp add: comp_def)
  ultimately have "reads b ?c []" unfolding reads_def c by simp
  then show ?case using broker_reachable_inv [OF start(1)] by (simp add: assign_def consumer_new_def)
next
  case (more b c received tpl)
  then show ?case using reads_assign by (simp add: incremental_assign_def)
next
  case (serve b c received q)
  then show ?case using reads_serve broker_serve_inv by blast
next
  case (poll b c received f)
  then show ?case using reads_poll poll_frame(2) by metis
qed

lemma reads_prefix:
  assumes "reads b c received"
  shows "prefix (of_partition x received) (if x \<in> elem_id ` set (c_tpl c) then plog b x else [])"
proof (cases "off_of (c_tpl c) x")
  case None
  then have "x \<notin> elem_id ` set (c_tpl c)" using dom_off_of [of "c_tpl c" x] by simp
  moreover have "of_partition x received = []"
    using assms calculation unfolding reads_def filter_empty_conv by auto
  ultimately show ?thesis by simp
next
  case (Some off)
  then have "x \<in> elem_id ` set (c_tpl c)" using dom_off_of [of "c_tpl c" x] by simp
  moreover obtain n where "of_partition x received @ of_partition x (c_msgs c) = take n (plog b x)"
    using assms Some unfolding reads_def by fastforce
  then have "prefix (of_partition x received) (plog b x)"
    using take_is_prefix [of n "plog b x"] append_prefixD by metis
  ultimately show ?thesis by simp
qed


text \<open>A consumer of both partitions of the demonstration topic.\<close>

definition both_partitions :: topic_partition_list where
  "both_partitions = add_partition ''t'' 1 (add_partition ''t'' 0 [])"

definition demo_consumer :: consumer where
  "demo_consumer = assign both_partitions (consumer_new Earliest fetch_options_default)"

lemma demo_consuming: "consuming demo_broker demo_consumer []"
  unfolding demo_consumer_def
  by (rule consuming.start [OF demo_reachable(2)])
    (simp_all add: both_partitions_def add_partition_def elem_id_def from_start_def)

lemma demo_ids: "map elem_id (c_tpl demo_consumer) = [(''t'', 0), (''t'', 1)]"
  by (simp add: demo_consumer_def assign_def both_partitions_def add_partition_def elem_id_def consumer_new_def reset_offset_def)


subsection \<open>Progress\<close>

definition fits :: "fetch_options \<Rightarrow> broker \<Rightarrow> bool" where
  "fits opts b \<longleftrightarrow> (\<forall>x. \<forall>m \<in> set (plog b x). message_size m \<le> fetch_max_bytes opts \<and> message_size m \<le> max_partition_fetch_bytes opts)"

definition known :: "broker \<Rightarrow> topic_partition_list \<Rightarrow> bool" where
  "known b es \<longleftrightarrow> (\<forall>e \<in> set es. is_ok (get_partition (e_topic e) (e_partition e) b))"

text \<open>The head of a list of known and placed elements: its partition, its log and where the loop starts in it.\<close>

lemma head_partition:
  assumes "broker_inv b" "placed b (e # es)" "known b (e # es)"
  obtains p n where "get_partition (e_topic e) (e_partition e) b = Ok p" "plog b (elem_id e) = p_msgs p"
    "next_pos (e_offset e) = Some n" "n \<le> length (p_msgs p)" "start_idx p (e_offset e) = Ok n"
proof -
  obtain p where p: "get_partition (e_topic e) (e_partition e) b = Ok p" using assms(3) by (auto simp: known_def is_ok_iff)
  have log: "plog b (elem_id e) = p_msgs p" using p by (simp add: plog_def elem_id_def)
  obtain n where n: "next_pos (e_offset e) = Some n" "n \<le> length (p_msgs p)" using assms(2) log by (auto simp: placed_def)
  show thesis by (rule that [OF p log n start_idx_pos [OF get_partition_ok [OF assms(1) p] n]])
qed

lemma fetch_loop_Ok:
  assumes "broker_inv b" "placed b es" "known b es"
  shows "\<exists>r. fetch_loop opts b es seen rets tot = Ok r"
  using assms(2,3)
proof (induction es arbitrary: seen rets tot)
  case (Cons e es)
  have tl: "placed b es" "known b es" using Cons.prems by (auto simp: placed_def known_def)
  obtain p n where p: "get_partition (e_topic e) (e_partition e) b = Ok p" "start_idx p (e_offset e) = Ok n"
    using head_partition [OF assms(1) Cons.prems] by metis
  then show ?case using Cons.IH [OF tl]
    by (cases "fetch_msgs opts (high_watermark p) (drop n (p_msgs p)) rets tot 0 (e_offset e)") (simp del: bind_res_Ok_iff)
qed simp

lemma fetch_msgs_first:
  assumes "message_size m \<le> fetch_max_bytes opts" "message_size m \<le> max_partition_fetch_bytes opts"
    and "\<forall>m' \<in> set (m # ms). m_offset m' < hw"
  shows "\<exists>limit rets tot off. fetch_msgs opts hw (m # ms) [] 0 0 off0 = (limit, m # rets, tot, off)"
proof -
  obtain limit k tot off where "fetch_msgs opts hw ms [m] (message_size m) (message_size m) (Offset (m_offset m + 1)) =
      (limit, [m] @ take k ms, tot, off)"
    using fetch_msgs_run [of ms hw opts "[m]" "message_size m" "message_size m" "Offset (m_offset m + 1)"] assms(3) by auto
  then show ?thesis using assms by auto
qed

lemma fetch_loop_progress:
  assumes "broker_inv b" "placed b es" "known b es" "fits opts b"
    and "e0 \<in> set es" "next_pos (e_offset e0) = Some n0" "n0 < length (plog b (elem_id e0))"
    and "fetch_loop opts b es seen [] 0 = Ok (rets, tpl)"
  shows "rets \<noteq> []"
  using assms(2,3,5,8)
proof (induction es arbitrary: seen)
  case (Cons e es)
  have tl: "placed b es" "known b es" using Cons.prems by (auto simp: placed_def known_def)
  obtain p n where p: "get_partition (e_topic e) (e_partition e) b = Ok p" "plog b (elem_id e) = p_msgs p"
    "next_pos (e_offset e) = Some n" "n \<le> length (p_msgs p)" "start_idx p (e_offset e) = Ok n"
    using head_partition [OF assms(1) Cons.prems(1,2)] by metis
  show ?case
  proof (cases "drop n (p_msgs p)")
    case Nil
    then have "e0 \<noteq> e" using assms(6,7) p by auto
    moreover have "\<exists>seen. fetch_loop opts b es seen [] 0 = Ok (rets, tpl)"
      using Cons.prems(4) p Nil by (cases "p_msgs p = []") (auto simp del: bind_res_Ok_iff)
    ultimately show ?thesis using Cons.IH [OF tl] Cons.prems(3) by auto
  next
    case (Cons m ms)
    then have sub: "set (m # ms) \<subseteq> set (p_msgs p)" by (metis set_drop_subset)
    then have size: "message_size m \<le> fetch_max_bytes opts" "message_size m \<le> max_partition_fetch_bytes opts"
      using assms(4) p(2) unfolding fits_def by (metis list.set_intros(1) subsetD)+
    have "\<forall>m' \<in> set (m # ms). m_offset m' < high_watermark p"
      using sub get_partition_ok [OF assms(1) p(1)] by (fastforce simp: partition_ok_def in_set_conv_nth)
    from fetch_msgs_first [OF size this] obtain limit rets1 tot off where
      f: "fetch_msgs opts (high_watermark p) (drop n (p_msgs p)) [] 0 0 (e_offset e) = (limit, m # rets1, tot, off)"
      unfolding Cons by blast
    have "p_msgs p \<noteq> []" using Cons by auto
    then have "if limit then rets = m # rets1 else
      fetch_loop opts b es (seen @ [e\<lparr>e_offset := off\<rparr>]) (m # rets1) tot = Ok (rets, tpl)"
      using Cons.prems(4) p f by (auto split: if_splits)
    then show ?thesis
      using fetch_loop_fetched [OF assms(1), of opts es "seen @ [e\<lparr>e_offset := off\<rparr>]" "m # rets1" tot rets tpl]
      by (cases limit) auto
  qed
qed simp

lemma poll_gives:
  assumes "broker_inv b" "reads b c received" "known b (c_tpl c)" "fits (c_opts c) b"
    and "x \<in> elem_id ` set (c_tpl c)" "of_partition x received \<noteq> plog b x"
  shows "\<exists>m. fst (poll_internal None b c) = Ok (Some m)"
proof (cases "c_msgs c")
  case (Cons m ms)
  then show ?thesis by (simp add: poll_internal_def pop_front_def)
next
  case Nil
  have ne: "c_tpl c \<noteq> []" using assms(5) by auto
  obtain off where off: "off_of (c_tpl c) x = Some off" using assms(5) dom_off_of [of "c_tpl c" x] by auto
  then obtain n where n: "n \<le> length (plog b x)" "next_pos off = Some n" "of_partition x received = take n (plog b x)"
    using assms(2) Nil unfolding reads_def by fastforce
  then have "n < length (plog b x)" using assms(6) by (cases "n = length (plog b x)") auto
  moreover obtain e where "e \<in> set (c_tpl c)" "elem_id e = x" "e_offset e = off" using off_of_SomeD [OF off] by blast
  moreover note pl = reads_placed [OF assms(2)]
  moreover obtain ms tpl where f: "fetch (c_tpl c) (c_opts c) b = Ok (ms, tpl)"
    using fetch_loop_Ok [OF assms(1) pl assms(3)] unfolding fetch_def by (metis surj_pair)
  ultimately have "ms \<noteq> []" using fetch_loop_progress [OF assms(1) pl assms(3,4)] n(2) unfolding fetch_def by blast
  then show ?thesis using poll_fetches [OF Nil ne] f by (auto simp: pop_front_def neq_Nil_conv)
qed

primrec poll_times :: "nat \<Rightarrow> broker \<Rightarrow> consumer \<Rightarrow> owned_message list \<Rightarrow> consumer \<times> owned_message list" where
  "poll_times 0 b c received = (c, received)"
| "poll_times (Suc k) b c received =
     poll_times k b (snd (poll_internal None b c)) (received @ got (fst (poll_internal None b c)))"

lemma known_ids: "map elem_id es' = map elem_id es \<Longrightarrow> known b es' = known b es"
proof -
  have "known b es = (\<forall>x \<in> set (map elem_id es). is_ok (get_partition (fst x) (snd x) b))" for es
    by (simp add: known_def elem_id_def)
  then show "map elem_id es' = map elem_id es \<Longrightarrow> known b es' = known b es" by (simp only:)
qed

text \<open>What is left to read.\<close>

definition backlog :: "broker \<Rightarrow> consumer \<Rightarrow> owned_message list \<Rightarrow> nat" where
  "backlog b c received = (\<Sum>x \<in> elem_id ` set (c_tpl c). length (plog b x) - length (of_partition x received))"

lemma backlog_poll:
  assumes "broker_inv b" "reads b c received" "fst (poll_internal None b c) = Ok (Some m)"
  shows "backlog b (snd (poll_internal None b c)) (received @ [m]) < backlog b c received"
proof -
  let ?c = "snd (poll_internal None b c)"
  let ?X = "elem_id ` set (c_tpl c)"
  have ids: "elem_id ` set (c_tpl ?c) = ?X" using poll_ids [OF assms(1), of None c] by (metis list.set_map)
  have r: "reads b ?c (received @ [m])" using reads_poll [OF assms(2,1), of None] assms(3) by (simp add: got_def)
  then have m: "msg_id m \<in> ?X" using ids unfolding reads_def by auto
  have "prefix (of_partition (msg_id m) (received @ [m])) (plog b (msg_id m))"
    using reads_prefix [OF r, of "msg_id m"] ids m by simp
  then have "length (of_partition (msg_id m) (received @ [m])) \<le> length (plog b (msg_id m))" by (rule prefix_length_le)
  then have "\<exists>x \<in> ?X. length (plog b x) - length (of_partition x (received @ [m])) < length (plog b x) - length (of_partition x received)"
    using m by (intro bexI [of _ "msg_id m"]) auto
  then show ?thesis
    unfolding backlog_def ids by (intro sum_strict_mono_ex1) auto
qed

lemma catch_up:
  assumes "broker_inv b" "reads b c received" "known b (c_tpl c)" "fits (c_opts c) b"
  shows "\<exists>k c' received'. poll_times k b c received = (c', received') \<and>
    (\<forall>x \<in> elem_id ` set (c_tpl c). of_partition x received' = plog b x)"
  using assms(2-4)
proof (induction "backlog b c received" arbitrary: c received rule: less_induct)
  case less
  show ?case
  proof (cases "\<forall>x \<in> elem_id ` set (c_tpl c). of_partition x received = plog b x")
    case True
    then show ?thesis by (metis poll_times.simps(1))
  next
    case False
    then obtain m where m: "fst (poll_internal None b c) = Ok (Some m)" using poll_gives [OF assms(1) less.prems] by blast
    let ?c = "snd (poll_internal None b c)"
    have ids: "map elem_id (c_tpl ?c) = map elem_id (c_tpl c)" by (rule poll_ids [OF assms(1)])
    have "reads b ?c (received @ [m])" using reads_poll [OF less.prems(1) assms(1), of None] m by (simp add: got_def)
    moreover have "known b (c_tpl ?c)" "fits (c_opts ?c) b" using less.prems(2,3) known_ids [OF ids] poll_frame(1) by simp_all
    ultimately obtain k c' received' where k: "poll_times k b ?c (received @ [m]) = (c', received')"
      "\<forall>x \<in> elem_id ` set (c_tpl ?c). of_partition x received' = plog b x"
      using less.hyps [OF backlog_poll [OF assms(1) less.prems(1) m]] by blast
    have "poll_times (Suc k) b c received = (c', received')" using k(1) m by (simp add: got_def)
    moreover have "elem_id ` set (c_tpl ?c) = elem_id ` set (c_tpl c)" using ids by (metis list.set_map)
    ultimately show ?thesis using k(2) by metis
  qed
qed



end
