(* ===== verification/KafkaClientProps.thy ===== *)
theory KafkaClientProps
  imports KafkaProps
begin

section \<open>Correctness of the Kafka clients\<close>

text \<open>
  Seeking is atomic, a message above the limits blocks a consumer, transactions reach the broker as a whole or not at all (but
  a committed transaction stays open), and what the delivery reports say.
\<close>

subsection \<open>Messages above the limits\<close>

text \<open>
  A message above the size limit blocks the consumer for good, and its other partitions with it.  When the next message of the first assigned
  partition is larger than a limit of the consumer, a poll returns nothing and leaves the consumer exactly as it was, whatever waits in the
  other partitions: the fetch returns at the first message that does not fit.
\<close>

theorem kafka_large_message_blocks:
  assumes "broker_reachable b" "c_msgs c = []" "c_tpl c = e # es" "get_partition (e_topic e) (e_partition e) b = Ok p"
    and "next_pos (e_offset e) = Some n" "n < length (p_msgs p)"
    and "max_partition_fetch_bytes (c_opts c) < message_size (p_msgs p ! n) \<or> fetch_max_bytes (c_opts c) < message_size (p_msgs p ! n)"
  shows "poll_internal None b c = (Ok None, c)"
proof -
  have ok: "partition_ok (e_topic e, e_partition e) p" by (rule get_partition_ok [OF broker_reachable_inv [OF assms(1)] assms(4)])
  have "drop n (p_msgs p) = p_msgs p ! n # drop (Suc n) (p_msgs p)" using assms(6) by (simp add: Cons_nth_drop_Suc)
  moreover have "m_offset (p_msgs p ! n) < high_watermark p" using ok assms(6) by (simp add: partition_ok_def)
  ultimately have "fetch_msgs (c_opts c) (high_watermark p) (drop n (p_msgs p)) [] 0 0 (e_offset e) = (True, [], 0, e_offset e)"
    using assms(7) by auto
  moreover have "start_idx p (e_offset e) = Ok n" using start_idx_pos [OF ok assms(5)] assms(6) by simp
  moreover have "p_msgs p \<noteq> []" using assms(6) by auto
  ultimately have "fetch (c_tpl c) (c_opts c) b = Ok ([], c_tpl c)"
    using assms(3,4) by (simp add: fetch_def del: bind_res_Ok_iff)
  then show ?thesis using poll_fetches [OF assms(2)] assms(2,3) by (simp add: pop_front_def)
qed

theorem kafka_large_message_blocks_witness:
  "let c = demo_consumer\<lparr>c_opts := \<lparr>max_partition_fetch_bytes = 10, fetch_max_bytes = 100\<rparr>\<rparr>
   in poll_internal None demo_broker c = (Ok None, c)"
proof -
  let ?c = "demo_consumer\<lparr>c_opts := \<lparr>max_partition_fetch_bytes = 10, fetch_max_bytes = 100\<rparr>\<rparr>"
  define e where "e = (\<lambda>i. \<lparr>e_topic = ''t'', e_partition = i, e_offset = Beginning\<rparr>)"
  have c: "c_msgs ?c = []" "c_tpl ?c = e 0 # [e 1]"
    by (simp_all add: demo_consumer_def assign_def both_partitions_def add_partition_def consumer_new_def reset_offset_def e_def)
  have p: "get_partition (e_topic (e 0)) (e_partition (e 0)) demo_broker = Ok (t_partitions (snd (hd (topics demo_broker))) ! 0)"
    by (simp add: demo_broker_eq get_partition_def e_def)
  show ?thesis
    unfolding Let_def
    by (rule kafka_large_message_blocks [OF demo_reachable(2) c p, where n = 0])
      (simp_all add: e_def demo_broker_eq message_size_def memo_def)
qed

subsection \<open>Seeking\<close>

fun seekable :: "offset \<Rightarrow> bool" where
  "seekable Beginning = True"
| "seekable End = True"
| "seekable (Offset i) = True"
| "seekable _ = False"

lemma seek_check_cases: "seek_check r = (if seekable (e_offset r) then Ok () else seek_check r) \<and>
  (\<not> seekable (e_offset r) \<longrightarrow> (\<exists>msg. seek_check r = Err (Seek msg)))"
  by (cases "e_offset r") (simp_all add: seek_check_def)

lemma index_by_key_nth:
  assumes "distinct (map elem_id l)"
  shows "index_by_key l x = Some i \<longleftrightarrow> i < length l \<and> elem_id (l ! i) = x"
proof -
  let ?z = "zip (map elem_id l) [0..<length l]"
  have "distinct (map fst (rev ?z))" using assms by (simp add: rev_map [symmetric])
  then have "index_by_key l x = Some i \<longleftrightarrow> (x, i) \<in> set ?z"
    unfolding index_by_key_def by (simp add: map_of_eq_Some_iff)
  also have "\<dots> \<longleftrightarrow> (\<exists>j < length l. x = elem_id (l ! j) \<and> i = j)" by (force simp: set_zip)
  finally show ?thesis by blast
qed

lemma index_by_key_dom:
  assumes "distinct (map elem_id l)"
  shows "index_by_key l x \<noteq> None \<longleftrightarrow> x \<in> elem_id ` set l"
proof -
  have "index_by_key l x \<noteq> None \<longleftrightarrow> (\<exists>i < length l. elem_id (l ! i) = x)" using index_by_key_nth [OF assms, of x] by blast
  then show ?thesis by (metis (no_types, lifting) image_iff in_set_conv_nth)
qed

lemma target_indices_Ok:
  assumes "distinct (map elem_id l)" "\<forall>r \<in> set rs. seekable (e_offset r) \<and> elem_id r \<in> elem_id ` set l"
  shows "\<exists>is. target_indices l rs = Ok is \<and> length is = length rs \<and>
    (\<forall>(r, i) \<in> set (zip rs is). i < length l \<and> elem_id (l ! i) = elem_id r)"
  using assms(2)
proof (induction rs)
  case (Cons r rs)
  then obtain "is" where "is": "target_indices l rs = Ok is" "length is = length rs"
    "\<forall>(r, i) \<in> set (zip rs is). i < length l \<and> elem_id (l ! i) = elem_id r" by auto
  obtain i where i: "index_by_key l (elem_id r) = Some i" using index_by_key_dom [OF assms(1)] Cons.prems by fastforce
  have "seek_check r = Ok ()" using seek_check_cases [of r] Cons.prems by simp
  then have "target_indices l (r # rs) = Ok (i # is)" using i "is"(1) by simp
  then show ?case using "is" index_by_key_nth [OF assms(1)] i by fastforce
qed simp

lemma target_indices_Err:
  assumes "distinct (map elem_id l)" "\<not> (\<forall>r \<in> set rs. seekable (e_offset r) \<and> elem_id r \<in> elem_id ` set l)"
  shows "\<exists>msg. target_indices l rs = Err (Seek msg)"
  using assms(2)
proof (induction rs)
  case (Cons r rs)
  show ?case
  proof (cases "seekable (e_offset r) \<and> elem_id r \<in> elem_id ` set l")
    case True
    then obtain i where "index_by_key l (elem_id r) = Some i" using index_by_key_dom [OF assms(1), of "elem_id r"] by auto
    moreover obtain msg where "target_indices l rs = Err (Seek msg)" using Cons True by auto
    moreover have "seek_check r = Ok ()" using seek_check_cases [of r] True by simp
    ultimately show ?thesis by simp
  next
    case False
    then show ?thesis
      using seek_check_cases [of r] index_by_key_dom [OF assms(1), of "elem_id r"] by (cases "seekable (e_offset r)") auto
  qed
qed simp

lemma map_of_list_update:
  "distinct (map fst xs) \<Longrightarrow> i < length xs \<Longrightarrow> fst (xs ! i) = k \<Longrightarrow> map_of (xs[i := (k, v)]) = (map_of xs)(k \<mapsto> v)"
proof (induction xs arbitrary: i)
  case (Cons y ys)
  show ?case
  proof (cases i)
    case 0
    then show ?thesis using Cons.prems(3) by (auto simp: fun_eq_iff)
  next
    case (Suc j)
    then have "k \<in> fst ` set ys" using Cons.prems(2,3) by (auto simp: image_iff intro!: bexI [of _ "ys ! j"])
    then have "fst y \<noteq> k" using Cons.prems(1) by auto
    then show ?thesis using Cons Suc by (auto simp: fun_eq_iff)
  qed
qed simp

lemma off_of_list_update:
  assumes "distinct (map elem_id l)" "i < length l" "elem_id e' = elem_id (l ! i)"
  shows "off_of (l[i := e']) = (off_of l)(elem_id e' \<mapsto> e_offset e')"
  unfolding off_of_def map_update by (rule map_of_list_update) (use assms in \<open>auto simp: comp_def\<close>)

definition set_offsets :: "(elem \<times> nat) list \<Rightarrow> topic_partition_list \<Rightarrow> topic_partition_list" where
  "set_offsets zs l = fold (\<lambda>(r, i) l. l[i := (l ! i)\<lparr>e_offset := e_offset r\<rparr>]) zs l"

lemma set_offsets_off:
  assumes "distinct (map elem_id l)" "\<forall>(r, i) \<in> set zs. i < length l \<and> elem_id (l ! i) = elem_id r"
  shows "map elem_id (set_offsets zs l) = map elem_id l \<and>
    off_of (set_offsets zs l) = off_of l ++ off_of (rev (map fst zs))"
  using assms
proof (induction zs arbitrary: l)
  case Nil
  then show ?case by (simp add: set_offsets_def off_of_def)
next
  case (Cons z zs)
  obtain r i where z: "z = (r, i)" by (cases z)
  let ?e = "(l ! i)\<lparr>e_offset := e_offset r\<rparr>"
  have i: "i < length l" "elem_id (l ! i) = elem_id r" using Cons.prems(2) z by auto
  have e: "elem_id ?e = elem_id r" using i(2) by (simp add: elem_id_def)
  have ids: "map elem_id (l[i := ?e]) = map elem_id l"
    using e i by (simp add: map_update list_update_same_conv)
  then have nth: "\<forall>j < length l. elem_id (l[i := ?e] ! j) = elem_id (l ! j)" by (metis length_list_update nth_map)
  have "map elem_id (set_offsets zs (l[i := ?e])) = map elem_id (l[i := ?e]) \<and>
      off_of (set_offsets zs (l[i := ?e])) = off_of (l[i := ?e]) ++ off_of (rev (map fst zs))"
    by (rule Cons.IH) (use Cons.prems ids nth in auto)
  moreover have "set_offsets (z # zs) l = set_offsets zs (l[i := ?e])" by (simp add: set_offsets_def z)
  moreover have "off_of (l[i := ?e]) = (off_of l)(elem_id r \<mapsto> e_offset r)"
    using off_of_list_update [OF Cons.prems(1) i(1), of ?e] e i(2) by simp
  moreover have "off_of (rev (map fst (z # zs))) = [elem_id r \<mapsto> e_offset r] ++ off_of (rev (map fst zs))"
    by (simp add: off_of_def z map_of_append)
  ultimately show ?case using ids by (simp add: map_add_assoc)
qed

text \<open>
  Seeking is all or nothing.  If every requested partition is assigned and every requested offset is one the simulation supports, the buffered
  messages are dropped and the requested offsets, the last one for a partition named twice, replace the old ones, while
  the other partitions keep theirs.  Otherwise \<open>seek_partitions\<close> fails with a seek error and the consumer is as before, its buffer
  included.
\<close>

theorem kafka_seek_atomic:
  assumes "distinct (map elem_id (c_tpl c))"
  shows "if \<forall>r \<in> set rs. seekable (e_offset r) \<and> elem_id r \<in> elem_id ` set (c_tpl c)
    then \<exists>c'. seek_partitions rs c = (Ok rs, c') \<and> c_msgs c' = [] \<and> map elem_id (c_tpl c') = map elem_id (c_tpl c) \<and>
      off_of (c_tpl c') = off_of (c_tpl c) ++ off_of (rev rs)
    else \<exists>msg. seek_partitions rs c = (Err (Seek msg), c)"
proof (cases "\<forall>r \<in> set rs. seekable (e_offset r) \<and> elem_id r \<in> elem_id ` set (c_tpl c)")
  case True
  obtain "is" where t: "target_indices (c_tpl c) rs = Ok is" "length is = length rs"
    "\<forall>(r, i) \<in> set (zip rs is). i < length (c_tpl c) \<and> elem_id (c_tpl c ! i) = elem_id r"
    using target_indices_Ok [OF assms True] by blast
  have "seek_partitions rs c = (Ok rs, c\<lparr>c_msgs := [], c_tpl := set_offsets (zip rs is) (c_tpl c)\<rparr>)"
    by (simp add: seek_partitions_def t(1) set_offsets_def)
  then show ?thesis using set_offsets_off [OF assms t(3)] t(2) True by simp
next
  case False
  then show ?thesis using target_indices_Err [OF assms False] by (auto simp: seek_partitions_def)
qed

theorem kafka_seek_atomic_witness:
  "\<exists>c'. seek_partitions (add_partition_offset ''t'' 0 (Offset 1) []) demo_consumer =
     (Ok (add_partition_offset ''t'' 0 (Offset 1) []), c') \<and> off_of (c_tpl c') (''t'', 0) = Some (Offset 1)"
proof -
  let ?rs = "add_partition_offset ''t'' 0 (Offset 1) []"
  have "(''t'', 0) \<in> elem_id ` set (c_tpl demo_consumer)" using demo_ids by (metis list.set_intros(1) list.set_map)
  then have "\<forall>r \<in> set ?rs. seekable (e_offset r) \<and> elem_id r \<in> elem_id ` set (c_tpl demo_consumer)"
    by (simp add: add_partition_offset_def elem_id_def)
  moreover have "off_of (rev ?rs) (''t'', 0) = Some (Offset 1)" by (simp add: off_of_def add_partition_offset_def elem_id_def)
  moreover have "distinct (map elem_id (c_tpl demo_consumer))" by (simp add: demo_ids)
  ultimately show ?thesis using kafka_seek_atomic [of demo_consumer ?rs] by auto
qed

subsection \<open>The producer\<close>

primrec send_all :: "producer_config \<Rightarrow> 'd base_record list \<Rightarrow> 'd inner \<Rightarrow> (kafka_error \<times> 'd base_record, unit, 'd inner) outcome" where
  "send_all cfg [] i = (Ok (), i)"
| "send_all cfg (r # rs) i = st_bind (producer_send cfg r i) (\<lambda>_. send_all cfg rs)"

lemma send_all_Txn: "send_all cfg rs (Txn (Some buf)) = (Ok (), Txn (Some (buf @ map into_owned rs)))"
  by (induction rs arbitrary: buf) (simp_all add: producer_send_def)

text \<open>A request leaves the broker as it is or serves it whole, however the connection fares.\<close>

lemma flush_internal_broker:
  "snd (flush_internal f records b) \<in> {b, snd (produce (map fst records) b)}"
  "snd (flush_internal Answered records b) = snd (produce (map fst records) b)"
  by (cases f; cases "produce (map fst records) b"; cases "fst (produce (map fst records) b)";
      auto simp: flush_internal_def lose_answer_def)
     (cases "produce (map fst records) b"; cases "fst (produce (map fst records) b)"; auto simp: flush_internal_def)

text \<open>
  A transaction reaches the broker as one request or not at all.  A transactional producer that has been initialised and has begun a
  transaction accepts every record; a flush sends nothing; aborting discards the records and leaves the producer ready to begin again.
  Committing sends all records of the transaction in one request, in their order: when it is answered the broker has served
  exactly that request, and otherwise it has served it or is unchanged.
\<close>

theorem kafka_transaction:
  fixes rs :: "'d base_record list"
  assumes "transactional_id cfg \<noteq> None"
  shows "\<exists>i. st_bind (init_transactions cfg (Init :: 'd inner)) (\<lambda>_. begin_transaction) = (Ok (), Txn (Some [])) \<and>
    send_all cfg rs (Txn (Some [])) = (Ok (), i) \<and>
    producer_flush f i b = (Ok [], i, b) \<and>
    abort_transaction i = (Ok (), Txn None) \<and> begin_transaction (Txn None) = (Ok (), Txn (Some [])) \<and>
    snd (snd (commit_transaction f i b)) \<in> {b, snd (produce (map (fst \<circ> into_owned) rs) b)} \<and>
    snd (snd (commit_transaction Answered i b)) = snd (produce (map (fst \<circ> into_owned) rs) b)"
proof -
  let ?i = "Txn (Some (map into_owned rs))"
  have "st_bind (init_transactions cfg (Init :: 'd inner)) (\<lambda>_. begin_transaction) = (Ok (), Txn (Some []))"
    using assms by (simp add: init_transactions_def begin_transaction_def)
  moreover have "snd (snd (commit_transaction g ?i b)) = snd (flush_internal g (map into_owned rs) b)" for g
    by (simp add: commit_transaction_def split: prod.split)
  ultimately show ?thesis
    using flush_internal_broker(1) [of f "map into_owned rs" b] flush_internal_broker(2) [of "map into_owned rs" b] send_all_Txn [of cfg rs "[]"]
    by (intro exI [of _ ?i]) (simp add: producer_flush_def abort_transaction_def begin_transaction_def)
qed

definition txn_config :: producer_config where
  "txn_config = \<lparr>transactional_id = Some ''tx'', queue_buffering_max_messages = 100000\<rparr>"

theorem kafka_transaction_witness:
  "\<exists>i. send_all txn_config [with_opaque_to ''t'' (7::nat)] (Txn (Some [])) = (Ok (), i) \<and>
     snd (snd (commit_transaction Answered i demo_broker)) =
       snd (produce [fst (into_owned (with_opaque_to ''t'' (7::nat)))] demo_broker)"
  using kafka_transaction [of txn_config "[with_opaque_to ''t'' (7::nat)]" Answered demo_broker] by (auto simp: txn_config_def)

text \<open>
  A committed transaction is still open.  After a commit, whatever its outcome, the producer has an open transaction with no records: beginning
  the next one fails with the error "transaction already in progress", while committing again succeeds and sends an empty request.
\<close>

theorem kafka_commit_stays_open:
  "let i' = fst (snd (commit_transaction f (Txn (Some buffer)) b)) in
     begin_transaction i' = (Err (invalid_transaction_state ''transaction already in progress''), i') \<and>
     commit_transaction Answered i' b' = (Ok [], i', b')"
  by (simp add: commit_transaction_def begin_transaction_def flush_internal_def split: prod.split)

text \<open>
  Every record of an answered flush is reported once, but the future producer reports the wrong place.  The reports come in
  the order of the records, with their opaque values, all errors if the broker rejected the request.  In the reports of an accepted request partition and offset are the
  partition that the record asked for (or -1) and 0, although the broker has stored it elsewhere.
\<close>

theorem kafka_delivery_reports:
  assumes "fst (flush_internal Answered (map into_owned rs) b) = Ok reports"
  shows "map fst reports = map delivery_opaque rs \<and>
    (if fst (produce (map (fst \<circ> into_owned) rs) b) = Ok ()
     then map (future_delivery \<circ> snd) reports = map (\<lambda>r. Inr (case r_partition r of Some p \<Rightarrow> p | None \<Rightarrow> -1, 0)) rs
     else \<exists>e. map (future_delivery \<circ> snd) reports = map (\<lambda>r. Inl (e, fst (into_owned r))) rs)"
proof -
  obtain r b' where p: "produce (map (fst \<circ> into_owned) rs) b = (r, b')" by fastforce
  have r: "r = Ok () \<and> reports = map (\<lambda>(m, d). (d, Inr m)) (map into_owned rs) \<or>
    (\<exists>e. r = Err e \<and> reports = map (\<lambda>(m, d). (d, Inl (e, m))) (map into_owned rs))"
    using assms p by (cases r) (auto simp: flush_internal_def)
  moreover have "snd (into_owned x) = delivery_opaque x" for x :: "'a base_record" by (simp add: into_owned_def)
  ultimately show ?thesis
    using p by (auto simp: comp_def case_prod_beta future_delivery_def into_owned_def split: option.splits)
qed

theorem kafka_delivery_reports_witness:
  "map (future_delivery \<circ> snd) [(7::nat, Inr (fst (into_owned (with_opaque_to ''t'' (7::nat)))))] = [Inr (-1, 0)] \<and>
   fst (flush_internal Answered (map into_owned [with_opaque_to ''t'' (7::nat)]) demo_broker) =
     Ok [(7, Inr (fst (into_owned (with_opaque_to ''t'' (7::nat)))))]"
proof -
  let ?r = "with_opaque_to ''t'' (7::nat)"
  have ok: "fst (produce (map (fst \<circ> into_owned) [?r]) demo_broker) = Ok ()"
    by (simp add: demo_broker_eq produce_one_def into_owned_def with_opaque_to_def Let_def)
  then have "fst (flush_internal Answered (map into_owned [?r]) demo_broker) = Ok [(7, Inr (fst (into_owned ?r)))]"
    by (cases "produce (map (fst \<circ> into_owned) [?r]) demo_broker") (auto simp: flush_internal_def into_owned_def with_opaque_to_def)
  then show ?thesis using kafka_delivery_reports [of "[?r]" demo_broker] ok by (auto simp: with_opaque_to_def)
qed

end
