(* ===== verification/Grpc.thy ===== *)
theory Grpc
  imports Endpoint
begin

section \<open>The simulated gRPC transport (\<open>madsim-tonic\<close>)\<close>

text \<open>
  A call opens a connection of two channels, sends one message with the request, perhaps a stream of further ones, and receives one
  response or a header followed by a stream and a trailer.  The client is \<open>client.rs\<close> and \<open>codec.rs\<close>, the server the loop of
  \<open>transport/server.rs\<close> with the services that \<open>madsim-tonic-build\<close> generates (the quoted code of its \<open>server.rs\<close>).  Messages are untyped
  boxes; \<open>BUnit\<close> is the boxed \<open>()\<close>, the others are \<open>BMsg\<close>.  Metadata is the list of its entries.
\<close>

type_synonym meta = "(string \<times> string) list"

datatype code = Unimplemented | InvalidArgument | UnknownCode | DeadlineExceeded | OtherCode nat

record status =
  st_code :: code
  st_msg :: string
  st_meta :: meta

definition mk_status :: "code \<Rightarrow> string \<Rightarrow> status" where
  "mk_status c m = \<lparr>st_code = c, st_msg = m, st_meta = []\<rparr>"

datatype 'x boxed = BUnit | BMsg 'x

record 'x grpc_request =
  rq_meta :: meta
  rq_conn :: "(socket_addr \<times> socket_addr) option"
  rq_body :: 'x

text \<open>The messages on a connection; \<open>Inl\<close> is the \<open>Err\<close> of a result.\<close>

datatype 'x wire =
    Open string bool "'x boxed grpc_request"
  | Item "'x boxed"
  | Single "status + meta \<times> 'x boxed"
  | Head "status + meta"
  | Elem "status + 'x boxed"
  | Trailer

datatype kind = Unary | ClientStreaming | ServerStreaming | Bidi

primrec streams_requests :: "kind \<Rightarrow> bool" where
  "streams_requests Unary = False"
| "streams_requests ClientStreaming = True"
| "streams_requests ServerStreaming = False"
| "streams_requests Bidi = True"

primrec streams_responses :: "kind \<Rightarrow> bool" where
  "streams_responses Unary = False"
| "streams_responses ClientStreaming = False"
| "streams_responses ServerStreaming = True"
| "streams_responses Bidi = True"

subsection \<open>Metadata\<close>

text \<open>\<open>AppendMetadata\<close> for requests and for responses; \<open>date\<close> is the current time as text.\<close>

definition request_append :: "meta \<Rightarrow> meta" where
  "request_append m = m @ [(''content-type'', ''application/grpc'')]"

definition response_append :: "string \<Rightarrow> meta \<Rightarrow> meta" where
  "response_append date m = m @ [(''content-type'', ''application/grpc''), (''date'', date)]"

definition status_append :: "string \<Rightarrow> status \<Rightarrow> status" where
  "status_append date s = s\<lparr>st_meta := response_append date (st_meta s)\<rparr>"

text \<open>\<open>RequestExt::timeout\<close>.  The multiplications are checked: an overflow panics.\<close>

definition mul_u64 :: "nat \<Rightarrow> nat \<Rightarrow> ('e, nat) res" where
  "mul_u64 a b = (if a * b < 2 ^ 64 then Ok (a * b) else Panic ''attempt to multiply with overflow'')"

definition timeout_of :: "string \<Rightarrow> ('e, duration) res" where
  "timeout_of s =
     (if s = [] then Panic ''attempt to subtract with overflow''
      else bind_res (expect ''invalid grpc-timeout value'' (parse_uint 64 (butlast s))) (\<lambda>v.
        if last s = CHR ''H'' then bind_res (mul_u64 v 60) (\<lambda>v. bind_res (mul_u64 v 60) (\<lambda>v. Ok (v * nanos_per_sec)))
        else if last s = CHR ''M'' then bind_res (mul_u64 v 60) (\<lambda>v. Ok (v * nanos_per_sec))
        else if last s = CHR ''S'' then Ok (v * nanos_per_sec)
        else if last s = CHR ''m'' then Ok (v * nanos_per_ms)
        else if last s = CHR ''u'' then Ok (v * 1000)
        else if last s = CHR ''n'' then Ok v
        else Panic ''invalid grpc-timeout unit''))"

definition request_timeout :: "meta \<Rightarrow> ('e, duration option) res" where
  "request_timeout m =
     (case map_of m ''grpc-timeout'' of None \<Rightarrow> Ok None | Some s \<Rightarrow> bind_res (timeout_of s) (\<lambda>d. Ok (Some d)))"

text \<open>\<open>request.timeout().or(self.inner.timeout)\<close>: the limit of a call.\<close>

definition call_limit :: "duration option \<Rightarrow> meta \<Rightarrow> ('e, duration option) res" where
  "call_limit channel m = bind_res (request_timeout m) (\<lambda>t. Ok (case t of Some d \<Rightarrow> Some d | None \<Rightarrow> channel))"

text \<open>\<open>RequestExt::intercept\<close> and \<open>set_tcp_connect_info\<close>; \<open>icpt\<close> is the user's interceptor.\<close>

definition intercept :: "(meta \<Rightarrow> status + meta) \<Rightarrow> 'b grpc_request \<Rightarrow> status + 'b grpc_request" where
  "intercept icpt rq = map_sum (\<lambda>s. s) (\<lambda>m. rq\<lparr>rq_meta := m\<rparr>) (icpt (rq_meta rq))"

definition set_connect_info :: "socket_addr \<Rightarrow> socket_addr \<Rightarrow> 'b grpc_request \<Rightarrow> 'b grpc_request" where
  "set_connect_info loc rem rq = rq\<lparr>rq_conn := Some (loc, rem)\<rparr>"

subsection \<open>The client\<close>

text \<open>The first message of a call: \<open>unary\<close> and \<open>server_streaming\<close> box the request, a request stream starts with a boxed \<open>()\<close>.\<close>

definition open_msg :: "kind \<Rightarrow> string \<Rightarrow> 'x boxed grpc_request \<Rightarrow> 'x wire" where
  "open_msg k path rq = Open path (streams_responses k) (if streams_requests k then rq\<lparr>rq_body := BUnit\<rparr> else rq)"

definition prepare :: "(meta \<Rightarrow> status + meta) \<Rightarrow> 'b grpc_request \<Rightarrow> status + 'b grpc_request" where
  "prepare icpt rq = intercept icpt (rq\<lparr>rq_meta := request_append (rq_meta rq)\<rparr>)"

text \<open>What is done with a message from the server, or its absence; \<open>io\<close> converts an I/O error to a status.\<close>

definition recv_single :: "(io_error \<Rightarrow> status) \<Rightarrow> 'x wire option \<Rightarrow> (status, meta \<times> 'x boxed) res" where
  "recv_single io w =
     (case w of
        None \<Rightarrow> Err (io ConnectionReset)
      | Some (Single (Inr r)) \<Rightarrow> Ok r
      | Some (Single (Inl s)) \<Rightarrow> Err s
      | Some _ \<Rightarrow> Panic ''message type mismatch'')"

definition recv_head :: "(io_error \<Rightarrow> status) \<Rightarrow> 'x wire option \<Rightarrow> (status, meta) res" where
  "recv_head io w =
     (case w of
        None \<Rightarrow> Err (io ConnectionReset)
      | Some (Head (Inr h)) \<Rightarrow> Ok h
      | Some (Head (Inl s)) \<Rightarrow> Err s
      | Some _ \<Rightarrow> Panic ''called `Result::unwrap()` on an `Err` value'')"

text \<open>\<open>Streaming\<close>: one message, or the end, which is final.\<close>

definition stream_next :: "'x wire option \<Rightarrow> (status, 'x boxed option) res" where
  "stream_next w =
     (case w of
        None \<Rightarrow> Err (mk_status UnknownCode ''error reading a body from connection: broken pipe'')
      | Some Trailer \<Rightarrow> Ok None
      | Some (Elem (Inr m)) \<Rightarrow> Ok (Some m)
      | Some (Elem (Inl s)) \<Rightarrow> Err s
      | Some _ \<Rightarrow> Panic ''called `Result::unwrap()` on an `Err` value'')"

datatype 'x client =
    CStart
  | AwaitSingle
  | AwaitHead
  | GotSingle "(status, meta \<times> 'x boxed) res"
  | NoStream "(status, unit) res"
  | Reading meta "'x boxed list"
  | Ended meta "'x boxed list" "(status, unit) res"
  | Dropped

definition client_recv :: "(io_error \<Rightarrow> status) \<Rightarrow> 'x wire option \<Rightarrow> 'x client \<Rightarrow> 'x client" where
  "client_recv io w c =
     (case c of
        AwaitSingle \<Rightarrow> GotSingle (recv_single io w)
      | AwaitHead \<Rightarrow>
          (case recv_head io w of Ok h \<Rightarrow> Reading h [] | Err s \<Rightarrow> NoStream (Err s) | Panic m \<Rightarrow> NoStream (Panic m))
      | Reading h ms \<Rightarrow>
          (case stream_next w of
             Ok (Some m) \<Rightarrow> Reading h (ms @ [m])
           | Ok None \<Rightarrow> Ended h ms (Ok ())
           | Err s \<Rightarrow> Ended h ms (Err s)
           | Panic m \<Rightarrow> Ended h ms (Panic m))
      | _ \<Rightarrow> c)"

text \<open>\<open>with_timeout\<close>, when the time is over.\<close>

definition client_timeout :: "string \<Rightarrow> kind \<Rightarrow> 'x client" where
  "client_timeout msg k =
     (if streams_responses k then NoStream (Err (mk_status DeadlineExceeded msg)) else GotSingle (Err (mk_status DeadlineExceeded msg)))"

subsection \<open>The server\<close>

text \<open>The request as the service sees it: one message, or a stream that reads the connection, until its end or until
  the handler drops it.\<close>

datatype 'x source = SrcOnce "'x boxed" | SrcConn | SrcEnded | SrcDropped

datatype 'x server =
    Accepting
  | Ignored
  | Routed string bool "unit grpc_request" "'x source"
  | Handling bool "'x source"
  | SendStream "'x source"
  | Finished
  | Stopped
  | SPanicked string

text \<open>The first message of a connection; no message (a handshake or an error) is ignored.\<close>

definition server_first :: "socket_addr \<Rightarrow> socket_addr \<Rightarrow> 'x wire option \<Rightarrow> 'x server" where
  "server_first loc rem w =
     (case w of
        None \<Rightarrow> Ignored
      | Some (Open path streaming rq) \<Rightarrow>
          Routed path streaming (set_connect_info loc rem \<lparr>rq_meta = rq_meta rq, rq_conn = rq_conn rq, rq_body = ()\<rparr>)
            (if rq_body rq = BUnit then SrcConn else SrcOnce (rq_body rq))
      | Some _ \<Rightarrow> SPanicked ''invalid type'')"

text \<open>\<open>path.split('/').nth(1).unwrap()\<close>.\<close>

definition svc_name :: "string \<Rightarrow> ('e, string) res" where
  "svc_name path =
     (case str_split (CHR ''/'') path of _ # s # _ \<Rightarrow> Ok s | _ \<Rightarrow> Panic ''called `Option::unwrap()` on a `None` value'')"

definition error_msg :: "string \<Rightarrow> bool \<Rightarrow> status \<Rightarrow> 'x wire" where
  "error_msg date streaming s = (if streaming then Head (Inl (status_append date s)) else Single (Inl (status_append date s)))"

definition unimplemented :: "string \<Rightarrow> status" where
  "unimplemented path = mk_status Unimplemented (''service not found: '' @ path)"

definition no_path :: "string \<Rightarrow> status" where
  "no_path path = mk_status InvalidArgument (''no path: '' @ path)"

text \<open>
  The generated service.  A method without a request stream takes its request with \<open>now_or_never\<close>: it must be there at once.
  The messages of a connection never are, since they arrive with a delay.
\<close>

definition first_message :: "'x source \<Rightarrow> ('e, 'x boxed) res" where
  "first_message src = (case src of SrcOnce m \<Rightarrow> Ok m | _ \<Rightarrow> Panic ''called `Option::unwrap()` on a `None` value'')"

text \<open>The messages that answer a call, from the result of the handler (\<open>Inr (h, m)\<close>, with a message unless it streams).\<close>

definition reply_msg :: "string \<Rightarrow> bool \<Rightarrow> status + meta \<times> 'x boxed option \<Rightarrow> 'x wire" where
  "reply_msg date streaming r =
     (case r of
        Inl s \<Rightarrow> error_msg date streaming s
      | Inr (h, Some m) \<Rightarrow> if streaming then Head (Inr (response_append date h)) else Single (Inr (response_append date h, m))
      | Inr (h, None) \<Rightarrow> Head (Inr (response_append date h)))"

subsection \<open>A call over a connection\<close>

text \<open>
  The environment of a call: the operations of a channel (a send that succeeds, a poll of the receiver, the drop of the sender and of the
  receiver, and whether a send fails), the conversion of I/O errors, the registered services with the kinds of their methods, the interceptor of the service, the date, and
  the two addresses of the connection.
\<close>

record ('x, 'c) grpc_env =
  ge_icpt :: "meta \<Rightarrow> status + meta"
  ge_sends :: "'x wire \<Rightarrow> 'c \<Rightarrow> 'c \<Rightarrow> bool"
  ge_receives :: "'c \<Rightarrow> 'x wire option poll \<Rightarrow> 'c \<Rightarrow> bool"
  ge_shut :: "'c \<Rightarrow> 'c"
  ge_hang :: "'c \<Rightarrow> 'c"
  ge_dead :: "'c \<Rightarrow> bool"
  ge_io :: "io_error \<Rightarrow> status"
  ge_known :: "string \<Rightarrow> bool"
  ge_meth :: "string \<Rightarrow> kind option"
  ge_date :: string
  ge_local :: socket_addr
  ge_remote :: socket_addr

text \<open>
  \<open>k_tx\<close> tells whether the client still holds its sender.  The rest is what has happened: the items of the request stream that were sent
  and whether it came to its end, the messages the handler took, its result, the items of its response stream that
  were sent, and whether the trailer was.
\<close>

record ('x, 'c) grpc =
  k_kind :: kind
  k_path :: string
  k_req :: "'x boxed grpc_request"
  k_up :: 'c
  k_down :: 'c
  k_cl :: "'x client"
  k_tx :: bool
  k_srv :: "'x server"
  k_opened :: bool
  k_items :: "'x boxed list"
  k_whole :: bool
  k_pulled :: "'x boxed list"
  k_result :: "(status + meta \<times> 'x boxed option) option"
  k_out :: "(status + 'x boxed) list"
  k_trailer :: bool

definition grpc_start :: "kind \<Rightarrow> string \<Rightarrow> 'x boxed grpc_request \<Rightarrow> 'c \<Rightarrow> 'c \<Rightarrow> ('x, 'c) grpc" where
  "grpc_start k path rq up down =
     \<lparr>k_kind = k, k_path = path, k_req = rq, k_up = up, k_down = down, k_cl = CStart, k_tx = True, k_srv = Accepting,
      k_opened = False, k_items = [], k_whole = False, k_pulled = [], k_result = None, k_out = [], k_trailer = False\<rparr>"

definition awaits :: "kind \<Rightarrow> 'x client" where
  "awaits k = (if streams_responses k then AwaitHead else AwaitSingle)"

text \<open>A call whose first send fails: the request stream of a bidirectional call is sent by a task of its own, whose error is ignored.\<close>

definition client_unsent :: "(io_error \<Rightarrow> status) \<Rightarrow> kind \<Rightarrow> 'x client" where
  "client_unsent io k =
     (case k of
        Bidi \<Rightarrow> AwaitHead
      | ServerStreaming \<Rightarrow> NoStream (Err (io ConnectionReset))
      | _ \<Rightarrow> GotSingle (Err (io ConnectionReset)))"

primrec receiving :: "'x client \<Rightarrow> bool" where
  "receiving CStart = False"
| "receiving AwaitSingle = True"
| "receiving AwaitHead = True"
| "receiving (GotSingle r) = False"
| "receiving (NoStream r) = False"
| "receiving (Reading h ms) = True"
| "receiving (Ended h ms r) = False"
| "receiving Dropped = False"

text \<open>Whether the sender outlives the client's step to \<open>c\<close>: it is dropped when the call returns, and with the response stream of a
  bidirectional call; but the task of a bidirectional call that fails is not cancelled.\<close>

definition keeps_tx :: "kind \<Rightarrow> 'x client \<Rightarrow> bool" where
  "keeps_tx k c = (case c of Reading _ _ \<Rightarrow> k = Bidi | NoStream _ \<Rightarrow> k = Bidi | _ \<Rightarrow> receiving c)"

definition client_to :: "('x, 'c) grpc_env \<Rightarrow> 'x client \<Rightarrow> bool \<Rightarrow> 'c \<Rightarrow> ('x, 'c) grpc \<Rightarrow> ('x, 'c) grpc" where
  "client_to E c tx d s =
     s\<lparr>k_cl := c, k_tx := k_tx s \<and> tx, k_up := (if k_tx s \<and> \<not> tx then ge_shut E (k_up s) else k_up s),
       k_down := (if receiving c then d else ge_hang E d)\<rparr>"

text \<open>The server's task is over: both ends of the connection are dropped.\<close>

definition server_over :: "('x, 'c) grpc_env \<Rightarrow> 'x server \<Rightarrow> 'c \<Rightarrow> ('x, 'c) grpc \<Rightarrow> ('x, 'c) grpc" where
  "server_over E v d s = s\<lparr>k_srv := v, k_up := ge_hang E (k_up s), k_down := ge_shut E d\<rparr>"

definition route :: "('x, 'c) grpc_env \<Rightarrow> string \<Rightarrow> unit grpc_request \<Rightarrow> 'x source \<Rightarrow> (status, 'x boxed list) res" where
  "route E path rq src =
     bind_res (svc_name path) (\<lambda>n.
       if \<not> ge_known E n then Err (unimplemented path)
       else case intercept (ge_icpt E) rq of
              Inl e \<Rightarrow> Err e
            | Inr _ \<Rightarrow>
                (case ge_meth E path of
                   None \<Rightarrow> Err (no_path path)
                 | Some k \<Rightarrow> if streams_requests k then Ok [] else bind_res (first_message src) (\<lambda>m. Ok [m])))"

text \<open>The request stream of a service: each item is downcast to the request type; any end of the connection ends the stream.\<close>

definition pull :: "'x wire option \<Rightarrow> (unit, 'x boxed option) res" where
  "pull w =
     (case w of
        Some (Item m) \<Rightarrow> Ok (Some m)
      | Some _ \<Rightarrow> Panic ''called `Result::unwrap()` on an `Err` value''
      | None \<Rightarrow> Ok None)"

primrec reads_conn :: "'x server \<Rightarrow> bool" where
  "reads_conn Accepting = False"
| "reads_conn Ignored = False"
| "reads_conn (Routed p st rq src) = False"
| "reads_conn (Handling st src) = (src = SrcConn)"
| "reads_conn (SendStream src) = (src = SrcConn)"
| "reads_conn Finished = False"
| "reads_conn Stopped = False"
| "reads_conn (SPanicked m) = False"

definition end_source :: "'x source \<Rightarrow> 'x server \<Rightarrow> 'x server" where
  "end_source src v = (case v of Handling st _ \<Rightarrow> Handling st src | SendStream _ \<Rightarrow> SendStream src | _ \<Rightarrow> v)"

definition running :: "'x server \<Rightarrow> bool" where
  "running v \<longleftrightarrow> (case v of Ignored \<Rightarrow> False | Finished \<Rightarrow> False | Stopped \<Rightarrow> False | SPanicked m \<Rightarrow> False | _ \<Rightarrow> True)"

inductive grpc_step :: "('x, 'c) grpc_env \<Rightarrow> ('x, 'c) grpc \<Rightarrow> ('x, 'c) grpc \<Rightarrow> bool" for E where
  \<comment> \<open>the client\<close>
  g_open: "k_cl s = CStart \<Longrightarrow> ge_sends E (open_msg (k_kind s) (k_path s) (k_req s)) (k_up s) u \<Longrightarrow>
    grpc_step E s (s\<lparr>k_up := u, k_cl := awaits (k_kind s), k_opened := True\<rparr>)"
| g_open_fail: "k_cl s = CStart \<Longrightarrow> ge_dead E (k_up s) \<Longrightarrow>
    grpc_step E s (client_to E (client_unsent (ge_io E) (k_kind s)) False (k_down s) s)"
| g_item: "k_opened s \<Longrightarrow> k_tx s \<Longrightarrow> streams_requests (k_kind s) \<Longrightarrow> ge_sends E (Item m) (k_up s) u \<Longrightarrow>
    grpc_step E s (s\<lparr>k_up := u, k_items := k_items s @ [m]\<rparr>)"
| g_items_end: "k_opened s \<Longrightarrow> k_tx s \<Longrightarrow> streams_requests (k_kind s) \<Longrightarrow>
    grpc_step E s (s\<lparr>k_up := ge_shut E (k_up s), k_tx := False, k_whole := True\<rparr>)"
| g_item_fail: "k_opened s \<Longrightarrow> k_tx s \<Longrightarrow> streams_requests (k_kind s) \<Longrightarrow> ge_dead E (k_up s) \<Longrightarrow>
    grpc_step E s (s\<lparr>k_up := ge_shut E (k_up s), k_tx := False\<rparr>)"
| g_recv: "receiving (k_cl s) \<Longrightarrow> (k_kind s = ClientStreaming \<Longrightarrow> \<not> k_tx s) \<Longrightarrow> ge_receives E (k_down s) (Ready w) d \<Longrightarrow>
    c = client_recv (ge_io E) w (k_cl s) \<Longrightarrow> grpc_step E s (client_to E c (keeps_tx (k_kind s) c) d s)"
| g_wait: "receiving (k_cl s) \<Longrightarrow> ge_receives E (k_down s) Pending d \<Longrightarrow> grpc_step E s (s\<lparr>k_down := d\<rparr>)"
| g_timeout: "k_cl s \<in> {CStart, AwaitSingle, AwaitHead} \<Longrightarrow>
    grpc_step E s (client_to E (client_timeout msg (k_kind s)) (k_kind s = Bidi \<and> k_cl s \<noteq> CStart) (k_down s) s)"
| g_drop: "receiving (k_cl s) \<or> k_cl s = CStart \<Longrightarrow> grpc_step E s (client_to E Dropped False (k_down s) s)"
| g_kill: "k_tx s \<Longrightarrow> \<not> receiving (k_cl s) \<Longrightarrow> k_cl s \<noteq> CStart \<Longrightarrow>
    grpc_step E s (s\<lparr>k_up := ge_shut E (k_up s), k_tx := False\<rparr>)"
  \<comment> \<open>the server\<close>
| s_first: "k_srv s = Accepting \<Longrightarrow> ge_receives E (k_up s) (Ready w) u \<Longrightarrow>
    v = server_first (ge_local E) (ge_remote E) w \<Longrightarrow>
    grpc_step E s (if running v then s\<lparr>k_srv := v, k_up := u\<rparr> else server_over E v (k_down s) (s\<lparr>k_up := u\<rparr>))"
| s_wait: "k_srv s = Accepting \<or> reads_conn (k_srv s) \<Longrightarrow> ge_receives E (k_up s) Pending u \<Longrightarrow> grpc_step E s (s\<lparr>k_up := u\<rparr>)"
| s_call: "k_srv s = Routed path st rq src \<Longrightarrow> route E path rq src = Ok ms \<Longrightarrow>
    grpc_step E s (s\<lparr>k_srv := Handling st src, k_pulled := ms\<rparr>)"
| s_reject: "k_srv s = Routed path st rq src \<Longrightarrow> route E path rq src = Err e \<Longrightarrow> ge_sends E (error_msg (ge_date E) st e) (k_down s) d \<Longrightarrow>
    grpc_step E s (server_over E Finished d (s\<lparr>k_result := Some (Inl e)\<rparr>))"
| s_crash: "k_srv s = Routed path st rq src \<Longrightarrow> route E path rq src = Panic m \<Longrightarrow>
    grpc_step E s (server_over E (SPanicked m) (k_down s) s)"
| s_pull: "reads_conn (k_srv s) \<Longrightarrow> ge_receives E (k_up s) (Ready w) u \<Longrightarrow> pull w = Ok (Some m) \<Longrightarrow>
    grpc_step E s (s\<lparr>k_up := u, k_pulled := k_pulled s @ [m]\<rparr>)"
| s_pulled_all: "reads_conn (k_srv s) \<Longrightarrow> ge_receives E (k_up s) (Ready w) u \<Longrightarrow> pull w = Ok None \<Longrightarrow>
    grpc_step E s (s\<lparr>k_up := u, k_srv := end_source SrcEnded (k_srv s)\<rparr>)"
| s_pull_drop: "reads_conn (k_srv s) \<Longrightarrow>
    grpc_step E s (s\<lparr>k_up := ge_hang E (k_up s), k_srv := end_source SrcDropped (k_srv s)\<rparr>)"
| s_pull_crash: "reads_conn (k_srv s) \<Longrightarrow> ge_receives E (k_up s) (Ready w) u \<Longrightarrow> pull w = Panic m \<Longrightarrow>
    grpc_step E s (server_over E (SPanicked m) (k_down s) (s\<lparr>k_up := u\<rparr>))"
| s_result: "k_srv s = Handling st src \<Longrightarrow> (\<And>h mo. r = Inr (h, mo) \<Longrightarrow> mo = None \<longleftrightarrow> st) \<Longrightarrow>
    ge_sends E (reply_msg (ge_date E) st r) (k_down s) d \<Longrightarrow>
    grpc_step E s (if st \<and> r \<in> range Inr then s\<lparr>k_srv := SendStream src, k_down := d, k_result := Some r\<rparr>
                   else server_over E Finished d (s\<lparr>k_result := Some r\<rparr>))"
| s_elem: "k_srv s = SendStream src \<Longrightarrow> ge_sends E (Elem r) (k_down s) d \<Longrightarrow>
    grpc_step E s (s\<lparr>k_down := d, k_out := k_out s @ [r]\<rparr>)"
| s_end: "k_srv s = SendStream src \<Longrightarrow> ge_sends E Trailer (k_down s) d \<Longrightarrow>
    grpc_step E s (server_over E Finished d (s\<lparr>k_trailer := True\<rparr>))"
| s_stop: "running (k_srv s) \<Longrightarrow> grpc_step E s (server_over E Stopped (k_down s) s)"

inductive grpc_reachable :: "('x, 'c) grpc_env \<Rightarrow> ('x, 'c) grpc \<Rightarrow> ('x, 'c) grpc \<Rightarrow> bool" for E s0 where
  grpc_init: "grpc_reachable E s0 s0"
| grpc_next: "grpc_reachable E s0 s \<Longrightarrow> grpc_step E s s' \<Longrightarrow> grpc_reachable E s0 s'"

subsection \<open>On the simulated network\<close>

definition grpc_net :: "'r rng_ops \<Rightarrow> ('tm, 'cb) timer_ops \<Rightarrow> (meta \<Rightarrow> status + meta) \<Rightarrow> (io_error \<Rightarrow> status) \<Rightarrow> (string \<Rightarrow> bool)
    \<Rightarrow> (string \<Rightarrow> kind option) \<Rightarrow> string \<Rightarrow> socket_addr \<Rightarrow> socket_addr \<Rightarrow> ('x, 'x wire chan) grpc_env" where
  "grpc_net R T icpt io known meth date loc rem =
     \<lparr>ge_icpt = icpt, ge_sends = chan_sends R, ge_receives = chan_receives R T, ge_shut = chan_shut, ge_hang = chan_hang, ge_dead = conn_is_closed,
      ge_io = io, ge_known = known, ge_meth = meth, ge_date = date, ge_local = loc, ge_remote = rem\<rparr>"

end
