(* ===== verification/GrpcProps.thy ===== *)
theory GrpcProps
  imports Grpc "HOL-Library.Sublist"
begin

section \<open>Properties of the simulated gRPC\<close>

text \<open>
  What the client of a call sees is what the handler gave, and a response stream that was cut off is never taken for a complete one; the
  requests a handler sees are those that were sent.  The proofs rest on the contract of a channel only.
\<close>

subsection \<open>The contract of a connection\<close>

locale grpc_link = fifo_channel "ge_sends E" "ge_receives E" content
  for E :: "('x, 'c) grpc_env" and content :: "'c \<Rightarrow> 'x wire list" +
  fixes closed :: "'c \<Rightarrow> bool"
  assumes content_shut: "content (ge_shut E c) = content c"
    and content_hang: "content (ge_hang E c) = content c"
    and closed_shut: "closed (ge_shut E c)"
    and closed_hang: "closed (ge_hang E c) = closed c"
    and closed_sends: "ge_sends E w c c' \<Longrightarrow> closed c' = closed c"
    and closed_receives: "ge_receives E c x c' \<Longrightarrow> closed c' = closed c"
    and closed_end: "ge_receives E c (Ready None) c' \<Longrightarrow> closed c"

lemma rx_poll_keeps_tx:
  assumes "rx_poll R T waker c h n r = (Ok (x, c', h', n', r') :: ('e, _) res)"
  shows "ch_tx_open c' = ch_tx_open c"
  using assms by (cases rule: rx_poll_cases) simp_all

interpretation gnet: grpc_link "grpc_net R T icpt io known meth date loc rem" in_flight "\<lambda>c. \<not> ch_tx_open c"
proof (unfold_locales, goal_cases)
  case (1 v c c')
  then show ?case using netchan.content_sends by (simp add: grpc_net_def)
next
  case (2 c v c')
  then show ?case using netchan.content_receives_Some by (simp add: grpc_net_def)
next
  case (3 c c')
  then show ?case using netchan.content_receives_None by (simp add: grpc_net_def)
next
  case (4 c c')
  then show ?case using netchan.content_receives_Pending by (simp add: grpc_net_def)
next
  case (9 w c c')
  then show ?case by (auto simp: grpc_net_def chan_sends_def payload_send_def bind_res_Ok_iff split: if_splits)
next
  case (10 c x c')
  then show ?case by (auto simp: grpc_net_def chan_receives_def dest!: rx_poll_keeps_tx)
next
  case (11 c c')
  then obtain waker h n r h' n' r' where p: "rx_poll R T waker c h n r = (Ok (Ready None, c', h', n', r') :: (io_error, _) res)"
    by (auto simp: grpc_net_def chan_receives_def)
  from p show ?case by (cases rule: rx_poll_cases) (auto split: if_splits)
qed (auto simp: grpc_net_def in_flight_def chan_shut_def chan_hang_def)

subsection \<open>The messages of both directions\<close>

definition down_wires :: "('x, 'c) grpc_env \<Rightarrow> ('x, 'c) grpc \<Rightarrow> 'x wire list" where
  "down_wires E s =
     map (reply_msg (ge_date E) (streams_responses (k_kind s))) (case k_result s of None \<Rightarrow> [] | Some r \<Rightarrow> [r]) @ map Elem (k_out s) @ (if k_trailer s then [Trailer] else [])"

definition up_wires :: "('x, 'c) grpc \<Rightarrow> 'x wire list" where
  "up_wires s = (if k_opened s then [open_msg (k_kind s) (k_path s) (k_req s)] else []) @ map Item (k_items s)"

text \<open>The state of the server and what it has sent agree.\<close>

definition result_ok :: "('x, 'c) grpc \<Rightarrow> bool" where
  "result_ok s \<longleftrightarrow>
     (case k_result s of
        Some (Inr (h, mo)) \<Rightarrow> (mo = None \<longleftrightarrow> streams_responses (k_kind s)) \<and> (mo \<noteq> None \<longrightarrow> k_out s = [] \<and> \<not> k_trailer s)
      | _ \<Rightarrow> k_out s = [] \<and> \<not> k_trailer s)"

definition srv_ok :: "('x, 'c) grpc \<Rightarrow> bool" where
  "srv_ok s \<longleftrightarrow>
     (case k_srv s of
        Accepting \<Rightarrow> k_result s = None \<and> k_pulled s = []
      | Ignored \<Rightarrow> k_result s = None \<and> k_pulled s = []
      | Routed p st rq src \<Rightarrow> k_result s = None \<and> k_pulled s = [] \<and> st = streams_responses (k_kind s)
      | Handling st src \<Rightarrow> k_result s = None \<and> st = streams_responses (k_kind s)
      | SendStream src \<Rightarrow> (\<exists>h. k_result s = Some (Inr (h, None))) \<and> \<not> k_trailer s
      | Finished \<Rightarrow> True
      | Stopped \<Rightarrow> \<not> k_trailer s
      | SPanicked m \<Rightarrow> \<not> k_trailer s)"

definition broken_pipe :: status where
  "broken_pipe = mk_status UnknownCode ''error reading a body from connection: broken pipe''"

text \<open>What the client has seen is a prefix of what the server sent, and its state follows from it.\<close>

definition cl_view :: "(io_error \<Rightarrow> status) \<Rightarrow> bool \<Rightarrow> 'x wire list \<Rightarrow> 'x wire list \<Rightarrow> 'x client \<Rightarrow> bool" where
  "cl_view io sr ws rest c \<longleftrightarrow>
     (let got = \<lambda>h ms. Head (Inr h) # map (Elem \<circ> Inr) ms in
      case c of
        CStart \<Rightarrow> ws = rest
      | AwaitSingle \<Rightarrow> \<not> sr \<and> ws = rest
      | AwaitHead \<Rightarrow> sr \<and> ws = rest
      | Reading h ms \<Rightarrow> sr \<and> ws = got h ms @ rest
      | GotSingle (Ok r) \<Rightarrow> prefix [Single (Inr r)] ws
      | GotSingle (Err e) \<Rightarrow> prefix [Single (Inl e)] ws \<or> e = io ConnectionReset \<or> st_code e = DeadlineExceeded
      | GotSingle (Panic m) \<Rightarrow> False
      | NoStream (Err e) \<Rightarrow> prefix [Head (Inl e)] ws \<or> e = io ConnectionReset \<or> st_code e = DeadlineExceeded
      | NoStream _ \<Rightarrow> False
      | Ended h ms (Ok _) \<Rightarrow> prefix (got h ms @ [Trailer]) ws
      | Ended h ms (Err e) \<Rightarrow> prefix (got h ms @ [Elem (Inl e)]) ws \<or> prefix (got h ms) ws \<and> e = broken_pipe
      | Ended h ms (Panic m) \<Rightarrow> False
      | Dropped \<Rightarrow> True)"

definition cl_ok :: "('x, 'c) grpc_env \<Rightarrow> ('c \<Rightarrow> 'x wire list) \<Rightarrow> ('x, 'c) grpc \<Rightarrow> bool" where
  "cl_ok E content s \<longleftrightarrow>
     cl_view (ge_io E) (streams_responses (k_kind s)) (down_wires E s) (content (k_down s)) (k_cl s)"

lemma cl_view_mono: "cl_view io sr ws rest c \<Longrightarrow> cl_view io sr (ws @ vs) (rest @ vs) c"
  unfolding cl_view_def Let_def by (auto split: client.splits res.splits intro: prefix_prefix)

lemma cl_ok_mono:
  assumes "cl_ok E content s" "k_cl s' = k_cl s" "k_kind s' = k_kind s"
    and "down_wires E s' = down_wires E s @ ws" "content (k_down s') = content (k_down s) @ ws"
  shows "cl_ok E content s'"
  using assms cl_view_mono by (simp add: cl_ok_def)

lemma down_wires_shape:
  assumes "result_ok s" "down_wires E s = w # ws"
  shows "(if streams_responses (k_kind s) then \<exists>x. w = Head x else \<exists>x. w = Single x)"
    and "\<forall>v \<in> set ws. v = Trailer \<or> (\<exists>r. v = Elem r)"
  using assms
  by (auto simp: result_ok_def down_wires_def reply_msg_def error_msg_def split: option.splits sum.splits prod.splits if_splits)


text \<open>The first message the server sees is the one the client sent first.\<close>

definition up_ok :: "('c \<Rightarrow> 'x wire list) \<Rightarrow> ('x, 'c) grpc \<Rightarrow> bool" where
  "up_ok content s \<longleftrightarrow>
     (k_srv s = Accepting \<longrightarrow> content (k_up s) = up_wires s) \<and> (\<not> k_opened s \<longrightarrow> k_items s = [] \<and> k_srv s \<in> {Accepting, Ignored, Stopped}) \<and> (k_cl s = CStart \<longrightarrow> \<not> k_opened s)"

definition grpc_inv :: "('x, 'c) grpc_env \<Rightarrow> ('c \<Rightarrow> 'x wire list) \<Rightarrow> ('x, 'c) grpc \<Rightarrow> bool" where
  "grpc_inv E content s \<longleftrightarrow> result_ok s \<and> srv_ok s \<and> up_ok content s \<and> cl_ok E content s"

lemmas grpc_ok_defs = result_ok_def srv_ok_def up_ok_def up_wires_def down_wires_def server_over_def client_to_def

lemma client_recv_not_start: "receiving c \<Longrightarrow> client_recv io w c \<noteq> CStart"
  by (cases c) (auto simp: client_recv_def split: res.splits option.splits)

lemma client_to_sel [simp]:
  "k_kind (client_to E c tx d s) = k_kind s" "k_cl (client_to E c tx d s) = c" "k_srv (client_to E c tx d s) = k_srv s"
  "k_opened (client_to E c tx d s) = k_opened s" "k_items (client_to E c tx d s) = k_items s"
  "k_pulled (client_to E c tx d s) = k_pulled s" "k_result (client_to E c tx d s) = k_result s"
  "k_out (client_to E c tx d s) = k_out s" "k_trailer (client_to E c tx d s) = k_trailer s" "k_whole (client_to E c tx d s) = k_whole s"
  "k_path (client_to E c tx d s) = k_path s" "k_req (client_to E c tx d s) = k_req s" "k_tx (client_to E c tx d s) = (k_tx s \<and> tx)"
  by (simp_all add: client_to_def)

lemma server_over_sel [simp]:
  "k_kind (server_over E v d s) = k_kind s" "k_cl (server_over E v d s) = k_cl s" "k_srv (server_over E v d s) = v"
  "k_opened (server_over E v d s) = k_opened s" "k_items (server_over E v d s) = k_items s"
  "k_pulled (server_over E v d s) = k_pulled s" "k_result (server_over E v d s) = k_result s"
  "k_out (server_over E v d s) = k_out s" "k_trailer (server_over E v d s) = k_trailer s" "k_whole (server_over E v d s) = k_whole s"
  "k_path (server_over E v d s) = k_path s" "k_req (server_over E v d s) = k_req s" "k_tx (server_over E v d s) = k_tx s"
  by (simp_all add: server_over_def)

lemma down_wires_same [simp]: "down_wires E (client_to E' c tx d s) = down_wires E s" "down_wires E (server_over E' v d s) = down_wires E s"
  by (simp_all add: down_wires_def)

lemma up_wires_same [simp]: "up_wires (client_to E c tx d s) = up_wires s" "up_wires (server_over E v d s) = up_wires s"
  by (simp_all add: up_wires_def)

context grpc_link
begin

lemma content_client_to [simp]:
  "content (k_down (client_to E c tx d s)) = content d" "content (k_up (client_to E c tx d s)) = content (k_up s)"
  by (auto simp: client_to_def content_shut content_hang)

lemma content_server_over [simp]:
  "content (k_down (server_over E v d s)) = content d" "content (k_up (server_over E v d s)) = content (k_up s)"
  by (auto simp: server_over_def content_shut content_hang)

text \<open>What the client makes of a message.\<close>

lemma cl_ok_recv:
  assumes "result_ok s" "cl_ok E content s" "receiving (k_cl s)" "ge_receives E (k_down s) (Ready w) d"
  shows "cl_ok E content (client_to E (client_recv (ge_io E) w (k_cl s)) tx d s)"
proof -
  have c: "content (k_down s) = (case w of Some x \<Rightarrow> [x] | None \<Rightarrow> []) @ content d"
    and none: "w = None \<Longrightarrow> content d = []"
    using content_receives[OF assms(4)] content_receives_None assms(4) by (auto split: option.splits)
  show ?thesis
  proof (cases "k_cl s")
    case AwaitSingle
    then have ws: "\<not> streams_responses (k_kind s)" "down_wires E s = content (k_down s)"
      using assms(2) by (auto simp: cl_ok_def cl_view_def)
    show ?thesis
    proof (cases w)
      case None then show ?thesis using AwaitSingle ws by (simp add: cl_ok_def cl_view_def client_recv_def recv_single_def)
    next
      case (Some x)
      then obtain r where "x = Single r" using down_wires_shape(1)[OF assms(1), of E x "content d"] ws c by auto
      then show ?thesis using AwaitSingle ws c Some by (cases r) (auto simp: cl_ok_def cl_view_def client_recv_def recv_single_def)
    qed
  next
    case AwaitHead
    then have ws: "streams_responses (k_kind s)" "down_wires E s = content (k_down s)"
      using assms(2) by (auto simp: cl_ok_def cl_view_def)
    show ?thesis
    proof (cases w)
      case None then show ?thesis using AwaitHead ws by (simp add: cl_ok_def cl_view_def client_recv_def recv_head_def)
    next
      case (Some x)
      then obtain r where "x = Head r" using down_wires_shape(1)[OF assms(1), of E x "content d"] ws c by auto
      then show ?thesis using AwaitHead ws c Some by (cases r) (auto simp: cl_ok_def cl_view_def client_recv_def recv_head_def)
    qed
  next
    case (Reading h ms)
    then have ws: "streams_responses (k_kind s)"
      "down_wires E s = (Head (Inr h) # map (Elem \<circ> Inr) ms) @ content (k_down s)"
      using assms(2) by (auto simp: cl_ok_def cl_view_def)
    show ?thesis
    proof (cases w)
      case None then show ?thesis using Reading ws by (auto simp: cl_ok_def cl_view_def client_recv_def stream_next_def broken_pipe_def)
    next
      case (Some x)
      have "x = Trailer \<or> (\<exists>r. x = Elem r)"
        using down_wires_shape(2)[OF assms(1), of E "Head (Inr h)" "map (Elem \<circ> Inr) ms @ x # content d"] ws c Some by auto
      then show ?thesis
      proof
        assume "x = Trailer"
        then show ?thesis using Reading ws c Some by (auto simp: cl_ok_def cl_view_def client_recv_def stream_next_def)
      next
        assume "\<exists>r. x = Elem r"
        then obtain r where "x = Elem r" by blast
        then show ?thesis using Reading ws c Some
          by (cases r) (auto simp: cl_ok_def cl_view_def client_recv_def stream_next_def)
      qed
    qed
  qed (use assms(3) in auto)
qed

lemma cl_ok_server_over [simp]: "content d = content (k_down s) \<Longrightarrow> cl_ok E content (server_over E v d s) = cl_ok E content s"
  by (simp add: cl_ok_def)

lemma cl_ok_srv [simp]: "cl_ok E content (s\<lparr>k_srv := v\<rparr>) = cl_ok E content s" "cl_ok E content (s\<lparr>k_up := u\<rparr>) = cl_ok E content s"
    "cl_ok E content (s\<lparr>k_pulled := p\<rparr>) = cl_ok E content s" "cl_ok E content (s\<lparr>k_items := i\<rparr>) = cl_ok E content s"
    "cl_ok E content (s\<lparr>k_tx := t\<rparr>) = cl_ok E content s" "cl_ok E content (s\<lparr>k_whole := b\<rparr>) = cl_ok E content s"
  by (simp_all add: cl_ok_def down_wires_def)

lemma step_up:
  assumes "grpc_step E s s'" "up_ok content s"
  shows "up_ok content s'"
  using assms(1)
proof cases
  case (g_recv w d c)
  then show ?thesis using assms(2) client_recv_not_start[of "k_cl s"] by (auto simp: up_ok_def)
next
  case (s_first w u v)
  then have "content (k_up s) = up_wires s" using assms(2) by (simp add: up_ok_def)
  with s_first have "\<not> k_opened s \<Longrightarrow> w = None" using content_receives_Some assms(2)
    by (cases w) (auto simp: up_ok_def up_wires_def)
  then show ?thesis using s_first assms(2)
    by (auto simp: up_ok_def server_first_def running_def split: option.splits wire.splits if_splits)
qed (use assms(2) in \<open>auto simp: up_ok_def up_wires_def awaits_def client_unsent_def client_timeout_def content_sends content_shut
       content_receives_Pending end_source_def running_def split: kind.splits if_splits server.splits\<close>)

lemma step_srv:
  assumes "grpc_step E s s'" "up_ok content s" "result_ok s" "srv_ok s"
  shows "result_ok s' \<and> srv_ok s'"
  using assms(1)
proof cases
  case (s_first w u v)
  then have "content (k_up s) = up_wires s" using assms(2) by (simp add: up_ok_def)
  with s_first have w: "\<And>x. w = Some x \<Longrightarrow> up_wires s = x # content u" using content_receives_Some by metis
  have "\<And>p st rq src. v = Routed p st rq src \<Longrightarrow> st = streams_responses (k_kind s)"
  proof -
    fix p st rq src assume "v = Routed p st rq src"
    then obtain r where "w = Some (Open p st r)" using s_first by (auto simp: server_first_def split: option.splits wire.splits if_splits)
    then show "st = streams_responses (k_kind s)" using w assms(2)
      by (auto simp: up_wires_def open_msg_def up_ok_def split: if_splits)
  qed
  then show ?thesis using s_first assms(3,4)
    by (cases v) (auto simp: result_ok_def srv_ok_def server_first_def running_def split: option.splits wire.splits)
next
  case (s_result st src r d)
  then show ?thesis using assms(3,4)
    by (auto simp: result_ok_def srv_ok_def split: sum.splits)
qed (use assms(3,4) in \<open>auto simp: result_ok_def srv_ok_def end_source_def running_def split: server.splits option.splits sum.splits\<close>)

lemma step_cl:
  assumes "grpc_step E s s'" "up_ok content s" "result_ok s" "srv_ok s" "cl_ok E content s"
  shows "cl_ok E content s'"
  using assms(1)
proof cases
  case (g_recv w d c)
  then show ?thesis using cl_ok_recv[OF assms(3,5)] by simp
next
  case (s_reject path st rq src e d)
  then show ?thesis using assms(3,4)
    by (auto intro!: cl_ok_mono[OF assms(5), where ws = "[reply_msg (ge_date E) st (Inl e)]"]
             simp: down_wires_def result_ok_def srv_ok_def content_sends reply_msg_def)
next
  case (s_result st src r d)
  then show ?thesis using assms(3,4)
    by (auto intro!: cl_ok_mono[OF assms(5), where ws = "[reply_msg (ge_date E) st r]"]
             simp: down_wires_def result_ok_def srv_ok_def content_sends)
next
  case (s_elem src r d)
  then show ?thesis using assms(4)
    by (auto intro!: cl_ok_mono[OF assms(5), where ws = "[Elem r]"] simp: down_wires_def srv_ok_def content_sends)
next
  case (s_end src d)
  then show ?thesis using assms(4)
    by (auto intro!: cl_ok_mono[OF assms(5), where ws = "[Trailer]"] simp: down_wires_def srv_ok_def content_sends)
next
  case (g_open u)
  then show ?thesis using assms(5) by (auto simp: cl_ok_def cl_view_def down_wires_def awaits_def)
next
  case g_open_fail
  then show ?thesis using assms(5)
    by (auto simp: cl_ok_def cl_view_def client_unsent_def split: kind.splits)
next
  case (g_timeout msg)
  then show ?thesis by (auto simp: cl_ok_def cl_view_def client_timeout_def mk_status_def)
next
  case g_drop
  then show ?thesis by (simp add: cl_ok_def cl_view_def)
next
  case (g_wait d)
  then show ?thesis using assms(5) by (simp add: cl_ok_def down_wires_def content_receives_Pending)
qed (use assms(5) in simp_all)

lemma step_inv: "grpc_step E s s' \<Longrightarrow> grpc_inv E content s \<Longrightarrow> grpc_inv E content s'"
  using step_up step_srv step_cl by (simp add: grpc_inv_def)

lemma reachable_inv:
  assumes "grpc_reachable E (grpc_start k path rq up down) s" "content up = []" "content down = []"
  shows "grpc_inv E content s \<and> k_kind s = k"
  using assms(1)
proof induction
  case grpc_init
  then show ?case using assms(2,3)
    by (simp add: grpc_inv_def grpc_start_def result_ok_def srv_ok_def up_ok_def up_wires_def cl_ok_def cl_view_def down_wires_def)
next
  case (grpc_next s s')
  moreover have "k_kind s' = k_kind s" using grpc_next.hyps(2) by cases auto
  ultimately show ?case using step_inv by simp
qed

end

subsection \<open>The requests\<close>

text \<open>What the handler has taken, while it runs (\<open>taking\<close>) and when its task is over (\<open>taken\<close>).\<close>

definition taking :: "('c \<Rightarrow> 'x wire list) \<Rightarrow> ('x, 'c) grpc \<Rightarrow> 'x source \<Rightarrow> bool" where
  "taking content s src \<longleftrightarrow>
     (if streams_requests (k_kind s)
      then src = SrcConn \<and> map Item (k_items s) = map Item (k_pulled s) @ content (k_up s) \<or>
           src = SrcEnded \<and> k_pulled s = k_items s \<and> \<not> k_tx s \<or>
           src = SrcDropped \<and> prefix (k_pulled s) (k_items s)
      else src = SrcOnce (rq_body (k_req s)) \<and> k_pulled s = [rq_body (k_req s)] \<and> rq_body (k_req s) \<noteq> BUnit)"

definition succeeded :: "(status + 'a) option \<Rightarrow> bool" where
  "succeeded r = (case r of Some (Inr x) \<Rightarrow> True | _ \<Rightarrow> False)"

lemma succeeded_simps [simp]: "succeeded None = False" "succeeded (Some (Inl e)) = False" "succeeded (Some (Inr x)) = True"
  by (simp_all add: succeeded_def)

definition taken :: "('x, 'c) grpc \<Rightarrow> bool" where
  "taken s \<longleftrightarrow>
     (if streams_requests (k_kind s) then prefix (k_pulled s) (k_items s)
      else k_pulled s = [rq_body (k_req s)] \<and> rq_body (k_req s) \<noteq> BUnit \<or> k_pulled s = [] \<and> \<not> succeeded (k_result s))"

definition routed_ok :: "('x, 'c) grpc_env \<Rightarrow> ('c \<Rightarrow> 'x wire list) \<Rightarrow> ('x, 'c) grpc \<Rightarrow> string \<Rightarrow> unit grpc_request \<Rightarrow> 'x source \<Rightarrow> bool" where
  "routed_ok E content s p rq src \<longleftrightarrow>
     p = k_path s \<and> rq_meta rq = rq_meta (k_req s) \<and> rq_conn rq = Some (ge_local E, ge_remote E) \<and> content (k_up s) = map Item (k_items s) \<and>
     src = (if streams_requests (k_kind s) \<or> rq_body (k_req s) = BUnit then SrcConn else SrcOnce (rq_body (k_req s)))"

definition req_ok :: "('x, 'c) grpc_env \<Rightarrow> ('c \<Rightarrow> 'x wire list) \<Rightarrow> ('c \<Rightarrow> bool) \<Rightarrow> ('x, 'c) grpc \<Rightarrow> bool" where
  "req_ok E content shut s \<longleftrightarrow>
     (shut (k_up s) \<longrightarrow> \<not> k_tx s) \<and> ge_meth E (k_path s) = Some (k_kind s) \<and>
     (case k_srv s of
        Routed p st rq src \<Rightarrow> routed_ok E content s p rq src
      | Handling st src \<Rightarrow> taking content s src
      | SendStream src \<Rightarrow> taking content s src
      | _ \<Rightarrow> taken s)"

lemma inj_Item [simp]: "inj Item"
  by (simp add: inj_def)

lemma taking_taken: "taking content s src \<Longrightarrow> taken s"
proof -
  assume t: "taking content s src"
  have "map Item (k_items s) = map Item (k_pulled s) @ content (k_up s) \<Longrightarrow> prefix (k_pulled s) (k_items s)"
    by (metis inj_Item inj_map_eq_map map_append map_eq_append_conv prefixI)
  with t show ?thesis by (auto simp: taking_def taken_def split: if_splits)
qed

lemma route_Ok:
  assumes "route E path rq src = Ok ms" "ge_meth E path = Some k"
  shows "if streams_requests k then ms = [] else \<exists>m. src = SrcOnce m \<and> ms = [m]"
  using assms by (auto simp: route_def bind_res_Ok_iff first_message_def split: if_splits source.splits sum.splits)

lemma taking_more: "taking content s src \<Longrightarrow> streams_requests (k_kind s) \<Longrightarrow> k_tx s \<Longrightarrow> content u = content (k_up s) @ [Item m] \<Longrightarrow>
    taking content (s\<lparr>k_up := u, k_items := k_items s @ [m]\<rparr>) src"
  by (auto simp: taking_def)

lemma taken_more: "taken s \<Longrightarrow> streams_requests (k_kind s) \<Longrightarrow> taken (s\<lparr>k_up := u, k_items := k_items s @ [m]\<rparr>)"
  by (auto simp: taken_def intro: prefix_prefix)

lemma taken_same:
  assumes "taken s" "k_kind s' = k_kind s" "k_req s' = k_req s" "k_items s' = k_items s" "k_pulled s' = k_pulled s" "k_result s' = k_result s"
  shows "taken s'"
  using assms by (simp add: taken_def)

lemma taking_same:
  assumes "taking content s src" "k_kind s' = k_kind s" "k_req s' = k_req s" "k_items s' = k_items s" "k_pulled s' = k_pulled s"
    "k_tx s' \<Longrightarrow> k_tx s" "content (k_up s') = content (k_up s)"
  shows "taking content s' src"
  using assms by (auto simp: taking_def)

text \<open>A step that changes neither the server nor what was sent.\<close>

lemma req_ok_same:
  assumes "req_ok E content shut s" "k_kind s' = k_kind s" "k_req s' = k_req s" "k_items s' = k_items s" "k_pulled s' = k_pulled s"
    "k_result s' = k_result s" "k_srv s' = k_srv s" "k_path s' = k_path s" "k_tx s' \<Longrightarrow> k_tx s \<and> \<not> shut (k_up s')"
    "content (k_up s') = content (k_up s)"
  shows "req_ok E content shut s'"
  using assms taken_same[of s s'] taking_same[of content s _ s']
  by (auto simp: req_ok_def routed_ok_def split: server.splits)

text \<open>The task of the server ends.\<close>

lemma req_ok_over:
  assumes "req_ok E content shut s" "taken s" "k_srv s' \<in> {Finished, Stopped} \<union> range SPanicked \<union> {Ignored}" "k_kind s' = k_kind s" "k_req s' = k_req s"
    "k_items s' = k_items s" "k_pulled s' = k_pulled s" "k_result s' = k_result s \<or> \<not> succeeded (k_result s') \<or> k_pulled s \<noteq> []"
    "k_path s' = k_path s" "k_tx s' = k_tx s" "shut (k_up s') = shut (k_up s)"
  shows "req_ok E content shut s'"
proof -
  have "taken s'" using assms(2,4-8) by (auto simp: taken_def split: if_splits)
  then show ?thesis using assms by (auto simp: req_ok_def)
qed

lemma req_ok_taken: "req_ok E content shut s \<Longrightarrow> srv_ok s \<Longrightarrow> taken s"
  by (cases "k_srv s") (auto simp: req_ok_def srv_ok_def intro: taking_taken, auto simp: taken_def)

context grpc_link
begin

lemma closed_server_over [simp]: "closed (k_up (server_over E v d s)) = closed (k_up s)"
  by (simp add: server_over_def closed_hang)

lemma closed_client_to: "k_tx s \<and> tx \<Longrightarrow> closed (k_up (client_to E c tx d s)) = closed (k_up s)"
  by (simp add: client_to_def)

lemma step_req:
  assumes "grpc_step E s s'" "req_ok E content closed s" "up_ok content s" "srv_ok s"
  shows "req_ok E content closed s'"
proof -
  have T: "taken s" using req_ok_taken assms(2,4) .
  have M: "ge_meth E (k_path s) = Some (k_kind s)" and N: "closed (k_up s) \<Longrightarrow> \<not> k_tx s" using assms(2) by (auto simp: req_ok_def)
  note same = req_ok_same[OF assms(2)] and over = req_ok_over[OF assms(2) T]
  show ?thesis using assms(1)
  proof cases
    case (g_open u)
    then have "k_srv s \<in> {Accepting, Ignored, Stopped}" using assms(3) by (simp add: up_ok_def)
    then show ?thesis using g_open N M T by (auto simp: req_ok_def closed_sends taken_def)
  next
    case (g_item u m)
    then show ?thesis using assms(2) T taking_more[of content s] taken_more[of s]
      by (auto simp: req_ok_def routed_ok_def content_sends closed_sends split: server.splits)
  next
    case (s_first w u v)
    show ?thesis
    proof (cases "running v")
      case True
      then obtain p st r where w: "w = Some (Open p st r)" and v: "v = Routed p st (set_connect_info (ge_local E) (ge_remote E)
          \<lparr>rq_meta = rq_meta r, rq_conn = rq_conn r, rq_body = ()\<rparr>) (if rq_body r = BUnit then SrcConn else SrcOnce (rq_body r))"
        using s_first by (auto simp: server_first_def running_def split: option.splits wire.splits)
      moreover have "content (k_up s) = Open p st r # content u" "content (k_up s) = up_wires s"
        using content_receives_Some assms(3) s_first w by (auto simp: up_ok_def)
      ultimately have "routed_ok E content (s\<lparr>k_srv := v, k_up := u\<rparr>) p (set_connect_info (ge_local E) (ge_remote E)
          \<lparr>rq_meta = rq_meta r, rq_conn = rq_conn r, rq_body = ()\<rparr>) (if rq_body r = BUnit then SrcConn else SrcOnce (rq_body r))"
        using assms(3) by (auto simp: up_wires_def open_msg_def routed_ok_def set_connect_info_def up_ok_def split: if_splits)
      then show ?thesis using s_first(1,3) True N M unfolding s_first(4)[symmetric] v
        by (simp add: req_ok_def closed_receives)
    next
      case False
      then have "v = Ignored \<or> v \<in> range SPanicked"
        using s_first by (auto simp: server_first_def running_def split: option.splits wire.splits)
      then show ?thesis using s_first False N by (auto intro!: over simp: closed_hang closed_receives server_over_def)
    qed
  next
    case (s_call path st rq src ms)
    then show ?thesis using assms(2) route_Ok[OF s_call(3)]
      by (auto simp: req_ok_def routed_ok_def taking_def split: if_splits)
  next
    case (s_pull w u m)
    then have "content (k_up s) = Item m # content u"
      using content_receives_Some by (auto simp: pull_def split: option.splits wire.splits)
    then show ?thesis using s_pull assms(2)
      by (cases "k_srv s") (auto simp: req_ok_def taking_def closed_receives split: if_splits)
  next
    case (s_pulled_all w u)
    then have "content (k_up s) = []" "closed (k_up s)" "closed u"
      using content_receives_None closed_end closed_receives by (auto simp: pull_def split: option.splits wire.splits)
    moreover from this s_pulled_all assms(2) have "map Item (k_items s) = map Item (k_pulled s) \<Longrightarrow> k_pulled s = k_items s"
      by (metis inj_Item inj_map_eq_map)
    ultimately show ?thesis using s_pulled_all assms(2)
      by (cases "k_srv s") (auto simp: req_ok_def taking_def end_source_def split: if_splits)
  next
    case (s_result st src r d)
    then have t: "taking content s src" using assms(2) by (simp add: req_ok_def)
    show ?thesis
    proof (cases "st \<and> r \<in> range Inr")
      case True
      then show ?thesis using s_result N M t by (auto simp: req_ok_def taking_def)
    next
      case False
      have "streams_requests (k_kind s) \<or> k_pulled s \<noteq> []" using t by (auto simp: taking_def split: if_splits)
      then show ?thesis using s_result False N M T
        by (auto simp: req_ok_def closed_hang server_over_def taken_def split: if_splits)
    qed
  next
    case (s_elem src r d)
    then show ?thesis using N by (auto intro!: same)
  next
    case (g_recv w d c)
    show ?thesis unfolding g_recv(1) by (rule same) (use N in \<open>auto simp: closed_client_to\<close>)
  next
    case g_open_fail
    show ?thesis unfolding g_open_fail(1) by (rule same) (use N in \<open>auto simp: closed_client_to\<close>)
  next
    case (g_timeout msg)
    show ?thesis unfolding g_timeout(1) by (rule same) (use N in \<open>auto simp: closed_client_to\<close>)
  next
    case g_drop
    show ?thesis unfolding g_drop(1) by (rule same) (use N in \<open>auto simp: closed_client_to\<close>)
  next
    case (s_wait u)
    show ?thesis unfolding s_wait(1)
      by (rule same) (use N s_wait in \<open>auto simp: content_receives_Pending closed_receives\<close>)
  next
    case s_pull_drop
    from T have "streams_requests (k_kind s) \<Longrightarrow> prefix (k_pulled s) (k_items s)" by (simp add: taken_def)
    then show ?thesis using s_pull_drop assms(2)
      by (cases "k_srv s") (auto simp: req_ok_def taking_def end_source_def closed_hang split: if_splits)
  next
    case (s_pull_crash w u m)
    show ?thesis unfolding s_pull_crash(1) by (rule over) (use s_pull_crash in \<open>auto simp: closed_receives\<close>)
  next
    case (g_wait d)
    show ?thesis unfolding g_wait(1) by (rule same) (use N in auto)
  next
    case g_items_end
    show ?thesis unfolding g_items_end(1) by (rule same) (simp_all add: content_shut)
  next
    case g_item_fail
    show ?thesis unfolding g_item_fail(1) by (rule same) (simp_all add: content_shut)
  next
    case g_kill
    show ?thesis unfolding g_kill(1) by (rule same) (simp_all add: content_shut)
  next
    case (s_reject path st rq src e d)
    show ?thesis unfolding s_reject(1) by (rule over) simp_all
  next
    case (s_crash path st rq src m)
    show ?thesis unfolding s_crash(1) by (rule over) simp_all
  next
    case (s_end src d)
    show ?thesis unfolding s_end(1) by (rule over) simp_all
  next
    case s_stop
    show ?thesis unfolding s_stop(1) by (rule over) simp_all
  qed
qed

lemma reachable_req:
  assumes "grpc_reachable E (grpc_start k path rq up down) s" "content up = []" "content down = []" "ge_meth E path = Some k" "\<not> closed up"
  shows "req_ok E content closed s"
  using assms(1)
proof induction
  case grpc_init
  then show ?case using assms(4,5) by (simp add: req_ok_def grpc_start_def taken_def)
next
  case (grpc_next s s')
  then show ?case using step_req reachable_inv[OF grpc_next.hyps(1) assms(2,3)] by (simp add: grpc_inv_def)
qed

end

lemma reachable_same: "grpc_reachable E (grpc_start k path rq up down) s \<Longrightarrow> k_kind s = k \<and> k_path s = path \<and> k_req s = rq"
proof (induction rule: grpc_reachable.induct)
  case (grpc_next s s')
  from grpc_next.hyps(2) have "k_kind s' = k_kind s \<and> k_path s' = k_path s \<and> k_req s' = k_req s" by cases auto
  then show ?case using grpc_next.IH by simp
qed (simp add: grpc_start_def)

subsection \<open>What the two sides see\<close>

lemma elems_prefix: "prefix (map Elem xs) (map Elem ys @ (if b then [Trailer] else [])) \<Longrightarrow> prefix xs ys"
proof (induction xs arbitrary: ys)
  case (Cons x xs)
  then show ?case by (cases ys) (auto split: if_splits)
qed simp

lemma elems_whole: "prefix (map Elem xs @ [Trailer]) (map Elem ys @ (if b then [Trailer] else [])) \<Longrightarrow> xs = ys \<and> b"
proof (induction xs arbitrary: ys)
  case Nil
  then show ?case by (cases ys) (auto split: if_splits)
next
  case (Cons x xs)
  from Cons.prems obtain y zs where ys: "ys = y # zs" by (cases ys; cases b) simp_all
  with Cons.prems have "x = y" "prefix (map Elem xs @ [Trailer]) (map Elem zs @ (if b then [Trailer] else []))" by simp_all
  then show ?case using Cons.IH[of zs] ys by blast
qed

definition failed_with :: "('x, 'c) grpc_env \<Rightarrow> ('x, 'c) grpc \<Rightarrow> status \<Rightarrow> bool" where
  "failed_with E s e \<longleftrightarrow>
     (\<exists>e0. k_result s = Some (Inl e0) \<and> e = status_append (ge_date E) e0) \<or> e = ge_io E ConnectionReset \<or> st_code e = DeadlineExceeded"

definition header_of :: "('x, 'c) grpc_env \<Rightarrow> ('x, 'c) grpc \<Rightarrow> meta \<Rightarrow> bool" where
  "header_of E s h \<longleftrightarrow> (\<exists>h0. k_result s = Some (Inr (h0, None)) \<and> h = response_append (ge_date E) h0)"

definition client_sees :: "('x, 'c) grpc_env \<Rightarrow> ('x, 'c) grpc \<Rightarrow> bool" where
  "client_sees E s \<longleftrightarrow>
     (case k_cl s of
        GotSingle (Ok (h, m)) \<Rightarrow> (\<exists>h0. k_result s = Some (Inr (h0, Some m)) \<and> h = response_append (ge_date E) h0)
      | GotSingle (Err e) \<Rightarrow> failed_with E s e
      | GotSingle (Panic m) \<Rightarrow> False
      | NoStream (Err e) \<Rightarrow> failed_with E s e
      | NoStream _ \<Rightarrow> False
      | Reading h ms \<Rightarrow> header_of E s h \<and> prefix (map Inr ms) (k_out s)
      | Ended h ms (Ok _) \<Rightarrow> header_of E s h \<and> k_out s = map Inr ms \<and> k_trailer s
      | Ended h ms (Err e) \<Rightarrow>
          header_of E s h \<and> (prefix (map Inr ms @ [Inl e]) (k_out s) \<or> prefix (map Inr ms) (k_out s) \<and> e = broken_pipe)
      | Ended h ms (Panic m) \<Rightarrow> False
      | _ \<Rightarrow> True)"

lemma reply_msg_Single:
  assumes "reply_msg date sr r = Single x" "\<And>h mo. r = Inr (h, mo) \<Longrightarrow> (mo = None) = sr"
  shows "case x of Inr (h, m) \<Rightarrow> \<exists>h0. r = Inr (h0, Some m) \<and> h = response_append date h0
    | Inl e \<Rightarrow> \<exists>e0. r = Inl e0 \<and> e = status_append date e0"
  using assms by (cases r) (auto simp: reply_msg_def error_msg_def split: option.splits if_splits)

lemma reply_msg_Head:
  assumes "reply_msg date sr r = Head x" "\<And>h mo. r = Inr (h, mo) \<Longrightarrow> (mo = None) = sr"
  shows "case x of Inr h \<Rightarrow> \<exists>h0. r = Inr (h0, None) \<and> h = response_append date h0
    | Inl e \<Rightarrow> \<exists>e0. r = Inl e0 \<and> e = status_append date e0"
  using assms by (cases r) (auto simp: reply_msg_def error_msg_def split: option.splits if_splits)

lemma down_wires_first:
  assumes "result_ok s" "prefix (w # ws) (down_wires E s)"
  obtains r where "k_result s = Some r" "reply_msg (ge_date E) (streams_responses (k_kind s)) r = w"
    "\<And>h mo. r = Inr (h, mo) \<Longrightarrow> (mo = None) = streams_responses (k_kind s)"
    "prefix ws (map Elem (k_out s) @ (if k_trailer s then [Trailer] else []))"
  using assms by (cases "k_result s") (auto simp: down_wires_def result_ok_def split: sum.splits prod.splits)

lemma cl_ok_sees:
  assumes "result_ok s" "cl_ok E content s"
  shows "client_sees E s"
proof -
  have fail: "failed_with E s e" if "prefix [w] (down_wires E s)" "w = Single (Inl e) \<or> w = Head (Inl e)" for w e
    using that(1)
  proof (rule down_wires_first[OF assms(1)])
    fix r assume r: "k_result s = Some r" "reply_msg (ge_date E) (streams_responses (k_kind s)) r = w"
      "\<And>h mo. r = Inr (h, mo) \<Longrightarrow> (mo = None) = streams_responses (k_kind s)"
    from that(2) show ?thesis
    proof
      assume "w = Single (Inl e)"
      then have "reply_msg (ge_date E) (streams_responses (k_kind s)) r = Single (Inl e)" using r(2) by simp
      from reply_msg_Single[OF this r(3)] r(1) show ?thesis by (auto simp: failed_with_def)
    next
      assume "w = Head (Inl e)"
      then have "reply_msg (ge_date E) (streams_responses (k_kind s)) r = Head (Inl e)" using r(2) by simp
      from reply_msg_Head[OF this r(3)] r(1) show ?thesis by (auto simp: failed_with_def)
    qed
  qed
  have single: "\<exists>h0. k_result s = Some (Inr (h0, Some m)) \<and> h = response_append (ge_date E) h0"
    if "prefix [Single (Inr (h, m))] (down_wires E s)" for h m
    using that
  proof (rule down_wires_first[OF assms(1)])
    fix r assume r: "k_result s = Some r" "reply_msg (ge_date E) (streams_responses (k_kind s)) r = Single (Inr (h, m))"
      "\<And>h mo. r = Inr (h, mo) \<Longrightarrow> (mo = None) = streams_responses (k_kind s)"
    from reply_msg_Single[OF r(2,3)] r(1) show ?thesis by auto
  qed
  have head: "header_of E s h \<and> prefix ws (map Elem (k_out s) @ (if k_trailer s then [Trailer] else []))"
    if "prefix (Head (Inr h) # ws) (down_wires E s)" for h ws
    using that
  proof (rule down_wires_first[OF assms(1)])
    fix r assume r: "k_result s = Some r" "reply_msg (ge_date E) (streams_responses (k_kind s)) r = Head (Inr h)"
      "\<And>h mo. r = Inr (h, mo) \<Longrightarrow> (mo = None) = streams_responses (k_kind s)"
      "prefix ws (map Elem (k_out s) @ (if k_trailer s then [Trailer] else []))"
    from reply_msg_Head[OF r(2,3)] r(1,4) show ?thesis by (auto simp: header_of_def)
  qed
  show ?thesis
  proof (cases "k_cl s")
    case (GotSingle r)
    then show ?thesis
    proof (cases r)
      case (Ok x)
      with GotSingle assms(2) have "prefix [Single (Inr x)] (down_wires E s)" by (simp add: cl_ok_def cl_view_def)
      then show ?thesis using GotSingle Ok single by (cases x) (auto simp: client_sees_def)
    qed (use GotSingle assms(2) fail in \<open>auto simp: client_sees_def cl_ok_def cl_view_def failed_with_def\<close>)
  next
    case (NoStream r)
    then show ?thesis using assms(2) fail
      by (cases r) (auto simp: client_sees_def cl_ok_def cl_view_def failed_with_def)
  next
    case (Reading h ms)
    then have "prefix (Head (Inr h) # map Elem (map Inr ms)) (down_wires E s)" using assms(2) by (simp add: cl_ok_def cl_view_def)
    from head[OF this] have "header_of E s h \<and> prefix (map Inr ms) (k_out s)" using elems_prefix by blast
    then show ?thesis using Reading by (simp add: client_sees_def)
  next
    case (Ended h ms r)
    show ?thesis
    proof (cases r)
      case (Ok u)
      with Ended assms(2) have "prefix (Head (Inr h) # map Elem (map Inr ms) @ [Trailer]) (down_wires E s)"
        by (simp add: cl_ok_def cl_view_def)
      from head[OF this] have "header_of E s h \<and> map Inr ms = k_out s \<and> k_trailer s" using elems_whole by blast
      then show ?thesis using Ended Ok by (simp add: client_sees_def)
    next
      case (Err e)
      with Ended assms(2) have "prefix (Head (Inr h) # map Elem (map Inr ms @ [Inl e])) (down_wires E s) \<or>
          prefix (Head (Inr h) # map Elem (map Inr ms)) (down_wires E s) \<and> e = broken_pipe"
        by (auto simp: cl_ok_def cl_view_def)
      then have "header_of E s h \<and> (prefix (map Inr ms @ [Inl e]) (k_out s) \<or> prefix (map Inr ms) (k_out s) \<and> e = broken_pipe)"
        using head elems_prefix by blast
      then show ?thesis using Ended Err by (simp add: client_sees_def)
    qed (use Ended assms(2) in \<open>simp add: cl_ok_def cl_view_def\<close>)
  qed (simp_all add: client_sees_def)
qed

text \<open>
  C23: the client of a call sees what the handler gave.  However sends, deliveries, failures and cancellations interleave, over any
  network: the messages read from a response stream are the first that the handler produced, in order; the stream ends without an
  error only after all of them and the trailer, and otherwise with the handler's own error, or as a broken pipe when the server was
  cut off; a single response, or an error, is the handler's result (with the metadata the server adds), a reset connection or a
  timeout.  A client never panics on a message.
\<close>

theorem grpc_response_faithful:
  assumes "grpc_reachable (grpc_net R T icpt io known meth date loc rem) (grpc_start k path rq up down) s"
    and "in_flight up = []" "in_flight down = []"
  shows "client_sees (grpc_net R T icpt io known meth date loc rem) s"
  using gnet.reachable_inv[OF assms] cl_ok_sees unfolding grpc_inv_def by blast

text \<open>
  C24: the handler of a call sees the request that was sent.  A method without a request stream runs on the message of the call and
  no other, and succeeds only after it took it; the messages a handler took from a request stream are the first that were
  sent, in order, and all of them once it saw the end of the stream.  The service is chosen by the path of the call, with its metadata
  and the two addresses of the connection.
\<close>

theorem grpc_request_delivered:
  assumes "grpc_reachable (grpc_net R T icpt io known meth date loc rem) (grpc_start k path rq up down) s"
    and "in_flight up = []" "in_flight down = []" "ch_tx_open up" "meth path = Some k"
  shows "(streams_requests k \<longrightarrow> prefix (k_pulled s) (k_items s)) \<and>
    (k_srv s = Handling st SrcEnded \<or> k_srv s = SendStream SrcEnded \<longrightarrow> k_pulled s = k_items s) \<and>
    (\<not> streams_requests k \<longrightarrow> k_pulled s \<in> {[], [rq_body rq]} \<and> (succeeded (k_result s) \<longrightarrow> k_pulled s = [rq_body rq])) \<and>
    (k_srv s = Routed p st' rq' src \<longrightarrow> p = path \<and> rq_meta rq' = rq_meta rq \<and> rq_conn rq' = Some (loc, rem))"
proof -
  let ?E = "grpc_net R T icpt io known meth date loc rem"
  have req: "req_ok ?E in_flight (\<lambda>c. \<not> ch_tx_open c) s"
    using gnet.reachable_req[OF assms(1-3)] assms(4,5) by (simp add: grpc_net_def)
  have same: "k_kind s = k" "k_path s = path" "k_req s = rq" using reachable_same[OF assms(1)] by simp_all
  have "srv_ok s" using gnet.reachable_inv[OF assms(1-3)] by (simp add: grpc_inv_def)
  with req have t: "taken s" by (rule req_ok_taken)
  have ended: "taking in_flight s SrcEnded \<Longrightarrow> k_pulled s = k_items s" by (simp add: taking_def split: if_splits)
  have "k_srv s = Handling st SrcEnded \<or> k_srv s = SendStream SrcEnded \<Longrightarrow> k_pulled s = k_items s"
    using req ended by (auto simp: req_ok_def)
  moreover have "k_srv s = Routed p st' rq' src \<Longrightarrow> p = path \<and> rq_meta rq' = rq_meta rq \<and> rq_conn rq' = Some (loc, rem)"
    using req same by (simp add: req_ok_def routed_ok_def grpc_net_def)
  ultimately show ?thesis using t same by (auto simp: taken_def)
qed

text \<open>
  A message of the type \<open>()\<close> (the empty message of a protocol) is taken for the start of a request stream: such a call
  is never handled, and the task of the server panics.
\<close>

theorem grpc_unit_request_never_served:
  assumes "grpc_reachable (grpc_net R T icpt io known meth date loc rem) (grpc_start k path rq up down) s"
    and "in_flight up = []" "in_flight down = []" "ch_tx_open up" "meth path = Some k" "\<not> streams_requests k" "rq_body rq = BUnit"
  shows "k_pulled s = [] \<and> \<not> succeeded (k_result s) \<and>
    (k_srv s = Routed p st rq' src \<and> svc_name path = (Ok n :: (unit, _) res) \<and> known n \<and> icpt (rq_meta rq) = Inr m0 \<longrightarrow>
       (\<exists>s' m. grpc_step (grpc_net R T icpt io known meth date loc rem) s s' \<and> k_srv s' = SPanicked m))"
proof -
  let ?E = "grpc_net R T icpt io known meth date loc rem"
  have req: "req_ok ?E in_flight (\<lambda>c. \<not> ch_tx_open c) s"
    using gnet.reachable_req[OF assms(1-3)] assms(4,5) by (simp add: grpc_net_def)
  have same: "k_kind s = k" "k_path s = path" "k_req s = rq" using reachable_same[OF assms(1)] by simp_all
  have "srv_ok s" using gnet.reachable_inv[OF assms(1-3)] by (simp add: grpc_inv_def)
  with req have "taken s" by (rule req_ok_taken)
  then have "k_pulled s = [] \<and> \<not> succeeded (k_result s)" using same assms(6,7) by (auto simp: taken_def)
  moreover have "\<exists>s' m. grpc_step ?E s s' \<and> k_srv s' = SPanicked m"
    if "k_srv s = Routed p st rq' src" "svc_name path = (Ok n :: (unit, _) res)" "known n" "icpt (rq_meta rq) = Inr m0"
  proof -
    have "p = path" "src = SrcConn" "rq_meta rq' = rq_meta rq" using req that(1) same assms(6,7) by (simp_all add: req_ok_def routed_ok_def)
    moreover have "svc_name path = (Ok n :: (status, _) res)" using that(2) by (simp add: svc_name_def split: list.splits)
    ultimately have "route ?E p rq' src = Panic ''called `Option::unwrap()` on a `None` value''"
      using that(3,4) assms(5,6) by (simp add: route_def grpc_net_def first_message_def intercept_def)
    from s_crash[OF that(1) this] show ?thesis by (metis server_over_sel(3))
  qed
  ultimately show ?thesis by blast
qed

text \<open>
  A request stream that was cut short, because the client gave up, ends like a complete one: the handler cannot tell.
\<close>

theorem grpc_cut_request_looks_complete:
  assumes "k_srv s = Handling st SrcConn" "receiving (k_cl s)" "k_tx s" "\<not> k_whole s" "ch_rx (k_up s) = RxIdle" "ch_buf (k_up s) = []"
  shows "\<exists>s1 s2. grpc_step (grpc_net R T icpt io known meth date loc rem) s s1 \<and> k_cl s1 = Dropped \<and>
    grpc_step (grpc_net R T icpt io known meth date loc rem) s1 s2 \<and> k_srv s2 = Handling st SrcEnded \<and> \<not> k_whole s2 \<and> k_pulled s2 = k_pulled s"
proof -
  let ?E = "grpc_net R T icpt io known meth date loc rem"
  let ?s1 = "client_to ?E Dropped False (k_down s) s"
  have 1: "grpc_step ?E s ?s1" using assms(2) by (rule g_drop[OF disjI1])
  have up: "k_up ?s1 = chan_shut (k_up s)" using assms(3) by (simp add: client_to_def grpc_net_def)
  have "grpc_step ?E ?s1 (?s1\<lparr>k_up := k_up ?s1, k_srv := end_source SrcEnded (k_srv ?s1)\<rparr>)"
  proof (rule s_pulled_all[where w = None])
    show "ge_receives ?E (k_up ?s1) (Ready None) (k_up ?s1)"
      unfolding up using chan_ends[of "chan_shut (k_up s)"] assms(5,6) by (simp add: grpc_net_def chan_shut_def)
  qed (use assms(1) in \<open>simp_all add: pull_def\<close>)
  moreover have "k_srv (?s1\<lparr>k_up := k_up ?s1, k_srv := end_source SrcEnded (k_srv ?s1)\<rparr>) = Handling st SrcEnded"
    using assms(1) by (simp add: end_source_def)
  ultimately show ?thesis using 1 assms(4)
    by (intro exI[of _ ?s1] exI[of _ "?s1\<lparr>k_up := k_up ?s1, k_srv := end_source SrcEnded (k_srv ?s1)\<rparr>"]) simp
qed

text \<open>A complete call: a request stream of one message, and a response stream of one message.\<close>

definition demo_up :: "nat wire chan" where
  "demo_up = mk_channel 1 (V4 2, 80) Udp"

definition demo_down :: "nat wire chan" where
  "demo_down = mk_channel 2 (V4 1, 80) Udp"

definition grpc_demo_env :: "(nat, nat wire chan) grpc_env" where
  "grpc_demo_env = grpc_net const_rng (list_timer :: ((duration \<times> unit) list, unit) timer_ops) Inr (\<lambda>e. mk_status UnknownCode [])
     (\<lambda>n. n = ''kv'') (\<lambda>p. Some Bidi) ''now'' (V4 2, 80) (V4 1, 80)"

definition demo_rq :: "nat boxed grpc_request" where
  "demo_rq = \<lparr>rq_meta = [], rq_conn = None, rq_body = BMsg 0\<rparr>"

definition under_way :: "'p \<Rightarrow> 'p chan \<Rightarrow> 'p chan" where
  "under_way v c = c\<lparr>ch_buf := [(v, Some 1000000)]\<rparr>"

definition arriving :: "'p \<Rightarrow> 'p chan \<Rightarrow> 'p chan" where
  "arriving v c = c\<lparr>ch_buf := [], ch_rx := RxArrive v \<lparr>deadline = 1000000\<rparr>\<rparr>"

lemma demo_link:
  assumes "c \<in> {demo_up, demo_down}"
  shows "ge_sends grpc_demo_env v c (under_way v c)" "ge_receives grpc_demo_env (under_way v c) Pending (arriving v c)"
    "ge_receives grpc_demo_env (arriving v c) (Ready (Some v)) c"
proof -
  have c: "ch_buf c = []" "ch_rx c = RxIdle" "ch_rx_open c" "ch_proto c = Udp" "(ch_node c, ch_dst c) \<in> {(1, V4 2, 80), (2, V4 1, 80)}"
    using assms by (auto simp: demo_up_def demo_down_def mk_channel_def)
  show "ge_sends grpc_demo_env v c (under_way v c)"
    using echo_sends[OF c(5,4,3), of v] c(1) by (simp add: grpc_demo_env_def grpc_net_def under_way_def)
  show "ge_receives grpc_demo_env (under_way v c) Pending (arriving v c)"
    using echo_starts[of "under_way v c" v "[]" const_rng] c by (simp add: grpc_demo_env_def grpc_net_def under_way_def arriving_def)
  have "c\<lparr>ch_buf := [], ch_rx := RxIdle\<rparr> = c" using c by simp
  then show "ge_receives grpc_demo_env (arriving v c) (Ready (Some v)) c"
    using echo_arrives[of "arriving v c" v const_rng] by (simp add: grpc_demo_env_def grpc_net_def arriving_def)
qed

lemmas demo_up_link = demo_link[of demo_up, simplified] and demo_down_link = demo_link[of demo_down, simplified]

lemma grpc_demo_env_sel [simp]:
  "ge_date grpc_demo_env = ''now''" "ge_icpt grpc_demo_env = Inr" "ge_meth grpc_demo_env p = Some Bidi" "ge_known grpc_demo_env n = (n = ''kv'')" "ge_local grpc_demo_env = (V4 2, 80)"
  "ge_remote grpc_demo_env = (V4 1, 80)" "ge_shut grpc_demo_env = chan_shut" "ge_hang grpc_demo_env = chan_hang"
  by (simp_all add: grpc_demo_env_def grpc_net_def)

lemma demo_cut: "ge_receives grpc_demo_env (chan_shut demo_up) (Ready None) (chan_shut demo_up)"
  by (simp add: grpc_demo_env_def grpc_net_def chan_ends chan_shut_def demo_up_def mk_channel_def)

text \<open>One message of the server reaches the client.\<close>

lemma demo_received:
  assumes "grpc_reachable grpc_demo_env s0 s" "k_down s = under_way w demo_down" "receiving (k_cl s)" "k_kind s = Bidi" "\<not> k_tx s"
    "client_recv (ge_io grpc_demo_env) (Some w) (k_cl s) = c" "receiving c"
  shows "grpc_reachable grpc_demo_env s0 (s\<lparr>k_down := demo_down, k_cl := c\<rparr>)"
proof -
  let ?s1 = "s\<lparr>k_down := arriving w demo_down\<rparr>"
  have "grpc_step grpc_demo_env s ?s1" using g_wait[of s] demo_down_link(2) assms(2,3) by simp
  with assms(1) have r: "grpc_reachable grpc_demo_env s0 ?s1" by (rule grpc_next)
  have "grpc_step grpc_demo_env ?s1 (client_to grpc_demo_env c (keeps_tx (k_kind ?s1) c) demo_down ?s1)"
    by (rule g_recv[where w = "Some w"]) (use assms demo_down_link(3) in simp_all)
  with r have "grpc_reachable grpc_demo_env s0 (client_to grpc_demo_env c (keeps_tx (k_kind ?s1) c) demo_down ?s1)" by (rule grpc_next)
  moreover have "client_to grpc_demo_env c (keeps_tx (k_kind ?s1) c) demo_down ?s1 = s\<lparr>k_down := demo_down, k_cl := c\<rparr>"
    using assms(5,7) by (simp add: client_to_def)
  ultimately show ?thesis by simp
qed

definition demo_start :: "(nat, nat wire chan) grpc" where
  "demo_start = grpc_start Bidi ''/kv/m'' demo_rq demo_up demo_down"

definition demo_mid :: "(nat, nat wire chan) grpc" where
  "demo_mid = demo_start\<lparr>k_up := chan_shut demo_up, k_cl := AwaitHead, k_tx := False, k_srv := Handling True SrcEnded, k_opened := True,
     k_items := [BMsg 5], k_whole := True, k_pulled := [BMsg 5]\<rparr>"

lemma demo_requests: "grpc_reachable grpc_demo_env demo_start demo_mid"
proof -
  let ?w = "Open ''/kv/m'' True (demo_rq\<lparr>rq_body := BUnit\<rparr>)"
  let ?rq = "set_connect_info (V4 2, 80) (V4 1, 80) \<lparr>rq_meta = [], rq_conn = None, rq_body = ()\<rparr>"
  let ?s1 = "demo_start\<lparr>k_up := under_way ?w demo_up, k_cl := AwaitHead, k_opened := True\<rparr>"
  let ?s2 = "?s1\<lparr>k_up := arriving ?w demo_up\<rparr>"
  let ?s3 = "?s1\<lparr>k_up := demo_up, k_srv := Routed ''/kv/m'' True ?rq SrcConn\<rparr>"
  let ?s4 = "?s3\<lparr>k_srv := Handling True SrcConn, k_pulled := []\<rparr>"
  let ?s5 = "?s4\<lparr>k_up := under_way (Item (BMsg 5)) demo_up, k_items := [BMsg 5]\<rparr>"
  let ?s6 = "?s5\<lparr>k_up := arriving (Item (BMsg 5)) demo_up\<rparr>"
  let ?s7 = "?s6\<lparr>k_up := demo_up, k_pulled := [BMsg 5]\<rparr>"
  let ?s8 = "?s7\<lparr>k_up := chan_shut demo_up, k_tx := False, k_whole := True\<rparr>"
  note start = demo_start_def grpc_start_def
  have r1: "grpc_reachable grpc_demo_env demo_start ?s1"
    by (rule grpc_next[OF grpc_init]) (use g_open[of demo_start grpc_demo_env "under_way ?w demo_up"] demo_up_link(1)[of ?w] in \<open>simp add: start open_msg_def awaits_def\<close>)
  have r2: "grpc_reachable grpc_demo_env demo_start ?s2"
    by (rule grpc_next[OF r1]) (use s_wait[of ?s1] demo_up_link(2) in \<open>simp add: start\<close>)
  have r3: "grpc_reachable grpc_demo_env demo_start ?s3"
    by (rule grpc_next[OF r2]) (use s_first[of ?s2 grpc_demo_env "Some ?w" demo_up] demo_up_link(3) in \<open>simp add: start server_first_def demo_rq_def running_def\<close>)
  have r4: "grpc_reachable grpc_demo_env demo_start ?s4"
    by (rule grpc_next[OF r3]) (use s_call[of ?s3 _ _ _ _ grpc_demo_env "[]"] in \<open>simp add: start route_def svc_name_def intercept_def\<close>)
  have r5: "grpc_reachable grpc_demo_env demo_start ?s5"
    by (rule grpc_next[OF r4]) (use g_item[of ?s4 grpc_demo_env "BMsg 5"] demo_up_link(1) in \<open>simp add: start\<close>)
  have r6: "grpc_reachable grpc_demo_env demo_start ?s6"
    by (rule grpc_next[OF r5]) (use s_wait[of ?s5] demo_up_link(2) in \<open>simp add: start\<close>)
  have r7: "grpc_reachable grpc_demo_env demo_start ?s7"
    by (rule grpc_next[OF r6]) (use s_pull[of ?s6 grpc_demo_env "Some (Item (BMsg 5))" demo_up "BMsg 5"] demo_up_link(3) in \<open>simp add: start pull_def\<close>)
  have r8: "grpc_reachable grpc_demo_env demo_start ?s8"
    by (rule grpc_next[OF r7]) (use g_items_end[of ?s7 grpc_demo_env] in \<open>simp add: start\<close>)
  have r9: "grpc_reachable grpc_demo_env demo_start demo_mid"
    by (rule grpc_next[OF r8]) (use s_pulled_all[of ?s8 grpc_demo_env None "chan_shut demo_up"] demo_cut in \<open>simp add: start demo_mid_def pull_def end_source_def\<close>)
  show ?thesis by (rule r9)
qed


lemma demo_end: "\<exists>s. grpc_reachable grpc_demo_env demo_start s \<and> k_cl s = Ended (response_append ''now'' [(''a'', ''b'')]) [BMsg 9] (Ok ()) \<and>
    k_items s = [BMsg 5]"
proof -
  let ?h = "response_append ''now'' [(''a'', ''b'')]"
  let ?r = "Some (Inr ([(''a'', ''b'')], None))"
  let ?s1 = "demo_mid\<lparr>k_srv := SendStream SrcEnded, k_down := under_way (Head (Inr ?h)) demo_down, k_result := ?r\<rparr>"
  let ?s2 = "?s1\<lparr>k_down := demo_down, k_cl := Reading ?h []\<rparr>"
  let ?s3 = "?s2\<lparr>k_down := under_way (Elem (Inr (BMsg 9))) demo_down, k_out := [Inr (BMsg 9)]\<rparr>"
  let ?s4 = "?s3\<lparr>k_down := demo_down, k_cl := Reading ?h [BMsg 9]\<rparr>"
  let ?s5 = "server_over grpc_demo_env Finished (under_way Trailer demo_down) (?s4\<lparr>k_trailer := True\<rparr>)"
  let ?s6 = "?s5\<lparr>k_down := chan_shut (arriving Trailer demo_down)\<rparr>"
  note start = demo_mid_def demo_start_def grpc_start_def
  have "grpc_step grpc_demo_env demo_mid ?s1"
    using s_result[of demo_mid True SrcEnded "Inr ([(''a'', ''b'')], None)" grpc_demo_env] demo_down_link(1)
    by (simp add: start reply_msg_def)
  with demo_requests have r1: "grpc_reachable grpc_demo_env demo_start ?s1" by (rule grpc_next)
  have r2: "grpc_reachable grpc_demo_env demo_start ?s2"
    using demo_received[OF r1, of "Head (Inr ?h)" "Reading ?h []"] by (simp add: start client_recv_def recv_head_def)
  have r3: "grpc_reachable grpc_demo_env demo_start ?s3"
    by (rule grpc_next[OF r2]) (use s_elem[of ?s2 SrcEnded grpc_demo_env "Inr (BMsg 9)"] demo_down_link(1) in \<open>simp add: start\<close>)
  have r4: "grpc_reachable grpc_demo_env demo_start ?s4"
    using demo_received[OF r3, of "Elem (Inr (BMsg 9))" "Reading ?h [BMsg 9]"] by (simp add: start client_recv_def stream_next_def)
  have r5: "grpc_reachable grpc_demo_env demo_start ?s5"
    by (rule grpc_next[OF r4], rule s_end[of _ SrcEnded]) (use demo_down_link(1) in \<open>simp_all add: start\<close>)
  have 6: "ge_receives grpc_demo_env (chan_shut (under_way Trailer demo_down)) Pending (chan_shut (arriving Trailer demo_down))"
    "ge_receives grpc_demo_env (chan_shut (arriving Trailer demo_down)) (Ready (Some Trailer)) (chan_shut demo_down)"
    using echo_starts[of "chan_shut (under_way Trailer demo_down)" Trailer "[]" const_rng]
      echo_arrives[of "chan_shut (arriving Trailer demo_down)" Trailer const_rng]
    by (simp_all add: grpc_demo_env_def grpc_net_def chan_shut_def under_way_def arriving_def demo_down_def mk_channel_def)
  have r6: "grpc_reachable grpc_demo_env demo_start ?s6"
    by (rule grpc_next[OF r5], rule g_wait) (use 6(1) in \<open>simp_all add: start server_over_def\<close>)
  let ?c = "Ended ?h [BMsg (9 :: nat)] (Ok ())"
  let ?s7 = "client_to grpc_demo_env ?c (keeps_tx (k_kind ?s6) ?c) (chan_shut demo_down) ?s6"
  have r7: "grpc_reachable grpc_demo_env demo_start ?s7"
    by (rule grpc_next[OF r6], rule g_recv[where w = "Some Trailer"]) (use 6(2) in \<open>simp_all add: start client_recv_def stream_next_def\<close>)
  have "k_cl ?s7 = ?c" "k_items ?s7 = [BMsg 5]" by (simp_all add: start)
  with r7 show ?thesis by blast
qed

text \<open>Witnesses.\<close>

lemma demo_chans: "in_flight demo_up = []" "in_flight demo_down = []" "ch_tx_open demo_up"
  by (simp_all add: demo_up_def demo_down_def mk_channel_def in_flight_def)

theorem grpc_response_faithful_witness:
  "\<exists>s. grpc_reachable grpc_demo_env demo_start s \<and> k_cl s = Ended (response_append ''now'' [(''a'', ''b'')]) [BMsg 9] (Ok ()) \<and>
     k_out s = [Inr (BMsg 9)] \<and> k_trailer s"
proof -
  obtain s where s: "grpc_reachable grpc_demo_env demo_start s" "k_cl s = Ended (response_append ''now'' [(''a'', ''b'')]) [BMsg 9] (Ok ())"
    using demo_end by blast
  from grpc_response_faithful[OF s(1)[unfolded grpc_demo_env_def demo_start_def] demo_chans(1,2)] s show ?thesis
    by (auto simp: client_sees_def)
qed

theorem grpc_request_delivered_witness:
  "grpc_reachable grpc_demo_env demo_start demo_mid \<and> k_srv demo_mid = Handling True SrcEnded \<and> k_pulled demo_mid = k_items demo_mid \<and>
     k_pulled demo_mid = [BMsg 5]"
  using grpc_request_delivered[OF demo_requests[unfolded grpc_demo_env_def demo_start_def] demo_chans, where st = True] demo_requests
  by (simp add: demo_mid_def)

end
