(* ===== verification/GrpcChannel.thy ===== *)
theory GrpcChannel
  imports Endpoint
begin

section \<open>Channels of gRPC clients (\<open>madsim-tonic/src/transport/channel.rs\<close>)\<close>

text \<open>
  A channel balances over a set of configured endpoints that the user changes through a bounded queue.  A call takes one of them
  at random, binds a simulated endpoint of its own, opens a connection as a handshake (and drops it), and then opens the connection
  of the call.  \<open>'u\<close> is the type of URIs, \<open>auth\<close> gives the authority of one; \<open>V\<close> lists the values of a hash map, in any
  order.
\<close>

record 'u ep_conf =
  ec_uri :: 'u
  ec_timeout :: "duration option"
  ec_connect_timeout :: "duration option"

definition ep_conf_from :: "'u \<Rightarrow> 'u ep_conf" where
  "ep_conf_from u = \<lparr>ec_uri = u, ec_timeout = None, ec_connect_timeout = None\<rparr>"

definition with_rpc_timeout :: "duration \<Rightarrow> 'u ep_conf \<Rightarrow> 'u ep_conf" where
  "with_rpc_timeout t c = c\<lparr>ec_timeout := Some t\<rparr>"

definition with_connect_timeout :: "duration \<Rightarrow> 'u ep_conf \<Rightarrow> 'u ep_conf" where
  "with_connect_timeout t c = c\<lparr>ec_connect_timeout := Some t\<rparr>"

datatype transport_error = InvalidUri "io_error option" | Transport io_error

subsection \<open>Balancing\<close>

datatype ('k, 'e) change = Insert 'k 'e | Remove 'k

record ('k, 'e) balancer =
  de_eps :: "'k \<Rightarrow> 'e option"
  de_rx :: "('k, 'e) change list option"

record ('k, 'e) channel_conf =
  gc_ep :: "('k, 'e) balancer"
  gc_timeout :: "duration option"

primrec apply_change :: "('k, 'e) change \<Rightarrow> ('k \<Rightarrow> 'e option) \<Rightarrow> ('k \<Rightarrow> 'e option)" where
  "apply_change (Insert k e) m = m(k \<mapsto> e)"
| "apply_change (Remove k) m = m(k := None)"

definition new_multi :: "('k, 'e) balancer" where
  "new_multi = \<lparr>de_eps = Map.empty, de_rx = Some []\<rparr>"

definition new_one :: "'e \<Rightarrow> (unit, 'e) balancer" where
  "new_one e = \<lparr>de_eps = [() \<mapsto> e], de_rx = None\<rparr>"

text \<open>\<open>Sender::try_send\<close> on the queue of the given capacity.\<close>

definition send_change :: "nat \<Rightarrow> ('k, 'e) change \<Rightarrow> ('k, 'e) balancer \<Rightarrow> (unit, ('k, 'e) balancer) res" where
  "send_change cap c d =
     (case de_rx d of
        Some q \<Rightarrow> if length q < cap then Ok (d\<lparr>de_rx := Some (q @ [c])\<rparr>) else Err ()
      | None \<Rightarrow> Err ())"

definition balance_channel :: "('k, 'e) channel_conf" where
  "balance_channel = \<lparr>gc_ep = new_multi, gc_timeout = None\<rparr>"

definition default_buffer_size :: nat where "default_buffer_size = 1024"

primrec send_inserts :: "('u, 'u ep_conf) balancer \<Rightarrow> 'u ep_conf list \<Rightarrow> ('x, ('u, 'u ep_conf) balancer) res" where
  "send_inserts d [] = Ok d"
| "send_inserts d (e # es) =
     (case send_change default_buffer_size (Insert (ec_uri e) e) d of
        Ok d \<Rightarrow> send_inserts d es
      | _ \<Rightarrow> Panic ''called `Result::unwrap()` on an `Err` value'')"

definition balance_list :: "'u ep_conf list \<Rightarrow> ('x, ('u, 'u ep_conf) channel_conf) res" where
  "balance_list es = bind_res (send_inserts (gc_ep balance_channel) es) (\<lambda>d. Ok (balance_channel\<lparr>gc_ep := d\<rparr>))"

definition drain_changes :: "('k, 'e) balancer \<Rightarrow> ('k, 'e) balancer" where
  "drain_changes d =
     (case de_rx d of None \<Rightarrow> d | Some q \<Rightarrow> \<lparr>de_eps = fold apply_change q (de_eps d), de_rx = Some []\<rparr>)"

definition get_one :: "'r rng_ops \<Rightarrow> (('k \<Rightarrow> 'e option) \<Rightarrow> 'e list) \<Rightarrow> ('k, 'e) balancer \<Rightarrow> 'r \<Rightarrow> 'e option \<times> ('k, 'e) balancer \<times> 'r" where
  "get_one R V d r =
     (let d = drain_changes d; vs = V (de_eps d); len = length vs in
      if len = 0 then (None, d, r)
      else let (n, r) = gen_range R 0 len r in (if n < len then Some (vs ! n) else None, d, r))"

subsection \<open>Connecting\<close>

text \<open>\<open>connect_ep\<close> also returns what the server is told of the handshake: its socket, the client's address, and its own.\<close>

definition drop_ep :: "endpoint \<Rightarrow> 'e \<Rightarrow> 'q net_sim \<times> 'r \<Rightarrow> ('e, 'a, 'q net_sim \<times> 'r) outcome" where
  "drop_ep ep e s =
     (case endpoint_drop False False ep (fst s) of
        Ok ns \<Rightarrow> (Err e, ns, snd s)
      | Err e' \<Rightarrow> (Err e', s)
      | Panic m \<Rightarrow> (Panic m, s))"

definition connect_ep :: "'r rng_ops \<Rightarrow> addr_parsers \<Rightarrow> (socket_addr \<Rightarrow> string) \<Rightarrow> node_id \<Rightarrow> sid \<Rightarrow> ('u \<Rightarrow> string option) \<Rightarrow> 'u ep_conf
    \<Rightarrow> 'q net_sim \<Rightarrow> 'r \<Rightarrow> (transport_error, endpoint \<times> sid \<times> socket_addr \<times> socket_addr, 'q net_sim \<times> 'r) outcome" where
  "connect_ep R A print i s auth c ns r =
     (case auth (ec_uri c) of
        None \<Rightarrow> (Err (InvalidUri None), ns, r)
      | Some host_port \<Rightarrow>
          (case lookup_host A (HostText host_port) ns of
             Err e \<Rightarrow> (Err (InvalidUri (Some e)), ns, r)
           | Panic m \<Rightarrow> (Panic m, ns, r)
           | Ok [] \<Rightarrow> (Err (InvalidUri None), ns, r)
           | Ok (addr # _) \<Rightarrow>
               (case endpoint_connect A i s (Addr addr) ns of
                  Err e \<Rightarrow> (Err (Transport e), ns, r)
                | Panic m \<Rightarrow> (Panic m, ns, r)
                | Ok (ep, ns) \<Rightarrow>
                    (case ep_connect1 R A print ep addr ns r of
                       (Ok (tx :: unit chan, rx :: unit chan, sk, src, dst), x) \<Rightarrow> (Ok (ep, sk, src, dst), x)
                     | (Err e, x) \<Rightarrow> drop_ep ep (Transport e) x
                     | (Panic m, x) \<Rightarrow> (Panic m, x)))))"

text \<open>\<open>Endpoint::connect\<close> without its time limit: the endpoint of the check is dropped at once.\<close>

definition channel_connect :: "'r rng_ops \<Rightarrow> addr_parsers \<Rightarrow> (socket_addr \<Rightarrow> string) \<Rightarrow> node_id \<Rightarrow> sid \<Rightarrow> ('u \<Rightarrow> string option) \<Rightarrow> 'u ep_conf
    \<Rightarrow> 'q net_sim \<Rightarrow> 'r \<Rightarrow> (transport_error, (unit, 'u ep_conf) channel_conf, 'q net_sim \<times> 'r) outcome" where
  "channel_connect R A print i s auth c ns r =
     st_bind (connect_ep R A print i s auth c ns r) (\<lambda>(ep, _) (ns, r).
       case endpoint_drop False False ep ns of
         Ok ns \<Rightarrow> (Ok \<lparr>gc_ep = new_one c, gc_timeout = ec_timeout c\<rparr>, ns, r)
       | Err e \<Rightarrow> (Err e, ns, r)
       | Panic m \<Rightarrow> (Panic m, ns, r))"

definition connect_lazy :: "'u ep_conf \<Rightarrow> (unit, 'u ep_conf) channel_conf" where
  "connect_lazy c = \<lparr>gc_ep = new_one c, gc_timeout = ec_timeout c\<rparr>"

text \<open>\<open>MultiEndpoint::connect1\<close>.  The channels of the call keep the endpoint's guard alive.\<close>

definition call_connect :: "'r rng_ops \<Rightarrow> (('k \<Rightarrow> 'u ep_conf option) \<Rightarrow> 'u ep_conf list) \<Rightarrow> addr_parsers \<Rightarrow> (socket_addr \<Rightarrow> string) \<Rightarrow> node_id \<Rightarrow> sid
    \<Rightarrow> ('u \<Rightarrow> string option) \<Rightarrow> ('k, 'u ep_conf) balancer \<Rightarrow> 'q net_sim \<Rightarrow> 'r
    \<Rightarrow> (io_error, endpoint \<times> 'p chan \<times> 'p chan \<times> sid \<times> socket_addr \<times> socket_addr, 'q net_sim \<times> 'r) outcome \<times> ('k, 'u ep_conf) balancer" where
  "call_connect R V A print i s auth d ns r =
     (let (c, d, r) = get_one R V d r in
      (case c of
         None \<Rightarrow> (Err AddrNotAvailable, ns, r)
       | Some c \<Rightarrow>
           (case connect_ep R A print i s auth c ns r of
              (Err e, x) \<Rightarrow> (Err ConnectionRefused, x)
            | (Panic m, x) \<Rightarrow> (Panic m, x)
            | (Ok (ep, _), ns, r) \<Rightarrow>
                (case peer_addr ep of
                   Ok addr \<Rightarrow>
                     (case ep_connect1 R A print ep addr ns r of
                        (Ok y, x) \<Rightarrow> (Ok (ep, y), x)
                      | (Err e, x) \<Rightarrow> drop_ep ep e x
                      | (Panic m, x) \<Rightarrow> (Panic m, x))
                 | _ \<Rightarrow> (Panic ''called `Result::unwrap()` on an `Err` value'', ns, r))), d))"

subsection \<open>The endpoints a channel balances over\<close>

text \<open>The values of a hash map: each entry once.\<close>

definition values_ok :: "(('k \<Rightarrow> 'e option) \<Rightarrow> 'e list) \<Rightarrow> bool" where
  "values_ok V \<longleftrightarrow> (\<forall>m. finite (dom m) \<longrightarrow> set (V m) = ran m)"

text \<open>What the user asked for: all changes that were sent, also those that no call has seen.\<close>

definition configured :: "('k, 'e) balancer \<Rightarrow> 'k \<Rightarrow> 'e option" where
  "configured d = fold apply_change (case de_rx d of None \<Rightarrow> [] | Some q \<Rightarrow> q) (de_eps d)"

lemma finite_apply_change [simp]: "finite (dom (apply_change c m)) = finite (dom m)"
  by (cases c) auto

lemma finite_fold_change [simp]: "finite (dom (fold apply_change q m)) = finite (dom m)"
  by (induction q arbitrary: m) simp_all

lemma drain_configured: "de_eps (drain_changes d) = configured d" "configured (drain_changes d) = configured d"
  by (simp_all add: drain_changes_def configured_def split: option.split)

lemma send_inserts_Ok:
  "de_rx d = Some q \<Longrightarrow> send_inserts d es =
     (if length q + length es \<le> default_buffer_size \<or> es = [] then Ok (d\<lparr>de_rx := Some (q @ map (\<lambda>e. Insert (ec_uri e) e) es)\<rparr>)
      else Panic ''called `Result::unwrap()` on an `Err` value'')"
  by (induction es arbitrary: d q) (auto simp: send_change_def)

lemma fold_insert_list:
  "fold apply_change (map (\<lambda>e. Insert (f e) e) es) m k = (case find (\<lambda>e. f e = k) (rev es) of Some e \<Rightarrow> Some e | None \<Rightarrow> m k)"
  by (induction es arbitrary: m rule: rev_induct) auto

text \<open>
  C25: A channel balances over the endpoints that are configured.  A change that was accepted counts from the next call on, as if it
  were applied at once; a call gets one of the configured endpoints, and none exactly if there is none; a list of
  endpoints configures the last endpoint of each URI, and panics if it is longer than the queue.
\<close>

theorem grpc_balance_current:
  assumes "values_ok V" "rng_ok R" "finite (dom (configured d))"
  shows "(send_change cap c d = Ok d1 \<longrightarrow> configured d1 = apply_change c (configured d)) \<and>
    (get_one R V d r = (x, d2, r') \<longrightarrow> configured d2 = configured d \<and>
       (case x of None \<Rightarrow> configured d = Map.empty | Some e \<Rightarrow> e \<in> ran (configured d))) \<and>
    (case balance_list es of
       Ok ch \<Rightarrow> length es \<le> 1024 \<and> configured (gc_ep ch) = (\<lambda>k. find (\<lambda>e. ec_uri e = k) (rev es))
     | Err _ \<Rightarrow> False
     | Panic _ \<Rightarrow> 1024 < length es)"
proof (intro conjI impI)
  assume "send_change cap c d = Ok d1"
  then show "configured d1 = apply_change c (configured d)"
    by (auto simp: send_change_def configured_def split: option.splits if_splits)
next
  assume g: "get_one R V d r = (x, d2, r')"
  let ?vs = "V (de_eps (drain_changes d))"
  have vs: "set ?vs = ran (configured d)" using assms(1,3) by (simp add: values_ok_def drain_configured)
  show "configured d2 = configured d" using g by (auto simp: get_one_def Let_def drain_configured split: if_splits prod.splits)
  show "case x of None \<Rightarrow> configured d = Map.empty | Some e \<Rightarrow> e \<in> ran (configured d)"
  proof (cases "?vs = []")
    case True
    then have "configured d = Map.empty" using vs by (simp add: ran_def) (metis not_Some_eq)
    then show ?thesis using g True by (auto simp: get_one_def Let_def)
  next
    case False
    obtain n r1 where n: "gen_range R 0 (length ?vs) r = (n, r1)" by fastforce
    then have "n < length ?vs" using rng_okD[OF assms(2) _ n] False by simp
    then have "x = Some (?vs ! n)" "?vs ! n \<in> ran (configured d)" using g n False vs nth_mem by (fastforce simp: get_one_def Let_def)+
    then show ?thesis by simp
  qed
next
  show "case balance_list es of
       Ok ch \<Rightarrow> length es \<le> 1024 \<and> configured (gc_ep ch) = (\<lambda>k. find (\<lambda>e. ec_uri e = k) (rev es))
     | Err _ \<Rightarrow> False
     | Panic _ \<Rightarrow> 1024 < length es"
    by (simp add: balance_list_def balance_channel_def new_multi_def default_buffer_size_def configured_def fold_insert_list fun_eq_iff
        send_inserts_Ok split: option.splits)
qed

definition nat_values :: "(nat \<Rightarrow> 'e option) \<Rightarrow> 'e list" where
  "nat_values m = map (the \<circ> m) (sorted_list_of_set (dom m))"

lemma nat_values_ok: "values_ok nat_values"
  by (auto simp: values_ok_def nat_values_def ran_def image_def) force

theorem grpc_balance_current_witness:
  "\<exists>d1 r'. send_change 2 (Remove 3) \<lparr>de_eps = [3 \<mapsto> ep_conf_from ''a'', 4 \<mapsto> ep_conf_from ''b''], de_rx = Some []\<rparr> = Ok d1 \<and>
     get_one const_rng nat_values d1 0 = (Some (ep_conf_from ''b''), \<lparr>de_eps = [4 \<mapsto> ep_conf_from ''b''], de_rx = Some []\<rparr>, r') \<and>
     ep_conf_from ''b'' \<in> ran (configured d1)"
proof -
  let ?d = "\<lparr>de_eps = [3 \<mapsto> ep_conf_from ''a'', 4 \<mapsto> ep_conf_from ''b''], de_rx = Some []\<rparr> :: (nat, string ep_conf) balancer"
  let ?d1 = "?d\<lparr>de_rx := Some [Remove 3]\<rparr>"
  have s: "send_change 2 (Remove 3) ?d = Ok ?d1" by (simp add: send_change_def)
  have m: "[3 :: nat \<mapsto> ep_conf_from ''a'', 4 \<mapsto> ep_conf_from ''b''](3 := None) = [4 \<mapsto> ep_conf_from ''b'']" by (auto simp: fun_eq_iff)
  have g: "get_one const_rng nat_values ?d1 0 = (Some (ep_conf_from ''b''), \<lparr>de_eps = [4 \<mapsto> ep_conf_from ''b''], de_rx = Some []\<rparr>, 1)"
    using m by (simp add: get_one_def Let_def drain_changes_def nat_values_def const_rng_def)
  have "finite (dom (configured ?d1))" by (simp add: configured_def)
  from grpc_balance_current[OF nat_values_ok const_rng_ok this, THEN conjunct2, THEN conjunct1, rule_format, OF g]
  show ?thesis using s g by auto
qed

subsection \<open>Sockets\<close>

lemma endpoint_connect_Ok:
  assumes "endpoint_connect A i s (Addr a) ns = Ok (ep, ns')"
  obtains as l n where "guard_bind i Udp s as None (ns_network ns) = Ok (l, n)" "ns' = ns\<lparr>ns_network := n\<rparr>"
    "ep = \<lparr>ep_node = i, ep_addr = l, ep_sid = s, ep_peer = Some a\<rparr>"
  using assms by (auto simp: endpoint_connect_def lookup_first_def endpoint_bind_def bind_res_Ok_iff)

text \<open>After the endpoint of a connection is dropped, the sockets are as before it was bound.\<close>

lemma endpoint_drop_bound:
  assumes "guard_bind i Udp s as None (ns_network ns) = Ok (l, n)" "nodes (ns_network ns2) = nodes n" "ep_node ep = i" "ep_addr ep = l"
  shows "\<exists>ns3. endpoint_drop False False ep ns2 = (Ok ns3 :: ('e, _) res) \<and> nodes (ns_network ns3) = nodes (ns_network ns)"
proof -
  obtain n3 where "guard_drop False False i l Udp (ns_network ns2) = (Ok n3 :: ('e, _) res)" "nodes n3 = nodes (ns_network ns)"
    using guard_bind_drop[OF assms(1,2)] by blast
  then show ?thesis using assms(3,4) by (simp add: endpoint_drop_def netsim_lift_def)
qed

lemma connect_ep_result:
  assumes "connect_ep R A print i s auth c ns r = (x, ns', r')"
  shows "case x of
      Ok (ep, _) \<Rightarrow> \<exists>as l n a. guard_bind i Udp s as None (ns_network ns) = Ok (l, n) \<and> nodes (ns_network ns') = nodes n \<and>
        ep = \<lparr>ep_node = i, ep_addr = l, ep_sid = s, ep_peer = Some a\<rparr>
    | Err _ \<Rightarrow> nodes (ns_network ns') = nodes (ns_network ns)
    | Panic _ \<Rightarrow> True"
proof -
  have case_ok: ?thesis
    if c: "auth (ec_uri c) = Some hp" "lookup_host A (HostText hp) ns = Ok (addr # as)" "endpoint_connect A i s (Addr addr) ns = Ok (ep, ns1)"
    for hp addr as ep ns1
  proof -
    obtain as' l n where b: "guard_bind i Udp s as' None (ns_network ns) = Ok (l, n)" "ns1 = ns\<lparr>ns_network := n\<rparr>"
      "ep = \<lparr>ep_node = i, ep_addr = l, ep_sid = s, ep_peer = Some addr\<rparr>"
      using endpoint_connect_Ok[OF c(3)] by blast
    obtain y ns2 r2 where e: "ep_connect1 R A print ep addr ns1 r = (y :: (io_error, unit chan \<times> unit chan \<times> sid \<times> socket_addr \<times> socket_addr) res, ns2, r2)"
      by (metis prod.collapse)
    then have n: "nodes (ns_network ns2) = nodes n" using b(2) connect1_nodes by (fastforce simp: ep_connect1_def)
    obtain ns3 where d: "endpoint_drop False False ep ns2 = (Ok ns3 :: (transport_error, _) res)" "nodes (ns_network ns3) = nodes (ns_network ns)"
      using endpoint_drop_bound[OF b(1) n, of ep] b(3) by auto
    show ?thesis
    proof (cases y)
      case (Ok z)
      then show ?thesis using assms c e b(1,3) n by (cases z; cases l) (auto simp: connect_ep_def intro!: exI[of _ as'] exI[of _ n])
    next
      case (Err z)
      then show ?thesis using assms c e d by (auto simp: connect_ep_def drop_ep_def)
    next
      case (Panic m)
      then show ?thesis using assms c e by (auto simp: connect_ep_def)
    qed
  qed
  show ?thesis
  proof (cases "auth (ec_uri c)")
    case None
    then show ?thesis using assms by (auto simp: connect_ep_def)
  next
    case hp: (Some hp)
    show ?thesis
    proof (cases "lookup_host A (HostText hp) ns")
      case (Ok as)
      show ?thesis
      proof (cases as)
        case (Cons addr as')
        show ?thesis
        proof (cases "endpoint_connect A i s (Addr addr) ns")
          case ep: (Ok x)
          then show ?thesis using case_ok hp Ok Cons by (cases x) blast
        qed (use assms hp Ok Cons in \<open>auto simp: connect_ep_def\<close>)
      qed (use assms hp Ok in \<open>auto simp: connect_ep_def\<close>)
    qed (use assms hp in \<open>auto simp: connect_ep_def\<close>)
  qed
qed

text \<open>
  Connecting leaks nothing.  A channel's check of its endpoint leaves the sockets of all nodes as they were, whether it
  succeeds or fails, and so does a call that gets no connection.
\<close>

theorem grpc_connect_no_leak:
  assumes "channel_connect R A print i s auth c ns r = (x, ns1, r1)" "\<not> is_panic x"
    and "call_connect R V A print i s auth d ns r =
      (((Err e, ns2, r2) :: (io_error, endpoint \<times> 'p chan \<times> 'p chan \<times> sid \<times> socket_addr \<times> socket_addr, 'q net_sim \<times> 'r) outcome), d2)"
  shows "nodes (ns_network ns1) = nodes (ns_network ns) \<and> nodes (ns_network ns2) = nodes (ns_network ns)"
proof
  obtain y ns' r' where c: "connect_ep R A print i s auth c ns r = (y, ns', r')" by (metis prod.collapse)
  show "nodes (ns_network ns1) = nodes (ns_network ns)"
  proof (cases y)
    case (Ok z)
    then obtain ep w as l n a where z: "z = (ep, w)" "guard_bind i Udp s as None (ns_network ns) = Ok (l, n)"
      "nodes (ns_network ns') = nodes n" "ep = \<lparr>ep_node = i, ep_addr = l, ep_sid = s, ep_peer = Some a\<rparr>"
      using connect_ep_result[OF c] by (cases z) auto
    obtain ns3 where "endpoint_drop False False ep ns' = (Ok ns3 :: (transport_error, _) res)" "nodes (ns_network ns3) = nodes (ns_network ns)"
      using endpoint_drop_bound[OF z(2,3), of ep] z(4) by auto
    then show ?thesis using assms(1) c Ok z(1) by (simp add: channel_connect_def)
  next
    case (Err z)
    then show ?thesis using assms(1) c connect_ep_result[OF c] by (simp add: channel_connect_def)
  next
    case (Panic z)
    then show ?thesis using assms(1,2) c by (auto simp: channel_connect_def)
  qed
  obtain c' d' r0 where g: "get_one R V d r = (c', d', r0)" by (metis prod.collapse)
  show "nodes (ns_network ns2) = nodes (ns_network ns)"
  proof (cases c')
    case None
    then show ?thesis using assms(3) g by (simp add: call_connect_def)
  next
    case (Some c')
    obtain y ns' r' where c: "connect_ep R A print i s auth c' ns r0 = (y, ns', r')" by (metis prod.collapse)
    show ?thesis
    proof (cases y)
      case (Ok z)
      then obtain ep w as l n a where z: "z = (ep, w)" "guard_bind i Udp s as None (ns_network ns) = Ok (l, n)"
        "nodes (ns_network ns') = nodes n" "ep = \<lparr>ep_node = i, ep_addr = l, ep_sid = s, ep_peer = Some a\<rparr>"
        using connect_ep_result[OF c] by (cases z) auto
      obtain v ns4 r4 where e: "ep_connect1 R A print ep a ns' r' =
          (v :: (io_error, 'p chan \<times> 'p chan \<times> sid \<times> socket_addr \<times> socket_addr) res, ns4, r4)" by (metis prod.collapse)
      then have "nodes (ns_network ns4) = nodes n" using z(3) connect1_nodes by (fastforce simp: ep_connect1_def)
      then obtain ns3 where "endpoint_drop False False ep ns4 = (Ok ns3 :: (io_error, _) res)" "nodes (ns_network ns3) = nodes (ns_network ns)"
        using endpoint_drop_bound[OF z(2), of ns4 ep] z(4) by auto
      then show ?thesis using assms(3) g Some c Ok z(1,4) e
        by (cases v) (auto simp: call_connect_def peer_addr_def ok_or_def drop_ep_def)
    next
      case (Err z)
      then show ?thesis using assms(3) g Some c connect_ep_result[OF c] by (simp add: call_connect_def)
    next
      case (Panic z)
      then show ?thesis using assms(3) g Some c by (simp add: call_connect_def)
    qed
  qed
qed


definition demo_parsers :: addr_parsers where
  "demo_parsers = \<lparr>ap_socket = (\<lambda>t. Some (if t = ''ok'' then (V4 2, 80) else if t = ''gone'' then (V4 2, 81) else (V4 0, 0))),
     ap_v4 = (\<lambda>_. None), ap_v6 = (\<lambda>_. None)\<rparr>"

definition unit_values :: "(unit \<Rightarrow> 'e option) \<Rightarrow> 'e list" where
  "unit_values m = (case m () of None \<Rightarrow> [] | Some e \<Rightarrow> [e])"

theorem grpc_connect_no_leak_witness:
  "\<exists>x ns1 r1 ns2 r2 d2.
     channel_connect const_rng demo_parsers (\<lambda>_. []) 1 5 Some (ep_conf_from ''ok'')
       ((net_sim_new config_default :: string net_sim)\<lparr>ns_network := two_nodes\<rparr>) 0 = (Ok x, ns1, r1) \<and>
     call_connect const_rng unit_values demo_parsers (\<lambda>_. []) 1 5 Some (new_one (ep_conf_from ''gone''))
       ((net_sim_new config_default :: string net_sim)\<lparr>ns_network := two_nodes\<rparr>) 0 =
       (((Err ConnectionRefused, ns2, r2) :: (io_error, endpoint \<times> unit chan \<times> unit chan \<times> sid \<times> socket_addr \<times> socket_addr,
          string net_sim \<times> nat) outcome), d2) \<and>
     nodes (ns_network ns1) = nodes two_nodes \<and> nodes (ns_network ns2) = nodes two_nodes"
proof -
  let ?ns = "(net_sim_new config_default :: string net_sim)\<lparr>ns_network := two_nodes\<rparr>"
  have b: "bind 1 (V4 0, 0) Udp 5 two_nodes = Ok ((V4 0, 1), two_nodes\<lparr>nodes := (nodes two_nodes)(1 \<mapsto>
      (the (nodes two_nodes 1))\<lparr>sockets := [((V4 0, 1), Udp) \<mapsto> 5]\<rparr>)\<rparr>)"
    by (simp add: bind_def two_nodes_def Let_def find_port.simps)
  note eval = connect_ep_def ep_conf_from_def demo_parsers_def endpoint_connect_def lookup_first_def endpoint_bind_def resolve_text_def
    ep_connect1_def connect1_def net_sim_new_def via_ipvs_def get_server_def try_send_def resolve_dest_node_def two_nodes_def
    test_link_def link_clogged_def network_new_def config_default_def default_send_latency_def const_rng_def find_socket_def
    netsim_lift_def endpoint_drop_def guard_drop_def close_def drop_ep_def Let_def
  from b obtain x ns1 r1 where 1: "channel_connect const_rng demo_parsers (\<lambda>_. []) 1 5 Some (ep_conf_from ''ok'') ?ns 0 = (Ok x, ns1, r1)"
    by (simp add: channel_connect_def eval)
  from b obtain ns2 r2 d2 where 2: "call_connect const_rng unit_values demo_parsers (\<lambda>_. []) 1 5 Some (new_one (ep_conf_from ''gone'')) ?ns 0 =
      (((Err ConnectionRefused, ns2, r2) :: (io_error, endpoint \<times> unit chan \<times> unit chan \<times> sid \<times> socket_addr \<times> socket_addr,
          string net_sim \<times> nat) outcome), d2)"
    by (simp add: call_connect_def get_one_def drain_changes_def new_one_def unit_values_def eval)
  have "\<not> is_panic (Ok x :: (transport_error, _) res)" by simp
  from grpc_connect_no_leak[OF 1 this 2] show ?thesis using 1 2 by simp
qed

end
