(* ===== verification/Service.thy ===== *)
theory Service
  imports Endpoint
begin

section \<open>Services over connections\<close>

text \<open>
  The servers of etcd, S3 and Kafka have the same loop: every connection gets a task that receives one request, executes it on the
  shared state, sends the response and ends (\<open>server.rs\<close> of \<open>madsim-etcd-client\<close>, \<open>rpc_server.rs\<close> of \<open>madsim-aws-sdk-s3\<close>,
  \<open>sim_broker.rs\<close> of \<open>madsim-rdkafka\<close>); and their clients open a connection for every call, send the request and wait for the response.
  Here this loop is modelled for any service, with any number of concurrent calls.  \<open>exec q s r s'\<close> tells that executing \<open>q\<close> in \<open>s\<close> may
  answer \<open>r\<close> (\<open>None\<close> is a panic) and lead to \<open>s'\<close>; \<open>other s s'\<close> is any other change of the state.
\<close>

datatype 'a caller = Sending | Awaiting | Returned 'a nat | Lost

datatype ('q, 'a) worker = Idle | Got 'q | Answering 'a | Over

record ('q, 'a, 'u, 'd) conn_call =
  cc_req :: 'q
  cc_start :: nat
  cc_up :: 'u
  cc_down :: 'd
  cc_caller :: "'a caller"
  cc_worker :: "('q, 'a) worker"

text \<open>The history of the service: what it executed, for which call (by its number), and the other changes.\<close>

datatype ('q, 'a) entry = Executed nat 'q "'a option" | Other

record ('q, 'a, 'u, 'd, 's) svc_sys =
  sv_calls :: "('q, 'a, 'u, 'd) conn_call list"
  sv_state :: 's
  sv_log :: "('q, 'a) entry list"

text \<open>The operations of both channels of a new connection, the service, and its other changes.\<close>

record ('q, 'a, 'u, 'd, 's) svc_env =
  se_up_sends :: "'q \<Rightarrow> 'u \<Rightarrow> 'u \<Rightarrow> bool"
  se_up_receives :: "'u \<Rightarrow> 'q option poll \<Rightarrow> 'u \<Rightarrow> bool"
  se_down_sends :: "'a \<Rightarrow> 'd \<Rightarrow> 'd \<Rightarrow> bool"
  se_down_receives :: "'d \<Rightarrow> 'a option poll \<Rightarrow> 'd \<Rightarrow> bool"
  se_up_shut :: "'u \<Rightarrow> 'u"
  se_up_hang :: "'u \<Rightarrow> 'u"
  se_down_shut :: "'d \<Rightarrow> 'd"
  se_down_hang :: "'d \<Rightarrow> 'd"
  se_up_new :: "'u \<Rightarrow> bool"
  se_down_new :: "'d \<Rightarrow> bool"
  se_exec :: "'q \<Rightarrow> 's \<Rightarrow> 'a option \<Rightarrow> 's \<Rightarrow> bool"
  se_other :: "'s \<Rightarrow> 's \<Rightarrow> bool"

definition svc_start :: "'s \<Rightarrow> ('q, 'a, 'u, 'd, 's) svc_sys" where
  "svc_start s = \<lparr>sv_calls = [], sv_state = s, sv_log = []\<rparr>"

definition set_call :: "nat \<Rightarrow> ('q, 'a, 'u, 'd) conn_call \<Rightarrow> ('q, 'a, 'u, 'd, 's) svc_sys \<Rightarrow> ('q, 'a, 'u, 'd, 's) svc_sys" where
  "set_call k c s = s\<lparr>sv_calls := (sv_calls s)[k := c]\<rparr>"

text \<open>The client's call is over: it drops its ends of the connection; so does the server's task.\<close>

definition caller_over :: "('q, 'a, 'u, 'd, 's) svc_env \<Rightarrow> 'a caller \<Rightarrow> ('q, 'a, 'u, 'd) conn_call \<Rightarrow> ('q, 'a, 'u, 'd) conn_call" where
  "caller_over E x c = c\<lparr>cc_caller := x, cc_up := se_up_shut E (cc_up c), cc_down := se_down_hang E (cc_down c)\<rparr>"

definition worker_over :: "('q, 'a, 'u, 'd, 's) svc_env \<Rightarrow> ('q, 'a, 'u, 'd) conn_call \<Rightarrow> ('q, 'a, 'u, 'd) conn_call" where
  "worker_over E c = c\<lparr>cc_worker := Over, cc_up := se_up_hang E (cc_up c), cc_down := se_down_shut E (cc_down c)\<rparr>"

inductive svc_step :: "('q, 'a, 'u, 'd, 's) svc_env \<Rightarrow> ('q, 'a, 'u, 'd, 's) svc_sys \<Rightarrow> ('q, 'a, 'u, 'd, 's) svc_sys \<Rightarrow> bool" for E where
  \<comment> \<open>clients\<close>
  v_invoke: "se_up_new E u \<Longrightarrow> se_down_new E d \<Longrightarrow>
    svc_step E s (s\<lparr>sv_calls := sv_calls s @ [\<lparr>cc_req = q, cc_start = length (sv_log s), cc_up = u, cc_down = d,
      cc_caller = Sending, cc_worker = Idle\<rparr>]\<rparr>)"
| v_send: "k < length (sv_calls s) \<Longrightarrow> c = sv_calls s ! k \<Longrightarrow> cc_caller c = Sending \<Longrightarrow> se_up_sends E (cc_req c) (cc_up c) u \<Longrightarrow>
    svc_step E s (set_call k (c\<lparr>cc_up := u, cc_caller := Awaiting\<rparr>) s)"
| v_recv: "k < length (sv_calls s) \<Longrightarrow> c = sv_calls s ! k \<Longrightarrow> cc_caller c = Awaiting \<Longrightarrow>
    se_down_receives E (cc_down c) (Ready w) d \<Longrightarrow>
    svc_step E s (set_call k (caller_over E (case w of Some a \<Rightarrow> Returned a (length (sv_log s)) | None \<Rightarrow> Lost) (c\<lparr>cc_down := d\<rparr>)) s)"
| v_wait: "k < length (sv_calls s) \<Longrightarrow> c = sv_calls s ! k \<Longrightarrow> cc_caller c = Awaiting \<Longrightarrow> se_down_receives E (cc_down c) Pending d \<Longrightarrow>
    svc_step E s (set_call k (c\<lparr>cc_down := d\<rparr>) s)"
| v_lost: "k < length (sv_calls s) \<Longrightarrow> c = sv_calls s ! k \<Longrightarrow> cc_caller c \<in> {Sending, Awaiting} \<Longrightarrow>
    svc_step E s (set_call k (caller_over E Lost c) s)"
  \<comment> \<open>the server\<close>
| v_take: "k < length (sv_calls s) \<Longrightarrow> c = sv_calls s ! k \<Longrightarrow> cc_worker c = Idle \<Longrightarrow> se_up_receives E (cc_up c) (Ready (Some q)) u \<Longrightarrow>
    svc_step E s (set_call k (c\<lparr>cc_up := u, cc_worker := Got q\<rparr>) s)"
| v_take_wait: "k < length (sv_calls s) \<Longrightarrow> c = sv_calls s ! k \<Longrightarrow> cc_worker c = Idle \<Longrightarrow> se_up_receives E (cc_up c) Pending u \<Longrightarrow>
    svc_step E s (set_call k (c\<lparr>cc_up := u\<rparr>) s)"
| v_exec: "k < length (sv_calls s) \<Longrightarrow> c = sv_calls s ! k \<Longrightarrow> cc_worker c = Got q \<Longrightarrow> se_exec E q (sv_state s) (Some a) s' \<Longrightarrow>
    svc_step E s (set_call k (c\<lparr>cc_worker := Answering a\<rparr>) (s\<lparr>sv_state := s', sv_log := sv_log s @ [Executed k q (Some a)]\<rparr>))"
| v_crash: "k < length (sv_calls s) \<Longrightarrow> c = sv_calls s ! k \<Longrightarrow> cc_worker c = Got q \<Longrightarrow> se_exec E q (sv_state s) None s' \<Longrightarrow>
    svc_step E s (set_call k (worker_over E c) (s\<lparr>sv_state := s', sv_log := sv_log s @ [Executed k q None]\<rparr>))"
| v_answer: "k < length (sv_calls s) \<Longrightarrow> c = sv_calls s ! k \<Longrightarrow> cc_worker c = Answering a \<Longrightarrow> se_down_sends E a (cc_down c) d \<Longrightarrow>
    svc_step E s (set_call k (worker_over E (c\<lparr>cc_down := d\<rparr>)) s)"
| v_stop: "k < length (sv_calls s) \<Longrightarrow> c = sv_calls s ! k \<Longrightarrow> svc_step E s (set_call k (worker_over E c) s)"
| v_other: "se_other E (sv_state s) s' \<Longrightarrow> svc_step E s (s\<lparr>sv_state := s', sv_log := sv_log s @ [Other]\<rparr>)"

inductive svc_reachable :: "('q, 'a, 'u, 'd, 's) svc_env \<Rightarrow> 's \<Rightarrow> ('q, 'a, 'u, 'd, 's) svc_sys \<Rightarrow> bool" for E s0 where
  svc_init: "svc_reachable E s0 (svc_start s0)"
| svc_next: "svc_reachable E s0 s \<Longrightarrow> svc_step E s s' \<Longrightarrow> svc_reachable E s0 s'"

subsection \<open>Linearizability\<close>

text \<open>A history that the service on its own, one request after the other, can have.\<close>

primrec entry_step :: "('q, 'a, 'u, 'd, 's) svc_env \<Rightarrow> ('q, 'a) entry \<Rightarrow> 's \<Rightarrow> 's \<Rightarrow> bool" where
  "entry_step E (Executed k q r) = (\<lambda>s. se_exec E q s r)"
| "entry_step E Other = se_other E"

primrec legal :: "('q, 'a, 'u, 'd, 's) svc_env \<Rightarrow> 's \<Rightarrow> ('q, 'a) entry list \<Rightarrow> 's \<Rightarrow> bool" where
  "legal E s [] s' \<longleftrightarrow> s' = s"
| "legal E s (e # es) s' \<longleftrightarrow> (\<exists>s1. entry_step E e s s1 \<and> legal E s1 es s')"

lemma legal_append: "legal E s (es @ fs) s' \<longleftrightarrow> (\<exists>s1. legal E s es s1 \<and> legal E s1 fs s')"
  by (induction es arbitrary: s) auto

primrec of_call :: "nat \<Rightarrow> ('q, 'a) entry \<Rightarrow> bool" where
  "of_call k (Executed j q r) = (j = k)"
| "of_call k Other = False"

text \<open>Call \<open>k\<close> was executed with answer \<open>a\<close>, after the first \<open>b\<close> entries and among the first \<open>n\<close>.\<close>

definition executed :: "('q, 'a) entry list \<Rightarrow> nat \<Rightarrow> 'q \<Rightarrow> nat \<Rightarrow> 'a \<Rightarrow> nat \<Rightarrow> bool" where
  "executed es k q b a n \<longleftrightarrow> n \<le> length es \<and> (\<exists>i. b \<le> i \<and> i < n \<and> es ! i = Executed k q (Some a))"

text \<open>Every completed call took effect, once, between its begin and its return, with the answer it returned.\<close>

definition linearizable :: "('q, 'a, 'u, 'd, 's) svc_env \<Rightarrow> 's \<Rightarrow> ('q, 'a, 'u, 'd, 's) svc_sys \<Rightarrow> bool" where
  "linearizable E s0 s \<longleftrightarrow>
     legal E s0 (sv_log s) (sv_state s) \<and>
     (\<forall>k. length (filter (of_call k) (sv_log s)) \<le> 1) \<and>
     (\<forall>k < length (sv_calls s). \<forall>a n. cc_caller (sv_calls s ! k) = Returned a n \<longrightarrow>
        executed (sv_log s) k (cc_req (sv_calls s ! k)) (cc_start (sv_calls s ! k)) a n)"


lemma linearizable_exec:
  assumes "linearizable E s0 s" "k < length (sv_calls s)" "cc_caller (sv_calls s ! k) = Returned a n"
  shows "\<exists>s1 s2. se_exec E (cc_req (sv_calls s ! k)) s1 (Some a) s2"
proof -
  have "executed (sv_log s) k (cc_req (sv_calls s ! k)) (cc_start (sv_calls s ! k)) a n"
    using assms by (simp add: linearizable_def)
  then obtain i where i: "i < length (sv_log s)" "sv_log s ! i = Executed k (cc_req (sv_calls s ! k)) (Some a)"
    unfolding executed_def using less_le_trans by blast
  have "legal E s0 (take i (sv_log s) @ sv_log s ! i # drop (Suc i) (sv_log s)) (sv_state s)"
    using assms(1) i(1) by (simp add: linearizable_def flip: id_take_nth_drop)
  then show ?thesis using i(2) by (auto simp: legal_append)
qed

text \<open>A property that all entries keep, and what the history says of two calls, one begun after the other returned: the second is executed
  in the state that the first left, up to the entries that are not of the first and since its begin.\<close>

lemma legal_keeps:
  assumes "legal E s es s'" "\<And>e s1 s2. e \<in> set es \<Longrightarrow> entry_step E e s1 s2 \<Longrightarrow> P s1 \<Longrightarrow> P s2" "P s"
  shows "P s'"
  using assms by (induction es arbitrary: s) auto

lemma linearized_after:
  assumes lin: "linearizable E s0 s"
    and j: "j < length (sv_calls s)" "cc_caller (sv_calls s ! j) = Returned a n"
    and k: "k < length (sv_calls s)" "cc_caller (sv_calls s ! k) = Returned b m" "n \<le> cc_start (sv_calls s ! k)"
  obtains es s1 s2 mid s3 s4 where "legal E s0 es s1" "se_exec E (cc_req (sv_calls s ! j)) s1 (Some a) s2" "legal E s2 mid s3"
    "\<And>e. e \<in> set mid \<Longrightarrow> e \<in> set (drop (cc_start (sv_calls s ! j)) (sv_log s)) \<and> \<not> of_call j e"
    "se_exec E (cc_req (sv_calls s ! k)) s3 (Some b) s4"
proof -
  let ?log = "sv_log s"
  have lg: "legal E s0 ?log (sv_state s)" using lin by (simp add: linearizable_def)
  have exec: "executed ?log j (cc_req (sv_calls s ! j)) (cc_start (sv_calls s ! j)) a n"
    "executed ?log k (cc_req (sv_calls s ! k)) (cc_start (sv_calls s ! k)) b m"
    using lin j k(1,2) by (auto simp: linearizable_def)
  obtain p where p: "cc_start (sv_calls s ! j) \<le> p" "p < n" "?log ! p = Executed j (cc_req (sv_calls s ! j)) (Some a)" "n \<le> length ?log"
    using exec(1) by (auto simp: executed_def)
  obtain q where q: "cc_start (sv_calls s ! k) \<le> q" "q < m" "?log ! q = Executed k (cc_req (sv_calls s ! k)) (Some b)" "m \<le> length ?log"
    using exec(2) by (auto simp: executed_def)
  have pq: "p < q" "q < length ?log" using p q k(3) by linarith+
  let ?mid = "take (q - Suc p) (drop (Suc p) ?log)"
  have split: "?log = take p ?log @ ?log ! p # ?mid @ ?log ! q # drop (Suc q) ?log"
  proof -
    have "?log = take p ?log @ ?log ! p # drop (Suc p) ?log" using pq by (intro id_take_nth_drop) simp
    moreover have "drop (Suc p) ?log = ?mid @ drop (Suc p) ?log ! (q - Suc p) # drop (Suc (q - Suc p)) (drop (Suc p) ?log)"
      using pq by (intro id_take_nth_drop) simp
    ultimately show ?thesis using pq by simp
  qed
  have "length (filter (of_call j) ?log) \<le> 1" using lin by (simp add: linearizable_def)
  then have "length (filter (of_call j) (take p ?log @ ?log ! p # ?mid @ ?log ! q # drop (Suc q) ?log)) \<le> 1"
    using split by simp
  then have own: "\<not> of_call j e" if "e \<in> set ?mid" for e using p(3) that by (auto simp: filter_empty_conv)
  have mid: "e \<in> set (drop (cc_start (sv_calls s ! j)) ?log)" if "e \<in> set ?mid" for e
  proof -
    have "e \<in> set (drop (Suc p) ?log)" using that set_take_subset by fast
    then show ?thesis using set_drop_subset_set_drop[of "cc_start (sv_calls s ! j)" "Suc p" ?log] p(1) by (auto dest: subsetD)
  qed
  from lg obtain s1 s2 s3 s4 where "legal E s0 (take p ?log) s1" "entry_step E (?log ! p) s1 s2" "legal E s2 ?mid s3"
    "entry_step E (?log ! q) s3 s4"
    by (subst (asm) split) (auto simp: legal_append)
  then show ?thesis using that own mid p(3) q(3) by simp
qed

primrec worker_ok :: "('q, 'a) entry list \<Rightarrow> nat \<Rightarrow> 'q \<Rightarrow> nat \<Rightarrow> ('q, 'a) worker \<Rightarrow> bool" where
  "worker_ok es k q b Idle \<longleftrightarrow> filter (of_call k) es = []"
| "worker_ok es k q b (Got q') \<longleftrightarrow> q' = q \<and> filter (of_call k) es = []"
| "worker_ok es k q b (Answering a) \<longleftrightarrow> executed es k q b a (length es)"
| "worker_ok es k q b Over \<longleftrightarrow> True"

primrec caller_ok :: "('q, 'a) entry list \<Rightarrow> nat \<Rightarrow> 'q \<Rightarrow> nat \<Rightarrow> 'a caller \<Rightarrow> bool" where
  "caller_ok es k q b Sending \<longleftrightarrow> True"
| "caller_ok es k q b Awaiting \<longleftrightarrow> True"
| "caller_ok es k q b (Returned a n) \<longleftrightarrow> executed es k q b a n"
| "caller_ok es k q b Lost \<longleftrightarrow> True"

definition call_ok :: "('u \<Rightarrow> 'q list) \<Rightarrow> ('d \<Rightarrow> 'a list) \<Rightarrow> ('q, 'a) entry list \<Rightarrow> nat \<Rightarrow> ('q, 'a, 'u, 'd) conn_call \<Rightarrow> bool" where
  "call_ok up down es k c \<longleftrightarrow>
     cc_start c \<le> length es \<and> set (up (cc_up c)) \<subseteq> {cc_req c} \<and>
     (\<forall>a \<in> set (down (cc_down c)). executed es k (cc_req c) (cc_start c) a (length es)) \<and>
     length (filter (of_call k) es) \<le> 1 \<and> worker_ok es k (cc_req c) (cc_start c) (cc_worker c) \<and>
     caller_ok es k (cc_req c) (cc_start c) (cc_caller c)"

definition svc_inv :: "('q, 'a, 'u, 'd, 's) svc_env \<Rightarrow> ('u \<Rightarrow> 'q list) \<Rightarrow> ('d \<Rightarrow> 'a list) \<Rightarrow> 's \<Rightarrow> ('q, 'a, 'u, 'd, 's) svc_sys \<Rightarrow> bool" where
  "svc_inv E up down s0 s \<longleftrightarrow>
     legal E s0 (sv_log s) (sv_state s) \<and>
     (\<forall>k < length (sv_calls s). call_ok up down (sv_log s) k (sv_calls s ! k)) \<and>
     (\<forall>k \<ge> length (sv_calls s). filter (of_call k) (sv_log s) = [])"

lemma svc_inv_linearizable: "svc_inv E up down s0 s \<Longrightarrow> linearizable E s0 s"
proof -
  assume i: "svc_inv E up down s0 s"
  have "length (filter (of_call k) (sv_log s)) \<le> 1" for k
    using i by (cases "k < length (sv_calls s)") (auto simp: svc_inv_def call_ok_def)
  moreover have "executed (sv_log s) k (cc_req (sv_calls s ! k)) (cc_start (sv_calls s ! k)) a n"
    if "k < length (sv_calls s)" "cc_caller (sv_calls s ! k) = Returned a n" for k a n
    using i that by (auto simp: svc_inv_def call_ok_def)
  ultimately show ?thesis using i by (simp add: linearizable_def svc_inv_def)
qed

text \<open>The history only grows.\<close>

lemma executed_append:
  assumes "executed es k q b a n" "n \<le> n'" "n' \<le> length es + length fs"
  shows "executed (es @ fs) k q b a n'"
proof -
  obtain i where i: "b \<le> i" "i < n" "es ! i = Executed k q (Some a)" "n \<le> length es"
    using assms(1) by (auto simp: executed_def)
  then have "(es @ fs) ! i = Executed k q (Some a)" by (simp add: nth_append)
  then show ?thesis using i assms(2,3) unfolding executed_def by (intro conjI exI[of _ i]) simp_all
qed

lemma executed_le: "executed es k q b a n \<Longrightarrow> n \<le> length es"
  by (simp add: executed_def)

lemma executed_last: "b \<le> length es \<Longrightarrow> executed (es @ [Executed k q (Some a)]) k q b a (Suc (length es))"
  unfolding executed_def by (intro conjI exI[of _ "length es"]) simp_all

lemma caller_ok_append: "caller_ok es k q b x \<Longrightarrow> caller_ok (es @ fs) k q b x"
  by (cases x) (auto intro!: executed_append dest: executed_le)

lemma call_ok_append:
  assumes "call_ok up down es k c" "\<And>f. f \<in> set fs \<Longrightarrow> \<not> of_call k f"
  shows "call_ok up down (es @ fs) k c"
proof -
  have "filter (of_call k) (es @ fs) = filter (of_call k) es" using assms(2) by (simp add: filter_empty_conv)
  moreover from this have "worker_ok (es @ fs) k (cc_req c) (cc_start c) (cc_worker c)"
    using assms(1) by (cases "cc_worker c") (auto simp: call_ok_def intro!: executed_append)
  ultimately show ?thesis using assms(1) caller_ok_append by (auto simp: call_ok_def intro!: executed_append)
qed

text \<open>A step of one call.\<close>

lemma svc_inv_set_call:
  assumes "svc_inv E up down s0 s" "k < length (sv_calls s)" "call_ok up down (sv_log s) k c"
  shows "svc_inv E up down s0 (set_call k c s)"
  using assms by (auto simp: svc_inv_def set_call_def nth_list_update)

text \<open>The execution of a request.\<close>

lemma svc_inv_exec:
  assumes "svc_inv E up down s0 s" "k < length (sv_calls s)" "cc_worker (sv_calls s ! k) = Got q" "se_exec E q (sv_state s) r s'"
    and "call_ok up down (sv_log s @ [Executed k q r]) k c"
  shows "svc_inv E up down s0 (set_call k c (s\<lparr>sv_state := s', sv_log := sv_log s @ [Executed k q r]\<rparr>))"
proof -
  have "call_ok up down (sv_log s @ [Executed k q r]) j (sv_calls s ! j)" if "j < length (sv_calls s)" "j \<noteq> k" for j
    using assms(1) that by (intro call_ok_append) (auto simp: svc_inv_def)
  moreover have "legal E s0 (sv_log s @ [Executed k q r]) s'"
    using assms(1,4) by (auto simp: svc_inv_def legal_append)
  ultimately show ?thesis using assms(1,2,5) by (auto simp: svc_inv_def set_call_def nth_list_update)
qed

locale service_link = up: fifo_channel "se_up_sends E" "se_up_receives E" up + down: fifo_channel "se_down_sends E" "se_down_receives E" down
  for E :: "('q, 'a, 'u, 'd, 's) svc_env" and up :: "'u \<Rightarrow> 'q list" and down :: "'d \<Rightarrow> 'a list" +
  assumes up_new: "se_up_new E u \<Longrightarrow> up u = []"
    and down_new: "se_down_new E d \<Longrightarrow> down d = []"
    and up_ends: "up (se_up_shut E u) = up u" "up (se_up_hang E u) = up u"
    and down_ends: "down (se_down_shut E d) = down d" "down (se_down_hang E d) = down d"
begin

lemma call_ok_over:
  "call_ok up down es k c \<Longrightarrow> call_ok up down es k (worker_over E c)"
  "call_ok up down es k c \<Longrightarrow> call_ok up down es k (caller_over E Lost c)"
  "call_ok up down es k c \<Longrightarrow> executed es k (cc_req c) (cc_start c) a n \<Longrightarrow> call_ok up down es k (caller_over E (Returned a n) c)"
  by (simp_all add: call_ok_def worker_over_def caller_over_def up_ends down_ends)

lemma step_svc_inv:
  assumes "svc_step E s s'" "svc_inv E up down s0 s"
  shows "svc_inv E up down s0 s'"
proof -
  have ok: "k < length (sv_calls s) \<Longrightarrow> call_ok up down (sv_log s) k (sv_calls s ! k)" for k using assms(2) by (simp add: svc_inv_def)
  note set = svc_inv_set_call[OF assms(2)]
  show ?thesis using assms(1)
  proof cases
    case (v_invoke u d q)
    then show ?thesis using assms(2) up_new down_new by (auto simp: svc_inv_def nth_append call_ok_def less_Suc_eq)
  next
    case (v_send k c u)
    then show ?thesis using ok[of k] up.content_sends by (auto intro!: set simp: call_ok_def)
  next
    case (v_recv k c w d)
    then have c: "call_ok up down (sv_log s) k (c\<lparr>cc_down := d\<rparr>)" using ok[of k] down.content_receives[OF v_recv(5)]
      by (auto simp: call_ok_def)
    show ?thesis
    proof (cases w)
      case None
      then show ?thesis using v_recv call_ok_over(2)[OF c] by (auto intro!: set)
    next
      case (Some a)
      then have "executed (sv_log s) k (cc_req c) (cc_start c) a (length (sv_log s))"
        using ok[of k] v_recv down.content_receives_Some by (fastforce simp: call_ok_def)
      then show ?thesis using v_recv Some call_ok_over(3)[OF c] by (auto intro!: set)
    qed
  next
    case (v_wait k c d)
    then show ?thesis using ok[of k] down.content_receives_Pending by (auto intro!: set simp: call_ok_def)
  next
    case (v_lost k c)
    then show ?thesis using ok[of k] call_ok_over(2) by (auto intro!: set)
  next
    case (v_take k c q u)
    then show ?thesis using ok[of k] up.content_receives_Some by (fastforce intro!: set simp: call_ok_def)
  next
    case (v_take_wait k c u)
    then show ?thesis using ok[of k] up.content_receives_Pending by (auto intro!: set simp: call_ok_def)
  next
    case (v_exec k c q a s1)
    then have q: "q = cc_req c" "filter (of_call k) (sv_log s) = []" "cc_start c \<le> length (sv_log s)"
      using ok[of k] by (auto simp: call_ok_def)
    then have "call_ok up down (sv_log s @ [Executed k q (Some a)]) k (c\<lparr>cc_worker := Answering a\<rparr>)"
      using ok[of k] v_exec by (auto simp: call_ok_def intro: executed_last caller_ok_append executed_append)
    then show ?thesis using v_exec by (auto intro!: svc_inv_exec[OF assms(2)])
  next
    case (v_crash k c q s1)
    then have "filter (of_call k) (sv_log s) = []" using ok[of k] by (auto simp: call_ok_def)
    then have "call_ok up down (sv_log s @ [Executed k q None]) k (worker_over E c)"
      using ok[of k] v_crash caller_ok_append
      by (auto simp: call_ok_def worker_over_def up_ends down_ends intro!: executed_append)
    then show ?thesis using v_crash by (auto intro!: svc_inv_exec[OF assms(2)])
  next
    case (v_answer k c a d)
    then have "call_ok up down (sv_log s) k (c\<lparr>cc_down := d\<rparr>)" using ok[of k] down.content_sends by (auto simp: call_ok_def)
    then show ?thesis using v_answer call_ok_over(1) by (auto intro!: set)
  next
    case (v_stop k c)
    then show ?thesis using ok[of k] call_ok_over(1) by (auto intro!: set)
  next
    case (v_other s1)
    then show ?thesis using assms(2) by (auto simp: svc_inv_def legal_append intro: call_ok_append)
  qed
qed

lemma reachable_svc_inv: "svc_reachable E s0 s \<Longrightarrow> svc_inv E up down s0 s"
proof (induction rule: svc_reachable.induct)
  case svc_init
  then show ?case by (simp add: svc_inv_def svc_start_def)
next
  case (svc_next s s')
  then show ?case using step_svc_inv by blast
qed

lemma reachable_linearizable: "svc_reachable E s0 s \<Longrightarrow> linearizable E s0 s"
  by (rule svc_inv_linearizable[OF reachable_svc_inv])

end

text \<open>A service that answers with a result; a panic of the service ends the task.\<close>

definition result_exec :: "('e, 'a) res \<Rightarrow> ('e, 'a) res option \<Rightarrow> bool" where
  "result_exec x a \<longleftrightarrow> a = (if is_panic x then None else Some x)"

subsection \<open>On the simulated network\<close>

text \<open>The connections of \<open>NetSim\<close>, with a service.\<close>

definition svc_net :: "'r rng_ops \<Rightarrow> ('tm, 'cb) timer_ops \<Rightarrow> ('q \<Rightarrow> 's \<Rightarrow> 'a option \<Rightarrow> 's \<Rightarrow> bool) \<Rightarrow> ('s \<Rightarrow> 's \<Rightarrow> bool)
    \<Rightarrow> ('q, 'a, 'q chan, 'a chan, 's) svc_env" where
  "svc_net R T exec other =
     \<lparr>se_up_sends = chan_sends R, se_up_receives = chan_receives R T, se_down_sends = chan_sends R, se_down_receives = chan_receives R T,
      se_up_shut = chan_shut, se_up_hang = chan_hang, se_down_shut = chan_shut, se_down_hang = chan_hang,
      se_up_new = (\<lambda>c. \<exists>i dst proto. c = mk_channel i dst proto), se_down_new = (\<lambda>c. \<exists>i dst proto. c = mk_channel i dst proto),
      se_exec = exec, se_other = other\<rparr>"

interpretation snet: service_link "svc_net R T exec other" in_flight in_flight
proof (unfold_locales, goal_cases)
  case (1 v c c')
  then show ?case using netchan.content_sends by (simp add: svc_net_def)
next
  case (2 c v c')
  then show ?case using netchan.content_receives_Some by (simp add: svc_net_def)
next
  case (3 c c')
  then show ?case using netchan.content_receives_None by (simp add: svc_net_def)
next
  case (4 c c')
  then show ?case using netchan.content_receives_Pending by (simp add: svc_net_def)
next
  case (5 v c c')
  then show ?case using netchan.content_sends by (simp add: svc_net_def)
next
  case (6 c v c')
  then show ?case using netchan.content_receives_Some by (simp add: svc_net_def)
next
  case (7 c c')
  then show ?case using netchan.content_receives_None by (simp add: svc_net_def)
next
  case (8 c c')
  then show ?case using netchan.content_receives_Pending by (simp add: svc_net_def)
qed (auto simp: svc_net_def in_flight_def chan_shut_def chan_hang_def mk_channel_def)

subsection \<open>A call on its own\<close>

text \<open>On a good link a call goes through: sent, taken, executed, answered and received.\<close>

definition sent_on :: "'a \<Rightarrow> 'a chan \<Rightarrow> 'a chan" where
  "sent_on v c = c\<lparr>ch_buf := [(v, Some 1000000)]\<rparr>"

definition arriving_on :: "'a \<Rightarrow> 'a chan \<Rightarrow> 'a chan" where
  "arriving_on v c = c\<lparr>ch_rx := RxArrive v \<lparr>deadline = 1000000\<rparr>\<rparr>"

abbreviation good_net where
  "good_net \<equiv> svc_net const_rng (list_timer :: ((duration \<times> unit) list, unit) timer_ops)"

lemma good_link:
  assumes "(ch_node c, ch_dst c) \<in> {(1, V4 2, 80), (2, V4 1, 80)}" "ch_proto c = Udp" "ch_rx_open c" "ch_buf c = []" "ch_rx c = RxIdle"
  shows "chan_sends const_rng v c (sent_on v c)"
    "chan_receives const_rng (list_timer :: ((duration \<times> unit) list, unit) timer_ops) (sent_on v c) Pending (arriving_on v c)"
    "chan_receives const_rng (list_timer :: ((duration \<times> unit) list, unit) timer_ops) (arriving_on v c) (Ready (Some v)) c"
proof -
  show "chan_sends const_rng v c (sent_on v c)" using echo_sends[OF assms(1-3), of v] assms(4) by (simp add: sent_on_def)
  have "(sent_on v c)\<lparr>ch_buf := [], ch_rx := RxArrive v \<lparr>deadline = 1000000\<rparr>\<rparr> = arriving_on v c"
    using assms(4) by (simp add: sent_on_def arriving_on_def)
  then show "chan_receives const_rng (list_timer :: ((duration \<times> unit) list, unit) timer_ops) (sent_on v c) Pending (arriving_on v c)"
    using echo_starts[of "sent_on v c" v "[]" const_rng] assms(5) by (simp add: sent_on_def)
  have "(arriving_on v c)\<lparr>ch_rx := RxIdle\<rparr> = c" using assms(5) by (simp add: arriving_on_def)
  then show "chan_receives const_rng (list_timer :: ((duration \<times> unit) list, unit) timer_ops) (arriving_on v c) (Ready (Some v)) c"
    using echo_arrives[of "arriving_on v c" v const_rng] by (simp add: arriving_on_def)
qed

lemma svc_step_last:
  assumes "svc_reachable E s0 (s\<lparr>sv_calls := cs @ [c]\<rparr>)"
    and "svc_step E (s\<lparr>sv_calls := cs @ [c]\<rparr>) (set_call (length cs) c' (s'\<lparr>sv_calls := cs @ [c]\<rparr>))"
  shows "svc_reachable E s0 (s'\<lparr>sv_calls := cs @ [c']\<rparr>)"
  using svc_next[OF assms] by (simp add: set_call_def)

lemma solo_call:
  assumes reach: "svc_reachable (good_net exec other) s0 s" and exec: "exec q (sv_state s) (Some a) s'"
  shows "\<exists>c. cc_req c = q \<and> cc_start c = length (sv_log s) \<and> cc_caller c = Returned a (Suc (length (sv_log s))) \<and>
    svc_reachable (good_net exec other) s0
      (s\<lparr>sv_calls := sv_calls s @ [c], sv_state := s', sv_log := sv_log s @ [Executed (length (sv_calls s)) q (Some a)]\<rparr>)"
proof -
  define E where "E = good_net exec other"
  have op: "se_up_sends E = chan_sends const_rng" "se_down_sends E = chan_sends const_rng" "se_exec E = exec" "se_down_shut E = chan_shut"
    "se_up_receives E = chan_receives const_rng (list_timer :: ((duration \<times> unit) list, unit) timer_ops)"
    "se_down_receives E = chan_receives const_rng (list_timer :: ((duration \<times> unit) list, unit) timer_ops)"
    by (simp_all add: E_def svc_net_def)
  obtain up :: "'a chan" where upn: "se_up_new E up" and upl: "(ch_node up, ch_dst up) \<in> {(1, V4 2, 80), (2, V4 1, 80)}"
    "ch_proto up = Udp" "ch_rx_open up" "ch_buf up = []" "ch_rx up = RxIdle"
    by (rule that[of "mk_channel 1 (V4 2, 80) Udp"]) (auto simp: mk_channel_def svc_net_def E_def)
  obtain dn :: "'b chan" where dnn: "se_down_new E dn" and dnl: "(ch_node dn, ch_dst dn) \<in> {(1, V4 2, 80), (2, V4 1, 80)}"
    "ch_proto dn = Udp" "ch_rx_open dn" "ch_buf dn = []" "ch_rx dn = RxIdle"
    by (rule that[of "mk_channel 2 (V4 1, 80) Udp"]) (auto simp: mk_channel_def svc_net_def E_def)
  let ?dn = "chan_shut dn"
  have dns: "chan_shut (sent_on a dn) = sent_on a ?dn" by (simp add: chan_shut_def sent_on_def)
  note up = good_link[OF upl] and dn = good_link[OF dnl]
    and dn' = good_link[of ?dn, simplified chan_shut_def, simplified, OF dnl[simplified], folded chan_shut_def]
  let ?c = "\<lambda>u d x w. \<lparr>cc_req = q, cc_start = length (sv_log s), cc_up = u, cc_down = d, cc_caller = x, cc_worker = w\<rparr>"
  let ?n = "length (sv_calls s)"
  let ?s = "\<lambda>c. s\<lparr>sv_calls := sv_calls s @ [c]\<rparr>"
  let ?t0 = "s\<lparr>sv_state := s', sv_log := sv_log s @ [Executed ?n q (Some a)]\<rparr>"
  let ?t = "\<lambda>c. ?t0\<lparr>sv_calls := sv_calls s @ [c]\<rparr>"
  have "svc_reachable E s0 (?s (?c up dn Sending Idle))"
    using reach v_invoke[OF upn dnn, of s q] by (auto simp: E_def intro: svc_next)
  then have "svc_reachable E s0 (?s (?c (sent_on q up) dn Awaiting Idle))"
    by (rule svc_step_last) (use v_send[of ?n "?s (?c up dn Sending Idle)" _ E] up(1) op in \<open>simp\<close>)
  then have "svc_reachable E s0 (?s (?c (arriving_on q up) dn Awaiting Idle))"
    by (rule svc_step_last) (use v_take_wait[of ?n "?s (?c (sent_on q up) dn Awaiting Idle)" _ E] up(2) op in \<open>simp\<close>)
  then have "svc_reachable E s0 (?s (?c up dn Awaiting (Got q)))"
    by (rule svc_step_last) (use v_take[of ?n "?s (?c (arriving_on q up) dn Awaiting Idle)" _ E] up(3) op in \<open>simp\<close>)
  then have "svc_reachable E s0 (?t (?c up dn Awaiting (Answering a)))"
    by (rule svc_step_last) (use v_exec[of ?n "?s (?c up dn Awaiting (Got q))" _ q E] exec op in \<open>cases s; simp add: set_call_def\<close>)
  then have "svc_reachable E s0 (?t (?c (se_up_hang E up) (sent_on a ?dn) Awaiting Over))"
    by (rule svc_step_last)
      (use v_answer[of ?n "?t (?c up dn Awaiting (Answering a))" _ a E "sent_on a dn"] dn(1) op dns in \<open>simp add: worker_over_def\<close>)
  then have "svc_reachable E s0 (?t (?c (se_up_hang E up) (arriving_on a ?dn) Awaiting Over))"
    by (rule svc_step_last) (use v_wait[of ?n "?t (?c (se_up_hang E up) (sent_on a ?dn) Awaiting Over)" _ E] dn'(2) op in \<open>simp\<close>)
  then have "svc_reachable E s0 (?t (?c (se_up_shut E (se_up_hang E up)) (se_down_hang E ?dn) (Returned a (Suc (length (sv_log s)))) Over))"
    by (rule svc_step_last) (use v_recv[of ?n "?t (?c (se_up_hang E up) (arriving_on a ?dn) Awaiting Over)" _ E "Some a"] dn'(3) op in
      \<open>simp add: caller_over_def\<close>)
  then show ?thesis unfolding E_def[symmetric] 
    by (intro exI[of _ "?c (se_up_shut E (se_up_hang E up)) (se_down_hang E ?dn) (Returned a (Suc (length (sv_log s)))) Over"]) (cases s; simp)
qed

end
