(* ===== verification/BTree.thy ===== *)
theory BTree
  imports Prelude "HOL-Library.List_Lexorder"
begin

section \<open>Ordered maps and hash collections of the standard library\<close>

text \<open>
  A \<open>BTreeMap\<close> is the list of its entries in ascending order of the keys.  A \<open>HashMap\<close> is the list of its entries in the order
  in which an iteration meets them, a \<open>HashSet\<close> the list of its elements; that order is unspecified in Rust, so the state machines that use
  them have a step that permutes the lists.  Byte strings are compared lexicographically, as \<open>Vec<u8>\<close> is.

  The locale \<open>ordered_map\<close> is what the clients of a \<open>BTreeMap\<close> rely on.
\<close>

type_synonym ('k, 'v) btree = "('k \<times> 'v) list"

definition bt_get :: "('k, 'v) btree \<Rightarrow> 'k \<Rightarrow> 'v option" where
  "bt_get m k = map_of m k"

fun bt_insert :: "'k::linorder \<Rightarrow> 'v \<Rightarrow> ('k, 'v) btree \<Rightarrow> ('k, 'v) btree" where
  "bt_insert k v [] = [(k, v)]"
| "bt_insert k v ((k', v') # m) =
     (if k < k' then (k, v) # (k', v') # m
      else if k = k' then (k, v) # m
      else (k', v') # bt_insert k v m)"

definition bt_remove :: "'k \<Rightarrow> ('k, 'v) btree \<Rightarrow> ('k, 'v) btree" where
  "bt_remove k m = filter (\<lambda>e. fst e \<noteq> k) m"

definition bt_range :: "'k::linorder \<Rightarrow> 'k \<Rightarrow> ('k, 'v) btree \<Rightarrow> ('k, 'v) btree" where
  "bt_range lo hi m = filter (\<lambda>e. lo \<le> fst e \<and> fst e < hi) m"

definition bt_sorted :: "('k::linorder, 'v) btree \<Rightarrow> bool" where
  "bt_sorted m \<longleftrightarrow> sorted_wrt (<) (map fst m)"

lemma bt_sorted_simps [simp]: "bt_sorted []"
  "bt_sorted ((k, v) # m) \<longleftrightarrow> (\<forall>k' \<in> fst ` set m. k < k') \<and> bt_sorted m"
  by (auto simp: bt_sorted_def)

lemma bt_get_simps [simp]: "bt_get [] k = None"
  "bt_get ((k', v) # m) k = (if k = k' then Some v else bt_get m k)"
  by (auto simp: bt_get_def)

lemma bt_insert_keys: "fst ` set (bt_insert k v m) = insert k (fst ` set m)"
  by (induction k v m rule: bt_insert.induct) auto

lemma bt_insert_sorted: "bt_sorted m \<Longrightarrow> bt_sorted (bt_insert k v m)"
  by (induction k v m rule: bt_insert.induct) (auto simp: bt_insert_keys)

lemma bt_get_None_iff: "bt_get m k = None \<longleftrightarrow> k \<notin> fst ` set m"
  by (simp add: bt_get_def map_of_eq_None_iff)

lemma bt_get_insert: "bt_sorted m \<Longrightarrow> bt_get (bt_insert k v m) = (bt_get m)(k \<mapsto> v)"
proof (induction k v m rule: bt_insert.induct)
  case (2 k v k' v' m)
  then show ?case by (auto simp: fun_eq_iff)
qed (auto simp: fun_eq_iff)

lemma bt_get_remove: "bt_get (bt_remove k m) = (bt_get m)(k := None)"
  by (induction m) (auto simp: bt_remove_def fun_eq_iff)

lemma bt_remove_keys: "fst ` set (bt_remove k m) = fst ` set m - {k}"
  by (auto simp: bt_remove_def)

lemma bt_remove_sorted: "bt_sorted m \<Longrightarrow> bt_sorted (bt_remove k m)"
  by (simp add: bt_sorted_def bt_remove_def sorted_wrt_map sorted_wrt_filter)

lemma bt_range_sorted: "bt_sorted m \<Longrightarrow> bt_sorted (bt_range lo hi m)"
  by (simp add: bt_sorted_def bt_range_def sorted_wrt_map sorted_wrt_filter)

lemma bt_sorted_distinct: "bt_sorted m \<Longrightarrow> distinct (map fst m)"
  by (induction m) (auto simp: image_iff, fastforce)

lemma bt_get_mem: "bt_sorted m \<Longrightarrow> bt_get m k = Some v \<longleftrightarrow> (k, v) \<in> set m"
  using bt_sorted_distinct [of m] by (simp add: bt_get_def)

locale ordered_map =
  fixes get :: "'m \<Rightarrow> 'k::linorder \<Rightarrow> 'v option"
    and ins :: "'k \<Rightarrow> 'v \<Rightarrow> 'm \<Rightarrow> 'm"
    and rem :: "'k \<Rightarrow> 'm \<Rightarrow> 'm"
    and entries :: "'m \<Rightarrow> ('k \<times> 'v) list"
    and inv :: "'m \<Rightarrow> bool"
  assumes get_ins: "inv m \<Longrightarrow> get (ins k v m) = (get m)(k \<mapsto> v)"
    and get_rem: "inv m \<Longrightarrow> get (rem k m) = (get m)(k := None)"
    and inv_ins: "inv m \<Longrightarrow> inv (ins k v m)"
    and inv_rem: "inv m \<Longrightarrow> inv (rem k m)"
    and entries_get: "inv m \<Longrightarrow> (k, v) \<in> set (entries m) \<longleftrightarrow> get m k = Some v"
    and entries_sorted: "inv m \<Longrightarrow> sorted_wrt (<) (map fst (entries m))"
begin

text \<open>Removing a list of keys, as an expired lease does.\<close>

lemma fold_rem: "inv m \<Longrightarrow> inv (fold rem ks m) \<and> get (fold rem ks m) = get m |` (- set ks)"
proof (induction ks arbitrary: m)
  case (Cons k ks)
  have "inv (rem k m)" using inv_rem Cons.prems by blast
  moreover have "get m |` (- set (k # ks)) = (get m)(k := None) |` (- set ks)"
    by (auto simp: restrict_map_def fun_eq_iff)
  ultimately show ?case using Cons.IH [of "rem k m"] get_rem [OF Cons.prems, of k] by (simp only: fold_simps)
qed (simp add: restrict_map_def)

text \<open>Two maps with the same lookups have the same entries.\<close>

lemma entries_unique:
  assumes "inv m" "inv m'" "get m = get m'"
  shows "entries m = entries m'"
proof -
  have "set (entries m) = set (entries m')" using assms entries_get by (auto simp: set_eq_iff)
  moreover have "sorted_wrt (\<lambda>a b. fst a < fst b) (entries m)" "sorted_wrt (\<lambda>a b. fst a < fst b) (entries m')"
    using assms(1,2) entries_sorted by (auto simp: sorted_wrt_map)
  moreover have "xs = ys" if "set xs = set ys" "sorted_wrt (\<lambda>a b. fst a < fst b) xs" "sorted_wrt (\<lambda>a b. fst a < fst b) ys"
    for xs ys :: "('k \<times> 'v) list"
    using that
  proof (induction xs arbitrary: ys)
    case (Cons x xs)
    then obtain y ys' where y: "ys = y # ys'" by (cases ys) auto
    have "x = y" using Cons.prems y by (metis list.set_intros(1) order_less_asym set_ConsD sorted_wrt.simps(2))
    moreover have "set xs = set ys'"
      using Cons.prems y \<open>x = y\<close> by (auto dest: less_imp_neq)
    ultimately show ?case using Cons y by auto
  qed simp
  ultimately show ?thesis by blast
qed

end

interpretation bt: ordered_map bt_get bt_insert bt_remove "\<lambda>m. m" bt_sorted
  by unfold_locales
    (simp_all add: bt_get_insert bt_get_remove bt_insert_sorted bt_remove_sorted bt_get_mem, simp add: bt_sorted_def)

subsection \<open>Lexicographic order and prefixes\<close>

text \<open>The half-open range from \<open>p @ [b]\<close> to \<open>p @ [b + 1]\<close> holds exactly the strings that start with \<open>p @ [b]\<close>.\<close>

lemma prefix_range:
  fixes b c :: "'a::linorder"
  assumes "b < c" "\<And>x. b < x \<Longrightarrow> c \<le> x"
  shows "p @ [b] \<le> k \<and> k < p @ [c] \<longleftrightarrow> (\<exists>r. k = p @ b # r)"
proof (induction p arbitrary: k)
  case Nil
  have n: "\<not> x < b" if "x < c" "x \<noteq> b" "b \<le> x" for x using that assms by auto
  show ?case
  proof (cases k)
    case (Cons x r)
    then show ?thesis using assms by (auto simp: not_less) (metis assms(2) leD le_neq_trans)+
  qed simp
next
  case (Cons a p)
  then show ?case by (cases k) auto
qed

end
