(* ===== verification/EtcdBytes.thy ===== *)
theory EtcdBytes
  imports BTree
begin

section \<open>Escaped byte strings (\<open>madsim-etcd-client/src/bytes.rs\<close>)\<close>

text \<open>
  \<open>Bytes\<close> wraps a \<open>Vec<u8>\<close> and is printed (and dumped) in the escape format of the standard library's
  \<open>escape_ascii\<close>: \<open>\t \r \n \' \" \\\<close>, printable characters as they are, and two lower-case hexadecimal digits
  otherwise.  Text is the list of its bytes.
\<close>

type_synonym byte = "8 word"
type_synonym bytes = "byte list"

datatype parse_bytes_error = InvalidHex | InvalidByte | UnexpectedEof

definition hex_digit :: "byte \<Rightarrow> byte" where
  "hex_digit d = (if d < 10 then 48 + d else 87 + d)"

text \<open>\<open>u8::escape_ascii\<close>.\<close>

definition escape_byte :: "byte \<Rightarrow> bytes" where
  "escape_byte b =
     (if b = 9 then [92, 116]
      else if b = 13 then [92, 114]
      else if b = 10 then [92, 110]
      else if b = 39 then [92, 39]
      else if b = 34 then [92, 34]
      else if b = 92 then [92, 92]
      else if 0x20 \<le> b \<and> b \<le> 0x7e then [b]
      else [92, 120, hex_digit (drop_bit 4 b), hex_digit (b AND 0xf)])"

text \<open>\<open>Display for Bytes\<close>.\<close>

definition bytes_display :: "bytes \<Rightarrow> bytes" where
  "bytes_display bs = concat (map escape_byte bs)"

text \<open>\<open>char::to_digit(16)\<close> on a byte read as a character.\<close>

definition to_digit16 :: "byte \<Rightarrow> byte option" where
  "to_digit16 c =
     (if 48 \<le> c \<and> c \<le> 57 then Some (c - 48)
      else if 97 \<le> c \<and> c \<le> 102 then Some (c - 87)
      else if 65 \<le> c \<and> c \<le> 70 then Some (c - 55)
      else None)"

text \<open>\<open>FromStr for Bytes\<close>: the loop over the bytes of the text; \<open>acc\<close> is the vector built so far.\<close>

fun parse_loop :: "bytes \<Rightarrow> bytes \<Rightarrow> (parse_bytes_error, bytes) res" where
  "parse_loop acc [] = Ok acc"
| "parse_loop acc (b # s) =
     (if b = 92 then
        (case s of
           [] \<Rightarrow> Err UnexpectedEof
         | c # s \<Rightarrow>
             if c = 116 then parse_loop (acc @ [9]) s
             else if c = 114 then parse_loop (acc @ [13]) s
             else if c = 110 then parse_loop (acc @ [10]) s
             else if c = 39 then parse_loop (acc @ [39]) s
             else if c = 34 then parse_loop (acc @ [34]) s
             else if c = 92 then parse_loop (acc @ [92]) s
             else if c = 120 then
               (case s of
                  [] \<Rightarrow> Err UnexpectedEof
                | x # s \<Rightarrow>
                    (case to_digit16 x of
                       None \<Rightarrow> Err InvalidHex
                     | Some a \<Rightarrow>
                         (case s of
                            [] \<Rightarrow> Err UnexpectedEof
                          | y # s \<Rightarrow>
                              (case to_digit16 y of
                                 None \<Rightarrow> Err InvalidHex
                               | Some d \<Rightarrow> parse_loop (acc @ [push_bit 4 a OR d]) s))))
             else Err InvalidByte)
      else if 0x20 \<le> b \<and> b \<le> 0x7e then parse_loop (acc @ [b]) s
      else Err InvalidByte)"

definition bytes_from_str :: "bytes \<Rightarrow> (parse_bytes_error, bytes) res" where
  "bytes_from_str s = parse_loop [] s"

subsection \<open>Round trip\<close>

lemma to_digit16_hex_digit:
  assumes "d < 16"
  shows "to_digit16 (hex_digit d) = Some d"
proof -
  obtain n where n: "d = word_of_nat n" "n < 16" 
  proof
    show "d = word_of_nat (unat d)" by simp
    show "unat d < 16" using assms by (simp add: word_less_nat_alt)
  qed
  have "\<forall>n \<in> set [0..<16]. to_digit16 (hex_digit (word_of_nat n)) = Some (word_of_nat n)"
    by (simp add: upt_conv_Cons hex_digit_def to_digit16_def)
  then show ?thesis using n by auto
qed

lemma hex_nibbles:
  "to_digit16 (hex_digit (drop_bit 4 (b :: byte))) = Some (drop_bit 4 b)"
  "to_digit16 (hex_digit (b AND 0xf)) = Some (b AND 0xf)"
  "push_bit 4 (drop_bit 4 b) OR (b AND 0xf) = b"
proof -
  have "drop_bit 4 b < 16"
  proof -
    have "unat b < 256" using unsigned_less [of b, where ?'a = nat] by simp
    then show ?thesis by (simp add: word_less_nat_alt drop_bit_eq_div unat_div)
  qed
  moreover have "b AND mask 4 < 16"
    by (simp add: word_less_nat_alt unat_mod take_bit_eq_mod flip: take_bit_eq_mask)
  ultimately show "to_digit16 (hex_digit (drop_bit 4 b)) = Some (drop_bit 4 b)"
    "to_digit16 (hex_digit (b AND 0xf)) = Some (b AND 0xf)"
    by (simp_all add: to_digit16_hex_digit mask_eq_exp_minus_1)
  have "push_bit 4 (drop_bit 4 b) OR take_bit 4 b = b"
    by (rule bit_word_eqI) (auto simp: bit_simps)
  then show "push_bit 4 (drop_bit 4 b) OR (b AND 0xf) = b"
    by (simp add: take_bit_eq_mask mask_eq_exp_minus_1)
qed

lemma parse_escape: "parse_loop acc (escape_byte b @ s) = parse_loop (acc @ [b]) s"
  by (simp add: escape_byte_def hex_nibbles)

lemma parse_display: "parse_loop acc (bytes_display bs) = Ok (acc @ bs)"
  by (induction bs arbitrary: acc) (simp_all add: bytes_display_def parse_escape)

text \<open>
  A byte string survives printing and parsing.  \<open>from_str\<close> applied to the printed form of any byte string succeeds and gives
  the byte string back, so a dump of the store can be loaded again and two keys are never printed alike.
\<close>

theorem bytes_roundtrip: "bytes_from_str (bytes_display bs) = Ok bs"
  by (simp add: bytes_from_str_def parse_display)

end
