(* ===== verification/EtcdKv.thy ===== *)
theory EtcdKv
  imports EtcdBytes
begin

section \<open>Requests and responses of the etcd store (\<open>madsim-etcd-client/src/kv.rs\<close>, \<open>election.rs\<close>, \<open>server.rs\<close>)\<close>

text \<open>
  The key-value requests with their options, the transaction builder, and the responses.  Revisions, leases and times to live
  (\<open>i64\<close>) are integers: the counters do not reach \<open>2\<^sup>6\<^sup>3\<close>.
\<close>

type_synonym lease_id = int

subsection \<open>Options\<close>

record put_options =
  po_lease :: lease_id
  po_prev_kv :: bool

definition put_options_new :: put_options where
  "put_options_new = \<lparr>po_lease = 0, po_prev_kv = False\<rparr>"

definition po_with_lease :: "lease_id \<Rightarrow> put_options \<Rightarrow> put_options" where
  "po_with_lease l p = p\<lparr>po_lease := l\<rparr>"

definition po_with_prev_key :: "put_options \<Rightarrow> put_options" where
  "po_with_prev_key p = p\<lparr>po_prev_kv := True\<rparr>"

record get_options =
  go_revision :: int
  go_prefix :: bool

text \<open>The derived \<open>Default\<close>, and \<open>GetOptions::new\<close>, which asks for a prefix.\<close>

definition get_options_default :: get_options where
  "get_options_default = \<lparr>go_revision = 0, go_prefix = False\<rparr>"

definition get_options_new :: get_options where
  "get_options_new = \<lparr>go_revision = 0, go_prefix = True\<rparr>"

definition go_with_revision :: "int \<Rightarrow> get_options \<Rightarrow> get_options" where
  "go_with_revision r g = g\<lparr>go_revision := r\<rparr>"

definition go_with_prefix :: "get_options \<Rightarrow> get_options" where
  "go_with_prefix g = g\<lparr>go_prefix := True\<rparr>"

subsection \<open>Key-value pairs and transactions\<close>

record key_value =
  kv_key :: bytes
  kv_value :: bytes
  kv_lease :: lease_id
  create_revision :: int
  modify_revision :: int

datatype compare_op = Equal | Greater | Less | NotEqual

record compare =
  cmp_key :: bytes
  cmp_value :: bytes
  cmp_op :: compare_op

datatype txn =
    Txn "compare list" "txn_op list" "txn_op list" bool bool bool
  and txn_op =
    OpPut bytes bytes put_options
  | OpGet bytes get_options
  | OpDelete bytes
  | OpTxn txn

definition txn_new :: txn where
  "txn_new = Txn [] [] [] False False False"

fun txn_when :: "compare list \<Rightarrow> txn \<Rightarrow> ('e, txn) res" where
  "txn_when cs (Txn c s f w t e) =
     (if w then Panic ''cannot call when twice''
      else if t then Panic ''cannot call when after and_then''
      else if e then Panic ''cannot call when after or_else''
      else Ok (Txn cs s f True t e))"

fun txn_and_then :: "txn_op list \<Rightarrow> txn \<Rightarrow> ('e, txn) res" where
  "txn_and_then ops (Txn c s f w t e) =
     (if t then Panic ''cannot call and_then twice''
      else if e then Panic ''cannot call and_then after or_else''
      else Ok (Txn c ops f w True e))"

fun txn_or_else :: "txn_op list \<Rightarrow> txn \<Rightarrow> ('e, txn) res" where
  "txn_or_else ops (Txn c s f w t e) =
     (if e then Panic ''cannot call or_else twice'' else Ok (Txn c s ops w t True))"

definition compare_size :: "compare \<Rightarrow> nat" where
  "compare_size c = length (cmp_key c) + length (cmp_value c)"

fun txn_size :: "txn \<Rightarrow> nat" and txn_op_size :: "txn_op \<Rightarrow> nat" where
  "txn_size (Txn c s f w t e) =
     sum_list (map compare_size c) + sum_list (map txn_op_size s) + sum_list (map txn_op_size f)"
| "txn_op_size (OpPut k v p) = length k + length v"
| "txn_op_size (OpGet k g) = length k"
| "txn_op_size (OpDelete k) = length k"
| "txn_op_size (OpTxn t) = txn_size t"

subsection \<open>Responses\<close>

text \<open>\<open>ResponseHeader\<close> is the revision.\<close>

record put_response =
  pr_revision :: int
  pr_prev_kv :: "key_value option"

record get_response =
  gr_revision :: int
  gr_kvs :: "key_value list"

record delete_response =
  dr_revision :: int
  dr_deleted :: int

datatype txn_response = TxnResponse (tr_revision: int) (tr_succeeded: bool) (tr_responses: "txn_op_response list")
  and txn_op_response = RspPut put_response | RspGet get_response | RspDelete delete_response | RspTxn txn_response

record leader_key =
  lk_name :: bytes
  lk_key :: bytes
  lk_rev :: int
  lk_lease :: lease_id

definition leader_key_size :: "leader_key \<Rightarrow> nat" where
  "leader_key_size l = length (lk_name l) + length (lk_key l) + 16"

subsection \<open>Requests\<close>

datatype request =
    RqPut bytes bytes put_options
  | RqGet bytes get_options
  | RqDelete bytes
  | RqTxn txn
  | RqLeaseGrant int lease_id
  | RqLeaseRevoke lease_id
  | RqLeaseKeepAlive lease_id
  | RqLeaseTimeToLive lease_id bool
  | RqLeaseLeases
  | RqCampaign bytes bytes lease_id
  | RqProclaim leader_key bytes
  | RqLeader bytes
  | RqObserve bytes
  | RqResign leader_key
  | RqStatus

end
