(* ===== verification/Etcd.thy ===== *)
theory Etcd
  imports EtcdKv Rng
begin

section \<open>The etcd service (\<open>madsim-etcd-client/src/service.rs\<close>, \<open>server.rs\<close>)\<close>

text \<open>
  \<open>ServiceInner\<close>: a revisioned store with leases, watchers and elections.  Every operation of the code is a function from the state to
  its result and the new state; an operation that fails may have changed the state.  An event channel of the crate \<open>tokio\<close> is
  a number; the channels are a parameter (\<open>mpsc_ops\<close> on a state \<open>'c\<close>): creating one of a given capacity, and \<open>try_send\<close>,
  which tells whether the event was accepted.  The lists of leases and of the keys of a lease are in the iteration order of
  the hash collections.
\<close>

datatype event = EvPut key_value | EvDelete key_value

primrec event_kv :: "event \<Rightarrow> key_value" where
  "event_kv (EvPut v) = v"
| "event_kv (EvDelete v) = v"

record 'c mpsc_ops =
  ch_new :: "nat \<Rightarrow> 'c \<Rightarrow> nat \<times> 'c"
  ch_try_send :: "nat \<Rightarrow> event \<Rightarrow> 'c \<Rightarrow> bool \<times> 'c"

record lease =
  ttl :: int
  granted_ttl :: int
  lease_keys :: "bytes list"

record 'c etcd =
  revision :: int
  kv :: "(bytes, key_value) btree"
  leases :: "(lease_id \<times> lease) list"
  watcher :: "(bytes \<times> nat) list"
  chans :: 'c

datatype etcd_error = LeaseNotFound | SessionExpired | RequestTooLarge | RequestTimedOut

type_synonym ('c, 'a) etcd_result = "(etcd_error, 'a, 'c etcd) outcome"

definition etcd_default :: "'c \<Rightarrow> 'c etcd" where
  "etcd_default c = \<lparr>revision = 0, kv = [], leases = [], watcher = [], chans = c\<rparr>"

subsection \<open>The event bus\<close>

text \<open>\<open>EventPattern::is_match\<close> and \<open>EventBus::publish\<close>: a watcher that cannot take the event is dropped.\<close>

definition is_match :: "bytes \<Rightarrow> event \<Rightarrow> bool" where
  "is_match p ev \<longleftrightarrow> take (length p) (kv_key (event_kv ev)) = p"

fun publish_loop :: "'c mpsc_ops \<Rightarrow> event \<Rightarrow> (bytes \<times> nat) list \<Rightarrow> 'c \<Rightarrow> (bytes \<times> nat) list \<times> 'c" where
  "publish_loop M ev [] c = ([], c)"
| "publish_loop M ev ((p, t) # ws) c =
     (if is_match p ev then
        (let (ok, c) = ch_try_send M t ev c; (ws, c) = publish_loop M ev ws c
         in (if ok then (p, t) # ws else ws, c))
      else (let (ws, c) = publish_loop M ev ws c in ((p, t) # ws, c)))"

definition publish :: "'c mpsc_ops \<Rightarrow> event \<Rightarrow> 'c etcd \<Rightarrow> 'c etcd" where
  "publish M ev s = (let (ws, c) = publish_loop M ev (watcher s) (chans s) in s\<lparr>watcher := ws, chans := c\<rparr>)"

definition subscribe :: "bytes \<Rightarrow> nat \<Rightarrow> 'c etcd \<Rightarrow> 'c etcd" where
  "subscribe p t s = s\<lparr>watcher := watcher s @ [(p, t)]\<rparr>"

subsection \<open>Leases of a store\<close>

definition lease_new :: "int \<Rightarrow> lease" where
  "lease_new t = \<lparr>ttl = t, granted_ttl = t, lease_keys = []\<rparr>"

text \<open>\<open>HashMap::get_mut\<close> followed by a change of the value.\<close>

definition upd_lease :: "lease_id \<Rightarrow> (lease \<Rightarrow> lease) \<Rightarrow> (lease_id \<times> lease) list \<Rightarrow> (lease_id \<times> lease) list" where
  "upd_lease i f ls = map (\<lambda>(j, l). (j, if j = i then f l else l)) ls"

definition keys_insert :: "bytes \<Rightarrow> lease \<Rightarrow> lease" where
  "keys_insert k l = l\<lparr>lease_keys := (if k \<in> set (lease_keys l) then lease_keys l else lease_keys l @ [k])\<rparr>"

definition keys_remove :: "bytes \<Rightarrow> lease \<Rightarrow> lease" where
  "keys_remove k l = l\<lparr>lease_keys := filter (\<lambda>k'. k' \<noteq> k) (lease_keys l)\<rparr>"

definition attach :: "lease_id \<Rightarrow> bytes \<Rightarrow> 'c etcd \<Rightarrow> ('c, unit) etcd_result" where
  "attach i k s =
     (case map_of (leases s) i of
        None \<Rightarrow> (Err LeaseNotFound, s)
      | Some _ \<Rightarrow> (Ok (), s\<lparr>leases := upd_lease i (keys_insert k) (leases s)\<rparr>))"

definition detach :: "lease_id \<Rightarrow> bytes \<Rightarrow> 'c etcd \<Rightarrow> ('c, unit) etcd_result" where
  "detach i k s =
     (case map_of (leases s) i of
        None \<Rightarrow> (Panic ''no lease'', s)
      | Some _ \<Rightarrow> (Ok (), s\<lparr>leases := upd_lease i (keys_remove k) (leases s)\<rparr>))"

subsection \<open>Key-value operations\<close>

definition etcd_put :: "'c mpsc_ops \<Rightarrow> bytes \<Rightarrow> bytes \<Rightarrow> put_options \<Rightarrow> 'c etcd \<Rightarrow> ('c, put_response) etcd_result" where
  "etcd_put M k v p s =
     (let prev = bt_get (kv s) k in
      st_bind (if po_lease p \<noteq> 0 then attach (po_lease p) k s else (Ok (), s)) (\<lambda>_ s.
      st_bind (case prev of
                 Some old \<Rightarrow> if kv_lease old \<noteq> 0 then detach (kv_lease old) k s else (Ok (), s)
               | None \<Rightarrow> (Ok (), s)) (\<lambda>_ s.
        let s = s\<lparr>revision := revision s + 1\<rparr>;
            e = \<lparr>kv_key = k, kv_value = v, kv_lease = po_lease p,
                 create_revision = (case prev of None \<Rightarrow> revision s | Some old \<Rightarrow> create_revision old),
                 modify_revision = revision s\<rparr>;
            s = publish M (EvPut e) (s\<lparr>kv := bt_insert k e (kv s)\<rparr>)
        in (Ok \<lparr>pr_revision = revision s, pr_prev_kv = (if po_prev_kv p then prev else None)\<rparr>, s))))"

text \<open>\<open>get_prefix_range\<close>: the end of the range is the key with its last byte increased.\<close>

definition get_prefix_range :: "bytes \<Rightarrow> 'c etcd \<Rightarrow> ('e, (bytes, key_value) btree) res" where
  "get_prefix_range k s =
     (if k = [] then Panic ''called Option::unwrap() on a None value''
      else if last k = 0xff then Panic ''attempt to add with overflow''
      else Ok (bt_range k (butlast k @ [last k + 1]) (kv s)))"

definition etcd_get :: "bytes \<Rightarrow> get_options \<Rightarrow> 'c etcd \<Rightarrow> ('e, get_response) res" where
  "etcd_get k g s =
     (if 0 < go_revision g then Panic ''not yet implemented: get with revision''
      else bind_res
        (if go_prefix g then bind_res (get_prefix_range k s) (\<lambda>es. Ok (map snd es))
         else Ok (case bt_get (kv s) k of None \<Rightarrow> [] | Some v \<Rightarrow> [v]))
        (\<lambda>vs. Ok \<lparr>gr_revision = revision s, gr_kvs = vs\<rparr>))"

definition etcd_delete :: "'c mpsc_ops \<Rightarrow> bytes \<Rightarrow> 'c etcd \<Rightarrow> ('c, delete_response) etcd_result" where
  "etcd_delete M k s =
     (case bt_get (kv s) k of
        None \<Rightarrow> (Ok \<lparr>dr_revision = revision s, dr_deleted = 0\<rparr>, s)
      | Some old \<Rightarrow>
          (let s = s\<lparr>kv := bt_remove k (kv s), revision := revision s + 1\<rparr> in
           st_bind (if kv_lease old \<noteq> 0 then detach (kv_lease old) k s else (Ok (), s)) (\<lambda>_ s.
             let s = publish M (EvDelete old) s
             in (Ok \<lparr>dr_revision = revision s, dr_deleted = 1\<rparr>, s))))"

definition compare_holds :: "'c etcd \<Rightarrow> compare \<Rightarrow> bool" where
  "compare_holds s c =
     (let v = map_option kv_value (bt_get (kv s) (cmp_key c)) in
      case cmp_op c of
        Equal \<Rightarrow> v = Some (cmp_value c)
      | Greater \<Rightarrow> (case v of Some x \<Rightarrow> cmp_value c < x | None \<Rightarrow> False)
      | Less \<Rightarrow> (case v of Some x \<Rightarrow> x < cmp_value c | None \<Rightarrow> False)
      | NotEqual \<Rightarrow> v \<noteq> Some (cmp_value c))"

definition expect_put :: "('c, 'a) etcd_result \<Rightarrow> ('c, 'a) etcd_result" where
  "expect_put m = (case m of (Err e, s) \<Rightarrow> (Panic ''put failed in txn'', s) | _ \<Rightarrow> m)"

text \<open>The operations of a transaction run one after the other; at the end the revision is set to one more than it was before them.\<close>

fun etcd_txn :: "'c mpsc_ops \<Rightarrow> txn \<Rightarrow> 'c etcd \<Rightarrow> ('c, txn_response) etcd_result"
  and txn_ops :: "'c mpsc_ops \<Rightarrow> txn_op list \<Rightarrow> 'c etcd \<Rightarrow> ('c, txn_op_response list) etcd_result"
  and txn_op :: "'c mpsc_ops \<Rightarrow> txn_op \<Rightarrow> 'c etcd \<Rightarrow> ('c, txn_op_response) etcd_result" where
  "etcd_txn M (Txn cs succ fail a b c) s =
     (let ok = list_all (compare_holds s) cs; rev = revision s in
      st_bind (txn_ops M (if ok then succ else fail) s) (\<lambda>rs s.
        let s = s\<lparr>revision := rev + 1\<rparr> in (Ok (TxnResponse (revision s) ok rs), s)))"
| "txn_ops M [] s = (Ok [], s)"
| "txn_ops M (t # ts) s =
     st_bind (txn_op M t s) (\<lambda>r s. st_bind (txn_ops M ts s) (\<lambda>rs s. (Ok (r # rs), s)))"
| "txn_op M (OpGet k g) s = (bind_res (etcd_get k g s) (\<lambda>r. Ok (RspGet r)), s)"
| "txn_op M (OpPut k v p) s = st_bind (expect_put (etcd_put M k v p s)) (\<lambda>r s. (Ok (RspPut r), s))"
| "txn_op M (OpDelete k) s = st_bind (etcd_delete M k s) (\<lambda>r s. (Ok (RspDelete r), s))"
| "txn_op M (OpTxn t) s = st_bind (etcd_txn M t s) (\<lambda>r s. (Ok (RspTxn r), s))"

subsection \<open>Lease operations\<close>

text \<open>
  The choice of an id in \<open>lease_grant\<close>; \<open>rnds\<close> are the numbers that \<open>random::<i64>()\<close> gives.  \<open>None\<close>: the loop still runs after
  these rnds.  The absolute value of the least number overflows.
\<close>

fun pick_lease_id :: "(lease_id \<times> lease) list \<Rightarrow> lease_id \<Rightarrow> int list \<Rightarrow> ('e, lease_id) res option" where
  "pick_lease_id ls i rnds =
     (if map_of ls i \<noteq> None \<or> i = 0 then
        (case rnds of
           [] \<Rightarrow> None
         | r # rnds \<Rightarrow>
             if r = - (2 ^ 63) then Some (Panic ''attempt to negate with overflow'')
             else pick_lease_id ls \<bar>r\<bar> rnds)
      else Some (Ok i))"

declare pick_lease_id.simps [simp del]

definition insert_lease :: "int \<Rightarrow> lease_id \<Rightarrow> 'c etcd \<Rightarrow> ('c, int \<times> lease_id \<times> int) etcd_result" where
  "insert_lease t i s =
     (if map_of (leases s) i \<noteq> None
      then (Panic ''lease ID already exists'', s\<lparr>leases := upd_lease i (\<lambda>_. lease_new t) (leases s)\<rparr>)
      else
        let s = s\<lparr>leases := leases s @ [(i, lease_new t)], revision := revision s + 1\<rparr>
        in (Ok (revision s, i, t), s))"

definition lease_grant :: "int \<Rightarrow> lease_id \<Rightarrow> int list \<Rightarrow> 'c etcd \<Rightarrow> ('c, int \<times> lease_id \<times> int) etcd_result option" where
  "lease_grant t i rnds s =
     (if i = 0 then
        (case pick_lease_id (leases s) i rnds of
           None \<Rightarrow> None
         | Some (Ok i) \<Rightarrow> Some (insert_lease t i s)
         | Some (Err e) \<Rightarrow> Some (Err e, s)
         | Some (Panic m) \<Rightarrow> Some (Panic m, s))
      else Some (insert_lease t i s))"

text \<open>The keys of a lease that ends are deleted.\<close>

fun expire_keys :: "'c mpsc_ops \<Rightarrow> bytes list \<Rightarrow> 'c etcd \<Rightarrow> ('c, unit) etcd_result" where
  "expire_keys M [] s = (Ok (), s)"
| "expire_keys M (k # ks) s =
     (case bt_get (kv s) k of
        None \<Rightarrow> (Panic ''no key'', s)
      | Some v \<Rightarrow> expire_keys M ks (publish M (EvDelete v) (s\<lparr>kv := bt_remove k (kv s)\<rparr>)))"

definition lease_revoke :: "'c mpsc_ops \<Rightarrow> lease_id \<Rightarrow> 'c etcd \<Rightarrow> ('c, int) etcd_result" where
  "lease_revoke M i s =
     (case map_of (leases s) i of
        None \<Rightarrow> (Err LeaseNotFound, s)
      | Some l \<Rightarrow>
          st_bind (expire_keys M (lease_keys l) (s\<lparr>leases := filter (\<lambda>e. fst e \<noteq> i) (leases s)\<rparr>)) (\<lambda>_ s.
            let s = s\<lparr>revision := revision s + 1\<rparr> in (Ok (revision s), s)))"

definition lease_keep_alive :: "lease_id \<Rightarrow> 'c etcd \<Rightarrow> ('c, int \<times> lease_id \<times> int) etcd_result" where
  "lease_keep_alive i s =
     (case map_of (leases s) i of
        None \<Rightarrow> (Err LeaseNotFound, s)
      | Some l \<Rightarrow>
          (let s = s\<lparr>leases := upd_lease i (\<lambda>l. l\<lparr>ttl := granted_ttl l\<rparr>) (leases s), revision := revision s + 1\<rparr>
           in (Ok (revision s, i, granted_ttl l), s)))"

definition lease_time_to_live :: "lease_id \<Rightarrow> bool \<Rightarrow> 'c etcd \<Rightarrow> (etcd_error, int \<times> int \<times> int \<times> bytes list) res" where
  "lease_time_to_live i ks s =
     bind_res (ok_or LeaseNotFound (map_of (leases s) i)) (\<lambda>l.
       Ok (revision s, ttl l, granted_ttl l, if ks then lease_keys l else []))"

definition lease_leases :: "'c etcd \<Rightarrow> int \<times> lease_id list" where
  "lease_leases s = (revision s, map fst (leases s))"

text \<open>\<open>tick\<close>: \<open>retain\<close> over the leases.\<close>

fun tick_loop :: "'c mpsc_ops \<Rightarrow> (lease_id \<times> lease) list \<Rightarrow> (lease_id \<times> lease) list \<Rightarrow> 'c etcd \<Rightarrow> ('c, unit) etcd_result" where
  "tick_loop M [] kept s = (Ok (), s\<lparr>leases := kept\<rparr>)"
| "tick_loop M ((i, l) # ls) kept s =
     (let l = l\<lparr>ttl := ttl l - 1\<rparr> in
      if ttl l \<le> 0 then st_bind (expire_keys M (lease_keys l) s) (\<lambda>_ s. tick_loop M ls kept s)
      else tick_loop M ls (kept @ [(i, l)]) s)"

definition etcd_tick :: "'c mpsc_ops \<Rightarrow> 'c etcd \<Rightarrow> ('c, unit) etcd_result" where
  "etcd_tick M s =
     (let n = length (leases s) in
      st_bind (tick_loop M (leases s) [] s) (\<lambda>_ s.
        (Ok (), if length (leases s) \<noteq> n then s\<lparr>revision := revision s + 1\<rparr> else s)))"

subsection \<open>Elections\<close>

text \<open>\<open>format!("{lease:016x}")\<close>.\<close>

definition hex16 :: "lease_id \<Rightarrow> bytes" where
  "hex16 i = (let w = (word_of_int i :: 64 word)
              in map (\<lambda>j. hex_digit (ucast (drop_bit (4 * j) w AND 0xf))) (rev [0..<16]))"

definition election_key :: "bytes \<Rightarrow> lease_id \<Rightarrow> bytes" where
  "election_key name i = name @ [47] @ hex16 i"

text \<open>\<open>Iterator::min_by_key\<close>: the first of the least.\<close>

definition min_by_key :: "('a \<Rightarrow> 'b::linorder) \<Rightarrow> 'a list \<Rightarrow> 'a option" where
  "min_by_key f xs =
     (case xs of [] \<Rightarrow> None | x # xs \<Rightarrow> Some (foldl (\<lambda>m y. if f y < f m then y else m) x xs))"

definition etcd_leader :: "bytes \<Rightarrow> 'c etcd \<Rightarrow> ('e, int \<times> key_value option) res" where
  "etcd_leader name s =
     bind_res (get_prefix_range name s) (\<lambda>es.
       Ok (revision s, map_option snd (min_by_key (\<lambda>(_, v). create_revision v) es)))"

datatype campaign_result = Elected leader_key | Waiting bytes nat

definition campaign_put :: "'c mpsc_ops \<Rightarrow> bytes \<Rightarrow> bytes \<Rightarrow> lease_id \<Rightarrow> 'c etcd \<Rightarrow> ('c, unit) etcd_result" where
  "campaign_put M k v i s =
     (if map_option kv_value (bt_get (kv s) k) \<noteq> Some v then
        (let s = s\<lparr>revision := revision s + 1\<rparr>;
             e = \<lparr>kv_key = k, kv_value = v, kv_lease = i, create_revision = revision s, modify_revision = revision s\<rparr>
         in st_bind (attach i k s) (\<lambda>_ s. (Ok (), publish M (EvPut e) (s\<lparr>kv := bt_insert k e (kv s)\<rparr>))))
      else (Ok (), s))"

definition etcd_campaign :: "'c mpsc_ops \<Rightarrow> bytes \<Rightarrow> bytes \<Rightarrow> lease_id \<Rightarrow> 'c etcd \<Rightarrow> ('c, campaign_result) etcd_result" where
  "etcd_campaign M name v i s =
     (let k = election_key name i in
      st_bind (campaign_put M k v i s) (\<lambda>_ s.
      st_bind (etcd_leader name s, s) (\<lambda>(rev, ldr) s.
        case ldr of
          None \<Rightarrow> (Panic ''called Option::unwrap() on a None value'', s)
        | Some l \<Rightarrow>
            if kv_key l = k
            then (Ok (Elected \<lparr>lk_name = name, lk_key = k, lk_rev = revision s, lk_lease = i\<rparr>), s)
            else (let (rx, c) = ch_new M 4 (chans s)
                  in (Ok (Waiting k rx), subscribe name rx (s\<lparr>chans := c\<rparr>))))))"

text \<open>The loop of \<open>EtcdService::campaign\<close>, after an event of the subscription; \<open>None\<close>: wait for another one.\<close>

definition campaign_wake :: "bytes \<Rightarrow> bytes \<Rightarrow> 'c etcd \<Rightarrow> (etcd_error, leader_key option) res" where
  "campaign_wake name k s =
     bind_res (etcd_leader name s) (\<lambda>(rev, ldr).
       case ldr of
         None \<Rightarrow> Err SessionExpired
       | Some l \<Rightarrow>
           Ok (if kv_key l = k
               then Some \<lparr>lk_name = name, lk_key = k, lk_rev = modify_revision l, lk_lease = kv_lease l\<rparr>
               else None))"

definition etcd_proclaim :: "'c mpsc_ops \<Rightarrow> leader_key \<Rightarrow> bytes \<Rightarrow> 'c etcd \<Rightarrow> ('c, int) etcd_result" where
  "etcd_proclaim M ldr v s =
     (case bt_get (kv s) (lk_key ldr) of
        None \<Rightarrow> (Err SessionExpired, s)
      | Some old \<Rightarrow>
          (let s = s\<lparr>revision := revision s + 1\<rparr>;
               e = old\<lparr>kv_value := v, modify_revision := revision s\<rparr>;
               s = publish M (EvPut e) (s\<lparr>kv := bt_insert (lk_key ldr) e (kv s)\<rparr>)
           in (Ok (revision s), s)))"

definition etcd_observe :: "'c mpsc_ops \<Rightarrow> bytes \<Rightarrow> 'c etcd \<Rightarrow> ('c, (int \<times> key_value option) \<times> nat) etcd_result" where
  "etcd_observe M name s =
     (let (rx, c) = ch_new M 4 (chans s); s = subscribe name rx (s\<lparr>chans := c\<rparr>)
      in st_bind (etcd_leader name s, s) (\<lambda>l s. (Ok (l, rx), s)))"

text \<open>The loop of the server for an observer, after an event: the new leader if it is another one.\<close>

definition observe_wake :: "bytes \<Rightarrow> key_value option \<Rightarrow> 'c etcd \<Rightarrow> ('e, (int \<times> key_value option) option) res" where
  "observe_wake name old s =
     bind_res (etcd_leader name s) (\<lambda>(rev, l). Ok (if l = old then None else Some (rev, l)))"

definition etcd_resign :: "'c mpsc_ops \<Rightarrow> leader_key \<Rightarrow> 'c etcd \<Rightarrow> ('c, int) etcd_result" where
  "etcd_resign M ldr s =
     (case bt_get (kv s) (lk_key ldr) of
        None \<Rightarrow> (Err SessionExpired, s)
      | Some old \<Rightarrow>
          st_bind (detach (kv_lease old) (lk_key ldr) (s\<lparr>kv := bt_remove (lk_key ldr) (kv s)\<rparr>)) (\<lambda>_ s.
            let s = publish M (EvDelete old) s; s = s\<lparr>revision := revision s + 1\<rparr>
            in (Ok (revision s), s)))"

definition etcd_status :: "'c etcd \<Rightarrow> int" where
  "etcd_status s = revision s"

subsection \<open>The service and its requests\<close>

datatype response =
    SPut put_response | SGet get_response | SDelete delete_response | STxn txn_response
  | SLeaseGrant "int \<times> lease_id \<times> int" | SLeaseRevoke int | SLeaseKeepAlive "int \<times> lease_id \<times> int"
  | SLeaseTimeToLive "int \<times> int \<times> int \<times> bytes list" | SLeaseLeases "int \<times> lease_id list"
  | SCampaign campaign_result | SProclaim int | SLeader "int \<times> key_value option"
  | SObserve "(int \<times> key_value option) \<times> nat" | SResign int | SStatus int

definition max_request_bytes :: nat where
  "max_request_bytes = 0x180000"

text \<open>
  The size that \<open>assert_request_size\<close> checks; the lease and status requests are not checked.
\<close>

fun request_size :: "request \<Rightarrow> nat" where
  "request_size (RqPut k v p) = length k + length v"
| "request_size (RqGet k g) = length k"
| "request_size (RqDelete k) = length k"
| "request_size (RqTxn t) = txn_size t"
| "request_size (RqCampaign n v i) = length n + length v"
| "request_size (RqProclaim l v) = leader_key_size l + length v"
| "request_size (RqLeader n) = length n"
| "request_size (RqObserve n) = length n"
| "request_size (RqResign l) = leader_key_size l"
| "request_size _ = 0"

definition st_map :: "('a \<Rightarrow> 'b) \<Rightarrow> ('e, 'a, 's) outcome \<Rightarrow> ('e, 'b, 's) outcome" where
  "st_map f m = st_bind m (\<lambda>a s. (Ok (f a), s))"

text \<open>The dispatch of \<open>SimServer::serve\<close> once the request has passed the size check and the simulated timeout.\<close>

fun dispatch :: "'c mpsc_ops \<Rightarrow> int list \<Rightarrow> request \<Rightarrow> 'c etcd \<Rightarrow> ('c, response) etcd_result option" where
  "dispatch M rnds (RqPut k v p) s = Some (st_map SPut (etcd_put M k v p s))"
| "dispatch M rnds (RqGet k g) s = Some (st_map SGet (etcd_get k g s, s))"
| "dispatch M rnds (RqDelete k) s = Some (st_map SDelete (etcd_delete M k s))"
| "dispatch M rnds (RqTxn t) s = Some (st_map STxn (etcd_txn M t s))"
| "dispatch M rnds (RqLeaseGrant t i) s = map_option (st_map SLeaseGrant) (lease_grant t i rnds s)"
| "dispatch M rnds (RqLeaseRevoke i) s = Some (st_map SLeaseRevoke (lease_revoke M i s))"
| "dispatch M rnds (RqLeaseKeepAlive i) s = Some (st_map SLeaseKeepAlive (lease_keep_alive i s))"
| "dispatch M rnds (RqLeaseTimeToLive i ks) s = Some (st_map SLeaseTimeToLive (lease_time_to_live i ks s, s))"
| "dispatch M rnds RqLeaseLeases s = Some (Ok (SLeaseLeases (lease_leases s)), s)"
| "dispatch M rnds (RqCampaign n v i) s = Some (st_map SCampaign (etcd_campaign M n v i s))"
| "dispatch M rnds (RqProclaim l v) s = Some (st_map SProclaim (etcd_proclaim M l v s))"
| "dispatch M rnds (RqLeader n) s = Some (st_map SLeader (etcd_leader n s, s))"
| "dispatch M rnds (RqObserve n) s = Some (st_map SObserve (etcd_observe M n s))"
| "dispatch M rnds (RqResign l) s = Some (st_map SResign (etcd_resign M l s))"
| "dispatch M rnds RqStatus s = Some (Ok (SStatus (etcd_status s)), s)"

text \<open>\<open>timeout\<close>: with the configured probability the request fails after 5 to 15 seconds; the answer is that delay.\<close>

definition etcd_timeout :: "'r rng_ops \<Rightarrow> real \<Rightarrow> 'r \<Rightarrow> duration option \<times> 'r" where
  "etcd_timeout R rate r =
     (let (t, r) = gen_bool R rate r in
      if t then (let (d, r) = gen_range R (5 * 1000000000) (15 * 1000000000) r in (Some d, r)) else (None, r))"

text \<open>A request to the service: the delay before its answer, and the outcome.\<close>

definition etcd_serve :: "'c mpsc_ops \<Rightarrow> 'r rng_ops \<Rightarrow> real \<Rightarrow> int list \<Rightarrow> request \<Rightarrow> 'c etcd \<Rightarrow> 'r
    \<Rightarrow> (duration \<times> ('c, response) etcd_result) option \<times> 'r" where
  "etcd_serve M R rate rnds q s r =
     (if max_request_bytes < request_size q then (Some (0, (Err RequestTooLarge, s)), r)
      else
        let (t, r) = etcd_timeout R rate r in
        case t of
          Some d \<Rightarrow> (Some (d, (Err RequestTimedOut, s)), r)
        | None \<Rightarrow> (map_option (Pair 0) (dispatch M rnds q s), r))"

end
