(* ===== verification/EtcdProps.thy ===== *)
theory EtcdProps
  imports Etcd "HOL-Library.Sublist"
begin

section \<open>Properties of the etcd service\<close>

text \<open>
  The bookkeeping of leases: \<open>linked\<close> relates the store and the leases as maps, and each operation is a combination of adding,
  removing and expiring entries.  Then what a prefix query returns, what a tick does, and elections.
\<close>

lemma publish_same [simp]:
  "revision (publish M ev s) = revision s" "kv (publish M ev s) = kv s" "leases (publish M ev s) = leases s"
  by (simp_all add: publish_def case_prod_beta)

lemma subscribe_same [simp]:
  "revision (subscribe p t s) = revision s" "kv (subscribe p t s) = kv s" "leases (subscribe p t s) = leases s"
  by (simp_all add: subscribe_def)

lemma upd_lease_fst [simp]: "map fst (upd_lease i f ls) = map fst ls"
  by (induction ls) (auto simp: upd_lease_def)

lemma map_of_upd_lease: "map_of (upd_lease i f ls) j = (if j = i then map_option f (map_of ls j) else map_of ls j)"
  by (induction ls) (auto simp: upd_lease_def)

lemma keys_simps [simp]:
  "set (lease_keys (keys_insert k l)) = insert k (set (lease_keys l))"
  "distinct (lease_keys l) \<Longrightarrow> distinct (lease_keys (keys_insert k l))"
  "set (lease_keys (keys_remove k l)) = set (lease_keys l) - {k}"
  "distinct (lease_keys l) \<Longrightarrow> distinct (lease_keys (keys_remove k l))"
  by (auto simp: keys_insert_def keys_remove_def)

subsection \<open>Stores and leases belong together\<close>

text \<open>The keys of the store that carry a lease.\<close>

definition attached :: "(bytes \<rightharpoonup> key_value) \<Rightarrow> lease_id \<Rightarrow> bytes set" where
  "attached m i = {k. \<exists>v. m k = Some v \<and> kv_lease v = i}"

definition lease_link :: "(bytes \<rightharpoonup> key_value) \<Rightarrow> (lease_id \<rightharpoonup> lease) \<Rightarrow> bool" where
  "lease_link m ls \<longleftrightarrow>
     (\<forall>k v. m k = Some v \<longrightarrow> kv_key v = k \<and> (kv_lease v = 0 \<or> ls (kv_lease v) \<noteq> None)) \<and>
     (\<forall>i l. ls i = Some l \<longrightarrow> i \<noteq> 0 \<and> distinct (lease_keys l) \<and> set (lease_keys l) = attached m i)"

definition etcd_inv :: "'c etcd \<Rightarrow> bool" where
  "etcd_inv s \<longleftrightarrow> bt_sorted (kv s) \<and> distinct (map fst (leases s)) \<and> lease_link (bt_get (kv s)) (map_of (leases s))"

text \<open>Taking a key out of its lease, or putting it into one.\<close>

definition drop_key :: "bytes \<Rightarrow> key_value \<Rightarrow> (lease_id \<rightharpoonup> lease) \<Rightarrow> (lease_id \<rightharpoonup> lease)" where
  "drop_key k v ls = (\<lambda>j. if j = kv_lease v then map_option (keys_remove k) (ls j) else ls j)"

definition add_key :: "bytes \<Rightarrow> lease_id \<Rightarrow> (lease_id \<rightharpoonup> lease) \<Rightarrow> (lease_id \<rightharpoonup> lease)" where
  "add_key k i ls = (\<lambda>j. if j = i then map_option (keys_insert k) (ls j) else ls j)"

lemma lease_linkI:
  assumes "\<And>k v. m k = Some v \<Longrightarrow> kv_key v = k"
    and "\<And>k v. m k = Some v \<Longrightarrow> kv_lease v \<noteq> 0 \<Longrightarrow> ls (kv_lease v) \<noteq> None"
    and "\<And>i l. ls i = Some l \<Longrightarrow> i \<noteq> 0 \<and> distinct (lease_keys l) \<and> set (lease_keys l) = attached m i"
  shows "lease_link m ls"
  using assms unfolding lease_link_def by blast

lemma lease_linkD:
  assumes "lease_link m ls"
  shows "m k = Some v \<Longrightarrow> kv_key v = k"
    and "m k = Some v \<Longrightarrow> kv_lease v \<noteq> 0 \<Longrightarrow> \<exists>l. ls (kv_lease v) = Some l"
    and "ls i = Some l \<Longrightarrow> i \<noteq> 0" "ls i = Some l \<Longrightarrow> distinct (lease_keys l)"
    and "ls i = Some l \<Longrightarrow> set (lease_keys l) = attached m i" "ls 0 = None"
  using assms unfolding lease_link_def by (blast, blast, blast, blast, blast, metis option.exhaust)

lemma lease_link_remove:
  assumes "lease_link m ls" "m k = Some v"
  shows "lease_link (m(k := None)) (drop_key k v ls)"
proof (rule lease_linkI)
  have a: "attached (m(k := None)) j = attached m j - {k}" for j by (auto simp: attached_def)
  have n: "j \<noteq> kv_lease v \<Longrightarrow> k \<notin> attached m j" for j using assms(2) by (auto simp: attached_def)
  fix j l assume "drop_key k v ls j = Some l"
  then show "j \<noteq> 0 \<and> distinct (lease_keys l) \<and> set (lease_keys l) = attached (m(k := None)) j"
    using lease_linkD(3-5) [OF assms(1), of j] n [of j] unfolding a by (auto simp: drop_key_def split: if_splits)
next
  fix k' v' assume "(m(k := None)) k' = Some v'" "kv_lease v' \<noteq> 0"
  then show "drop_key k v ls (kv_lease v') \<noteq> None"
    using lease_linkD(2) [OF assms(1), of k' v'] by (auto simp: drop_key_def split: if_splits)
qed (use lease_linkD(1) [OF assms(1)] in \<open>auto split: if_splits\<close>)

lemma lease_link_add:
  assumes "lease_link m ls" "m k = None" "kv_key v = k" "kv_lease v = 0 \<or> ls (kv_lease v) \<noteq> None"
  shows "lease_link (m(k \<mapsto> v)) (add_key k (kv_lease v) ls)"
proof (rule lease_linkI)
  have a: "attached (m(k \<mapsto> v)) j = (if j = kv_lease v then insert k (attached m j) else attached m j)" for j
    using assms(2) by (auto simp: attached_def)
  fix j l assume "add_key k (kv_lease v) ls j = Some l"
  then show "j \<noteq> 0 \<and> distinct (lease_keys l) \<and> set (lease_keys l) = attached (m(k \<mapsto> v)) j"
    using lease_linkD(3-5) [OF assms(1), of j] unfolding a by (auto simp: add_key_def split: if_splits)
next
  fix k' v' assume "(m(k \<mapsto> v)) k' = Some v'" "kv_lease v' \<noteq> 0"
  then show "add_key k (kv_lease v) ls (kv_lease v') \<noteq> None"
    using assms(4) lease_linkD(2) [OF assms(1), of k' v'] by (auto simp: add_key_def split: if_splits)
qed (use assms(3) lease_linkD(1) [OF assms(1)] in \<open>auto split: if_splits\<close>)

lemma lease_link_replace:
  assumes "lease_link m ls" "m k = Some old" "kv_key v = k" "kv_lease v = kv_lease old"
  shows "lease_link (m(k \<mapsto> v)) ls"
proof (rule lease_linkI)
  have "attached (m(k \<mapsto> v)) j = attached m j" for j using assms(2,4) by (auto simp: attached_def)
  then show "ls j = Some l \<Longrightarrow> j \<noteq> 0 \<and> distinct (lease_keys l) \<and> set (lease_keys l) = attached (m(k \<mapsto> v)) j" for j l
    using lease_linkD(3-5) [OF assms(1), of j] by auto
qed (use assms(2-4) lease_linkD(1,2) [OF assms(1)] in \<open>auto split: if_splits\<close>)

lemma lease_link_expire:
  assumes "lease_link m ls" "ls i = Some l"
  shows "lease_link (m |` (- set (lease_keys l))) (ls(i := None))"
proof (rule lease_linkI)
  have i: "set (lease_keys l) = attached m i" using lease_linkD(5) [OF assms] .
  have a: "j \<noteq> i \<Longrightarrow> attached (m |` (- set (lease_keys l))) j = attached m j" for j
    using i by (auto simp: attached_def restrict_map_def)
  have e: "(m |` (- set (lease_keys l))) k = Some v \<Longrightarrow> m k = Some v \<and> kv_lease v \<noteq> i" for k v
    unfolding i by (auto simp: attached_def restrict_map_def split: if_splits)
  show "(m |` (- set (lease_keys l))) k = Some v \<Longrightarrow> kv_key v = k" for k v
    using e lease_linkD(1) [OF assms(1)] by blast
  show "(m |` (- set (lease_keys l))) k = Some v \<Longrightarrow> kv_lease v \<noteq> 0 \<Longrightarrow> (ls(i := None)) (kv_lease v) \<noteq> None" for k v
    using e [of k v] lease_linkD(2) [OF assms(1), of k v] by auto
  show "(ls(i := None)) j = Some l' \<Longrightarrow>
      j \<noteq> 0 \<and> distinct (lease_keys l') \<and> set (lease_keys l') = attached (m |` (- set (lease_keys l))) j" for j l'
    using a [of j] lease_linkD(3-5) [OF assms(1), of j l'] by (auto split: if_splits)
qed

text \<open>A lease whose time to live changes keeps its keys.\<close>

lemma lease_link_ttl:
  assumes "lease_link m ls" "\<And>j. map_option lease_keys (ls' j) = map_option lease_keys (ls j)"
  shows "lease_link m ls'"
proof (rule lease_linkI)
  have s: "\<exists>l. ls j = Some l \<and> lease_keys l' = lease_keys l" if "ls' j = Some l'" for j l'
    using assms(2) [of j] that by (cases "ls j") auto
  show "ls' j = Some l' \<Longrightarrow> j \<noteq> 0 \<and> distinct (lease_keys l') \<and> set (lease_keys l') = attached m j" for j l'
    using s [of j l'] lease_linkD(3-5) [OF assms(1), of j] by auto
  show "m k = Some v \<Longrightarrow> kv_lease v \<noteq> 0 \<Longrightarrow> ls' (kv_lease v) \<noteq> None" for k v
    using lease_linkD(2) [OF assms(1), of k v] assms(2) [of "kv_lease v"] by (cases "ls' (kv_lease v)") auto
qed (use lease_linkD(1) [OF assms(1)] in blast)

lemma lease_link_grant:
  assumes "lease_link m ls" "ls i = None" "i \<noteq> 0" "lease_keys l = []"
  shows "lease_link m (ls(i \<mapsto> l))"
proof (rule lease_linkI)
  have a: "attached m i = {}" using lease_linkD(2) [OF assms(1)] assms(2,3) by (fastforce simp: attached_def)
  show "(ls(i \<mapsto> l)) j = Some l' \<Longrightarrow> j \<noteq> 0 \<and> distinct (lease_keys l') \<and> set (lease_keys l') = attached m j" for j l'
    using a assms(3,4) lease_linkD(3-5) [OF assms(1), of j l'] by (auto split: if_splits)
qed (use lease_linkD(1,2) [OF assms(1)] in auto)

subsection \<open>Every operation keeps the bookkeeping\<close>

lemma attach_Ok:
  "attach i k s = (Ok u, s') \<longleftrightarrow>
     map_of (leases s) i \<noteq> None \<and> s' = s\<lparr>leases := upd_lease i (keys_insert k) (leases s)\<rparr>"
  by (auto simp: attach_def split: option.splits)

lemma detach_Ok:
  "detach i k s = (Ok u, s') \<longleftrightarrow>
     map_of (leases s) i \<noteq> None \<and> s' = s\<lparr>leases := upd_lease i (keys_remove k) (leases s)\<rparr>"
  by (auto simp: detach_def split: option.splits)

lemma map_of_add: "map_of (upd_lease i (keys_insert k) ls) = add_key k i (map_of ls)"
  by (auto simp: map_of_upd_lease add_key_def fun_eq_iff)

lemma map_of_drop: "map_of (upd_lease (kv_lease v) (keys_remove k) ls) = drop_key k v (map_of ls)"
  by (auto simp: map_of_upd_lease drop_key_def fun_eq_iff)

text \<open>An entry without a lease is in no lease.\<close>

lemma drop_key_free: "lease_link m ls \<Longrightarrow> kv_lease v = 0 \<Longrightarrow> drop_key k v ls = ls"
  using lease_linkD(6) [of m ls] by (auto simp: drop_key_def fun_eq_iff)

lemma add_key_free: "lease_link m ls \<Longrightarrow> add_key k 0 ls = ls"
  using lease_linkD(6) [of m ls] by (auto simp: add_key_def fun_eq_iff)

definition tame_put :: "bytes \<Rightarrow> put_options \<Rightarrow> 'c etcd \<Rightarrow> bool" where
  "tame_put k p s \<longleftrightarrow> po_lease p = 0 \<or> k \<notin> attached (bt_get (kv s)) (po_lease p)"

text \<open>The entry that a put makes.\<close>

definition put_entry :: "bytes \<Rightarrow> bytes \<Rightarrow> put_options \<Rightarrow> 'c etcd \<Rightarrow> key_value" where
  "put_entry k v p s = \<lparr>kv_key = k, kv_value = v, kv_lease = po_lease p,
     create_revision = (case bt_get (kv s) k of None \<Rightarrow> revision s + 1 | Some old \<Rightarrow> create_revision old),
     modify_revision = revision s + 1\<rparr>"

text \<open>
  What a successful put does to the maps: the key leaves its old lease after it has entered the new one.
\<close>

lemma etcd_put_cases:
  assumes "etcd_inv s"
  shows "if po_lease p \<noteq> 0 \<and> map_of (leases s) (po_lease p) = None
    then etcd_put M k v p s = (Err LeaseNotFound, s)
    else \<exists>s'. etcd_put M k v p s = (Ok \<lparr>pr_revision = revision s + 1,
        pr_prev_kv = (if po_prev_kv p then bt_get (kv s) k else None)\<rparr>, s') \<and>
      revision s' = revision s + 1 \<and> kv s' = bt_insert k (put_entry k v p s) (kv s) \<and> map fst (leases s') = map fst (leases s) \<and>
      map_of (leases s') = (case bt_get (kv s) k of
         None \<Rightarrow> add_key k (po_lease p) (map_of (leases s))
       | Some old \<Rightarrow> drop_key k old (add_key k (po_lease p) (map_of (leases s))))"
proof -
  have link: "lease_link (bt_get (kv s)) (map_of (leases s))" using assms by (simp add: etcd_inv_def)
  have no0: "map_of (leases s) 0 = None" using lease_linkD(6) [OF link] by simp
  have old: "bt_get (kv s) k = Some old \<Longrightarrow> kv_lease old \<noteq> 0 \<Longrightarrow> \<exists>l. map_of (leases s) (kv_lease old) = Some l" for old
    using lease_linkD(2) [OF link] by blast
  have d0: "kv_lease old = 0 \<Longrightarrow> drop_key k old (add_key k i (map_of (leases s))) = add_key k i (map_of (leases s))" for old i
    using no0 by (auto simp: drop_key_def add_key_def fun_eq_iff)
  have a0: "add_key k 0 (map_of (leases s)) = map_of (leases s)" using add_key_free [OF link] .
  show ?thesis
  proof (cases "po_lease p \<noteq> 0 \<and> map_of (leases s) (po_lease p) = None")
    case True
    then show ?thesis by (simp add: etcd_put_def attach_def Let_def)
  next
    case False
    define s1 where "s1 = (if po_lease p \<noteq> 0 then s\<lparr>leases := upd_lease (po_lease p) (keys_insert k) (leases s)\<rparr> else s)"
    have 1: "(if po_lease p \<noteq> 0 then attach (po_lease p) k s else (Ok (), s)) = (Ok (), s1)"
      using False by (auto simp: s1_def attach_def split: option.split)
    have m1: "map_of (leases s1) = add_key k (po_lease p) (map_of (leases s))" "map fst (leases s1) = map fst (leases s)"
      "kv s1 = kv s" "revision s1 = revision s"
      using a0 by (auto simp: s1_def map_of_add)
    show ?thesis
    proof (cases "bt_get (kv s) k")
      case None
      show ?thesis using False None m1 unfolding etcd_put_def 1 Let_def st_bind_simps by (simp add: put_entry_def)
    next
      case (Some old)
      define s2 where "s2 = (if kv_lease old \<noteq> 0 then s1\<lparr>leases := upd_lease (kv_lease old) (keys_remove k) (leases s1)\<rparr> else s1)"
      have "kv_lease old \<noteq> 0 \<Longrightarrow> map_of (leases s1) (kv_lease old) \<noteq> None"
        using old [OF Some] m1(1) by (auto simp: add_key_def)
      then have 2: "(if kv_lease old \<noteq> 0 then detach (kv_lease old) k s1 else (Ok (), s1)) = (Ok (), s2)"
        by (cases "kv_lease old = 0") (auto simp: s2_def detach_def split: option.split)
      have "map_of (leases s2) = drop_key k old (add_key k (po_lease p) (map_of (leases s)))"
        "map fst (leases s2) = map fst (leases s)" "kv s2 = kv s" "revision s2 = revision s"
        using m1 d0 by (auto simp: s2_def map_of_drop)
      then show ?thesis using False Some unfolding etcd_put_def 1 Let_def st_bind_simps by (simp add: 2 put_entry_def)
    qed
  qed
qed

lemma etcd_put_inv:
  assumes "etcd_inv s" "tame_put k p s" "etcd_put M k v p s = (r, s')"
  shows "etcd_inv s'"
proof (cases "po_lease p \<noteq> 0 \<and> map_of (leases s) (po_lease p) = None")
  case True
  then show ?thesis using etcd_put_cases [OF assms(1), of p M k v] assms by simp
next
  case False
  let ?m = "bt_get (kv s)" and ?ls = "map_of (leases s)" and ?L = "po_lease p"
  have link: "lease_link ?m ?ls" and srt: "bt_sorted (kv s)" and d: "distinct (map fst (leases s))"
    using assms(1) by (simp_all add: etcd_inv_def)
  let ?e = "put_entry k v p s"
  have e: "kv_key ?e = k" "kv_lease ?e = ?L" by (simp_all add: put_entry_def)
  have e': "kv s' = bt_insert k ?e (kv s)" "map fst (leases s') = map fst (leases s)"
    "map_of (leases s') = (case ?m k of None \<Rightarrow> add_key k ?L ?ls | Some old \<Rightarrow> drop_key k old (add_key k ?L ?ls))"
    using etcd_put_cases [OF assms(1), of p M k v, unfolded if_not_P [OF False] assms(3)] by auto
  have "lease_link (?m(k \<mapsto> ?e)) (map_of (leases s'))"
  proof (cases "?m k")
    case None
    then show ?thesis using lease_link_add [OF link None e(1)] False e(2) e'(3) None by auto
  next
    case (Some old)
    have "kv_lease old \<noteq> ?L \<or> ?L = 0" using assms(2) Some by (auto simp: tame_put_def attached_def)
    moreover have "?L = 0 \<Longrightarrow> ?ls 0 = None" using lease_linkD(6) [OF link] by simp
    ultimately have comm: "drop_key k old (add_key k ?L ?ls) = add_key k ?L (drop_key k old ?ls)"
      by (auto simp: drop_key_def add_key_def fun_eq_iff)
    have "drop_key k old ?ls ?L \<noteq> None \<or> ?L = 0" using False by (auto simp: drop_key_def)
    then show ?thesis
      using lease_link_add [OF lease_link_remove [OF link Some] _ e(1)] e(2) e'(3) comm Some by auto
  qed
  then show ?thesis using e'(1,2) srt d by (simp add: etcd_inv_def bt_get_insert bt_insert_sorted)
qed

lemma etcd_invD:
  assumes "etcd_inv s"
  shows "bt_sorted (kv s)" "distinct (map fst (leases s))" "lease_link (bt_get (kv s)) (map_of (leases s))"
  using assms by (simp_all add: etcd_inv_def)

lemma etcd_inv_same:
  "kv s' = kv s \<Longrightarrow> leases s' = leases s \<Longrightarrow> etcd_inv s' = etcd_inv s"
  by (simp add: etcd_inv_def)

text \<open>Taking an entry out of the store and out of its lease, as a delete and a resignation do.\<close>

lemma take_out:
  assumes "etcd_inv s" "bt_get (kv s) k = Some old"
  defines "ls \<equiv> (if kv_lease old \<noteq> 0 then upd_lease (kv_lease old) (keys_remove k) (leases s) else leases s)"
  shows "kv_lease old \<noteq> 0 \<Longrightarrow> map_of (leases s) (kv_lease old) \<noteq> None"
    and "kv s' = bt_remove k (kv s) \<Longrightarrow> leases s' = ls \<Longrightarrow> etcd_inv s'"
proof -
  note inv = etcd_invD [OF assms(1)]
  show "kv_lease old \<noteq> 0 \<Longrightarrow> map_of (leases s) (kv_lease old) \<noteq> None"
    using lease_linkD(2) [OF inv(3) assms(2)] by auto
  assume s': "kv s' = bt_remove k (kv s)" "leases s' = ls"
  have "map_of ls = drop_key k old (map_of (leases s))"
    using drop_key_free [OF inv(3), of old k] by (simp add: ls_def map_of_drop)
  then show "etcd_inv s'"
    using s' inv lease_link_remove [OF inv(3) assms(2)]
    by (simp add: etcd_inv_def bt_remove_sorted bt_get_remove ls_def)
qed

lemma etcd_delete_cases:
  assumes "etcd_inv s"
  shows "\<exists>s'. etcd_delete M k s =
      (Ok \<lparr>dr_revision = revision s', dr_deleted = (if bt_get (kv s) k = None then 0 else 1)\<rparr>, s') \<and>
    etcd_inv s' \<and> bt_get (kv s') = (bt_get (kv s))(k := None) \<and>
    revision s' = revision s + (if bt_get (kv s) k = None then 0 else 1)"
proof (cases "bt_get (kv s) k")
  case None
  then show ?thesis using assms by (auto simp: etcd_delete_def fun_eq_iff)
next
  case (Some old)
  let ?ls = "if kv_lease old \<noteq> 0 then upd_lease (kv_lease old) (keys_remove k) (leases s) else leases s"
  let ?s = "s\<lparr>kv := bt_remove k (kv s), revision := revision s + 1, leases := ?ls\<rparr>"
  have "etcd_delete M k s = (Ok \<lparr>dr_revision = revision s + 1, dr_deleted = 1\<rparr>, publish M (EvDelete old) ?s)"
    using take_out(1) [OF assms Some] Some
    by (cases "kv_lease old = 0") (auto simp: etcd_delete_def detach_def Let_def split: option.split)
  moreover have "etcd_inv (publish M (EvDelete old) ?s)" by (rule take_out(2) [OF assms Some]) simp_all
  ultimately show ?thesis using Some by (simp add: bt_get_remove)
qed

text \<open>The keys of a lease that ends: each is found, and all are gone afterwards.\<close>

lemma expire_keys_Ok:
  assumes "bt_sorted (kv s)" "distinct ks" "\<forall>k \<in> set ks. bt_get (kv s) k \<noteq> None"
  shows "\<exists>s'. expire_keys M ks s = (Ok (), s') \<and> kv s' = fold bt_remove ks (kv s) \<and> leases s' = leases s \<and> revision s' = revision s"
  using assms
proof (induction ks arbitrary: s)
  case (Cons k ks)
  then obtain v where v: "bt_get (kv s) k = Some v" by auto
  let ?s = "publish M (EvDelete v) (s\<lparr>kv := bt_remove k (kv s)\<rparr>)"
  have "\<exists>s'. expire_keys M ks ?s = (Ok (), s') \<and> kv s' = fold bt_remove ks (kv ?s) \<and> leases s' = leases ?s \<and> revision s' = revision ?s"
    by (rule Cons.IH) (use Cons.prems in \<open>auto simp: bt_remove_sorted bt_get_remove\<close>)
  then show ?case using v by simp
qed simp

lemma map_of_filter_key: "map_of (filter (\<lambda>e. fst e \<noteq> i) ls) = (map_of ls)(i := None)"
  by (induction ls) (auto simp: fun_eq_iff)

lemma lease_keys_present:
  assumes "etcd_inv s" "map_of (leases s) i = Some l"
  shows "distinct (lease_keys l)" "\<forall>k \<in> set (lease_keys l). bt_get (kv s) k \<noteq> None"
  using lease_linkD(4,5) [OF etcd_invD(3) [OF assms(1)] assms(2)] by (auto simp: attached_def)

lemma lease_revoke_cases:
  assumes "etcd_inv s"
  shows "if map_of (leases s) i = None then lease_revoke M i s = (Err LeaseNotFound, s)
    else \<exists>s'. lease_revoke M i s = (Ok (revision s + 1), s') \<and> etcd_inv s' \<and> revision s' = revision s + 1 \<and>
      map_of (leases s') = (map_of (leases s))(i := None) \<and>
      bt_get (kv s') = bt_get (kv s) |` (- attached (bt_get (kv s)) i)"
proof (cases "map_of (leases s) i")
  case None
  then show ?thesis by (simp add: lease_revoke_def)
next
  case (Some l)
  note inv = etcd_invD [OF assms]
  let ?s = "s\<lparr>leases := filter (\<lambda>e. fst e \<noteq> i) (leases s)\<rparr>"
  obtain s1 where s1: "expire_keys M (lease_keys l) ?s = (Ok (), s1)" "kv s1 = fold bt_remove (lease_keys l) (kv s)"
    "leases s1 = leases ?s" "revision s1 = revision s"
    using expire_keys_Ok [of ?s "lease_keys l" M] lease_keys_present [OF assms Some] inv(1) by auto
  have kv: "bt_sorted (kv s1)" "bt_get (kv s1) = bt_get (kv s) |` (- set (lease_keys l))"
    unfolding s1(2) using bt.fold_rem [OF inv(1), of "lease_keys l"] by auto
  have ls: "map_of (leases s1) = (map_of (leases s))(i := None)" "distinct (map fst (leases s1))"
    using s1(3) inv(2) by (simp_all add: map_of_filter_key distinct_map_filter)
  have "etcd_inv (s1\<lparr>revision := revision s1 + 1\<rparr>)"
    using kv ls lease_link_expire [OF inv(3) Some] by (simp add: etcd_inv_def)
  then show ?thesis using Some s1 kv(2) ls(1) lease_linkD(5) [OF inv(3) Some]
    by (auto simp: lease_revoke_def Let_def)
qed

text \<open>The leases after a tick, and the keys that it deletes.\<close>

definition aged :: "(lease_id \<times> lease) list \<Rightarrow> (lease_id \<times> lease) list" where
  "aged ls = map (\<lambda>(i, l). (i, l\<lparr>ttl := ttl l - 1\<rparr>)) (filter (\<lambda>(i, l). 1 < ttl l) ls)"

definition doomed :: "(lease_id \<times> lease) list \<Rightarrow> bytes set" where
  "doomed ls = (\<Union>(i, l) \<in> set ls. if ttl l \<le> 1 then set (lease_keys l) else {})"

lemma aged_simps [simp]:
  "aged [] = []" "aged ((i, l) # ls) = (if 1 < ttl l then (i, l\<lparr>ttl := ttl l - 1\<rparr>) # aged ls else aged ls)"
  "doomed [] = {}" "doomed ((i, l) # ls) = (if ttl l \<le> 1 then set (lease_keys l) else {}) \<union> doomed ls"
  by (auto simp: aged_def doomed_def)

lemma tick_loop_Ok:
  assumes "bt_sorted (kv s)" "distinct (map fst (kept @ ls))" "lease_link (bt_get (kv s)) (map_of (kept @ ls))"
  shows "\<exists>s'. tick_loop M ls kept s = (Ok (), s') \<and> revision s' = revision s \<and> leases s' = kept @ aged ls \<and>
    etcd_inv s' \<and> bt_get (kv s') = bt_get (kv s) |` (- doomed ls)"
  using assms
proof (induction ls arbitrary: kept s)
  case Nil
  then show ?case by (auto simp: etcd_inv_def restrict_map_def)
next
  case (Cons e ls)
  obtain i l where e: "e = (i, l)" by (cases e)
  have i: "map_of kept i = None" "map_of ls i = None"
    using Cons.prems(2) e by (auto simp: map_of_eq_None_iff)
  then have l: "map_of (kept @ (i, l) # ls) i = Some l" by (simp add: map_add_def)
  show ?case
  proof (cases "1 < ttl l")
    case True
    let ?k = "kept @ [(i, l\<lparr>ttl := ttl l - 1\<rparr>)]"
    have link: "lease_link (bt_get (kv s)) (map_of (?k @ ls))"
    proof (rule lease_link_ttl [OF Cons.prems(3)])
      show "map_option lease_keys (map_of (?k @ ls) j) = map_option lease_keys (map_of (kept @ e # ls) j)" for j
        using i e by (auto simp: map_add_def split: option.split)
    qed
    have "\<exists>s'. tick_loop M ls ?k s = (Ok (), s') \<and> revision s' = revision s \<and> leases s' = ?k @ aged ls \<and>
        etcd_inv s' \<and> bt_get (kv s') = bt_get (kv s) |` (- doomed ls)"
      by (rule Cons.IH [OF Cons.prems(1) _ link]) (use Cons.prems(2) e in simp)
    then show ?thesis using True e by (simp add: Let_def)
  next
    case False
    have d: "distinct (lease_keys l)" "set (lease_keys l) = attached (bt_get (kv s)) i"
      using lease_linkD(4,5) [OF Cons.prems(3), of i l] l e by auto
    obtain s1 where s1: "expire_keys M (lease_keys l) s = (Ok (), s1)" "kv s1 = fold bt_remove (lease_keys l) (kv s)"
      "revision s1 = revision s"
      using expire_keys_Ok [OF Cons.prems(1) d(1), of M] d(2) by (auto simp: attached_def)
    have kv: "bt_sorted (kv s1)" "bt_get (kv s1) = bt_get (kv s) |` (- set (lease_keys l))"
      unfolding s1(2) using bt.fold_rem [OF Cons.prems(1), of "lease_keys l"] by auto
    have "(map_of (kept @ e # ls))(i := None) = map_of (kept @ ls)"
      using i e by (auto simp: map_add_def fun_eq_iff split: option.split)
    then have link: "lease_link (bt_get (kv s1)) (map_of (kept @ ls))"
      using lease_link_expire [OF Cons.prems(3), of i l] l e kv(2) by simp
    have "\<exists>s'. tick_loop M ls kept s1 = (Ok (), s') \<and> revision s' = revision s1 \<and> leases s' = kept @ aged ls \<and>
        etcd_inv s' \<and> bt_get (kv s') = bt_get (kv s1) |` (- doomed ls)"
      by (rule Cons.IH [OF kv(1) _ link]) (use Cons.prems(2) e in simp)
    moreover have "bt_get (kv s1) |` (- doomed ls) = bt_get (kv s) |` (- doomed (e # ls))"
      using kv(2) e False by (auto simp: restrict_map_def fun_eq_iff)
    ultimately show ?thesis using False e s1 by (simp add: Let_def)
  qed
qed

lemma map_of_aged:
  "distinct (map fst ls) \<Longrightarrow>
     map_of (aged ls) i = (case map_of ls i of
        None \<Rightarrow> None | Some l \<Rightarrow> if 1 < ttl l then Some (l\<lparr>ttl := ttl l - 1\<rparr>) else None)"
proof (induction ls)
  case (Cons e ls)
  have "j \<notin> fst ` set ls \<Longrightarrow> map_of (aged ls) j = None" for j
    by (force simp: aged_def map_of_eq_None_iff)
  then show ?case using Cons by (cases e) (auto split: option.split)
qed simp

lemma doomed_attached:
  assumes "etcd_inv s"
  shows "k \<in> doomed (leases s) \<longleftrightarrow>
    (\<exists>v l. bt_get (kv s) k = Some v \<and> map_of (leases s) (kv_lease v) = Some l \<and> ttl l \<le> 1)"
proof -
  note inv = etcd_invD [OF assms]
  have "(i, l) \<in> set (leases s) \<longleftrightarrow> map_of (leases s) i = Some l" for i l using inv(2) by simp
  then have "k \<in> doomed (leases s) \<longleftrightarrow> (\<exists>i l. map_of (leases s) i = Some l \<and> ttl l \<le> 1 \<and> k \<in> set (lease_keys l))"
    by (fastforce simp: doomed_def split: if_splits)
  also have "\<dots> \<longleftrightarrow> (\<exists>i l. map_of (leases s) i = Some l \<and> ttl l \<le> 1 \<and> k \<in> attached (bt_get (kv s)) i)"
    using lease_linkD(5) [OF inv(3)] by metis
  also have "\<dots> \<longleftrightarrow> (\<exists>v l. bt_get (kv s) k = Some v \<and> map_of (leases s) (kv_lease v) = Some l \<and> ttl l \<le> 1)"
    by (auto simp: attached_def)
  finally show ?thesis .
qed

lemma etcd_tick_Ok:
  assumes "etcd_inv s"
  shows "\<exists>s'. etcd_tick M s = (Ok (), s') \<and> etcd_inv s' \<and> leases s' = aged (leases s) \<and>
    bt_get (kv s') = bt_get (kv s) |` (- doomed (leases s)) \<and>
    revision s' = revision s + (if \<forall>(i, l) \<in> set (leases s). 1 < ttl l then 0 else 1)"
proof -
  obtain s1 where s1: "tick_loop M (leases s) [] s = (Ok (), s1)" "revision s1 = revision s" "leases s1 = aged (leases s)"
    "etcd_inv s1" "bt_get (kv s1) = bt_get (kv s) |` (- doomed (leases s))"
    using tick_loop_Ok [of s "[]" "leases s" M] etcd_invD [OF assms] by auto
  have "length (aged (leases s)) \<noteq> length (leases s) \<longleftrightarrow> \<not> (\<forall>(i, l) \<in> set (leases s). 1 < ttl l)"
    unfolding aged_def length_map by (metis filter_True length_filter_less less_irrefl_nat case_prodE)
  then show ?thesis using s1 etcd_inv_same [of "s1\<lparr>revision := revision s1 + 1\<rparr>" s1] by (auto simp: etcd_tick_def)
qed

subsection \<open>Reachable stores\<close>

definition tame_campaign :: "bytes \<Rightarrow> lease_id \<Rightarrow> 'c etcd \<Rightarrow> bool" where
  "tame_campaign n i s \<longleftrightarrow> (\<forall>v. bt_get (kv s) (election_key n i) = Some v \<longrightarrow> kv_lease v = i)"

lemma campaign_put_inv:
  assumes "etcd_inv s" "tame_campaign n i s" "campaign_put M (election_key n i) v i s = (r, s')"
  shows "etcd_inv s'"
proof -
  let ?k = "election_key n i" and ?s = "s\<lparr>revision := revision s + 1\<rparr>"
  note inv = etcd_invD [OF assms(1)]
  define e where "e = \<lparr>kv_key = ?k, kv_value = v, kv_lease = i, create_revision = revision s + 1, modify_revision = revision s + 1\<rparr>"
  have e: "kv_key e = ?k" "kv_lease e = i" by (simp_all add: e_def)
  show ?thesis
  proof (cases "map_option kv_value (bt_get (kv s) ?k) \<noteq> Some v \<and> map_of (leases s) i \<noteq> None")
    case False
    then have "kv s' = kv s \<and> leases s' = leases s"
      using assms(3) by (auto simp: campaign_put_def attach_def Let_def split: if_splits option.splits)
    then show ?thesis using assms(1) etcd_inv_same by blast
  next
    case True
    then have s': "kv s' = bt_insert ?k e (kv s)" "leases s' = upd_lease i (keys_insert ?k) (leases s)"
      using assms(3) by (auto simp: campaign_put_def attach_def Let_def e_def split: if_splits option.splits)
    have "lease_link ((bt_get (kv s))(?k \<mapsto> e)) (add_key ?k i (map_of (leases s)))"
    proof (cases "bt_get (kv s) ?k")
      case None
      then show ?thesis using lease_link_add [OF inv(3) None e(1)] e(2) True by auto
    next
      case (Some old)
      then have o: "kv_lease old = i" using assms(2) by (simp add: tame_campaign_def)
      have "?k \<in> attached (bt_get (kv s)) i" using Some o by (auto simp: attached_def)
      then have "map_of (leases s) i = Some l \<Longrightarrow> lease_keys (keys_insert ?k l) = lease_keys l" for l
        using lease_linkD(5) [OF inv(3), of i l] by (simp add: keys_insert_def)
      then have "map_option lease_keys (add_key ?k i (map_of (leases s)) j) = map_option lease_keys (map_of (leases s) j)" for j
        by (cases "j = i"; cases "map_of (leases s) j") (simp_all add: add_key_def)
      then show ?thesis
        by (intro lease_link_ttl [OF lease_link_replace [OF inv(3) Some e(1)]]) (simp_all add: e(2) o)
    qed
    then show ?thesis using s' inv by (simp add: etcd_inv_def bt_get_insert bt_insert_sorted map_of_add)
  qed
qed

lemma etcd_campaign_inv:
  assumes "etcd_inv s" "tame_campaign n i s" "etcd_campaign M n v i s = (r, s')"
  shows "etcd_inv s'"
proof -
  obtain u s1 where p: "campaign_put M (election_key n i) v i s = (u, s1)" by (metis surj_pair)
  have "kv s' = kv s1 \<and> leases s' = leases s1"
    using assms(3) p
    by (cases u) (auto simp: etcd_campaign_def Let_def st_bind_def split: res.splits option.splits prod.splits if_splits)
  then show ?thesis using campaign_put_inv [OF assms(1,2) p] etcd_inv_same by blast
qed

lemma pick_lease_id_fresh: "(pick_lease_id ls i rnds :: ('e, lease_id) res option) = Some (Ok j) \<Longrightarrow> map_of ls j = None \<and> j \<noteq> 0"
proof (induction rnds arbitrary: i)
  case Nil
  then show ?case by (simp add: pick_lease_id.simps [of ls i] split: if_splits)
next
  case (Cons r rnds)
  show ?case
  proof (cases "map_of ls i \<noteq> None \<or> i = 0")
    case True
    then have "(pick_lease_id ls \<bar>r\<bar> rnds :: ('e, lease_id) res option) = Some (Ok j)"
      using Cons.prems by (subst (asm) pick_lease_id.simps) (auto split: if_splits)
    then show ?thesis by (rule Cons.IH)
  qed (use Cons.prems in \<open>simp add: pick_lease_id.simps [of ls i]\<close>)
qed

lemma lease_grant_inv:
  assumes "etcd_inv s" "lease_grant t i rnds s = Some (Ok r, s')"
  shows "etcd_inv s'"
proof -
  obtain j where j: "j \<noteq> 0" "insert_lease t j s = (Ok r, s')"
    using assms(2) pick_lease_id_fresh [where ls = "leases s" and i = 0 and rnds = rnds]
    by (auto simp: lease_grant_def split: if_splits option.splits res.splits)
  note inv = etcd_invD [OF assms(1)]
  have n: "map_of (leases s) j = None" and s': "kv s' = kv s" "leases s' = leases s @ [(j, lease_new t)]"
    using j(2) by (auto simp: insert_lease_def Let_def split: if_splits)
  have "map_of (leases s') = (map_of (leases s))(j \<mapsto> lease_new t)"
    using n s' by (auto simp: fun_eq_iff map_add_def split: option.split)
  moreover have "distinct (map fst (leases s'))" using inv(2) n s' by (auto simp: map_of_eq_None_iff)
  ultimately show ?thesis
    using inv s' lease_link_grant [OF inv(3) n j(1), of "lease_new t"] by (simp add: etcd_inv_def lease_new_def)
qed

lemma etcd_proclaim_inv:
  assumes "etcd_inv s" "etcd_proclaim M ldr v s = (r, s')"
  shows "etcd_inv s'"
proof (cases "bt_get (kv s) (lk_key ldr)")
  case None
  then show ?thesis using assms by (simp add: etcd_proclaim_def)
next
  case (Some old)
  note inv = etcd_invD [OF assms(1)]
  show ?thesis
    using assms(2) Some inv lease_link_replace [OF inv(3) Some] lease_linkD(1) [OF inv(3) Some]
    by (auto simp: etcd_proclaim_def Let_def etcd_inv_def bt_get_insert bt_insert_sorted)
qed

lemma etcd_resign_inv:
  assumes "etcd_inv s" "etcd_resign M ldr s = (r, s')" "\<not> is_panic r"
  shows "etcd_inv s'"
proof (cases "bt_get (kv s) (lk_key ldr)")
  case None
  then show ?thesis using assms by (simp add: etcd_resign_def)
next
  case (Some old)
  have 0: "map_of (leases s) 0 = None" using lease_linkD(6) [OF etcd_invD(3) [OF assms(1)]] .
  have k: "map_of (leases s) (kv_lease old) \<noteq> None"
    using assms(2,3) Some by (auto simp: etcd_resign_def detach_def split: option.splits)
  then have "kv_lease old \<noteq> 0" using 0 by metis
  then show ?thesis
    by (intro take_out(2) [OF assms(1) Some])
      (use k assms(2) Some in \<open>auto simp: etcd_resign_def detach_def Let_def\<close>)
qed

text \<open>
  The primitive steps of the server (a transaction is a sequence of them).  A put that names the lease its key already has, and a campaign whose
  key was attached to another lease by a put, are left out: they break the bookkeeping, see below.  \<open>es_rehash\<close> is
  the freedom of the hash collections.
\<close>

inductive etcd_step :: "'c mpsc_ops \<Rightarrow> 'c etcd \<Rightarrow> 'c etcd \<Rightarrow> bool" for M where
  es_put: "tame_put k p s \<Longrightarrow> etcd_put M k v p s = (r, s') \<Longrightarrow> etcd_step M s s'"
| es_delete: "etcd_delete M k s = (r, s') \<Longrightarrow> etcd_step M s s'"
| es_txn_end: "etcd_step M s (s\<lparr>revision := n\<rparr>)"
| es_grant: "lease_grant t i rnds s = Some (Ok g, s') \<Longrightarrow> etcd_step M s s'"
| es_revoke: "lease_revoke M i s = (r, s') \<Longrightarrow> etcd_step M s s'"
| es_keep_alive: "lease_keep_alive i s = (g, s') \<Longrightarrow> etcd_step M s s'"
| es_tick: "etcd_tick M s = (u, s') \<Longrightarrow> etcd_step M s s'"
| es_campaign: "tame_campaign n i s \<Longrightarrow> etcd_campaign M n v i s = (c, s') \<Longrightarrow> etcd_step M s s'"
| es_proclaim: "etcd_proclaim M ldr v s = (r, s') \<Longrightarrow> etcd_step M s s'"
| es_observe: "etcd_observe M n s = (b, s') \<Longrightarrow> etcd_step M s s'"
| es_resign: "etcd_resign M ldr s = (r, s') \<Longrightarrow> \<not> is_panic r \<Longrightarrow> etcd_step M s s'"
| es_rehash: "distinct (map fst ls) \<Longrightarrow>
    (\<And>i. rel_option (\<lambda>l l'. mset (lease_keys l') = mset (lease_keys l) \<and> ttl l' = ttl l \<and> granted_ttl l' = granted_ttl l)
       (map_of (leases s) i) (map_of ls i)) \<Longrightarrow> etcd_step M s (s\<lparr>leases := ls\<rparr>)"

inductive etcd_reachable :: "'c mpsc_ops \<Rightarrow> 'c etcd \<Rightarrow> bool" for M where
  er_default: "etcd_reachable M (etcd_default c)"
| er_step: "etcd_reachable M s \<Longrightarrow> etcd_step M s s' \<Longrightarrow> etcd_reachable M s'"

lemma lease_link_rehash:
  assumes "lease_link m ls" "\<And>i. rel_option (\<lambda>l l'. mset (lease_keys l') = mset (lease_keys l)) (ls i) (ls' i)"
  shows "lease_link m ls'"
proof (rule lease_linkI)
  have s: "\<exists>l. ls j = Some l \<and> mset (lease_keys l') = mset (lease_keys l)" if "ls' j = Some l'" for j l'
    using assms(2) [of j] that by (cases "ls j") auto
  show "ls' j = Some l' \<Longrightarrow> j \<noteq> 0 \<and> distinct (lease_keys l') \<and> set (lease_keys l') = attached m j" for j l'
    using s [of j l'] lease_linkD(3-5) [OF assms(1), of j] by (metis mset_eq_imp_distinct_iff mset_eq_setD)
  show "m k = Some v \<Longrightarrow> kv_lease v \<noteq> 0 \<Longrightarrow> ls' (kv_lease v) \<noteq> None" for k v
    using lease_linkD(2) [OF assms(1), of k v] assms(2) [of "kv_lease v"] by (cases "ls' (kv_lease v)") auto
qed (use lease_linkD(1) [OF assms(1)] in blast)

lemma etcd_step_inv: "etcd_step M s s' \<Longrightarrow> etcd_inv s \<Longrightarrow> etcd_inv s'"
proof (induction rule: etcd_step.induct)
  case (es_delete k s r s')
  then show ?case using etcd_delete_cases [of s M k] by auto
next
  case (es_revoke i s r s')
  then show ?case using lease_revoke_cases [of s i M] by (auto split: if_splits)
next
  case (es_keep_alive i s g s')
  have "lease_link (bt_get (kv s)) (map_of (upd_lease i (\<lambda>l. l\<lparr>ttl := granted_ttl l\<rparr>) (leases s)))"
    by (rule lease_link_ttl [OF etcd_invD(3) [OF es_keep_alive(2)]])
      (auto simp: map_of_upd_lease option.map_comp comp_def)
  then show ?case using es_keep_alive by (auto simp: lease_keep_alive_def Let_def etcd_inv_def split: option.splits)
next
  case (es_tick s u s')
  then show ?case using etcd_tick_Ok [of s M] by auto
next
  case (es_observe n s b s')
  then have "kv s' = kv s \<and> leases s' = leases s"
    by (auto simp: etcd_observe_def Let_def st_bind_def split: prod.splits res.splits)
  then show ?case using es_observe etcd_inv_same by blast
next
  case (es_rehash ls s)
  have "lease_link (bt_get (kv s)) (map_of ls)"
    by (rule lease_link_rehash [OF etcd_invD(3) [OF es_rehash(3)]])
      (rule option.rel_mono_strong [OF es_rehash(2)], simp)
  then show ?case using es_rehash by (simp add: etcd_inv_def)
next
  case (es_txn_end s n)
  then show ?case by (simp add: etcd_inv_def)
qed (auto intro: etcd_put_inv lease_grant_inv etcd_campaign_inv etcd_proclaim_inv etcd_resign_inv)

lemma etcd_reachable_inv: "etcd_reachable M s \<Longrightarrow> etcd_inv s"
proof (induction rule: etcd_reachable.induct)
  case (er_default c)
  then show ?case by (simp add: etcd_default_def etcd_inv_def lease_link_def)
qed (rule etcd_step_inv)

subsection \<open>A store for the witnesses\<close>

definition free_chans :: "nat mpsc_ops" where
  "free_chans = \<lparr>ch_new = (\<lambda>n c. (c, Suc c)), ch_try_send = (\<lambda>t ev c. (True, c))\<rparr>"

text \<open>Lease 7 with two seconds to live, and the key \<open>a\<close> attached to it.\<close>

definition leased_store :: "nat etcd" where
  "leased_store = \<lparr>revision = 2,
     kv = [([97], \<lparr>kv_key = [97], kv_value = [1], kv_lease = 7, create_revision = 2, modify_revision = 2\<rparr>)],
     leases = [(7, \<lparr>ttl = 2, granted_ttl = 2, lease_keys = [[97]]\<rparr>)], watcher = [], chans = 0\<rparr>"

lemma leased_store_reachable: "etcd_reachable free_chans leased_store"
proof -
  let ?s1 = "\<lparr>revision = 1, kv = [], leases = [(7, \<lparr>ttl = 2, granted_ttl = 2, lease_keys = []\<rparr>)], watcher = [], chans = 0\<rparr>"
  have "lease_grant 2 7 [] (etcd_default 0) = Some (Ok (1, 7, 2), ?s1)"
    by (simp add: lease_grant_def insert_lease_def etcd_default_def lease_new_def)
  then have r1: "etcd_reachable free_chans ?s1" by (rule er_step [OF er_default es_grant])
  have "etcd_put free_chans [97] [1] \<lparr>po_lease = 7, po_prev_kv = False\<rparr> ?s1 =
      (Ok \<lparr>pr_revision = 2, pr_prev_kv = None\<rparr>, leased_store)"
    by (simp add: etcd_put_def leased_store_def attach_def upd_lease_def keys_insert_def publish_def)
  moreover have "tame_put [97] \<lparr>po_lease = 7, po_prev_kv = False\<rparr> ?s1" by (simp add: tame_put_def attached_def)
  ultimately show ?thesis by (intro er_step [OF r1 es_put])
qed

lemma prefix_byte_range:
  fixes k :: bytes
  assumes k: "k \<noteq> []" "last k \<noteq> 0xff"
  shows "k \<le> x \<and> x < butlast k @ [last k + 1] \<longleftrightarrow> prefix k x"
proof -
  have "1 + last k \<noteq> 0"
  proof
    assume "1 + last k = 0"
    then have "last k = - 1" by (metis add_eq_0_iff)
    then show False using k(2) by simp
  qed
  then have "last k < last k + 1" "\<And>y. last k < y \<Longrightarrow> last k + 1 \<le> y"
    using unatSuc [of "last k"] by (auto simp: word_less_nat_alt word_le_nat_alt add.commute)
  then show ?thesis using prefix_range [of "last k" "last k + 1" "butlast k" x] k(1)
    by (simp add: prefix_def) (metis append_butlast_last_id append_Cons append_Nil append_assoc)
qed

subsection \<open>The properties\<close>



text \<open>
  What a put does.  It fails, changing nothing, when it names a lease that does not exist.  Otherwise it increases the revision by
  one, a following get of the key returns exactly the new entry (created at the revision of the first put of the key, modified
  at the new revision, attached to the lease), and a get of any other key returns what it did before.
\<close>

theorem etcd_put_get:
  assumes "etcd_reachable M s"
  shows "if po_lease p \<noteq> 0 \<and> map_of (leases s) (po_lease p) = None
    then etcd_put M k v p s = (Err LeaseNotFound, s)
    else \<exists>s'. etcd_put M k v p s = (Ok \<lparr>pr_revision = revision s + 1,
          pr_prev_kv = (if po_prev_kv p then bt_get (kv s) k else None)\<rparr>, s') \<and>
      etcd_get k get_options_default s' = Ok \<lparr>gr_revision = revision s + 1,
        gr_kvs = [\<lparr>kv_key = k, kv_value = v, kv_lease = po_lease p,
           create_revision = (case bt_get (kv s) k of None \<Rightarrow> revision s + 1 | Some old \<Rightarrow> create_revision old),
           modify_revision = revision s + 1\<rparr>]\<rparr> \<and>
      (\<forall>k'. k' \<noteq> k \<longrightarrow> etcd_get k' get_options_default s' =
         Ok \<lparr>gr_revision = revision s + 1, gr_kvs = (case bt_get (kv s) k' of None \<Rightarrow> [] | Some x \<Rightarrow> [x])\<rparr>)"
proof -
  have inv: "etcd_inv s" by (rule etcd_reachable_inv [OF assms])
  show ?thesis
  proof (cases "po_lease p \<noteq> 0 \<and> map_of (leases s) (po_lease p) = None")
    case True
    then show ?thesis using etcd_put_cases [OF inv, of p M k v] by simp
  next
    case False
    obtain s' where s': "etcd_put M k v p s = (Ok \<lparr>pr_revision = revision s + 1,
          pr_prev_kv = (if po_prev_kv p then bt_get (kv s) k else None)\<rparr>, s')"
      "revision s' = revision s + 1" "kv s' = bt_insert k (put_entry k v p s) (kv s)"
      using etcd_put_cases [OF inv, of p M k v, unfolded if_not_P [OF False]] by blast
    show ?thesis unfolding if_not_P [OF False]
      by (intro exI [of _ s'] conjI s'(1))
        (simp_all add: etcd_get_def get_options_default_def s'(2,3) bt_get_insert [OF etcd_invD(1) [OF inv]] put_entry_def)
  qed
qed

theorem etcd_put_get_witness:
  "\<exists>s'. etcd_put free_chans [97] [2] \<lparr>po_lease = 0, po_prev_kv = False\<rparr> leased_store =
       (Ok \<lparr>pr_revision = 3, pr_prev_kv = None\<rparr>, s') \<and>
     etcd_get [97] get_options_default s' = Ok \<lparr>gr_revision = 3, gr_kvs =
       [\<lparr>kv_key = [97], kv_value = [2], kv_lease = 0, create_revision = 2, modify_revision = 3\<rparr>]\<rparr>"
  using etcd_put_get [OF leased_store_reachable, of "\<lparr>po_lease = 0, po_prev_kv = False\<rparr>" "[97]" "[2]"]
  by (auto simp: leased_store_def)

text \<open>
  A prefix query is exact.  For a prefix that is not empty and does not end in 0xff, \<open>get\<close> with the prefix option returns the entries
  whose key starts with the prefix, all of them and in ascending order; for the other prefixes it panics.
\<close>

theorem etcd_get_prefix_exact:
  assumes "go_prefix g" "go_revision g \<le> 0"
  shows "etcd_get k g s =
    (if k = [] then Panic ''called Option::unwrap() on a None value''
     else if last k = 0xff then Panic ''attempt to add with overflow''
     else Ok \<lparr>gr_revision = revision s, gr_kvs = map snd (filter (\<lambda>e. prefix k (fst e)) (kv s))\<rparr>)"
proof -
  show ?thesis using assms by (auto simp: etcd_get_def get_prefix_range_def bt_range_def prefix_byte_range cong: filter_cong)
qed

theorem etcd_get_prefix_exact_witness:
  "go_prefix get_options_new \<and> go_revision get_options_new \<le> 0 \<and>
   etcd_get [97] get_options_new leased_store = Ok \<lparr>gr_revision = 2, gr_kvs = map snd (kv leased_store)\<rparr>"
proof -
  have g: "go_prefix get_options_new" "go_revision get_options_new \<le> 0" by (simp_all add: get_options_new_def)
  show ?thesis using etcd_get_prefix_exact [OF g, of "[97]" leased_store] g by (simp add: leased_store_def)
qed



primrec ticks :: "'c mpsc_ops \<Rightarrow> nat \<Rightarrow> 'c etcd \<Rightarrow> ('c, unit) etcd_result" where
  "ticks M 0 s = (Ok (), s)"
| "ticks M (Suc n) s = st_bind (ticks M n s) (\<lambda>_. etcd_tick M)"

lemma ticks_lease:
  assumes "etcd_inv s" "map_of (leases s) i = Some l" "0 < ttl l"
  shows "\<exists>s'. ticks M n s = (Ok (), s') \<and> etcd_inv s' \<and>
    map_of (leases s') i = (if int n < ttl l then Some (l\<lparr>ttl := ttl l - int n\<rparr>) else None)"
proof (induction n)
  case 0
  then show ?case using assms by simp
next
  case (Suc n)
  then obtain s1 where s1: "ticks M n s = (Ok (), s1)" "etcd_inv s1"
    "map_of (leases s1) i = (if int n < ttl l then Some (l\<lparr>ttl := ttl l - int n\<rparr>) else None)" by blast
  obtain s2 where s2: "etcd_tick M s1 = (Ok (), s2)" "etcd_inv s2" "leases s2 = aged (leases s1)"
    using etcd_tick_Ok [OF s1(2), of M] by blast
  then show ?case using s1 map_of_aged [OF etcd_invD(2) [OF s1(2)], of i] by auto
qed

text \<open>
  A lease lives exactly as long as it was granted.  When a lease is granted with a positive time to live \<open>t\<close> and nothing but
  ticks happens, the lease exists after \<open>n\<close> ticks if and only if \<open>n < t\<close>; no tick on the way fails.
\<close>

theorem etcd_lease_lives_ttl:
  assumes "etcd_reachable M s" "0 < t" "i \<noteq> 0" "map_of (leases s) i = None"
  shows "\<exists>s1 s2. lease_grant t i rnds s = Some (Ok (revision s + 1, i, t), s1) \<and> ticks M n s1 = (Ok (), s2) \<and>
    (map_of (leases s2) i \<noteq> None \<longleftrightarrow> int n < t)"
proof -
  define s1 where "s1 = s\<lparr>leases := leases s @ [(i, lease_new t)], revision := revision s + 1\<rparr>"
  have g: "lease_grant t i rnds s = Some (Ok (revision s + 1, i, t), s1)"
    using assms(3,4) by (simp add: lease_grant_def insert_lease_def Let_def s1_def)
  have "etcd_inv s1" by (rule lease_grant_inv [OF etcd_reachable_inv [OF assms(1)] g])
  moreover have "map_of (leases s1) i = Some (lease_new t)" using assms(4) by (simp add: s1_def map_add_def)
  ultimately obtain s2 where "ticks M n s1 = (Ok (), s2)"
    "map_of (leases s2) i = (if int n < t then Some ((lease_new t)\<lparr>ttl := t - int n\<rparr>) else None)"
    using ticks_lease [of s1 i "lease_new t" M n] assms(2) by (auto simp: lease_new_def)
  then show ?thesis using g by auto
qed

theorem etcd_lease_lives_ttl_witness:
  "\<exists>s1 s2. lease_grant 3 8 [] leased_store = Some (Ok (3, 8, 3), s1) \<and> ticks free_chans 2 s1 = (Ok (), s2) \<and>
     map_of (leases s2) 8 \<noteq> None"
  using etcd_lease_lives_ttl [OF leased_store_reachable, of 3 8 "[]" 2] by (auto simp: leased_store_def)

text \<open>
  Renewing a key with its own lease detaches it.  A put that names the lease its key already has adds the key to the lease and then removes it again:
  the entry still names the lease, but the lease no longer holds the key.  When the lease is revoked the key survives, and
  the next put of it panics because the lease is gone.
\<close>

theorem etcd_put_same_lease_detaches:
  "\<exists>s1 s2. etcd_put free_chans [97] [2] \<lparr>po_lease = 7, po_prev_kv = False\<rparr> leased_store =
       (Ok \<lparr>pr_revision = 3, pr_prev_kv = None\<rparr>, s1) \<and>
     lease_revoke free_chans 7 s1 = (Ok 4, s2) \<and> map_option kv_lease (bt_get (kv s2) [97]) = Some 7 \<and>
     fst (etcd_put free_chans [97] [3] \<lparr>po_lease = 0, po_prev_kv = False\<rparr> s2) = Panic ''no lease''"
  by (simp add: etcd_put_def leased_store_def attach_def detach_def upd_lease_def keys_insert_def keys_remove_def
      publish_def lease_revoke_def)

text \<open>
  A transaction turns the revision back.  Its operations increase the revision one by one, but at the end it is set to one more
  than at the beginning: after a transaction with two puts the second entry has a revision above the store's, and the
  next put, of another key, is given the same revision again.
\<close>

theorem etcd_txn_reuses_revision:
  "\<exists>r s1 s2 a b. etcd_txn free_chans (Txn [] [OpPut [98] [1] put_options_new, OpPut [99] [1] put_options_new] [] False True False)
       leased_store = (Ok r, s1) \<and> tr_revision r = 3 \<and> revision s1 = 3 \<and>
     etcd_put free_chans [100] [1] put_options_new s1 = (Ok \<lparr>pr_revision = 4, pr_prev_kv = None\<rparr>, s2) \<and>
     bt_get (kv s2) [99] = Some a \<and> bt_get (kv s2) [100] = Some b \<and> modify_revision a = 4 \<and> modify_revision b = 4"
  by (simp add: etcd_put_def leased_store_def publish_def put_options_new_def expect_put_def)

end
