(* ===== verification/EtcdElection.thy ===== *)
theory EtcdElection
  imports EtcdProps
begin

section \<open>Elections of the etcd service\<close>

text \<open>
  The leader of an election is the entry under its name with the least creation revision (the least key among equal ones).  What makes an election
  safe: a candidate that joins does not displace the leader, and when the leader resigns the next candidate follows.
\<close>

lemma foldl_min:
  fixes f :: "'k::linorder \<times> 'v \<Rightarrow> 'b::linorder"
  assumes "sorted_wrt (\<lambda>a b. fst a < fst b) (x # xs)"
  shows "foldl (\<lambda>m y. if f y < f m then y else m) x xs \<in> set (x # xs) \<and>
    (\<forall>z \<in> set (x # xs). f (foldl (\<lambda>m y. if f y < f m then y else m) x xs) < f z \<or>
       f (foldl (\<lambda>m y. if f y < f m then y else m) x xs) = f z \<and>
       fst (foldl (\<lambda>m y. if f y < f m then y else m) x xs) \<le> fst z)"
  using assms
proof (induction xs rule: rev_induct)
  case (snoc y ys)
  let ?m = "foldl (\<lambda>m y. if f y < f m then y else m) x ys"
  have s: "sorted_wrt (\<lambda>a b. fst a < fst b) (x # ys)" "\<forall>z \<in> set (x # ys). fst z < fst y"
    using snoc.prems by (auto simp: sorted_wrt_append)
  have m: "?m \<in> set (x # ys)" "\<forall>z \<in> set (x # ys). f ?m < f z \<or> f ?m = f z \<and> fst ?m \<le> fst z"
    using snoc.IH [OF s(1)] by auto
  have "fst ?m < fst y" using s(2) m(1) by blast
  show ?case
  proof (cases "f y < f ?m")
    case True
    then have "f y < f z" if "z \<in> set (x # ys)" for z 
    proof -
      have "f ?m < f z \<or> f ?m = f z" using m(2) that by blast
      then show ?thesis using True by auto
    qed
    then show ?thesis using True by auto
  next
    case False
    then show ?thesis using m \<open>fst ?m < fst y\<close> by auto
  qed
qed simp

text \<open>The least entry by \<open>f\<close>, the first in key order among equal ones.\<close>

definition least_entry :: "('v \<Rightarrow> 'b::linorder) \<Rightarrow> ('k::linorder \<times> 'v) set \<Rightarrow> 'k \<times> 'v \<Rightarrow> bool" where
  "least_entry f S x \<longleftrightarrow> x \<in> S \<and>
     (\<forall>y \<in> S. f (snd x) < f (snd y) \<or> f (snd x) = f (snd y) \<and> fst x \<le> fst y)"

lemma least_entry_unique:
  assumes "least_entry f S x" "least_entry f S y" "\<And>k v v'. (k, v) \<in> S \<Longrightarrow> (k, v') \<in> S \<Longrightarrow> v = v'"
  shows "x = y"
proof -
  have "f (snd x) < f (snd y) \<or> f (snd x) = f (snd y) \<and> fst x \<le> fst y"
    "f (snd y) < f (snd x) \<or> f (snd y) = f (snd x) \<and> fst y \<le> fst x"
    using assms(1,2) unfolding least_entry_def by blast+
  then have "fst x = fst y" by auto
  then show ?thesis using assms unfolding least_entry_def by (metis prod.collapse)
qed

lemma min_by_key_least:
  fixes m :: "('k::linorder, 'v) btree"
  assumes "bt_sorted m"
  shows "min_by_key (\<lambda>(_, v). f v) m = Some x \<longleftrightarrow> least_entry f (set m) x"
    and "min_by_key (\<lambda>(_, v). f v) m = None \<longleftrightarrow> m = []"
proof -
  show "min_by_key (\<lambda>(_, v). f v) m = None \<longleftrightarrow> m = []" by (simp add: min_by_key_def split: list.split)
  have u: "(k, v) \<in> set m \<Longrightarrow> (k, v') \<in> set m \<Longrightarrow> v = v'" for k v v'
    using bt_get_mem [OF assms] by (metis option.inject)
  have ex: "\<exists>y. min_by_key (\<lambda>(_, v). f v) m = Some y \<and> least_entry f (set m) y" if ne: "m \<noteq> []"
  proof -
    obtain y ys where m: "m = y # ys" using ne by (cases m) auto
    have "sorted_wrt (\<lambda>a b. fst a < fst b) (y # ys)" using assms m by (auto simp: bt_sorted_def sorted_wrt_map)
    from foldl_min [OF this, of "\<lambda>(_, v). f v"] show ?thesis
      by (auto simp: min_by_key_def m least_entry_def case_prod_beta)
  qed
  show "min_by_key (\<lambda>(_, v). f v) m = Some x \<longleftrightarrow> least_entry f (set m) x"
  proof
    assume x: "min_by_key (\<lambda>(_, v). f v) m = Some x"
    then have "m \<noteq> []" by (auto simp: min_by_key_def)
    then show "least_entry f (set m) x" using ex x by auto
  next
    assume x: "least_entry f (set m) x"
    then have "m \<noteq> []" by (auto simp: least_entry_def)
    then obtain y where "min_by_key (\<lambda>(_, v). f v) m = Some y" "least_entry f (set m) y" using ex by blast
    then show "min_by_key (\<lambda>(_, v). f v) m = Some x" using least_entry_unique [OF x, of y] u by blast
  qed
qed

text \<open>The candidates of an election: the entries whose key starts with its name.\<close>

definition candidates :: "bytes \<Rightarrow> 'c etcd \<Rightarrow> (bytes \<times> key_value) set" where
  "candidates name s = {(k, v). bt_get (kv s) k = Some v \<and> prefix name k}"

definition good_name :: "bytes \<Rightarrow> bool" where
  "good_name name \<longleftrightarrow> name \<noteq> [] \<and> last name \<noteq> 0xff"

definition candidate_list :: "bytes \<Rightarrow> 'c etcd \<Rightarrow> (bytes, key_value) btree" where
  "candidate_list name s = bt_range name (butlast name @ [last name + 1]) (kv s)"

lemma get_prefix_range_candidates: "good_name name \<Longrightarrow> get_prefix_range name s = Ok (candidate_list name s)"
  by (simp add: get_prefix_range_def good_name_def candidate_list_def)

lemma candidate_list:
  assumes "etcd_inv s" "good_name name"
  shows "bt_sorted (candidate_list name s)" "set (candidate_list name s) = candidates name s"
proof -
  show "bt_sorted (candidate_list name s)"
    unfolding candidate_list_def by (rule bt_range_sorted [OF etcd_invD(1) [OF assms(1)]])
  show "set (candidate_list name s) = candidates name s"
    using assms(2) bt_get_mem [OF etcd_invD(1) [OF assms(1)]] prefix_byte_range [of name]
    by (auto simp: candidate_list_def good_name_def bt_range_def candidates_def)
qed

lemma etcd_leader_least:
  assumes "etcd_inv s" "good_name name"
  shows "etcd_leader name s = Ok (revision s, Some v) \<longleftrightarrow>
      least_entry create_revision (candidates name s) (kv_key v, v)"
    and "\<exists>l. etcd_leader name s = Ok (revision s, l) \<and> (l = None \<longleftrightarrow> candidates name s = {})"
proof -
  let ?es = "candidate_list name s"
  note es = candidate_list [OF assms]
  have key: "(k, x) \<in> candidates name s \<Longrightarrow> kv_key x = k" for k x
    using lease_linkD(1) [OF etcd_invD(3) [OF assms(1)]] by (auto simp: candidates_def)
  have l: "etcd_leader name s = Ok (revision s, map_option snd (min_by_key (\<lambda>(_, v). create_revision v) ?es))"
    by (simp add: etcd_leader_def get_prefix_range_candidates [OF assms(2)])
  show "etcd_leader name s = Ok (revision s, Some v) \<longleftrightarrow> least_entry create_revision (candidates name s) (kv_key v, v)"
  proof -
    have "min_by_key (\<lambda>(_, v). create_revision v) ?es = Some x \<longleftrightarrow> least_entry create_revision (candidates name s) x" for x
      using min_by_key_least(1) [OF es(1), of create_revision x] es(2) by simp
    moreover have "fst x = kv_key (snd x)" if "least_entry create_revision (candidates name s) x" for x
      using that key [of "fst x" "snd x"] by (simp add: least_entry_def)
    ultimately have "(\<exists>x. min_by_key (\<lambda>(_, v). create_revision v) ?es = Some x \<and> snd x = v) \<longleftrightarrow>
        least_entry create_revision (candidates name s) (kv_key v, v)"
      by (metis prod.collapse snd_conv)
    then show ?thesis unfolding l by (simp add: case_prod_beta)
  qed
  show "\<exists>l. etcd_leader name s = Ok (revision s, l) \<and> (l = None \<longleftrightarrow> candidates name s = {})"
    unfolding l using min_by_key_least(2) [OF es(1), of create_revision] es(2) by auto
qed

text \<open>What a campaign writes: nothing, or an entry that is younger than everything before.\<close>

lemma campaign_put_kv:
  assumes "campaign_put M k v i s = (u, s1)"
  shows "(u = Err LeaseNotFound \<or> u = Ok ()) \<and>
    (kv s1 = kv s \<or> (\<exists>e. kv s1 = bt_insert k e (kv s) \<and> create_revision e = revision s + 1))"
  using assms by (auto simp: campaign_put_def attach_def Let_def split: if_splits option.splits)

lemma etcd_campaign_put:
  assumes "etcd_campaign M name v i s = (r, s')" "campaign_put M (election_key name i) v i s = (u, s1)"
  shows "kv s' = kv s1 \<and> revision s' = revision s1"
  using assms
  by (cases u) (auto simp: etcd_campaign_def Let_def st_bind_def split: res.splits option.splits prod.splits if_splits)


text \<open>
  A resignation passes the leadership on.  When the leader of an election resigns, the next leader is the oldest of the other candidates, and there is
  none exactly when there were no others.
\<close>

theorem etcd_resign_passes_on:
  assumes "etcd_reachable M s" "good_name name"
    and "(etcd_leader name s :: (etcd_error, _) res) = Ok (revision s, Some l)"
    and "lk_key ldr = kv_key l" "etcd_resign M ldr s = (Ok r, s')"
  shows "\<exists>l'. (etcd_leader name s' :: (etcd_error, _) res) = Ok (revision s', l') \<and>
    (case l' of None \<Rightarrow> candidates name s = {(kv_key l, l)}
     | Some x \<Rightarrow> least_entry create_revision (candidates name s - {(kv_key l, l)}) (kv_key x, x))"
proof -
  note inv = etcd_reachable_inv [OF assms(1)]
  have inv': "etcd_inv s'" by (rule etcd_resign_inv [OF inv assms(5)]) simp
  have l: "(kv_key l, l) \<in> candidates name s"
    using etcd_leader_least(1) [OF inv assms(2)] assms(3) by (auto simp: least_entry_def)
  then have g: "bt_get (kv s) (kv_key l) = Some l" by (simp add: candidates_def)
  then have "kv s' = bt_remove (kv_key l) (kv s)"
    using assms(4,5) by (auto simp: etcd_resign_def detach_def Let_def split: option.splits)
  then have c: "candidates name s' = candidates name s - {(kv_key l, l)}"
    using g by (auto simp: candidates_def bt_get_remove split: if_splits)
  obtain l' where l': "(etcd_leader name s' :: (etcd_error, _) res) = Ok (revision s', l')" "l' = None \<longleftrightarrow> candidates name s' = {}"
    using etcd_leader_least(2) [OF inv' assms(2)] by blast
  moreover have "l' = Some x \<Longrightarrow> least_entry create_revision (candidates name s') (kv_key x, x)" for x
    using etcd_leader_least(1) [OF inv' assms(2)] l'(1) by blast
  ultimately show ?thesis using c l by (auto split: option.split)
qed

text \<open>An election \<open>e\<close> won by lease 7, which lease 8 may enter.\<close>

definition granted_store :: "nat etcd" where
  "granted_store = \<lparr>revision = 2, kv = [], leases = [(7, lease_new 9), (8, lease_new 9)], watcher = [], chans = 0\<rparr>"

definition elected_store :: "nat etcd" where
  "elected_store = \<lparr>revision = 3,
     kv = [(election_key [101] 7, \<lparr>kv_key = election_key [101] 7, kv_value = [1], kv_lease = 7,
              create_revision = 3, modify_revision = 3\<rparr>)],
     leases = [(7, \<lparr>ttl = 9, granted_ttl = 9, lease_keys = [election_key [101] 7]\<rparr>), (8, lease_new 9)],
     watcher = [], chans = 0\<rparr>"

lemma election_keys: "election_key [101] 8 \<noteq> election_key [101] 7" "good_name [101]" "prefix [101] (election_key [101] i)"
  "[101] \<le> election_key [101] i" "election_key [101] i < [102]"
  by (simp_all add: election_key_def hex16_def hex_digit_def good_name_def upt_rec)

lemma elected_store_reachable: "etcd_reachable free_chans elected_store"
proof -
  let ?s1 = "\<lparr>revision = 1, kv = [], leases = [(7, lease_new 9)], watcher = [], chans = 0\<rparr> :: nat etcd"
  have "lease_grant 9 7 [] (etcd_default 0) = Some (Ok (1, 7, 9), ?s1)"
    by (simp add: lease_grant_def insert_lease_def etcd_default_def)
  then have r1: "etcd_reachable free_chans ?s1" by (rule er_step [OF er_default es_grant])
  have "lease_grant 9 8 [] ?s1 = Some (Ok (2, 8, 9), granted_store)"
    by (simp add: lease_grant_def insert_lease_def granted_store_def)
  then have r2: "etcd_reachable free_chans granted_store" by (rule er_step [OF r1 es_grant])
  have "etcd_campaign free_chans [101] [1] 7 granted_store = (Ok (Elected \<lparr>lk_name = [101], lk_key = election_key [101] 7,
      lk_rev = 3, lk_lease = 7\<rparr>), elected_store)"
    by (simp add: etcd_campaign_def campaign_put_def granted_store_def elected_store_def attach_def upd_lease_def keys_insert_def
        lease_new_def publish_def etcd_leader_def get_prefix_range_def bt_range_def min_by_key_def election_keys Let_def)
  moreover have "tame_campaign [101] 7 granted_store" by (simp add: tame_campaign_def granted_store_def)
  ultimately show ?thesis by (intro er_step [OF r2 es_campaign])
qed

definition winner :: key_value where
  "winner = \<lparr>kv_key = election_key [101] 7, kv_value = [1], kv_lease = 7, create_revision = 3, modify_revision = 3\<rparr>"

lemma elected_store_leader: "etcd_leader [101] elected_store = Ok (revision elected_store, Some winner)"
  by (simp add: etcd_leader_def elected_store_def get_prefix_range_def bt_range_def min_by_key_def election_keys winner_def)


theorem etcd_resign_passes_on_witness:
  "\<exists>r s' l'. etcd_resign free_chans \<lparr>lk_name = [101], lk_key = election_key [101] 7, lk_rev = 3, lk_lease = 7\<rparr> elected_store = (Ok r, s') \<and>
     (etcd_leader [101] s' :: (etcd_error, _) res) = Ok (revision s', l')"
proof -
  let ?l = "\<lparr>lk_name = [101], lk_key = election_key [101] 7, lk_rev = 3, lk_lease = 7\<rparr>"
  obtain r s' where c: "etcd_resign free_chans ?l elected_store = (Ok r, s')"
    by (simp add: etcd_resign_def elected_store_def detach_def Let_def)
  have "lk_key ?l = kv_key winner" by (simp add: winner_def)
  from etcd_resign_passes_on [OF elected_store_reachable election_keys(2) elected_store_leader this c] c show ?thesis by blast
qed

end
