(* ===== verification/EtcdClient.thy ===== *)
theory EtcdClient
  imports Service EtcdElection
begin

section \<open>The clients of etcd\<close>

text \<open>
  The service behind the loop of \<open>Service\<close>: what executing a request means (\<open>server.rs\<close>), the requests that the methods of the clients
  send (\<open>kv.rs\<close>, \<open>lease.rs\<close>, \<open>election.rs\<close>, \<open>maintenance.rs\<close>), and what they make of the answer, the \<open>Result\<close> that the server boxes.
\<close>

text \<open>The requests that are executed in one go.  The others, which wait or stream, change the state as \<open>etcd_other\<close>, as do the ticks of
  the lease clock.\<close>

fun one_shot :: "request \<Rightarrow> bool" where
  "one_shot (RqLeaseKeepAlive i) = False"
| "one_shot (RqCampaign n v i) = False"
| "one_shot (RqObserve n) = False"
| "one_shot _ = True"

definition etcd_exec :: "'c mpsc_ops \<Rightarrow> 'r rng_ops \<Rightarrow> real \<Rightarrow> request \<Rightarrow> 'c etcd \<Rightarrow> (etcd_error, response) res option \<Rightarrow> 'c etcd \<Rightarrow> bool" where
  "etcd_exec M R rate q s a s' \<longleftrightarrow>
     one_shot q \<and> (\<exists>rnds r d x r'. etcd_serve M R rate rnds q s r = (Some (d, x, s'), r') \<and> result_exec x a)"

definition etcd_other :: "'c mpsc_ops \<Rightarrow> 'r rng_ops \<Rightarrow> real \<Rightarrow> 'c etcd \<Rightarrow> 'c etcd \<Rightarrow> bool" where
  "etcd_other M R rate s s' \<longleftrightarrow>
     s' = snd (etcd_tick M s) \<or>
     (\<exists>q rnds r d x r'. \<not> one_shot q \<and> etcd_serve M R rate rnds q s r = (Some (d, x, s'), r'))"

text \<open>The requests of \<open>KvClient\<close>, \<open>LeaseClient\<close>, \<open>ElectionClient\<close> and \<open>MaintenanceClient\<close>.\<close>

definition kv_put :: "bytes \<Rightarrow> bytes \<Rightarrow> put_options option \<Rightarrow> request" where
  "kv_put k v opts = RqPut k v (case opts of None \<Rightarrow> put_options_new | Some p \<Rightarrow> p)"

definition kv_get :: "bytes \<Rightarrow> get_options option \<Rightarrow> request" where
  "kv_get k opts = RqGet k (case opts of None \<Rightarrow> get_options_default | Some g \<Rightarrow> g)"

definition kv_delete :: "bytes \<Rightarrow> request" where
  "kv_delete k = RqDelete k"

definition kv_txn :: "txn \<Rightarrow> request" where
  "kv_txn t = RqTxn t"

definition lease_client_grant :: "int \<Rightarrow> lease_id option \<Rightarrow> request" where
  "lease_client_grant t opts = RqLeaseGrant t (case opts of None \<Rightarrow> 0 | Some i \<Rightarrow> i)"

definition lease_client_revoke :: "lease_id \<Rightarrow> request" where
  "lease_client_revoke i = RqLeaseRevoke i"

definition lease_client_time_to_live :: "lease_id \<Rightarrow> bool option \<Rightarrow> request" where
  "lease_client_time_to_live i opts = RqLeaseTimeToLive i (opts = Some True)"

definition lease_client_leases :: request where
  "lease_client_leases = RqLeaseLeases"

definition election_campaign :: "bytes \<Rightarrow> bytes \<Rightarrow> lease_id \<Rightarrow> request" where
  "election_campaign n v i = RqCampaign n v i"

definition election_proclaim :: "bytes \<Rightarrow> leader_key option option \<Rightarrow> ('e, request) res" where
  "election_proclaim v opts =
     bind_res (expect ''no leader key'' opts) (\<lambda>l. bind_res (expect ''no leader key'' l) (\<lambda>l. Ok (RqProclaim l v)))"

definition election_leader :: "bytes \<Rightarrow> request" where
  "election_leader n = RqLeader n"

definition election_observe :: "bytes \<Rightarrow> request" where
  "election_observe n = RqObserve n"

definition election_resign :: "leader_key option option \<Rightarrow> ('e, request) res" where
  "election_resign opts = bind_res (expect ''no leader key'' opts) (\<lambda>l. bind_res (expect ''no leader key'' l) (\<lambda>l. Ok (RqResign l)))"

definition maintenance_status :: request where
  "maintenance_status = RqStatus"

text \<open>The type that the client downcasts the answer of each request to, and the type of a response.\<close>

datatype response_type =
    PutResponse | GetResponse | DeleteResponse | TxnResponse | LeaseGrantResponse
  | LeaseRevokeResponse | LeaseKeepAliveResponse | LeaseTimeToLiveResponse | LeaseLeasesResponse | CampaignResponse
  | ProclaimResponse | LeaderResponse | ObserveResponse | ResignResponse | StatusResponse

primrec expected_type :: "request \<Rightarrow> response_type" where
  "expected_type (RqPut k v p) = PutResponse"
| "expected_type (RqGet k g) = GetResponse"
| "expected_type (RqDelete k) = DeleteResponse"
| "expected_type (RqTxn t) = TxnResponse"
| "expected_type (RqLeaseGrant t i) = LeaseGrantResponse"
| "expected_type (RqLeaseRevoke i) = LeaseRevokeResponse"
| "expected_type (RqLeaseKeepAlive i) = LeaseKeepAliveResponse"
| "expected_type (RqLeaseTimeToLive i b) = LeaseTimeToLiveResponse"
| "expected_type RqLeaseLeases = LeaseLeasesResponse"
| "expected_type (RqCampaign n v i) = CampaignResponse"
| "expected_type (RqProclaim l v) = ProclaimResponse"
| "expected_type (RqLeader n) = LeaderResponse"
| "expected_type (RqObserve n) = ObserveResponse"
| "expected_type (RqResign l) = ResignResponse"
| "expected_type RqStatus = StatusResponse"

primrec type_of_response :: "response \<Rightarrow> response_type" where
  "type_of_response (SPut x) = PutResponse"
| "type_of_response (SGet x) = GetResponse"
| "type_of_response (SDelete x) = DeleteResponse"
| "type_of_response (STxn x) = TxnResponse"
| "type_of_response (SLeaseGrant x) = LeaseGrantResponse"
| "type_of_response (SLeaseRevoke x) = LeaseRevokeResponse"
| "type_of_response (SLeaseKeepAlive x) = LeaseKeepAliveResponse"
| "type_of_response (SLeaseTimeToLive x) = LeaseTimeToLiveResponse"
| "type_of_response (SLeaseLeases x) = LeaseLeasesResponse"
| "type_of_response (SCampaign x) = CampaignResponse"
| "type_of_response (SProclaim x) = ProclaimResponse"
| "type_of_response (SLeader x) = LeaderResponse"
| "type_of_response (SObserve x) = ObserveResponse"
| "type_of_response (SResign x) = ResignResponse"
| "type_of_response (SStatus x) = StatusResponse"

definition answers :: "request \<Rightarrow> response \<Rightarrow> bool" where
  "answers q r \<longleftrightarrow> type_of_response r = expected_type q"

datatype client_error = IoError io_error | GRpcStatus etcd_error

definition etcd_client_result :: "request \<Rightarrow> (etcd_error, response) res option \<Rightarrow> (client_error, response) res" where
  "etcd_client_result q x =
     (case x of
        None \<Rightarrow> Err (IoError ConnectionReset)
      | Some (Ok r) \<Rightarrow> if answers q r then Ok r else Panic ''called `Result::unwrap()` on an `Err` value''
      | Some (Err e) \<Rightarrow> Err (GRpcStatus e)
      | Some (Panic m) \<Rightarrow> Panic m)"

lemma st_map_Ok: "st_map f m = (Ok r, s') \<Longrightarrow> \<exists>a. r = f a"
  by (auto simp: st_map_def st_bind_Ok_iff)

lemma dispatch_answers: "dispatch M rnds q s = Some (Ok r, s') \<Longrightarrow> answers q r"
  by (cases q) (auto simp: answers_def dest!: st_map_Ok)

lemma etcd_exec_answers:
  assumes "etcd_exec M R rate q s (Some (Ok r)) s'"
  shows "answers q r"
  using assms dispatch_answers
  by (auto simp: etcd_exec_def etcd_serve_def result_exec_def Let_def split: if_splits option.splits prod.splits)

text \<open>
  C26: concurrent clients of etcd see a sequential store.  However the requests of any number of clients interleave, with each other,
  with ticks and with campaigns, over any network: there is one history, legal for the store executing one request after the
  other, in which every call that returned occurs exactly once, between its begin and its return, with the answer it returned.
\<close>

theorem etcd_linearizable:
  assumes "svc_reachable (svc_net R T (etcd_exec M R' rate) (etcd_other M R' rate)) s0 s"
  shows "linearizable (svc_net R T (etcd_exec M R' rate) (etcd_other M R' rate)) s0 s"
  by (rule snet.reachable_linearizable[OF assms])


lemma etcd_exec_put:
  "etcd_exec free_chans const_rng 0 (kv_put [97] [1] None) (etcd_default 0) (Some (Ok (SPut \<lparr>pr_revision = 1, pr_prev_kv = None\<rparr>)))
     (snd (etcd_put free_chans [97] [1] put_options_new (etcd_default 0)))"
  by (auto simp: etcd_exec_def etcd_serve_def etcd_timeout_def const_rng_def kv_put_def max_request_bytes_def result_exec_def
      st_map_def st_bind_def etcd_put_def etcd_default_def put_options_new_def Let_def)

text \<open>A run with one put.\<close>

lemma etcd_one_put:
  "\<exists>s c. svc_reachable (good_net (etcd_exec free_chans const_rng 0) (etcd_other free_chans const_rng 0)) (etcd_default 0) s \<and>
     sv_calls s = [c] \<and> cc_req c = kv_put [97] [1] None \<and> cc_start c = 0 \<and>
     cc_caller c = Returned (Ok (SPut \<lparr>pr_revision = 1, pr_prev_kv = None\<rparr>)) 1 \<and>
     sv_log s = [Executed 0 (kv_put [97] [1] None) (Some (Ok (SPut \<lparr>pr_revision = 1, pr_prev_kv = None\<rparr>)))]"
proof -
  let ?s0 = "svc_start (etcd_default 0)"
  have "etcd_exec free_chans const_rng 0 (kv_put [97] [1] None) (sv_state ?s0) (Some (Ok (SPut \<lparr>pr_revision = 1, pr_prev_kv = None\<rparr>)))
      (snd (etcd_put free_chans [97] [1] put_options_new (etcd_default 0)))"
    using etcd_exec_put by (simp add: svc_start_def)
  from solo_call[where exec = "etcd_exec free_chans const_rng 0" and other = "etcd_other free_chans const_rng 0", OF svc_init this]
  show ?thesis by (fastforce simp: svc_start_def)
qed

theorem etcd_linearizable_witness:
  "\<exists>s. linearizable (good_net (etcd_exec free_chans const_rng 0) (etcd_other free_chans const_rng 0)) (etcd_default 0) s \<and>
     sv_log s = [Executed 0 (kv_put [97] [1] None) (Some (Ok (SPut \<lparr>pr_revision = 1, pr_prev_kv = None\<rparr>)))]"
  using etcd_one_put etcd_linearizable by blast


subsection \<open>Revisions\<close>

text \<open>The revision in the header of a response.\<close>

primrec header_revision :: "response \<Rightarrow> int" where
  "header_revision (SPut r) = pr_revision r"
| "header_revision (SGet r) = gr_revision r"
| "header_revision (SDelete r) = dr_revision r"
| "header_revision (STxn r) = tr_revision r"
| "header_revision (SLeaseGrant r) = fst r"
| "header_revision (SLeaseRevoke r) = r"
| "header_revision (SLeaseKeepAlive r) = fst r"
| "header_revision (SLeaseTimeToLive r) = fst r"
| "header_revision (SLeaseLeases r) = fst r"
| "header_revision (SCampaign r) = (case r of Elected l \<Rightarrow> lk_rev l | Waiting k rx \<Rightarrow> 0)"
| "header_revision (SProclaim r) = r"
| "header_revision (SLeader r) = fst r"
| "header_revision (SObserve r) = fst (fst r)"
| "header_revision (SResign r) = r"
| "header_revision (SStatus r) = r"

text \<open>An outcome of a store at revision \<open>n\<close> has not turned the revision back.\<close>

definition not_back :: "int \<Rightarrow> ('c, 'a) etcd_result \<Rightarrow> bool" where
  "not_back n m \<longleftrightarrow> n \<le> revision (snd m)"

lemma not_back_simps [simp]: "not_back n (x, s) \<longleftrightarrow> n \<le> revision s"
  by (simp add: not_back_def)

lemma not_back_bind:
  assumes "not_back n m" "\<And>a s. m = (Ok a, s) \<Longrightarrow> n \<le> revision s \<Longrightarrow> not_back n (f a s)"
  shows "not_back n (st_bind m f)"
  using assms by (cases m; cases "fst m") (auto simp: st_bind_def not_back_def)

lemma not_back_map: "not_back n m \<Longrightarrow> not_back n (st_map f m)"
  unfolding st_map_def by (rule not_back_bind) auto

lemma attach_not_back: "n \<le> revision s \<Longrightarrow> not_back n (attach i k s)" "n \<le> revision s \<Longrightarrow> not_back n (detach i k s)"
  by (auto simp: attach_def detach_def split: option.split)

lemma put_not_back: "n \<le> revision s \<Longrightarrow> not_back n (etcd_put M k v p s)"
  unfolding etcd_put_def Let_def
  by (intro not_back_bind) (auto intro: attach_not_back split: option.split)

lemma delete_not_back: "n \<le> revision s \<Longrightarrow> not_back n (etcd_delete M k s)"
  unfolding etcd_delete_def Let_def
  by (auto intro!: not_back_bind attach_not_back split: option.split)

lemma expect_put_not_back: "not_back n m \<Longrightarrow> not_back n (expect_put m)"
  by (cases m; cases "fst m") (auto simp: expect_put_def)

lemma txn_not_back:
  "n \<le> revision s \<Longrightarrow> not_back n (etcd_txn M t s)"
  "n \<le> revision s \<Longrightarrow> not_back n (txn_ops M ts s)"
  "n \<le> revision s \<Longrightarrow> not_back n (txn_op M u s)"
  by (induction M t s and M ts s and M u s arbitrary: n and n and n rule: etcd_txn_txn_ops_txn_op.induct)
    (auto simp: Let_def intro!: not_back_bind put_not_back delete_not_back expect_put_not_back)

lemma expire_not_back: "n \<le> revision s \<Longrightarrow> not_back n (expire_keys M ks s)"
  by (induction ks arbitrary: s) (auto split: option.split)

lemma lease_not_back:
  "n \<le> revision s \<Longrightarrow> not_back n (lease_revoke M i s)"
  "n \<le> revision s \<Longrightarrow> not_back n (lease_keep_alive i s)"
  "n \<le> revision s \<Longrightarrow> lease_grant t i rnds s = Some m \<Longrightarrow> not_back n m"
  by (auto simp: lease_revoke_def lease_keep_alive_def lease_grant_def insert_lease_def Let_def
      intro!: not_back_bind expire_not_back split: option.splits if_splits res.splits)

lemma tick_loop_not_back: "n \<le> revision s \<Longrightarrow> not_back n (tick_loop M ls kept s)"
  by (induction ls arbitrary: kept s) (auto simp: Let_def intro!: not_back_bind expire_not_back)

lemma tick_not_back: "n \<le> revision s \<Longrightarrow> not_back n (etcd_tick M s)"
  unfolding etcd_tick_def Let_def by (intro not_back_bind tick_loop_not_back) auto

lemma election_not_back:
  "n \<le> revision s \<Longrightarrow> not_back n (etcd_campaign M name v i s)"
  "n \<le> revision s \<Longrightarrow> not_back n (etcd_proclaim M l v s)"
  "n \<le> revision s \<Longrightarrow> not_back n (etcd_observe M name s)"
  "n \<le> revision s \<Longrightarrow> not_back n (etcd_resign M l s)"
  unfolding etcd_campaign_def campaign_put_def etcd_proclaim_def etcd_observe_def etcd_resign_def Let_def subscribe_def
  by (auto intro!: not_back_bind attach_not_back split: option.split prod.split)

lemma dispatch_not_back:
  assumes "n \<le> revision s" "dispatch M rnds q s = Some m"
  shows "not_back n m"
  using assms
  by (cases q) (auto intro!: not_back_map intro: put_not_back delete_not_back txn_not_back lease_not_back election_not_back)

lemma etcd_serve_cases:
  assumes "etcd_serve M R rate rnds q s r = (Some (d, x, s'), r')"
  shows "dispatch M rnds q s = Some (x, s') \<or> s' = s \<and> (\<exists>e. x = Err e)"
  using assms by (auto simp: etcd_serve_def Let_def split: if_splits option.splits prod.splits)

text \<open>The header of a response tells the revision that the request has left; a put has increased it by one.\<close>

lemma txn_revision: "etcd_txn M t s = (Ok r, s') \<Longrightarrow> tr_revision r = revision s'"
  by (cases t) (auto simp: Let_def st_bind_Ok_iff)

lemma dispatch_revision:
  assumes "dispatch M rnds q s = Some (Ok r, s')" "one_shot q"
  shows "header_revision r = revision s'"
  using assms txn_revision[of M _ s _ s']
  by (cases q) (auto simp: st_map_def st_bind_Ok_iff etcd_put_def etcd_get_def etcd_delete_def lease_grant_def insert_lease_def
      lease_revoke_def lease_time_to_live_def lease_leases_def etcd_proclaim_def etcd_leader_def etcd_resign_def etcd_status_def Let_def
      split: if_splits option.splits res.splits)

lemma put_revision: "etcd_put M k v p s = (Ok r, s') \<Longrightarrow> revision s' = revision s + 1"
  by (auto simp: etcd_put_def Let_def st_bind_Ok_iff attach_def detach_def split: if_splits option.splits)

lemma entry_not_back:
  assumes "entry_step (svc_net R T (etcd_exec M R' rate) (etcd_other M R' rate)) e s s'" "n \<le> revision s"
  shows "n \<le> revision s'"
proof -
  have serve: "n \<le> revision s'" if "etcd_serve M R' rate rnds q s r = (Some (d, x, s'), r')" for rnds q r d x r'
    using etcd_serve_cases[OF that] dispatch_not_back[OF assms(2), of M rnds q "(x, s')"] assms(2) by auto
  moreover have "n \<le> revision (snd (etcd_tick M s))" using tick_not_back[OF assms(2), of M] by (simp add: not_back_def)
  ultimately show ?thesis
    using assms(1) by (cases e) (auto simp: svc_net_def etcd_exec_def etcd_other_def)
qed

lemma exec_revision:
  assumes "etcd_exec M R rate q s (Some (Ok r)) s'"
  shows "header_revision r = revision s'" "revision s \<le> revision s'" "q = kv_put k v p \<Longrightarrow> revision s < revision s'"
proof -
  obtain rnds d r0 r1 where one: "one_shot q" "etcd_serve M R rate rnds q s r0 = (Some (d, Ok r, s'), r1)"
    using assms by (auto simp: etcd_exec_def result_exec_def split: if_splits)
  have d: "dispatch M rnds q s = Some (Ok r, s')" using etcd_serve_cases[OF one(2)] by simp
  show "header_revision r = revision s'" by (rule dispatch_revision[OF d one(1)])
  show "revision s \<le> revision s'" using dispatch_not_back[OF order_refl d] by simp
  show "revision s < revision s'" if "q = kv_put k v p"
    using d put_revision[of M k v _ s] that by (auto simp: kv_put_def st_map_def st_bind_Ok_iff)
qed

text \<open>
  C28: etcd clients see time go forward.  Among any number of concurrent clients, over any network: a call that begins after another has
  returned is answered with a revision that is not smaller, and with a greater one if it is a put.
\<close>

theorem etcd_revisions_ordered:
  assumes "svc_reachable (svc_net R T (etcd_exec M R' rate) (etcd_other M R' rate)) s0 s"
    and "i < length (sv_calls s)" "cc_caller (sv_calls s ! i) = Returned (Ok r) n"
    and "j < length (sv_calls s)" "cc_caller (sv_calls s ! j) = Returned (Ok r') m" "n \<le> cc_start (sv_calls s ! j)"
  shows "header_revision r \<le> header_revision r' \<and> (cc_req (sv_calls s ! j) = kv_put k v p \<longrightarrow> header_revision r < header_revision r')"
proof -
  let ?E = "svc_net R T (etcd_exec M R' rate) (etcd_other M R' rate)"
  have "linearizable ?E s0 s" by (rule snet.reachable_linearizable[OF assms(1)])
  then obtain s1 s2 mid s3 s4 where l: "se_exec ?E (cc_req (sv_calls s ! i)) s1 (Some (Ok r)) s2" "legal ?E s2 mid s3"
    "se_exec ?E (cc_req (sv_calls s ! j)) s3 (Some (Ok r')) s4" by (rule linearized_after[OF _ assms(2-6)])
  have "revision s2 \<le> revision s3"
    by (rule legal_keeps[where P = "\<lambda>s. revision s2 \<le> revision s", OF l(2)]) (auto intro: entry_not_back)
  moreover have e: "etcd_exec M R' rate (cc_req (sv_calls s ! i)) s1 (Some (Ok r)) s2"
    "etcd_exec M R' rate (cc_req (sv_calls s ! j)) s3 (Some (Ok r')) s4"
    using l(1,3) by (simp_all add: svc_net_def)
  ultimately show ?thesis using exec_revision(1)[OF e(1)] exec_revision[OF e(2)] by fastforce
qed

theorem etcd_revisions_ordered_witness:
  "\<exists>s r r' m. svc_reachable (good_net (etcd_exec free_chans const_rng 0) (etcd_other free_chans const_rng 0)) (etcd_default 0) s \<and>
     cc_req (sv_calls s ! 0) = maintenance_status \<and> cc_caller (sv_calls s ! 0) = Returned (Ok r) 1 \<and>
     cc_req (sv_calls s ! 1) = kv_put [97] [1] None \<and> cc_caller (sv_calls s ! 1) = Returned (Ok r') m \<and>
     header_revision r < header_revision r'"
proof -
  let ?E = "good_net (etcd_exec free_chans const_rng 0) (etcd_other free_chans const_rng 0)" and ?q = "kv_put [97] [1] None"
    and ?s0 = "svc_start (etcd_default 0)" and ?a = "SPut \<lparr>pr_revision = 1, pr_prev_kv = None\<rparr>"
  note solo = solo_call[where exec = "etcd_exec free_chans const_rng 0" and other = "etcd_other free_chans const_rng 0"]
  have "etcd_exec free_chans const_rng 0 maintenance_status (sv_state ?s0) (Some (Ok (SStatus 0))) (etcd_default 0)"
    by (auto simp: etcd_exec_def etcd_serve_def etcd_timeout_def const_rng_def maintenance_status_def svc_start_def max_request_bytes_def
        result_exec_def etcd_status_def etcd_default_def)
  from solo[OF svc_init this] obtain c where c: "cc_req c = maintenance_status" "cc_caller c = Returned (Ok (SStatus 0)) 1"
    and r: "svc_reachable ?E (etcd_default 0) (?s0\<lparr>sv_calls := [c], sv_log := [Executed 0 maintenance_status (Some (Ok (SStatus 0)))]\<rparr>)"
    (is "svc_reachable _ _ ?t") by (auto simp: svc_start_def)
  have "etcd_exec free_chans const_rng 0 ?q (sv_state ?t) (Some (Ok ?a)) (snd (etcd_put free_chans [97] [1] put_options_new (etcd_default 0)))"
    by (simp add: etcd_exec_put svc_start_def)
  from solo[OF r this] obtain c' where c': "cc_req c' = ?q" "cc_start c' = 1" "cc_caller c' = Returned (Ok ?a) 2"
    and r': "svc_reachable ?E (etcd_default 0) (?t\<lparr>sv_calls := [c, c'],
      sv_state := snd (etcd_put free_chans [97] [1] put_options_new (etcd_default 0)),
      sv_log := [Executed 0 maintenance_status (Some (Ok (SStatus 0))), Executed 1 ?q (Some (Ok ?a))]\<rparr>)"
    (is "svc_reachable _ _ ?u") by auto
  have "header_revision (SStatus 0) < header_revision ?a"
    using etcd_revisions_ordered[OF r', of 0 "SStatus 0" 1 1 ?a 2 "[97]" "[1]" None] c c' by simp
  then show ?thesis using r' c c'
    by (intro exI[of _ ?u] exI[of _ "SStatus 0"] exI[of _ ?a] exI[of _ 2]) simp
qed

end
