(* ===== verification/EtcdStream.thy ===== *)
theory EtcdStream
  imports EtcdClient
begin

section \<open>The keep-alive stream of etcd\<close>

text \<open>
  \<open>LeaseClient::keep_alive\<close> opens a connection that stays: the keeper sends requests on it and the stream receives responses
  (\<open>lease.rs\<close>), and the task of the server loops between executing the request and receiving the next one (\<open>server.rs\<close>).  \<open>q\<close> is
  the request, \<open>good\<close> tells the responses that are not errors.  The loop executes the request that it received first.
\<close>

datatype stream_client = Opening | Confirming | Open | Closed

datatype ('q, 'a) stream_task = Before | Handling 'q | Replying 'q 'a | Between 'q | Ended

text \<open>What has happened: requests of this stream, their executions (\<open>None\<close> is a panic), and other changes of the store.\<close>

datatype 'a stream_event = Asked | Answered "'a option" | Changed

record ('q, 'a, 'u, 'd, 's) stream_sys =
  ks_up :: 'u
  ks_down :: 'd
  ks_client :: stream_client
  ks_heard :: "'a list"
  ks_task :: "('q, 'a) stream_task"
  ks_state :: 's
  ks_log :: "'a stream_event list"

definition stream_start :: "'u \<Rightarrow> 'd \<Rightarrow> 's \<Rightarrow> ('q, 'a, 'u, 'd, 's) stream_sys" where
  "stream_start u d s = \<lparr>ks_up = u, ks_down = d, ks_client = Opening, ks_heard = [], ks_task = Before, ks_state = s, ks_log = []\<rparr>"

text \<open>The end of the client, which drops keeper and stream; the end of the task.\<close>

definition stream_close :: "('q, 'a, 'u, 'd, 's) svc_env \<Rightarrow> ('q, 'a, 'u, 'd, 's) stream_sys \<Rightarrow> ('q, 'a, 'u, 'd, 's) stream_sys" where
  "stream_close E s = s\<lparr>ks_client := Closed, ks_up := se_up_shut E (ks_up s), ks_down := se_down_hang E (ks_down s)\<rparr>"

definition stream_end :: "('q, 'a, 'u, 'd, 's) svc_env \<Rightarrow> ('q, 'a, 'u, 'd, 's) stream_sys \<Rightarrow> ('q, 'a, 'u, 'd, 's) stream_sys" where
  "stream_end E s = s\<lparr>ks_task := Ended, ks_up := se_up_hang E (ks_up s), ks_down := se_down_shut E (ks_down s)\<rparr>"

inductive stream_step :: "('q, 'a, 'u, 'd, 's) svc_env \<Rightarrow> 'q \<Rightarrow> ('a \<Rightarrow> bool) \<Rightarrow> ('q, 'a, 'u, 'd, 's) stream_sys \<Rightarrow> ('q, 'a, 'u, 'd, 's) stream_sys \<Rightarrow> bool"
  for E q good where
  \<comment> \<open>\<open>keep_alive\<close> of the client: a first request and its response\<close>
  k_open: "ks_client s = Opening \<Longrightarrow> se_up_sends E q (ks_up s) u \<Longrightarrow>
    stream_step E q good s (s\<lparr>ks_client := Confirming, ks_up := u, ks_log := ks_log s @ [Asked]\<rparr>)"
| k_confirm: "ks_client s = Confirming \<Longrightarrow> se_down_receives E (ks_down s) (Ready (Some a)) d \<Longrightarrow> good a \<Longrightarrow>
    stream_step E q good s (s\<lparr>ks_client := Open, ks_down := d, ks_heard := ks_heard s @ [a]\<rparr>)"
| k_refused: "ks_client s = Confirming \<Longrightarrow> se_down_receives E (ks_down s) (Ready (Some a)) d \<Longrightarrow> \<not> good a \<Longrightarrow>
    stream_step E q good s (stream_close E (s\<lparr>ks_down := d, ks_heard := ks_heard s @ [a]\<rparr>))"
  \<comment> \<open>\<open>LeaseKeeper::keep_alive\<close>, \<open>LeaseKeepAliveStream::message\<close> and \<open>poll_next\<close>\<close>
| k_ask: "ks_client s = Open \<Longrightarrow> se_up_sends E q (ks_up s) u \<Longrightarrow>
    stream_step E q good s (s\<lparr>ks_up := u, ks_log := ks_log s @ [Asked]\<rparr>)"
| k_hear: "ks_client s = Open \<Longrightarrow> se_down_receives E (ks_down s) (Ready (Some a)) d \<Longrightarrow>
    stream_step E q good s (s\<lparr>ks_down := d, ks_heard := ks_heard s @ [a]\<rparr>)"
| k_cut: "ks_client s = Open \<Longrightarrow> se_down_receives E (ks_down s) (Ready None) d \<Longrightarrow> stream_step E q good s (s\<lparr>ks_down := d\<rparr>)"
| k_wait: "ks_client s \<in> {Confirming, Open} \<Longrightarrow> se_down_receives E (ks_down s) Pending d \<Longrightarrow> stream_step E q good s (s\<lparr>ks_down := d\<rparr>)"
| k_close: "stream_step E q good s (stream_close E s)"
  \<comment> \<open>the task of the server\<close>
| k_take: "ks_task s = Before \<Longrightarrow> se_up_receives E (ks_up s) (Ready (Some q')) u \<Longrightarrow>
    stream_step E q good s (s\<lparr>ks_up := u, ks_task := Handling q'\<rparr>)"
| k_exec: "ks_task s = Handling q' \<Longrightarrow> se_exec E q' (ks_state s) (Some a) s' \<Longrightarrow>
    stream_step E q good s (s\<lparr>ks_state := s', ks_task := Replying q' a, ks_log := ks_log s @ [Answered (Some a)]\<rparr>)"
| k_crash: "ks_task s = Handling q' \<Longrightarrow> se_exec E q' (ks_state s) None s' \<Longrightarrow>
    stream_step E q good s (stream_end E (s\<lparr>ks_state := s', ks_log := ks_log s @ [Answered None]\<rparr>))"
| k_reply: "ks_task s = Replying q' a \<Longrightarrow> se_down_sends E a (ks_down s) d \<Longrightarrow>
    stream_step E q good s (s\<lparr>ks_down := d, ks_task := Between q'\<rparr>)"
| k_next: "ks_task s = Between q' \<Longrightarrow> se_up_receives E (ks_up s) (Ready (Some q'')) u \<Longrightarrow>
    stream_step E q good s (s\<lparr>ks_up := u, ks_task := Handling q'\<rparr>)"
| k_task_wait: "ks_task s = Before \<or> ks_task s = Between q' \<Longrightarrow> se_up_receives E (ks_up s) Pending u \<Longrightarrow>
    stream_step E q good s (s\<lparr>ks_up := u\<rparr>)"
| k_end: "stream_step E q good s (stream_end E s)"
  \<comment> \<open>everything else in the store\<close>
| k_other: "se_other E (ks_state s) s' \<Longrightarrow> stream_step E q good s (s\<lparr>ks_state := s', ks_log := ks_log s @ [Changed]\<rparr>)"

inductive stream_reachable :: "('q, 'a, 'u, 'd, 's) svc_env \<Rightarrow> 'q \<Rightarrow> ('a \<Rightarrow> bool) \<Rightarrow> 's \<Rightarrow> ('q, 'a, 'u, 'd, 's) stream_sys \<Rightarrow> bool" for E q good s0 where
  ks_init: "se_up_new E u \<Longrightarrow> se_down_new E d \<Longrightarrow> stream_reachable E q good s0 (stream_start u d s0)"
| ks_next: "stream_reachable E q good s0 s \<Longrightarrow> stream_step E q good s s' \<Longrightarrow> stream_reachable E q good s0 s'"

subsection \<open>Requests and responses\<close>

definition answers_of :: "'a stream_event list \<Rightarrow> 'a list" where
  "answers_of es = List.map_filter (\<lambda>e. case e of Answered (Some a) \<Rightarrow> Some a | _ \<Rightarrow> None) es"

definition asked :: "'a stream_event list \<Rightarrow> nat" where
  "asked es = length (filter (\<lambda>e. e = Asked) es)"

definition handled :: "'a stream_event list \<Rightarrow> nat" where
  "handled es = length (filter (\<lambda>e. case e of Answered _ \<Rightarrow> True | _ \<Rightarrow> False) es)"

text \<open>No more executions than requests, at any time.\<close>

definition paired :: "'a stream_event list \<Rightarrow> bool" where
  "paired es \<longleftrightarrow> (\<forall>n \<le> length es. handled (take n es) \<le> asked (take n es))"

primrec event_step :: "('q, 'a, 'u, 'd, 's) svc_env \<Rightarrow> 'q \<Rightarrow> 'a stream_event \<Rightarrow> 's \<Rightarrow> 's \<Rightarrow> bool" where
  "event_step E q Asked = (=)"
| "event_step E q (Answered r) = (\<lambda>s. se_exec E q s r)"
| "event_step E q Changed = se_other E"

primrec stream_legal :: "('q, 'a, 'u, 'd, 's) svc_env \<Rightarrow> 'q \<Rightarrow> 's \<Rightarrow> 'a stream_event list \<Rightarrow> 's \<Rightarrow> bool" where
  "stream_legal E q s [] s' \<longleftrightarrow> s' = s"
| "stream_legal E q s (e # es) s' \<longleftrightarrow> (\<exists>s1. event_step E q e s s1 \<and> stream_legal E q s1 es s')"

lemma stream_legal_snoc: "stream_legal E q s (es @ [e]) s' \<longleftrightarrow> (\<exists>s1. stream_legal E q s es s1 \<and> event_step E q e s1 s')"
  by (induction es arbitrary: s) auto

lemma log_simps [simp]:
  "answers_of [] = []" "asked [] = 0" "handled [] = 0"
  "answers_of (es @ [Asked]) = answers_of es" "answers_of (es @ [Changed]) = answers_of es"
  "answers_of (es @ [Answered None]) = answers_of es" "answers_of (es @ [Answered (Some a)]) = answers_of es @ [a]"
  "asked (es @ [Asked]) = Suc (asked es)" "asked (es @ [Changed]) = asked es" "asked (es @ [Answered r]) = asked es"
  "handled (es @ [Asked]) = handled es" "handled (es @ [Changed]) = handled es" "handled (es @ [Answered r]) = Suc (handled es)"
  by (simp_all add: answers_of_def asked_def handled_def map_filter_def)

lemma paired_snoc: "paired es \<Longrightarrow> handled (es @ [e]) \<le> asked (es @ [e]) \<Longrightarrow> paired (es @ [e])"
  by (auto simp: paired_def le_Suc_eq)

lemma paired_empty [simp]: "paired []"
  by (simp add: paired_def)

primrec task_ok :: "'q \<Rightarrow> ('q, 'a) stream_task \<Rightarrow> bool" where
  "task_ok q Before \<longleftrightarrow> True"
| "task_ok q (Handling q') \<longleftrightarrow> q' = q"
| "task_ok q (Replying q' a) \<longleftrightarrow> q' = q"
| "task_ok q (Between q') \<longleftrightarrow> q' = q"
| "task_ok q Ended \<longleftrightarrow> True"

primrec replying :: "('q, 'a) stream_task \<Rightarrow> 'a list" where
  "replying Before = []"
| "replying (Handling q) = []"
| "replying (Replying q a) = [a]"
| "replying (Between q) = []"
| "replying Ended = []"

primrec client_ok :: "('a \<Rightarrow> bool) \<Rightarrow> 'a list \<Rightarrow> stream_client \<Rightarrow> bool" where
  "client_ok good as Opening \<longleftrightarrow> as = []"
| "client_ok good as Confirming \<longleftrightarrow> as = []"
| "client_ok good as Open \<longleftrightarrow> (\<exists>a as'. as = a # as' \<and> good a)"
| "client_ok good as Closed \<longleftrightarrow> True"

definition handling :: "('q, 'a) stream_task \<Rightarrow> nat" where
  "handling t = (case t of Handling q \<Rightarrow> 1 | _ \<Rightarrow> 0)"

definition stream_inv :: "('q, 'a, 'u, 'd, 's) svc_env \<Rightarrow> 'q \<Rightarrow> ('a \<Rightarrow> bool) \<Rightarrow> ('u \<Rightarrow> 'q list) \<Rightarrow> ('d \<Rightarrow> 'a list) \<Rightarrow> 's \<Rightarrow> ('q, 'a, 'u, 'd, 's) stream_sys \<Rightarrow> bool" where
  "stream_inv E q good up down s0 s \<longleftrightarrow>
     stream_legal E q s0 (ks_log s) (ks_state s) \<and> paired (ks_log s) \<and>
     set (up (ks_up s)) \<subseteq> {q} \<and> task_ok q (ks_task s) \<and>
     handled (ks_log s) + handling (ks_task s) + length (up (ks_up s)) \<le> asked (ks_log s) \<and>
     (\<exists>lost. answers_of (ks_log s) = ks_heard s @ down (ks_down s) @ replying (ks_task s) @ lost \<and> (lost \<noteq> [] \<longrightarrow> ks_task s = Ended)) \<and>
     client_ok good (ks_heard s) (ks_client s)"

context service_link
begin

lemma stream_ends_inv:
  assumes "stream_inv E q good up down s0 s"
  shows "stream_inv E q good up down s0 (stream_close E s)" "stream_inv E q good up down s0 (stream_end E s)"
  using assms by (auto simp: stream_inv_def stream_close_def stream_end_def up_ends down_ends handling_def split: stream_task.splits)

lemma step_stream_inv:
  assumes "stream_step E q good s s'" "stream_inv E q good up down s0 s"
  shows "stream_inv E q good up down s0 s'"
  using assms(1)
proof cases
  case (k_open u)
  then show ?thesis using assms(2) up.content_sends[OF k_open(3)]
    by (auto simp: stream_inv_def stream_legal_snoc intro!: paired_snoc)
next
  case (k_confirm a d)
  then show ?thesis using assms(2) down.content_receives_Some[OF k_confirm(3)] by (fastforce simp: stream_inv_def)
next
  case (k_refused a d)
  have "stream_inv E q good up down s0 (s\<lparr>ks_client := Closed, ks_down := d, ks_heard := ks_heard s @ [a]\<rparr>)"
    using assms(2) down.content_receives_Some[OF k_refused(3)] by (fastforce simp: stream_inv_def)
  from stream_ends_inv(1)[OF this] show ?thesis using k_refused(1) by (simp add: stream_close_def)
next
  case (k_ask u)
  then show ?thesis using assms(2) up.content_sends[OF k_ask(3)]
    by (auto simp: stream_inv_def stream_legal_snoc intro!: paired_snoc)
next
  case (k_hear a d)
  then show ?thesis using assms(2) down.content_receives_Some[OF k_hear(3)] by (fastforce simp: stream_inv_def)
next
  case (k_cut d)
  then show ?thesis using assms(2) down.content_receives_None[OF k_cut(3)] by (simp add: stream_inv_def)
next
  case (k_wait d)
  then show ?thesis using assms(2) down.content_receives_Pending[OF k_wait(3)] by (simp add: stream_inv_def)
next
  case k_close
  then show ?thesis using stream_ends_inv(1)[OF assms(2)] by simp
next
  case (k_take q' u)
  then show ?thesis using assms(2) up.content_receives_Some[OF k_take(3)] by (auto simp: stream_inv_def handling_def)
next
  case (k_exec q' a s1)
  then show ?thesis using assms(2)
    by (auto simp: stream_inv_def stream_legal_snoc handling_def intro!: paired_snoc)
next
  case (k_crash q' s1)
  then have "stream_inv E q good up down s0 (s\<lparr>ks_task := Ended, ks_state := s1, ks_log := ks_log s @ [Answered None]\<rparr>)"
    using assms(2) by (auto simp: stream_inv_def stream_legal_snoc handling_def intro!: paired_snoc)
  from stream_ends_inv(2)[OF this] show ?thesis using k_crash(1) by (simp add: stream_end_def)
next
  case (k_reply q' a d)
  then show ?thesis using assms(2) down.content_sends[OF k_reply(3)] by (auto simp: stream_inv_def handling_def)
next
  case (k_next q' q'' u)
  then show ?thesis using assms(2) up.content_receives_Some[OF k_next(3)] by (auto simp: stream_inv_def handling_def)
next
  case (k_task_wait q' u)
  then show ?thesis using assms(2) up.content_receives_Pending[OF k_task_wait(3)] by (simp add: stream_inv_def)
next
  case k_end
  then show ?thesis using stream_ends_inv(2)[OF assms(2)] by simp
next
  case (k_other s1)
  then show ?thesis using assms(2) by (auto simp: stream_inv_def stream_legal_snoc intro!: paired_snoc)
qed

lemma reachable_stream_inv: "stream_reachable E q good s0 s \<Longrightarrow> stream_inv E q good up down s0 s"
proof (induction rule: stream_reachable.induct)
  case (ks_init u d)
  then show ?case using up_new down_new by (simp add: stream_inv_def stream_start_def handling_def)
next
  case (ks_next s s')
  then show ?case using step_stream_inv by blast
qed

end

text \<open>An answer in the log was given by the service.\<close>

lemma answers_of_exec:
  assumes "stream_legal E q s es s'" "a \<in> set (answers_of es)"
  shows "\<exists>s1 s2. se_exec E q s1 (Some a) s2"
  using assms
proof (induction es arbitrary: s)
  case (Cons e es)
  have "answers_of (e # es) = (case e of Answered (Some a) \<Rightarrow> [a] | _ \<Rightarrow> []) @ answers_of es"
    by (simp add: answers_of_def map_filter_def split: stream_event.split option.split)
  then show ?case using Cons by (auto split: stream_event.splits option.splits)
qed simp

subsection \<open>Keeping a lease of etcd alive\<close>

text \<open>The service executes the requests of the stream; whatever else the clients of the store do goes on beside it.\<close>

definition keep_alive_exec :: "'c mpsc_ops \<Rightarrow> 'r rng_ops \<Rightarrow> real \<Rightarrow> request \<Rightarrow> 'c etcd \<Rightarrow> (etcd_error, response) res option \<Rightarrow> 'c etcd \<Rightarrow> bool" where
  "keep_alive_exec M R rate q s a s' \<longleftrightarrow> (\<exists>rnds r d x r'. etcd_serve M R rate rnds q s r = (Some (d, x, s'), r') \<and> result_exec x a)"

definition keep_alive_other :: "'c mpsc_ops \<Rightarrow> 'r rng_ops \<Rightarrow> real \<Rightarrow> 'c etcd \<Rightarrow> 'c etcd \<Rightarrow> bool" where
  "keep_alive_other M R rate s s' \<longleftrightarrow> etcd_other M R rate s s' \<or> (\<exists>q a. etcd_exec M R rate q s a s')"

abbreviation lease_net where
  "lease_net R T M R' rate \<equiv> svc_net R T (keep_alive_exec M R' rate) (keep_alive_other M R' rate)"

definition keep_alive_request :: "lease_id \<Rightarrow> request" where
  "keep_alive_request i = RqLeaseKeepAlive i"

definition answered_ok :: "(etcd_error, response) res \<Rightarrow> bool" where
  "answered_ok a = (case a of Ok r \<Rightarrow> True | _ \<Rightarrow> False)"

lemma answered_okD: "answered_ok a \<Longrightarrow> \<exists>r. a = Ok r"
  by (cases a) (simp_all add: answered_ok_def)

lemma keep_alive_exec_typed:
  assumes "keep_alive_exec M R rate q s (Some a) s'"
  shows "\<not> is_panic (etcd_client_result q (Some a))"
proof -
  obtain rnds r d r' where e: "etcd_serve M R rate rnds q s r = (Some (d, a, s'), r')" "\<not> is_panic a"
    using assms by (auto simp: keep_alive_exec_def result_exec_def split: if_splits)
  have "answers q x" if "a = Ok x" for x using etcd_serve_cases[OF e(1)] dispatch_answers that by auto
  then show ?thesis using e(2) by (cases a) (auto simp: etcd_client_result_def)
qed

lemma keep_alive_refreshes:
  assumes "keep_alive_exec M R rate (keep_alive_request i) s (Some (Ok (SLeaseKeepAlive (v, j, t)))) s'"
  shows "j = i \<and> v = revision s' \<and> (\<exists>l. map_of (leases s') i = Some l \<and> ttl l = t \<and> granted_ttl l = t)"
proof -
  obtain rnds r d r' where "etcd_serve M R rate rnds (keep_alive_request i) s r = (Some (d, Ok (SLeaseKeepAlive (v, j, t)), s'), r')"
    using assms by (auto simp: keep_alive_exec_def result_exec_def split: if_splits)
  from etcd_serve_cases[OF this] have "lease_keep_alive i s = (Ok (v, j, t), s')"
    by (auto simp: keep_alive_request_def st_map_def st_bind_Ok_iff)
  then show ?thesis by (auto simp: lease_keep_alive_def Let_def map_of_upd_lease split: option.splits)
qed

text \<open>
  C30: a keep-alive stream of etcd is sound.  Over any network, and whatever other clients do: the responses that the stream yields are, in
  order and without gap, those of executions of its requests in one history of the store; at no time are there more executions than
  requests; the client has an open stream only after a first response that was no error, and never panics on one; and a response that is no
  error was given when the lease existed and its time to live had just been set to the granted one.
\<close>

theorem etcd_keep_alive_stream:
  assumes "stream_reachable (lease_net R T M R' rate) (keep_alive_request i) answered_ok s0 s"
  shows "(\<exists>rest. answers_of (ks_log s) = ks_heard s @ rest) \<and>
    stream_legal (lease_net R T M R' rate) (keep_alive_request i) s0 (ks_log s) (ks_state s) \<and>
    (\<forall>n \<le> length (ks_log s). handled (take n (ks_log s)) \<le> asked (take n (ks_log s))) \<and>
    (ks_client s = Open \<longrightarrow> (\<exists>r as. ks_heard s = Ok r # as)) \<and>
    (\<forall>a \<in> set (ks_heard s). \<not> is_panic (etcd_client_result (keep_alive_request i) (Some a))) \<and>
    (\<forall>s1 s2 v j t. event_step (lease_net R T M R' rate) (keep_alive_request i) (Answered (Some (Ok (SLeaseKeepAlive (v, j, t))))) s1 s2 \<longrightarrow>
       j = i \<and> v = revision s2 \<and> (\<exists>l. map_of (leases s2) i = Some l \<and> ttl l = t \<and> granted_ttl l = t))"
proof -
  have inv: "stream_inv (lease_net R T M R' rate) (keep_alive_request i) answered_ok in_flight in_flight s0 s"
    by (rule snet.reachable_stream_inv[OF assms])
  then obtain rest where a: "answers_of (ks_log s) = ks_heard s @ rest" by (auto simp: stream_inv_def)
  have legal: "stream_legal (lease_net R T M R' rate) (keep_alive_request i) s0 (ks_log s) (ks_state s)" "paired (ks_log s)"
    using inv by (simp_all add: stream_inv_def)
  have "\<not> is_panic (etcd_client_result (keep_alive_request i) (Some x))" if "x \<in> set (ks_heard s)" for x
  proof -
    have "x \<in> set (answers_of (ks_log s))" using a that by simp
    then show ?thesis using answers_of_exec[OF legal(1)] keep_alive_exec_typed by (fastforce simp: svc_net_def)
  qed
  moreover have "\<exists>r as. ks_heard s = Ok r # as" if "ks_client s = Open"
    using inv that answered_okD by (fastforce simp: stream_inv_def)
  ultimately show ?thesis using a legal keep_alive_refreshes by (fastforce simp: paired_def svc_net_def)
qed

text \<open>A stream for a lease with 2 of 5 seconds left, after its first response.\<close>

definition demo_leases :: "nat etcd" where
  "demo_leases = (etcd_default 0)\<lparr>leases := [(7, \<lparr>ttl = 2, granted_ttl = 5, lease_keys = []\<rparr>)]\<rparr>"

lemma first_round:
  fixes exec :: "'q \<Rightarrow> 's \<Rightarrow> 'a option \<Rightarrow> 's \<Rightarrow> bool"
  assumes "exec q s0 (Some a) s1" "good a"
  shows "\<exists>s. stream_reachable (good_net exec other) q good s0 s \<and> ks_client s = Open \<and> ks_heard s = [a] \<and>
    ks_log s = [Asked, Answered (Some a)] \<and> ks_state s = s1"
proof -
  define E where "E = good_net exec other"
  have op: "se_up_sends E = chan_sends const_rng" "se_down_sends E = chan_sends const_rng" "se_exec E = exec"
    "se_up_receives E = chan_receives const_rng (list_timer :: ((duration \<times> unit) list, unit) timer_ops)"
    "se_down_receives E = chan_receives const_rng (list_timer :: ((duration \<times> unit) list, unit) timer_ops)"
    by (simp_all add: E_def svc_net_def)
  let ?up = "mk_channel 1 (V4 2, 80) Udp :: 'q chan" and ?dn = "mk_channel 2 (V4 1, 80) Udp :: 'a chan"
  have new: "se_up_new E ?up" "se_down_new E ?dn" by (auto simp: E_def svc_net_def)
  note up = good_link[of ?up, simplified mk_channel_def, simplified, folded mk_channel_def]
    and dn = good_link[of ?dn, simplified mk_channel_def, simplified, folded mk_channel_def]
  let ?s = "\<lambda>u d c h t x l. \<lparr>ks_up = u, ks_down = d, ks_client = c, ks_heard = h, ks_task = t, ks_state = x, ks_log = l\<rparr>"
  note nx = ks_next[of E q good s0]
  have "stream_reachable E q good s0 (?s ?up ?dn Opening [] Before s0 [])"
    using ks_init[of E ?up ?dn q good s0] new by (simp add: stream_start_def)
  then have "stream_reachable E q good s0 (?s (sent_on q ?up) ?dn Confirming [] Before s0 [Asked])"
    by (rule nx) (use k_open[of "?s ?up ?dn Opening [] Before s0 []" E q "sent_on q ?up" good] up(1) op in \<open>simp\<close>)
  then have "stream_reachable E q good s0 (?s (arriving_on q ?up) ?dn Confirming [] Before s0 [Asked])"
    by (rule nx) (use k_task_wait[of "?s (sent_on q ?up) ?dn Confirming [] Before s0 [Asked]" q E "arriving_on q ?up" q good] up(2) op in \<open>simp\<close>)
  then have "stream_reachable E q good s0 (?s ?up ?dn Confirming [] (Handling q) s0 [Asked])"
    by (rule nx) (use k_take[of "?s (arriving_on q ?up) ?dn Confirming [] Before s0 [Asked]" E q ?up q good] up(3) op in \<open>simp\<close>)
  then have "stream_reachable E q good s0 (?s ?up ?dn Confirming [] (Replying q a) s1 [Asked, Answered (Some a)])"
    by (rule nx) (use k_exec[of "?s ?up ?dn Confirming [] (Handling q) s0 [Asked]" q E a s1 q good] assms(1) op in \<open>simp\<close>)
  then have "stream_reachable E q good s0 (?s ?up (sent_on a ?dn) Confirming [] (Between q) s1 [Asked, Answered (Some a)])"
    by (rule nx) (use k_reply[of "?s ?up ?dn Confirming [] (Replying q a) s1 [Asked, Answered (Some a)]" q a E "sent_on a ?dn" q good] dn(1) op in \<open>simp\<close>)
  then have "stream_reachable E q good s0 (?s ?up (arriving_on a ?dn) Confirming [] (Between q) s1 [Asked, Answered (Some a)])"
    by (rule nx) (use k_wait[of "?s ?up (sent_on a ?dn) Confirming [] (Between q) s1 [Asked, Answered (Some a)]" E "arriving_on a ?dn" q good] dn(2) op in \<open>simp\<close>)
  then have "stream_reachable E q good s0 (?s ?up ?dn Open [a] (Between q) s1 [Asked, Answered (Some a)])"
    by (rule nx) (use k_confirm[of "?s ?up (arriving_on a ?dn) Confirming [] (Between q) s1 [Asked, Answered (Some a)]" E a ?dn good q] dn(3) op assms(2) in \<open>simp\<close>)
  then show ?thesis unfolding E_def by (intro exI[of _ "?s ?up ?dn Open [a] (Between q) s1 [Asked, Answered (Some a)]"]) simp
qed

theorem etcd_keep_alive_stream_witness:
  "\<exists>s. stream_reachable (lease_net const_rng (list_timer :: ((duration \<times> unit) list, unit) timer_ops) free_chans const_rng 0) (keep_alive_request 7)
      answered_ok demo_leases s \<and> ks_client s = Open \<and> ks_heard s = [Ok (SLeaseKeepAlive (1, 7, 5))] \<and>
     \<not> is_panic (etcd_client_result (keep_alive_request 7) (Some (hd (ks_heard s))))"
proof -
  have "keep_alive_exec free_chans const_rng 0 (keep_alive_request 7) demo_leases (Some (Ok (SLeaseKeepAlive (1, 7, 5))))
      (snd (lease_keep_alive 7 demo_leases))"
    by (auto simp: keep_alive_exec_def etcd_serve_def etcd_timeout_def const_rng_def keep_alive_request_def max_request_bytes_def result_exec_def
      st_map_def st_bind_def lease_keep_alive_def demo_leases_def etcd_default_def Let_def)
  from first_round[where exec = "keep_alive_exec free_chans const_rng 0" and good = answered_ok and other = "keep_alive_other free_chans const_rng 0", OF this]
  obtain s where s: "stream_reachable (lease_net const_rng (list_timer :: ((duration \<times> unit) list, unit) timer_ops) free_chans const_rng 0)
      (keep_alive_request 7) answered_ok demo_leases s" "ks_client s = Open" "ks_heard s = [Ok (SLeaseKeepAlive (1, 7, 5))]"
    by (auto simp: answered_ok_def)
  then show ?thesis using etcd_keep_alive_stream[OF s(1)] by auto
qed

end
