(* ===== verification/EtcdObserve.thy ===== *)
theory EtcdObserve
  imports EtcdStream
begin

section \<open>Observing an election of etcd\<close>

text \<open>
  \<open>ElectionClient::observe\<close> and its stream (\<open>election.rs\<close>), and the task of the server that subscribes to the events of the election and
  sends the leader whenever it is another one (\<open>server.rs\<close>).  \<open>rcv rx\<close> is the receiver of the subscription, on the state of the
  channels: an event, the end when the sender has been dropped, or nothing yet.
\<close>

datatype observer_task =
    ObBefore
  | ObHandling request
  | ObFailed "(etcd_error, response) res"
  | ObWatching bytes nat "key_value option"
  | ObReporting bytes nat "key_value option" "(etcd_error, response) res"
  | ObEnded

text \<open>The leader that was read at the subscription and after each event, and other changes of the store.\<close>

datatype observer_event = ObRead int "key_value option" | ObChanged

record ('u, 'd, 'c) observer_sys =
  ob_up :: 'u
  ob_down :: 'd
  ob_client :: stream_client
  ob_heard :: "(etcd_error, response) res list"
  ob_task :: observer_task
  ob_state :: "'c etcd"
  ob_log :: "observer_event list"

definition observer_start :: "'u \<Rightarrow> 'd \<Rightarrow> 'c etcd \<Rightarrow> ('u, 'd, 'c) observer_sys" where
  "observer_start u d s = \<lparr>ob_up = u, ob_down = d, ob_client = Opening, ob_heard = [], ob_task = ObBefore, ob_state = s, ob_log = []\<rparr>"

definition observer_close :: "(request, (etcd_error, response) res, 'u, 'd, 's) svc_env \<Rightarrow> ('u, 'd, 'c) observer_sys \<Rightarrow> ('u, 'd, 'c) observer_sys" where
  "observer_close E s = s\<lparr>ob_client := Closed, ob_up := se_up_shut E (ob_up s), ob_down := se_down_hang E (ob_down s)\<rparr>"

definition observer_end :: "(request, (etcd_error, response) res, 'u, 'd, 's) svc_env \<Rightarrow> ('u, 'd, 'c) observer_sys \<Rightarrow> ('u, 'd, 'c) observer_sys" where
  "observer_end E s = s\<lparr>ob_task := ObEnded, ob_up := se_up_hang E (ob_up s), ob_down := se_down_shut E (ob_down s)\<rparr>"

text \<open>The task after an event: it reads the leader and compares its entry with the one it knows.\<close>

definition observer_wake :: "(request, (etcd_error, response) res, 'u, 'd, 's) svc_env \<Rightarrow> bytes \<Rightarrow> nat \<Rightarrow> key_value option \<Rightarrow> ('u, 'd, 'c) observer_sys
    \<Rightarrow> ('u, 'd, 'c) observer_sys" where
  "observer_wake E n rx l s =
     (case (etcd_leader n (ob_state s) :: (etcd_error, int \<times> key_value option) res) of
        Ok (v, l') \<Rightarrow>
          s\<lparr>ob_task := (if l' = l then ObWatching n rx l else ObReporting n rx l' (Ok (SLeader (v, l')))),
            ob_log := ob_log s @ [ObRead v l']\<rparr>
      | _ \<Rightarrow> observer_end E s)"

inductive observer_step :: "(request, (etcd_error, response) res, 'u, 'd, 's) svc_env \<Rightarrow> 'c mpsc_ops \<Rightarrow> (nat \<Rightarrow> 'c \<Rightarrow> event option poll \<times> 'c)
    \<Rightarrow> 'r rng_ops \<Rightarrow> real \<Rightarrow> bytes \<Rightarrow> ('u, 'd, 'c) observer_sys \<Rightarrow> ('u, 'd, 'c) observer_sys \<Rightarrow> bool"
  for E M rcv R rate n where
  \<comment> \<open>\<open>ElectionClient::observe\<close>, which keeps the receiver only, and \<open>ObserveStream::message\<close>\<close>
  o_open: "ob_client s = Opening \<Longrightarrow> se_up_sends E (election_observe n) (ob_up s) u \<Longrightarrow>
    observer_step E M rcv R rate n s (s\<lparr>ob_client := Open, ob_up := se_up_shut E u\<rparr>)"
| o_hear: "ob_client s = Open \<Longrightarrow> se_down_receives E (ob_down s) (Ready (Some a)) d \<Longrightarrow>
    observer_step E M rcv R rate n s (s\<lparr>ob_down := d, ob_heard := ob_heard s @ [a]\<rparr>)"
| o_cut: "ob_client s = Open \<Longrightarrow> se_down_receives E (ob_down s) (Ready None) d \<Longrightarrow> observer_step E M rcv R rate n s (s\<lparr>ob_down := d\<rparr>)"
| o_wait: "ob_client s = Open \<Longrightarrow> se_down_receives E (ob_down s) Pending d \<Longrightarrow> observer_step E M rcv R rate n s (s\<lparr>ob_down := d\<rparr>)"
| o_close: "observer_step E M rcv R rate n s (observer_close E s)"
  \<comment> \<open>the task of the server\<close>
| o_take: "ob_task s = ObBefore \<Longrightarrow> se_up_receives E (ob_up s) (Ready (Some q)) u \<Longrightarrow>
    observer_step E M rcv R rate n s (s\<lparr>ob_up := u, ob_task := ObHandling q\<rparr>)"
| o_take_wait: "ob_task s = ObBefore \<Longrightarrow> se_up_receives E (ob_up s) Pending u \<Longrightarrow> observer_step E M rcv R rate n s (s\<lparr>ob_up := u\<rparr>)"
| o_observe: "ob_task s = ObHandling (RqObserve m) \<Longrightarrow>
    etcd_serve M R rate rnds (RqObserve m) (ob_state s) r = (Some (dl, Ok (SObserve ((v, l), rx)), s'), r') \<Longrightarrow>
    observer_step E M rcv R rate n s (s\<lparr>ob_state := s', ob_task := ObWatching m rx l, ob_log := ob_log s @ [ObRead v l]\<rparr>)"
| o_refuse: "ob_task s = ObHandling (RqObserve m) \<Longrightarrow>
    etcd_serve M R rate rnds (RqObserve m) (ob_state s) r = (Some (dl, Err e, s'), r') \<Longrightarrow>
    observer_step E M rcv R rate n s (s\<lparr>ob_state := s', ob_task := ObFailed (Err e), ob_log := ob_log s @ [ObChanged]\<rparr>)"
| o_crash: "ob_task s = ObHandling (RqObserve m) \<Longrightarrow>
    etcd_serve M R rate rnds (RqObserve m) (ob_state s) r = (Some (dl, Panic msg, s'), r') \<Longrightarrow>
    observer_step E M rcv R rate n s (observer_end E (s\<lparr>ob_state := s', ob_log := ob_log s @ [ObChanged]\<rparr>))"
| o_failed: "ob_task s = ObFailed a \<Longrightarrow> se_down_sends E a (ob_down s) d \<Longrightarrow>
    observer_step E M rcv R rate n s (observer_end E (s\<lparr>ob_down := d\<rparr>))"
| o_event: "ob_task s = ObWatching m rx l \<Longrightarrow> rcv rx (chans (ob_state s)) = (Ready (Some ev), c) \<Longrightarrow>
    observer_step E M rcv R rate n s (observer_wake E m rx l (s\<lparr>ob_state := (ob_state s)\<lparr>chans := c\<rparr>\<rparr>))"
| o_over: "ob_task s = ObWatching m rx l \<Longrightarrow> rcv rx (chans (ob_state s)) = (Ready None, c) \<Longrightarrow>
    observer_step E M rcv R rate n s (observer_end E (s\<lparr>ob_state := (ob_state s)\<lparr>chans := c\<rparr>, ob_log := ob_log s @ [ObChanged]\<rparr>))"
| o_report: "ob_task s = ObReporting m rx l a \<Longrightarrow> se_down_sends E a (ob_down s) d \<Longrightarrow>
    observer_step E M rcv R rate n s (s\<lparr>ob_down := d, ob_task := ObWatching m rx l\<rparr>)"
| o_end: "observer_step E M rcv R rate n s (observer_end E s)"
  \<comment> \<open>everything else in the store\<close>
| o_other: "keep_alive_other M R rate (ob_state s) s' \<Longrightarrow>
    observer_step E M rcv R rate n s (s\<lparr>ob_state := s', ob_log := ob_log s @ [ObChanged]\<rparr>)"

inductive observer_reachable :: "(request, (etcd_error, response) res, 'u, 'd, 's) svc_env \<Rightarrow> 'c mpsc_ops \<Rightarrow> (nat \<Rightarrow> 'c \<Rightarrow> event option poll \<times> 'c)
    \<Rightarrow> 'r rng_ops \<Rightarrow> real \<Rightarrow> bytes \<Rightarrow> 'c etcd \<Rightarrow> ('u, 'd, 'c) observer_sys \<Rightarrow> bool"
  for E M rcv R rate n s0 where
  or_init: "se_up_new E u \<Longrightarrow> se_down_new E d \<Longrightarrow> observer_reachable E M rcv R rate n s0 (observer_start u d s0)"
| or_next: "observer_reachable E M rcv R rate n s0 s \<Longrightarrow> observer_step E M rcv R rate n s s' \<Longrightarrow> observer_reachable E M rcv R rate n s0 s'"

subsection \<open>What an observer hears\<close>

text \<open>The leaders that the task read, the leaders that responses tell.\<close>

definition leaders_read :: "observer_event list \<Rightarrow> key_value option list" where
  "leaders_read es = List.map_filter (\<lambda>e. case e of ObRead v l \<Rightarrow> Some l | ObChanged \<Rightarrow> None) es"

definition leaders_told :: "(etcd_error, response) res list \<Rightarrow> key_value option list" where
  "leaders_told as = List.map_filter (\<lambda>a. case a of Ok (SLeader (v, l)) \<Rightarrow> Some l | _ \<Rightarrow> None) as"

lemma leaders_simps [simp]:
  "leaders_read [] = []" "leaders_told [] = []"
  "leaders_read (es @ fs) = leaders_read es @ leaders_read fs" "leaders_told (as @ bs) = leaders_told as @ leaders_told bs"
  "leaders_read [ObRead v l] = [l]" "leaders_read [ObChanged] = []"
  "leaders_told [Ok (SLeader (v, l))] = [l]" "leaders_told [Err e] = []"
  by (simp_all add: leaders_read_def leaders_told_def map_filter_def)

text \<open>What can be sent: a leader, or the error of the subscription.\<close>

definition observer_answer :: "(etcd_error, response) res \<Rightarrow> bool" where
  "observer_answer a \<longleftrightarrow> (\<exists>x. a = Ok (SLeader x)) \<or> (\<exists>e. a = Err e)"

primrec observing :: "bytes \<Rightarrow> key_value option list \<Rightarrow> key_value option list \<Rightarrow> observer_task \<Rightarrow> bool" where
  "observing n ls told ObBefore \<longleftrightarrow> ls = [] \<and> told = []"
| "observing n ls told (ObHandling q) \<longleftrightarrow> q = RqObserve n \<and> ls = [] \<and> told = []"
| "observing n ls told (ObFailed a) \<longleftrightarrow> (\<exists>e. a = Err e) \<and> ls = [] \<and> told = []"
| "observing n ls told (ObWatching m rx l) \<longleftrightarrow> m = n \<and> ls \<noteq> [] \<and> last ls = l \<and> told = tl (remdups_adj ls)"
| "observing n ls told (ObReporting m rx l a) \<longleftrightarrow>
     m = n \<and> ls \<noteq> [] \<and> last ls = l \<and> told @ [l] = tl (remdups_adj ls) \<and> (\<exists>v. a = Ok (SLeader (v, l)))"
| "observing n ls told ObEnded \<longleftrightarrow> (\<exists>rest. told @ rest = tl (remdups_adj ls))"

definition observer_inv :: "bytes \<Rightarrow> ('u \<Rightarrow> request list) \<Rightarrow> ('d \<Rightarrow> (etcd_error, response) res list) \<Rightarrow> ('u, 'd, 'c) observer_sys \<Rightarrow> bool" where
  "observer_inv n up down s \<longleftrightarrow>
     set (up (ob_up s)) \<subseteq> {RqObserve n} \<and> (\<forall>a \<in> set (ob_heard s @ down (ob_down s)). observer_answer a) \<and>
     observing n (leaders_read (ob_log s)) (leaders_told (ob_heard s @ down (ob_down s))) (ob_task s)"

lemma observing_ended: "observing n ls told t \<Longrightarrow> observing n ls told ObEnded"
  by (cases t) auto

lemma remdups_adj_snoc:
  assumes "ls \<noteq> []"
  shows "remdups_adj (ls @ [x]) = remdups_adj ls @ (if last ls = x then [] else [x])"
proof -
  have "ls = butlast ls @ [last ls]" using assms by simp
  then show ?thesis using remdups_adj_append_two[of "butlast ls" "last ls" x] by (metis append.assoc append_Cons append_Nil)
qed

lemma tl_remdups_adj_snoc: "ls \<noteq> [] \<Longrightarrow> tl (remdups_adj (ls @ [x])) = tl (remdups_adj ls) @ (if last ls = x then [] else [x])"
  by (simp add: remdups_adj_snoc)

text \<open>On the simulated network, with any service environment of the type of \<open>EtcdStream\<close>.\<close>

lemma observer_ends_inv:
  assumes "observer_inv n in_flight in_flight s"
  shows "observer_inv n in_flight in_flight (observer_close (svc_net R' T exec other) s)"
    "observer_inv n in_flight in_flight (observer_end (svc_net R' T exec other) s)"
  using assms observing_ended[of n "leaders_read (ob_log s)" "leaders_told (ob_heard s @ in_flight (ob_down s))" "ob_task s"]
  by (simp_all add: observer_inv_def observer_close_def observer_end_def snet.up_ends snet.down_ends)

lemma observer_wake_inv:
  assumes "observer_inv n in_flight in_flight s" "ob_task s = ObWatching m rx l"
  shows "observer_inv n in_flight in_flight (observer_wake (svc_net R' T exec other) m rx l s)"
proof (cases "etcd_leader m (ob_state s) :: (etcd_error, int \<times> key_value option) res")
  case (Ok x)
  then show ?thesis using assms by (cases x) (auto simp: observer_wake_def observer_inv_def tl_remdups_adj_snoc)
qed (use assms observer_ends_inv(2) in \<open>auto simp: observer_wake_def\<close>)

lemma observer_step_inv:
  assumes "observer_step (svc_net R' T exec other) M rcv R rate n s s'" "observer_inv n in_flight in_flight s"
  shows "observer_inv n in_flight in_flight s'"
  using assms(1)
proof cases
  case (o_open u)
  then show ?thesis using assms(2) snet.up.content_sends[OF o_open(3)] by (auto simp: observer_inv_def election_observe_def snet.up_ends)
next
  case (o_hear a d)
  then show ?thesis using assms(2) snet.down.content_receives_Some[OF o_hear(3)] by (simp add: observer_inv_def)
next
  case (o_cut d)
  then show ?thesis using assms(2) snet.down.content_receives_None[OF o_cut(3)] by (simp add: observer_inv_def)
next
  case (o_wait d)
  then show ?thesis using assms(2) snet.down.content_receives_Pending[OF o_wait(3)] by (simp add: observer_inv_def)
next
  case o_close
  then show ?thesis using observer_ends_inv(1)[OF assms(2)] by simp
next
  case (o_take q u)
  then show ?thesis using assms(2) snet.up.content_receives_Some[OF o_take(3)] by (auto simp: observer_inv_def)
next
  case (o_take_wait u)
  then show ?thesis using assms(2) snet.up.content_receives_Pending[OF o_take_wait(3)] by (simp add: observer_inv_def)
next
  case (o_observe m rnds r dl v l rx s1 r')
  then show ?thesis using assms(2) by (auto simp: observer_inv_def)
next
  case (o_refuse m rnds r dl e s1 r')
  then show ?thesis using assms(2) by (auto simp: observer_inv_def)
next
  case (o_crash m rnds r dl msg s1 r')
  have "observer_inv n in_flight in_flight (s\<lparr>ob_state := s1, ob_log := ob_log s @ [ObChanged]\<rparr>)"
    using assms(2) by (simp add: observer_inv_def)
  then show ?thesis using o_crash(1) observer_ends_inv(2) by simp
next
  case (o_failed a d)
  then have "observer_inv n in_flight in_flight (s\<lparr>ob_down := d, ob_task := ObEnded\<rparr>)"
    using assms(2) snet.down.content_sends[OF o_failed(3)] by (auto simp: observer_inv_def observer_answer_def)
  from observer_ends_inv(2)[OF this] show ?thesis using o_failed(1) by (simp add: observer_end_def)
next
  case (o_event m rx l ev c)
  have "observer_inv n in_flight in_flight (s\<lparr>ob_state := (ob_state s)\<lparr>chans := c\<rparr>\<rparr>)" using assms(2) by (simp add: observer_inv_def)
  from observer_wake_inv[OF this, of m rx l] show ?thesis using o_event by simp
next
  case (o_over m rx l c)
  have "observer_inv n in_flight in_flight (s\<lparr>ob_state := (ob_state s)\<lparr>chans := c\<rparr>, ob_log := ob_log s @ [ObChanged]\<rparr>)"
    using assms(2) by (simp add: observer_inv_def)
  then show ?thesis using o_over(1) observer_ends_inv(2) by simp
next
  case (o_report m rx l a d)
  then show ?thesis using assms(2) snet.down.content_sends[OF o_report(3)] by (auto simp: observer_inv_def observer_answer_def)
next
  case o_end
  then show ?thesis using observer_ends_inv(2)[OF assms(2)] by simp
next
  case (o_other s1)
  then show ?thesis using assms(2) by (simp add: observer_inv_def)
qed

lemma observer_reachable_inv:
  "observer_reachable (svc_net R' T exec other) M rcv R rate n s0 s \<Longrightarrow> observer_inv n in_flight in_flight s"
proof (induction rule: observer_reachable.induct)
  case (or_init u d)
  then show ?case using snet.up_new[OF or_init(1)] snet.down_new[OF or_init(2)] by (simp add: observer_inv_def observer_start_def)
next
  case (or_next s s')
  then show ?case using observer_step_inv by blast
qed

text \<open>
  What an observer hears.  Over any network and whatever other clients do, the leaders that the stream tells are a beginning of the leaders that
  its task read after events, one for each change and none for the leader in office at the subscription: \<open>tl (remdups_adj \<dots>)\<close> of what was
  read.  No answer makes the client panic.  While the task waits, the last leader read is the one that it knows, and all before were sent.
\<close>

theorem etcd_observer_hears_changes:
  assumes "observer_reachable (svc_net R' T exec other) M rcv R rate n s0 s"
  shows "(\<exists>rest. tl (remdups_adj (leaders_read (ob_log s))) = leaders_told (ob_heard s) @ rest) \<and>
    (\<forall>a \<in> set (ob_heard s). \<not> is_panic (etcd_client_result (election_leader n) (Some a))) \<and>
    (\<forall>m rx l. ob_task s = ObWatching m rx l \<longrightarrow> m = n \<and> l = last (leaders_read (ob_log s)) \<and>
       tl (remdups_adj (leaders_read (ob_log s))) = leaders_told (ob_heard s @ in_flight (ob_down s)))"
proof -
  have inv: "observer_inv n in_flight in_flight s" by (rule observer_reachable_inv[OF assms])
  have "observing n (leaders_read (ob_log s)) (leaders_told (ob_heard s @ in_flight (ob_down s))) ObEnded"
    by (rule observing_ended[where t = "ob_task s"]) (use inv in \<open>simp add: observer_inv_def\<close>)
  then have "\<exists>rest. tl (remdups_adj (leaders_read (ob_log s))) = leaders_told (ob_heard s) @ rest"
    by (metis append.assoc leaders_simps(4) observing.simps(6))
  moreover have "\<not> is_panic (etcd_client_result (election_leader n) (Some a))" if "a \<in> set (ob_heard s)" for a
  proof -
    have "observer_answer a" using inv that by (simp add: observer_inv_def)
    then show ?thesis by (auto simp: observer_answer_def etcd_client_result_def answers_def election_leader_def)
  qed
  moreover have "m = n \<and> l = last (leaders_read (ob_log s)) \<and>
      tl (remdups_adj (leaders_read (ob_log s))) = leaders_told (ob_heard s @ in_flight (ob_down s))"
    if "ob_task s = ObWatching m rx l" for m rx l using inv that by (simp add: observer_inv_def)
  ultimately show ?thesis by blast
qed

end
