(* ===== verification/S3.thy ===== *)
theory S3
  imports EtcdBytes Strings "HOL-Library.Option_ord" "HOL-Library.Sublist"
begin

section \<open>The S3 service (\<open>madsim-aws-sdk-s3/src/server/service.rs\<close>)\<close>

text \<open>
  Buckets of objects, multipart uploads, byte ranges, listings and lifecycle rules.  The numbers that \<open>thread_rng().gen::<u32>()\<close>
  gives are an argument.  \<open>'r\<close> are the lifecycle rules, which are stored only.
\<close>

subsection \<open>State\<close>

record object_part =
  part_number :: int
  part_body :: bytes
  part_e_tag :: string

record s3_object =
  body :: bytes
  completed :: bool
  parts :: "(string, object_part list) btree"
  last_modified :: "nat option"
  content_length :: int

definition object_default :: s3_object where
  "object_default = \<lparr>body = [], completed = False, parts = [], last_modified = None, content_length = 0\<rparr>"

record 'r s3 =
  storage :: "(string, (string, s3_object) btree) btree"
  lifecycle :: "(string, 'r list) btree"

definition s3_default :: "'r s3" where
  "s3_default = \<lparr>storage = [], lifecycle = []\<rparr>"

datatype s3_error =
    NoSuchBucket string | NoSuchKey string | NoSuchUpload string | ObjectNotFound string
  | InvalidRange string | UnsupportedRangeUnit string | InvalidPartNumber int

type_synonym ('r, 'a) s3_result = "(s3_error, 'a, 'r s3) outcome"

subsection \<open>Operations\<close>

definition create_bucket :: "string \<Rightarrow> 'r s3 \<Rightarrow> ('e, 'r s3) res" where
  "create_bucket b s =
     (if bt_get (storage s) b \<noteq> None then Panic ''bucket already exists''
      else Ok (s\<lparr>storage := bt_insert b [] (storage s)\<rparr>))"

text \<open>\<open>storage.get_mut(&bucket)\<close>, and the object below it.\<close>

definition get_bucket :: "string \<Rightarrow> 'r s3 \<Rightarrow> (s3_error, (string, s3_object) btree) res" where
  "get_bucket b s = ok_or (NoSuchBucket b) (bt_get (storage s) b)"

definition put_bucket :: "string \<Rightarrow> (string, s3_object) btree \<Rightarrow> 'r s3 \<Rightarrow> 'r s3" where
  "put_bucket b m s = s\<lparr>storage := bt_insert b m (storage s)\<rparr>"

definition object_or_default :: "string \<Rightarrow> (string, s3_object) btree \<Rightarrow> s3_object" where
  "object_or_default k m = (case bt_get m k of Some x \<Rightarrow> x | None \<Rightarrow> object_default)"

text \<open>The loop that chooses an upload id; \<open>None\<close>: it still runs after these numbers.\<close>

primrec pick_upload_id :: "(string, object_part list) btree \<Rightarrow> nat list \<Rightarrow> string option" where
  "pick_upload_id ps [] = None"
| "pick_upload_id ps (r # rs) =
     (let u = string_of_nat r in if bt_get ps u \<noteq> None then pick_upload_id ps rs else Some u)"

definition create_multipart_upload :: "string \<Rightarrow> string \<Rightarrow> nat list \<Rightarrow> 'r s3 \<Rightarrow> ('r, string) s3_result option" where
  "create_multipart_upload b k rs s =
     (case get_bucket b s of
        Ok m \<Rightarrow>
          (let x = object_or_default k m in
           case pick_upload_id (parts x) rs of
             None \<Rightarrow> None
           | Some u \<Rightarrow> Some (Ok u, put_bucket b (bt_insert k (x\<lparr>parts := bt_insert u [] (parts x)\<rparr>) m) s))
      | Err e \<Rightarrow> Some (Err e, s)
      | Panic p \<Rightarrow> Some (Panic p, s))"

definition upload_part :: "string \<Rightarrow> string \<Rightarrow> bytes \<Rightarrow> int \<Rightarrow> string \<Rightarrow> nat \<Rightarrow> 'r s3 \<Rightarrow> ('r, string) s3_result" where
  "upload_part b k data n u rnd s =
     st_bind (get_bucket b s, s) (\<lambda>m s.
     st_bind (ok_or (NoSuchKey k) (bt_get m k), s) (\<lambda>x s.
     st_bind (ok_or (NoSuchUpload u) (bt_get (parts x) u), s) (\<lambda>ps s.
       let e = string_of_nat rnd;
           ps = ps @ [\<lparr>part_number = n, part_body = data, part_e_tag = e\<rparr>]
       in (Ok e, put_bucket b (bt_insert k (x\<lparr>parts := bt_insert u ps (parts x)\<rparr>) m) s))))"

record completed_part =
  cp_number :: "int option"
  cp_e_tag :: "string option"

text \<open>The nested loops of \<open>complete_multipart_upload\<close>: the first matching part of every entry, in the order of the part numbers.\<close>

definition part_matches :: "completed_part \<Rightarrow> object_part \<Rightarrow> bool" where
  "part_matches c p \<longleftrightarrow>
     part_number p = (case cp_number c of Some n \<Rightarrow> n | None \<Rightarrow> 0) \<and>
     (case cp_e_tag c of Some e \<Rightarrow> e = part_e_tag p | None \<Rightarrow> True)"

definition assemble :: "object_part list \<Rightarrow> completed_part list \<Rightarrow> bytes" where
  "assemble ps cs =
     concat (map (\<lambda>c. case find (part_matches c) ps of Some p \<Rightarrow> part_body p | None \<Rightarrow> []) (sort_key cp_number cs))"

definition complete_multipart_upload :: "string \<Rightarrow> string \<Rightarrow> completed_part list option \<Rightarrow> string \<Rightarrow> 'r s3 \<Rightarrow> ('r, unit) s3_result" where
  "complete_multipart_upload b k multipart u s =
     st_bind (get_bucket b s, s) (\<lambda>m s.
     st_bind (ok_or (NoSuchKey k) (bt_get m k), s) (\<lambda>x s.
     st_bind (ok_or (NoSuchUpload u) (bt_get (parts x) u), s) (\<lambda>ps s.
       let x = x\<lparr>parts := bt_remove u (parts x)\<rparr>;
           x = (case multipart of Some cs \<Rightarrow> x\<lparr>body := assemble ps cs, completed := True\<rparr> | None \<Rightarrow> x)
       in (Ok (), put_bucket b (bt_insert k x m) s))))"

definition abort_multipart_upload :: "string \<Rightarrow> string \<Rightarrow> string \<Rightarrow> 'r s3 \<Rightarrow> ('r, unit) s3_result" where
  "abort_multipart_upload b k u s =
     st_bind (get_bucket b s, s) (\<lambda>m s.
     st_bind (ok_or (NoSuchKey k) (bt_get m k), s) (\<lambda>x s.
     st_bind (ok_or (NoSuchUpload u) (bt_get (parts x) u), s) (\<lambda>ps s.
       (Ok (), put_bucket b (bt_insert k (x\<lparr>parts := bt_remove u (parts x)\<rparr>) m) s))))"

text \<open>\<open>Bytes::slice(lo..hi)\<close>, which panics outside of the buffer.\<close>

definition slice :: "nat \<Rightarrow> nat \<Rightarrow> bytes \<Rightarrow> ('e, bytes) res" where
  "slice lo hi bs =
     (if hi < lo then Panic ''range start must not be greater than end''
      else if length bs < hi then Panic ''range end out of bounds''
      else Ok (take (hi - lo) (drop lo bs)))"

definition parse_pos :: "string \<Rightarrow> string \<Rightarrow> (s3_error, nat option) res" where
  "parse_pos rg p =
     (if p = [] then Ok None
      else case parse_usize p of None \<Rightarrow> Err (InvalidRange rg) | Some n \<Rightarrow> Ok (Some n))"

definition parse_range :: "string \<Rightarrow> (s3_error, nat option \<times> nat option) res" where
  "parse_range rg =
     (let ru = takeWhile (\<lambda>c. c \<noteq> CHR ''='') rg in
      if ru \<noteq> ''bytes'' then Err (UnsupportedRangeUnit ru)
      else bind_res (ok_or (InvalidRange rg) (split_once (CHR ''='') rg)) (\<lambda>(_, r).
           let range_set = takeWhile (\<lambda>c. c \<noteq> CHR ''='') r in
           bind_res (ok_or (InvalidRange rg) (split_once (CHR ''-'') range_set)) (\<lambda>(b, e).
             bind_res (parse_pos rg b) (\<lambda>b. bind_res (parse_pos rg e) (\<lambda>e. Ok (b, e))))))"

definition body_range :: "nat option \<times> nat option \<Rightarrow> bytes \<Rightarrow> ('e, bytes) res" where
  "body_range r bs =
     (case r of
        (Some lo, Some hi) \<Rightarrow> slice lo (hi + 1) bs
      | (Some lo, None) \<Rightarrow> slice lo (length bs) bs
      | (None, Some len) \<Rightarrow>
          if length bs < len then Panic ''attempt to subtract with overflow''
          else slice (length bs - len) (length bs) bs
      | (None, None) \<Rightarrow> slice 0 (length bs) bs)"

definition get_object :: "string \<Rightarrow> string \<Rightarrow> string option \<Rightarrow> int option \<Rightarrow> 'r s3 \<Rightarrow> (s3_error, bytes) res" where
  "get_object b k rg pn s =
     bind_res (get_bucket b s) (\<lambda>m.
     bind_res (ok_or (NoSuchKey k) (bt_get m k)) (\<lambda>x.
       if \<not> completed x then Err (NoSuchKey k)
       else case rg of
         Some r \<Rightarrow> bind_res (parse_range r) (\<lambda>r. body_range r (body x))
       | None \<Rightarrow>
           (case pn of
              Some n \<Rightarrow>
                if n < 0 \<or> int (length (body x)) \<le> n then Err (InvalidPartNumber n)
                else Panic ''not yet implemented: get object by part number''
            | None \<Rightarrow> Ok (body x))))"

definition put_object :: "string \<Rightarrow> string \<Rightarrow> bytes \<Rightarrow> 'r s3 \<Rightarrow> ('r, unit) s3_result" where
  "put_object b k data s =
     st_bind (get_bucket b s, s) (\<lambda>m s.
       (Ok (), put_bucket b (bt_insert k ((object_or_default k m)\<lparr>body := data, completed := True\<rparr>) m) s))"

text \<open>The body of \<open>delete_object\<close> and of the loop of \<open>delete_objects\<close>: an object with uploads in progress is only emptied.\<close>

definition delete_key :: "string \<Rightarrow> (string, s3_object) btree \<Rightarrow> (string, s3_object) btree" where
  "delete_key k m =
     (case bt_get m k of
        None \<Rightarrow> m
      | Some x \<Rightarrow>
          if completed x then
            (if parts x = [] then bt_remove k m else bt_insert k (x\<lparr>completed := False, body := []\<rparr>) m)
          else m)"

definition delete_object :: "string \<Rightarrow> string \<Rightarrow> 'r s3 \<Rightarrow> ('r, unit) s3_result" where
  "delete_object b k s = st_bind (get_bucket b s, s) (\<lambda>m s. (Ok (), put_bucket b (delete_key k m) s))"

definition delete_objects :: "string \<Rightarrow> string list \<Rightarrow> 'r s3 \<Rightarrow> ('r, string list) s3_result" where
  "delete_objects b ks s = st_bind (get_bucket b s, s) (\<lambda>m s. (Ok ks, put_bucket b (fold delete_key ks m) s))"

definition head_object :: "string \<Rightarrow> string \<Rightarrow> 'r s3 \<Rightarrow> (s3_error, nat option \<times> int) res" where
  "head_object b k s =
     bind_res (get_bucket b s) (\<lambda>m.
     bind_res (ok_or (ObjectNotFound k) (bt_get m k)) (\<lambda>x.
       if \<not> completed x then Err (ObjectNotFound k) else Ok (last_modified x, content_length x)))"

definition list_objects_v2 :: "string \<Rightarrow> string option \<Rightarrow> 'r s3 \<Rightarrow> (s3_error, (string \<times> int) list) res" where
  "list_objects_v2 b pre s =
     bind_res (get_bucket b s) (\<lambda>m.
       Ok (map (\<lambda>(k, x). (k, content_length x))
         (case pre of
            Some p \<Rightarrow> filter (\<lambda>(k, x). prefix p k \<and> completed x) m
          | None \<Rightarrow> m)))"

definition get_bucket_lifecycle_configuration :: "string \<Rightarrow> 'r s3 \<Rightarrow> 'r list \<times> 'r s3" where
  "get_bucket_lifecycle_configuration b s =
     (case bt_get (lifecycle s) b of
        Some rs \<Rightarrow> (rs, s)
      | None \<Rightarrow> ([], s\<lparr>lifecycle := bt_insert b [] (lifecycle s)\<rparr>))"

definition put_bucket_lifecycle_configuration :: "string \<Rightarrow> 'r list \<Rightarrow> 'r s3 \<Rightarrow> 'r s3" where
  "put_bucket_lifecycle_configuration b rs s = s\<lparr>lifecycle := bt_insert b rs (lifecycle s)\<rparr>"

subsection \<open>Requests\<close>

text \<open>The fields that a request may leave out are unwrapped by the service.\<close>

datatype 'r s3_request =
    CreateMultipartUpload "string option" "string option"
  | UploadPart "string option" "string option" bytes "int option" "int option" "string option"
  | CompleteMultipartUpload "string option" "string option" "completed_part list option option" "string option"
  | AbortMultipartUpload "string option" "string option" "string option"
  | GetObject "string option" "string option" "string option" "int option"
  | PutObject "string option" "string option" bytes
  | DeleteObject "string option" "string option"
  | DeleteObjects "string option" "string list option"
  | HeadObject "string option" "string option"
  | ListObjectsV2 "string option" "string option"
  | PutBucketLifecycle "string option" "'r list option"
  | GetBucketLifecycle "string option"

datatype 'r s3_response =
    OUnit | OText string | OBytes bytes | OKeys "string list" | OHead "nat option \<times> int" | OList "(string \<times> int) list" | ORules "'r list"

definition unwrap :: "'a option \<Rightarrow> ('e, 'a) res" where
  "unwrap x = expect ''called Option::unwrap() on a None value'' x"

definition out :: "('a \<Rightarrow> 'b) \<Rightarrow> ('e, 'a, 's) outcome \<Rightarrow> ('e, 'b, 's) outcome" where
  "out f m = st_bind m (\<lambda>a s. (Ok (f a), s))"

definition s3_call :: "'r \<Rightarrow> nat list \<Rightarrow> 'r s3_request \<Rightarrow> 'r s3 \<Rightarrow> ('r, 'r s3_response) s3_result option" where
  "s3_call dflt rs q s =
     (case q of
        CreateMultipartUpload b k \<Rightarrow>
          (case bind_res (unwrap b) (\<lambda>b. bind_res (unwrap k) (\<lambda>k. Ok (b, k))) of
             Ok (b, k) \<Rightarrow> map_option (out OText) (create_multipart_upload b k rs s)
           | Err e \<Rightarrow> Some (Err e, s)
           | Panic p \<Rightarrow> Some (Panic p, s))
      | UploadPart b k data len n u \<Rightarrow> Some (out OText
          (st_bind (unwrap b, s) (\<lambda>b s. st_bind (unwrap k, s) (\<lambda>k s. st_bind (unwrap len, s) (\<lambda>_ s.
           st_bind (unwrap n, s) (\<lambda>n s. st_bind (unwrap u, s) (\<lambda>u s.
             upload_part b k data n u (case rs of r # _ \<Rightarrow> r | [] \<Rightarrow> 0) s)))))))
      | CompleteMultipartUpload b k c u \<Rightarrow> Some (out (\<lambda>_. OUnit)
          (st_bind (unwrap b, s) (\<lambda>b s. st_bind (unwrap k, s) (\<lambda>k s. st_bind (unwrap c, s) (\<lambda>c s.
           st_bind (unwrap u, s) (\<lambda>u s. complete_multipart_upload b k c u s))))))
      | AbortMultipartUpload b k u \<Rightarrow> Some (out (\<lambda>_. OUnit)
          (st_bind (unwrap b, s) (\<lambda>b s. st_bind (unwrap k, s) (\<lambda>k s. st_bind (unwrap u, s) (\<lambda>u s.
             abort_multipart_upload b k u s)))))
      | GetObject b k r n \<Rightarrow> Some (out OBytes
          (st_bind (unwrap b, s) (\<lambda>b s. st_bind (unwrap k, s) (\<lambda>k s. (get_object b k r n s, s)))))
      | PutObject b k data \<Rightarrow> Some (out (\<lambda>_. OUnit)
          (st_bind (unwrap b, s) (\<lambda>b s. st_bind (unwrap k, s) (\<lambda>k s. put_object b k data s))))
      | DeleteObject b k \<Rightarrow> Some (out (\<lambda>_. OUnit)
          (st_bind (unwrap b, s) (\<lambda>b s. st_bind (unwrap k, s) (\<lambda>k s. delete_object b k s))))
      | DeleteObjects b ks \<Rightarrow> Some (out OKeys
          (st_bind (unwrap b, s) (\<lambda>b s. st_bind (unwrap ks, s) (\<lambda>ks s. delete_objects b ks s))))
      | HeadObject b k \<Rightarrow> Some (out OHead
          (st_bind (unwrap b, s) (\<lambda>b s. st_bind (unwrap k, s) (\<lambda>k s. (head_object b k s, s)))))
      | ListObjectsV2 b p \<Rightarrow> Some (out OList (st_bind (unwrap b, s) (\<lambda>b s. (list_objects_v2 b p s, s))))
      | PutBucketLifecycle b rules \<Rightarrow> Some (out (\<lambda>_. OUnit)
          (st_bind (unwrap b, s) (\<lambda>b s.
             (Ok (), put_bucket_lifecycle_configuration b (case rules of Some r \<Rightarrow> r | None \<Rightarrow> [dflt]) s))))
      | GetBucketLifecycle b \<Rightarrow> Some (out ORules
          (st_bind (unwrap b, s) (\<lambda>b s. let (r, s) = get_bucket_lifecycle_configuration b s in (Ok r, s)))))"

end
