(* ===== verification/S3Props.thy ===== *)
theory S3Props
  imports S3
begin

section \<open>Properties of the S3 service\<close>

subsection \<open>Reachable stores\<close>

text \<open>The maps are ordered; and nothing ever sets the length or the time of an object.\<close>

definition object_ok :: "s3_object \<Rightarrow> bool" where
  "object_ok x \<longleftrightarrow> bt_sorted (parts x) \<and> content_length x = 0 \<and> last_modified x = None"

definition bucket_ok :: "(string, s3_object) btree \<Rightarrow> bool" where
  "bucket_ok m \<longleftrightarrow> bt_sorted m \<and> (\<forall>k x. bt_get m k = Some x \<longrightarrow> object_ok x)"

definition s3_inv :: "'r s3 \<Rightarrow> bool" where
  "s3_inv s \<longleftrightarrow> bt_sorted (storage s) \<and> (\<forall>b m. bt_get (storage s) b = Some m \<longrightarrow> bucket_ok m)"

inductive s3_reachable :: "'r s3 \<Rightarrow> bool" where
  s3r_default: "s3_reachable s3_default"
| s3r_bucket: "s3_reachable s \<Longrightarrow> (create_bucket b s :: (s3_error, 'r s3) res) = Ok s' \<Longrightarrow> s3_reachable s'"
| s3r_call: "s3_reachable s \<Longrightarrow> s3_call d rs q s = Some (r, s') \<Longrightarrow> s3_reachable s'"

lemma bucket_ok_insert: "bucket_ok m \<Longrightarrow> object_ok x \<Longrightarrow> bucket_ok (bt_insert k x m)"
  by (auto simp: bucket_ok_def bt_insert_sorted bt_get_insert)

lemma bucket_ok_remove: "bucket_ok m \<Longrightarrow> bucket_ok (bt_remove k m)"
  by (auto simp: bucket_ok_def bt_remove_sorted bt_get_remove split: if_splits)

lemma bucket_ok_get: "bucket_ok m \<Longrightarrow> bt_get m k = Some x \<Longrightarrow> object_ok x"
  by (auto simp: bucket_ok_def)

lemma object_ok_default: "bucket_ok m \<Longrightarrow> object_ok (object_or_default k m)"
  by (auto simp: object_or_default_def object_default_def object_ok_def bucket_ok_def split: option.split)

lemma object_ok_upd [simp]:
  "object_ok (x\<lparr>body := d, completed := c\<rparr>) = object_ok x"
  "object_ok (x\<lparr>completed := c, body := d\<rparr>) = object_ok x"
  "object_ok x \<Longrightarrow> object_ok (x\<lparr>parts := bt_insert u ps (parts x)\<rparr>)"
  "object_ok x \<Longrightarrow> object_ok (x\<lparr>parts := bt_remove u (parts x)\<rparr>)"
  "object_ok x \<Longrightarrow> object_ok (x\<lparr>parts := bt_remove u (parts x), body := d, completed := c\<rparr>)"
  by (auto simp: object_ok_def bt_insert_sorted bt_remove_sorted)

lemma bucket_ok_delete: "bucket_ok m \<Longrightarrow> bucket_ok (delete_key k m)"
  using bucket_ok_get [of m k] by (auto simp: delete_key_def bucket_ok_remove bucket_ok_insert split: option.split)

lemma bucket_ok_delete_all: "bucket_ok m \<Longrightarrow> bucket_ok (fold delete_key ks m)"
  by (induction ks arbitrary: m) (auto intro: bucket_ok_delete)

lemma s3_inv_get: "s3_inv s \<Longrightarrow> get_bucket b s = Ok m \<Longrightarrow> bucket_ok m"
  by (auto simp: s3_inv_def get_bucket_def)

lemma s3_inv_put: "s3_inv s \<Longrightarrow> bucket_ok m \<Longrightarrow> s3_inv (put_bucket b m s)"
  by (auto simp: s3_inv_def put_bucket_def bt_insert_sorted bt_get_insert)

text \<open>An outcome keeps the invariant.\<close>

lemma st_bind_inv:
  assumes "s3_inv (snd m)" "\<And>a s. m = (Ok a, s) \<Longrightarrow> s3_inv (snd (f a s))"
  shows "s3_inv (snd (st_bind m f))"
  using assms by (cases m; cases "fst m") (auto simp: st_bind_def)

lemma upload_part_inv: "s3_inv s \<Longrightarrow> s3_inv (snd (upload_part b k d n u r s))"
  unfolding upload_part_def
  by (intro st_bind_inv) (auto simp: Let_def intro!: s3_inv_put bucket_ok_insert object_ok_upd(3) dest: s3_inv_get bucket_ok_get)

lemma complete_inv: "s3_inv s \<Longrightarrow> s3_inv (snd (complete_multipart_upload b k c u s))"
  unfolding complete_multipart_upload_def
  by (intro st_bind_inv) (auto simp: Let_def intro!: s3_inv_put bucket_ok_insert object_ok_upd(4) split: option.split
      dest: s3_inv_get intro: bucket_ok_get [OF s3_inv_get])

lemma abort_inv: "s3_inv s \<Longrightarrow> s3_inv (snd (abort_multipart_upload b k u s))"
  unfolding abort_multipart_upload_def
  by (intro st_bind_inv) (auto intro!: s3_inv_put bucket_ok_insert object_ok_upd(4) dest: s3_inv_get bucket_ok_get)

lemma put_object_inv: "s3_inv s \<Longrightarrow> s3_inv (snd (put_object b k d s))"
  unfolding put_object_def
  by (intro st_bind_inv) (auto intro!: s3_inv_put bucket_ok_insert dest: s3_inv_get simp: object_ok_default)

lemma delete_inv: "s3_inv s \<Longrightarrow> s3_inv (snd (delete_object b k s))" "s3_inv s \<Longrightarrow> s3_inv (snd (delete_objects b ks s))"
  unfolding delete_object_def delete_objects_def
  by (intro st_bind_inv; auto intro!: s3_inv_put bucket_ok_delete bucket_ok_delete_all dest: s3_inv_get)+

lemma create_upload_inv: "s3_inv s \<Longrightarrow> create_multipart_upload b k rs s = Some (r, s') \<Longrightarrow> s3_inv s'"
  by (auto simp: create_multipart_upload_def Let_def split: res.splits option.splits
      intro!: s3_inv_put bucket_ok_insert object_ok_upd(3) object_ok_default dest: s3_inv_get)

lemma lifecycle_inv:
  "s3_inv s \<Longrightarrow> s3_inv (snd (get_bucket_lifecycle_configuration b s))"
  "s3_inv s \<Longrightarrow> s3_inv (put_bucket_lifecycle_configuration b rs s)"
  by (auto simp: get_bucket_lifecycle_configuration_def put_bucket_lifecycle_configuration_def s3_inv_def split: option.split)

lemma out_inv: "s3_inv (snd m) \<Longrightarrow> s3_inv (snd (out f m))"
  unfolding out_def by (rule st_bind_inv) auto

lemma out_state: "out f (a, s) = (r, s') \<Longrightarrow> P s \<Longrightarrow> P s'"
  by (cases a) (auto simp: out_def)

lemmas s3_op_inv = upload_part_inv complete_inv abort_inv put_object_inv delete_inv lifecycle_inv

lemma s3_call_inv:
  assumes "s3_inv s" "s3_call d rs q s = Some (r, s')"
  shows "s3_inv s'"
proof (cases q)
  case (CreateMultipartUpload b k)
  then show ?thesis using assms create_upload_inv [OF assms(1)]
    by (cases b; cases k) (auto simp: s3_call_def unwrap_def dest: arg_cong [of _ _ snd] intro: out_state)
next
  case (GetBucketLifecycle b)
  then show ?thesis using assms lifecycle_inv(1) [OF assms(1)]
    by (cases b) (auto simp: s3_call_def unwrap_def out_def case_prod_beta)
qed (use assms in \<open>auto simp: s3_call_def prod_eq_iff intro!: out_inv st_bind_inv s3_op_inv\<close>)

lemma s3_reachable_inv: "s3_reachable s \<Longrightarrow> s3_inv s"
proof (induction rule: s3_reachable.induct)
  case s3r_default
  then show ?case by (simp add: s3_inv_def s3_default_def)
next
  case (s3r_bucket s b s')
  then show ?case by (auto simp: create_bucket_def s3_inv_def bt_insert_sorted bt_get_insert bucket_ok_def split: if_splits)
next
  case (s3r_call s d rs q r s')
  show ?case by (rule s3_call_inv [OF s3r_call(3,2)])
qed

subsection \<open>Objects as a map\<close>

text \<open>The abstract store: what is stored at a bucket and key.\<close>

definition object_at :: "'r s3 \<Rightarrow> string \<Rightarrow> string \<Rightarrow> s3_object option" where
  "object_at s b k = (case bt_get (storage s) b of None \<Rightarrow> None | Some m \<Rightarrow> bt_get m k)"

definition has_bucket :: "'r s3 \<Rightarrow> string \<Rightarrow> bool" where
  "has_bucket s b \<longleftrightarrow> bt_get (storage s) b \<noteq> None"

lemma get_object_at:
  "get_object b k rg pn s =
     (if \<not> has_bucket s b then Err (NoSuchBucket b)
      else case object_at s b k of
        None \<Rightarrow> Err (NoSuchKey k)
      | Some x \<Rightarrow>
          if \<not> completed x then Err (NoSuchKey k)
          else case rg of
            Some r \<Rightarrow> bind_res (parse_range r) (\<lambda>r. body_range r (body x))
          | None \<Rightarrow>
              (case pn of
                 Some n \<Rightarrow> if n < 0 \<or> int (length (body x)) \<le> n then Err (InvalidPartNumber n)
                           else Panic ''not yet implemented: get object by part number''
               | None \<Rightarrow> Ok (body x)))"
  by (auto simp: get_object_def get_bucket_def has_bucket_def object_at_def split: option.split)

text \<open>Storing a changed bucket changes the objects of that bucket only.\<close>

lemma put_bucket_at:
  assumes "s3_inv s"
  shows "object_at (put_bucket b m s) b' k = (if b' = b then bt_get m k else object_at s b' k)"
    "has_bucket (put_bucket b m s) b' \<longleftrightarrow> b' = b \<or> has_bucket s b'"
  using assms by (auto simp: object_at_def has_bucket_def put_bucket_def s3_inv_def bt_get_insert)

lemma get_object_same:
  "object_at s' b k = object_at s b k \<Longrightarrow> has_bucket s' b = has_bucket s b \<Longrightarrow>
     get_object b k rg pn s' = get_object b k rg pn s"
  by (simp add: get_object_at)

text \<open>
  An object is stored as it was put.  In every reachable store with the bucket, \<open>put_object\<close> succeeds and \<open>get_object\<close> then
  returns exactly the bytes put; every request for another object or bucket is answered as before.
\<close>

theorem s3_put_get:
  assumes "s3_reachable s" "has_bucket s b"
  shows "\<exists>s'. put_object b k data s = (Ok (), s') \<and> get_object b k None None s' = Ok data \<and>
    (\<forall>b' k' rg pn. (b', k') \<noteq> (b, k) \<longrightarrow> get_object b' k' rg pn s' = get_object b' k' rg pn s)"
proof -
  have inv: "s3_inv s" by (rule s3_reachable_inv [OF assms(1)])
  obtain m where m: "bt_get (storage s) b = Some m" using assms(2) by (auto simp: has_bucket_def)
  let ?s' = "put_bucket b (bt_insert k ((object_or_default k m)\<lparr>body := data, completed := True\<rparr>) m) s"
  have srt: "bt_sorted m" using inv m by (auto simp: s3_inv_def bucket_ok_def)
  have "put_object b k data s = (Ok (), ?s')" using m by (simp add: put_object_def get_bucket_def)
  moreover have "get_object b k None None ?s' = Ok data"
    by (simp add: get_object_at put_bucket_at [OF inv] bt_get_insert [OF srt])
  moreover have "get_object b' k' rg pn ?s' = get_object b' k' rg pn s" if "(b', k') \<noteq> (b, k)" for b' k' rg pn
  proof (rule get_object_same)
    have "object_at s b k' = bt_get m k'" using m by (simp add: object_at_def)
    then show "object_at ?s' b' k' = object_at s b' k'" using that by (auto simp: put_bucket_at [OF inv] bt_get_insert [OF srt])
  qed (use assms(2) in \<open>auto simp: put_bucket_at [OF inv]\<close>)
  ultimately show ?thesis by blast
qed

definition one_bucket :: "nat s3" where
  "one_bucket = \<lparr>storage = [(''b'', [])], lifecycle = []\<rparr>"

lemma one_bucket_reachable: "s3_reachable one_bucket" "has_bucket one_bucket ''b''"
proof -
  have "(create_bucket ''b'' s3_default :: (s3_error, nat s3) res) = Ok one_bucket" by (simp add: create_bucket_def s3_default_def one_bucket_def)
  then show "s3_reachable one_bucket" by (rule s3r_bucket [OF s3r_default])
qed (simp add: has_bucket_def one_bucket_def)

theorem s3_put_get_witness:
  "\<exists>s'. put_object ''b'' ''k'' [1, 2] one_bucket = (Ok (), s') \<and> get_object ''b'' ''k'' None None s' = Ok [1, 2]"
  using s3_put_get [OF one_bucket_reachable, of "''k''" "[1, 2]"] by blast

text \<open>
  A deleted object is gone, its uploads are not.  After \<open>delete_object\<close> the key is not found, the parts of multipart uploads in progress on
  it are kept, and every other object is as before.
\<close>

theorem s3_delete:
  assumes "s3_reachable s" "has_bucket s b"
  shows "\<exists>s'. delete_object b k s = (Ok (), s') \<and> (\<forall>rg pn. get_object b k rg pn s' = Err (NoSuchKey k)) \<and>
    (\<forall>x u. object_at s b k = Some x \<longrightarrow> bt_get (parts x) u \<noteq> None \<longrightarrow>
       (\<exists>x'. object_at s' b k = Some x' \<and> parts x' = parts x)) \<and>
    (\<forall>b' k' rg pn. (b', k') \<noteq> (b, k) \<longrightarrow> get_object b' k' rg pn s' = get_object b' k' rg pn s)"
proof -
  have inv: "s3_inv s" by (rule s3_reachable_inv [OF assms(1)])
  obtain m where m: "bt_get (storage s) b = Some m" using assms(2) by (auto simp: has_bucket_def)
  let ?s' = "put_bucket b (delete_key k m) s"
  have srt: "bt_sorted m" using inv m by (auto simp: s3_inv_def bucket_ok_def)
  have at: "object_at s b k' = bt_get m k'" for k' using m by (simp add: object_at_def)
  have dk: "bt_get (delete_key k m) k = (case bt_get m k of None \<Rightarrow> None | Some x \<Rightarrow>
      if completed x then (if parts x = [] then None else Some (x\<lparr>completed := False, body := []\<rparr>)) else Some x)"
    "k' \<noteq> k \<Longrightarrow> bt_get (delete_key k m) k' = bt_get m k'" for k'
    by (auto simp: delete_key_def bt_get_remove bt_get_insert [OF srt] split: option.split)
  have "delete_object b k s = (Ok (), ?s')" using m by (simp add: delete_object_def get_bucket_def)
  moreover have "get_object b k rg pn ?s' = Err (NoSuchKey k)" for rg pn
    by (auto simp: get_object_at put_bucket_at [OF inv] dk(1) split: option.split)
  moreover have "\<exists>x'. object_at ?s' b k = Some x' \<and> parts x' = parts x"
    if "object_at s b k = Some x" "bt_get (parts x) u \<noteq> None" for x u
    using that at [of k] by (auto simp: put_bucket_at [OF inv] dk(1))
  moreover have "get_object b' k' rg pn ?s' = get_object b' k' rg pn s" if "(b', k') \<noteq> (b, k)" for b' k' rg pn
    using that assms(2) at [of k'] dk(2) [of k'] by (intro get_object_same) (auto simp: put_bucket_at [OF inv])
  ultimately show ?thesis by blast
qed

theorem s3_delete_witness:
  "\<exists>s'. delete_object ''b'' ''k'' one_bucket = (Ok (), s') \<and> get_object ''b'' ''k'' None None s' = Err (NoSuchKey ''k'')"
  using s3_delete [OF one_bucket_reachable, of "''k''"] by blast

subsection \<open>Multipart uploads\<close>

text \<open>A client that uploads parts one after the other: number, data and the random number of the tag; it collects the tags.\<close>

fun upload_all :: "string \<Rightarrow> string \<Rightarrow> string \<Rightarrow> (int \<times> bytes \<times> nat) list \<Rightarrow> 'r s3 \<Rightarrow> ('r, completed_part list) s3_result" where
  "upload_all b k u [] s = (Ok [], s)"
| "upload_all b k u ((n, d, r) # xs) s =
     st_bind (upload_part b k d n u r s) (\<lambda>e s.
     st_bind (upload_all b k u xs s) (\<lambda>cs s. (Ok (\<lparr>cp_number = Some n, cp_e_tag = Some e\<rparr> # cs), s)))"

definition part_of :: "int \<times> bytes \<times> nat \<Rightarrow> object_part" where
  "part_of x = (case x of (n, d, r) \<Rightarrow> \<lparr>part_number = n, part_body = d, part_e_tag = string_of_nat r\<rparr>)"

definition receipt_of :: "int \<times> bytes \<times> nat \<Rightarrow> completed_part" where
  "receipt_of x = (case x of (n, d, r) \<Rightarrow> \<lparr>cp_number = Some n, cp_e_tag = Some (string_of_nat r)\<rparr>)"

lemma upload_all_Ok:
  assumes "s3_inv s" "object_at s b k = Some x" "bt_get (parts x) u = Some ps"
  shows "\<exists>s' x'. upload_all b k u xs s = (Ok (map receipt_of xs), s') \<and> s3_inv s' \<and> object_at s' b k = Some x' \<and>
    bt_get (parts x') u = Some (ps @ map part_of xs)"
  using assms
proof (induction xs arbitrary: s x ps)
  case (Cons e xs)
  obtain n d r where e: "e = (n, d, r)" by (cases e)
  obtain m where m: "bt_get (storage s) b = Some m" "bt_get m k = Some x"
    using Cons.prems(2) by (auto simp: object_at_def split: option.splits)
  let ?x = "x\<lparr>parts := bt_insert u (ps @ [part_of e]) (parts x)\<rparr>"
  let ?s = "put_bucket b (bt_insert k ?x m) s"
  have up: "upload_part b k d n u r s = (Ok (string_of_nat r), ?s)"
    using m Cons.prems(3) by (simp add: upload_part_def get_bucket_def Let_def e part_of_def)
  have srt: "bt_sorted m" "bt_sorted (parts x)"
    using Cons.prems(1) m by (auto simp: s3_inv_def bucket_ok_def object_ok_def)
  have inv: "s3_inv ?s" using upload_part_inv [OF Cons.prems(1), of b k d n u r] up by simp
  have "object_at ?s b k = Some ?x" by (simp add: put_bucket_at [OF Cons.prems(1)] bt_get_insert [OF srt(1)])
  moreover have "bt_get (parts ?x) u = Some (ps @ [part_of e])" by (simp add: bt_get_insert [OF srt(2)])
  ultimately show ?case using Cons.IH [OF inv, of ?x "ps @ [part_of e]"] up by (auto simp: e receipt_of_def)
qed simp

lemma find_part:
  assumes "distinct (map fst xs)" "x \<in> set xs"
  shows "find (part_matches (receipt_of x)) (map part_of xs) = Some (part_of x)"
  using assms
proof (induction xs)
  case (Cons y ys)
  show ?case
  proof (cases "x = y")
    case True
    then show ?thesis by (cases y) (simp add: part_matches_def receipt_of_def part_of_def)
  next
    case False
    then have "x \<in> set ys" "fst x \<noteq> fst y" using Cons.prems by (auto simp: image_iff)
    then have "\<not> part_matches (receipt_of x) (part_of y)"
      by (simp add: part_matches_def receipt_of_def part_of_def case_prod_beta)
    then show ?thesis using Cons \<open>x \<in> set ys\<close> by simp
  qed
qed simp

lemma sort_receipts: "sort_key cp_number (map receipt_of xs) = map receipt_of (sort_key fst xs)"
proof -
  have "insort_key cp_number (receipt_of x) (map receipt_of ys) = map receipt_of (insort_key fst x ys)" for x ys
    by (induction ys) (auto simp: receipt_of_def split: prod.splits)
  then show ?thesis by (induction xs) auto
qed

lemma assemble_parts:
  assumes "distinct (map fst xs)" "mset cs = mset (map receipt_of xs)"
  shows "assemble (map part_of xs) cs = concat (map (fst \<circ> snd) (sort_key fst xs))"
proof -
  have "sort_key cp_number cs = sort_key cp_number (map receipt_of xs)"
  proof (rule sort_key_inj_key_eq)
    show "mset cs = mset (sort_key cp_number (map receipt_of xs))" using assms(2) by simp
    have "set cs = receipt_of ` set xs" using mset_eq_setD [OF assms(2)] by simp
    moreover have "inj_on cp_number (receipt_of ` set xs)"
      using assms(1) by (auto simp: inj_on_def receipt_of_def distinct_map) force+
    ultimately show "inj_on cp_number (set cs)" by simp
  qed simp
  then have "assemble (map part_of xs) cs =
      concat (map (\<lambda>x. case find (part_matches (receipt_of x)) (map part_of xs) of Some p \<Rightarrow> part_body p | None \<Rightarrow> [])
        (sort_key fst xs))"
    by (simp add: assemble_def sort_receipts comp_def)
  also have "\<dots> = concat (map (\<lambda>x. part_body (part_of x)) (sort_key fst xs))"
    by (intro arg_cong [of _ _ concat] map_cong) (simp_all add: find_part [OF assms(1)])
  finally show ?thesis by (simp add: part_of_def case_prod_beta comp_def)
qed

text \<open>
  C37: a multipart upload stores the parts in the order of their numbers.  In every reachable store with the bucket: a client that creates an upload, uploads parts with
  different numbers in any order and completes the upload with the receipts of all of them, in any order, succeeds in every step, and \<open>get_object\<close> returns the
  concatenation of the parts sorted by part number.
\<close>

theorem s3_multipart_roundtrip:
  assumes "s3_reachable s" "has_bucket s b" "create_multipart_upload b k rs s = Some (Ok u, s1)"
    and "distinct (map fst xs)" "mset cs = mset (map receipt_of xs)"
  shows "\<exists>s2 s3. upload_all b k u xs s1 = (Ok (map receipt_of xs), s2) \<and>
    complete_multipart_upload b k (Some cs) u s2 = (Ok (), s3) \<and>
    get_object b k None None s3 = Ok (concat (map (fst \<circ> snd) (sort_key fst xs)))"
proof -
  have inv: "s3_inv s" by (rule s3_reachable_inv [OF assms(1)])
  have inv1: "s3_inv s1" by (rule create_upload_inv [OF inv assms(3)])
  obtain m where m: "bt_get (storage s) b = Some m" using assms(2) by (auto simp: has_bucket_def)
  let ?x = "object_or_default k m"
  have srt: "bt_sorted m" "bt_sorted (parts ?x)"
    using inv m object_ok_default [of m k] by (auto simp: s3_inv_def bucket_ok_def object_ok_def)
  have s1: "s1 = put_bucket b (bt_insert k (?x\<lparr>parts := bt_insert u [] (parts ?x)\<rparr>) m) s"
    using assms(3) m by (auto simp: create_multipart_upload_def get_bucket_def Let_def split: option.splits)
  have o1: "object_at s1 b k = Some (?x\<lparr>parts := bt_insert u [] (parts ?x)\<rparr>)"
    by (simp add: s1 put_bucket_at [OF inv] bt_get_insert [OF srt(1)])
  have "bt_get (parts (?x\<lparr>parts := bt_insert u [] (parts ?x)\<rparr>)) u = Some []" by (simp add: bt_get_insert [OF srt(2)])
  then obtain s2 x2 where s2: "upload_all b k u xs s1 = (Ok (map receipt_of xs), s2)" "s3_inv s2" "object_at s2 b k = Some x2"
    "bt_get (parts x2) u = Some (map part_of xs)"
    using upload_all_Ok [OF inv1 o1, of u "[]" xs] by auto
  obtain m2 where m2: "bt_get (storage s2) b = Some m2" "bt_get m2 k = Some x2"
    using s2(3) by (auto simp: object_at_def split: option.splits)
  have srt2: "bt_sorted m2" using s2(2) m2(1) by (auto simp: s3_inv_def bucket_ok_def)
  let ?x3 = "x2\<lparr>parts := bt_remove u (parts x2), body := assemble (map part_of xs) cs, completed := True\<rparr>"
  let ?s3 = "put_bucket b (bt_insert k ?x3 m2) s2"
  have "complete_multipart_upload b k (Some cs) u s2 = (Ok (), ?s3)"
    using m2 s2(4) by (simp add: complete_multipart_upload_def get_bucket_def Let_def)
  moreover have "get_object b k None None ?s3 = Ok (assemble (map part_of xs) cs)"
    by (simp add: get_object_at put_bucket_at [OF s2(2)] bt_get_insert [OF srt2])
  ultimately show ?thesis using s2(1) assemble_parts [OF assms(4,5)] by auto
qed

theorem s3_multipart_roundtrip_witness:
  "\<exists>s1 s2 s3. create_multipart_upload ''b'' ''k'' [3] one_bucket = Some (Ok (string_of_nat 3), s1) \<and>
     upload_all ''b'' ''k'' (string_of_nat 3) [(2, [20], 5), (1, [10], 6)] s1 =
       (Ok [receipt_of (2, [20], 5), receipt_of (1, [10], 6)], s2) \<and>
     complete_multipart_upload ''b'' ''k'' (Some [receipt_of (2, [20], 5), receipt_of (1, [10], 6)]) (string_of_nat 3) s2 = (Ok (), s3) \<and>
     get_object ''b'' ''k'' None None s3 = Ok [10, 20]"
proof -
  let ?xs = "[(2, [20], 5), (1, [10], 6)]"
  obtain s1 where s1: "create_multipart_upload ''b'' ''k'' [3] one_bucket = Some (Ok (string_of_nat 3), s1)"
    by (simp add: create_multipart_upload_def get_bucket_def one_bucket_def object_or_default_def object_default_def Let_def)
  show ?thesis
    using s3_multipart_roundtrip [OF one_bucket_reachable s1, of ?xs "map receipt_of ?xs"] s1 by auto
qed

subsection \<open>Byte ranges\<close>

lemma digit_no_sep: "list_all is_digit s \<Longrightarrow> CHR ''='' \<notin> set s \<and> CHR ''-'' \<notin> set s"
  by (auto simp: list_all_iff is_digit_def)

text \<open>The header that asks for the bytes from \<open>lo\<close> to \<open>hi\<close>.\<close>

definition range_header :: "nat \<Rightarrow> nat \<Rightarrow> string" where
  "range_header lo hi = ''bytes='' @ string_of_nat lo @ ''-'' @ string_of_nat hi"

lemma parse_range_header:
  assumes "lo < 2 ^ 64" "hi < 2 ^ 64"
  shows "parse_range (range_header lo hi) = Ok (Some lo, Some hi)"
proof -
  let ?r = "string_of_nat lo @ ''-'' @ string_of_nat hi"
  have d: "CHR ''='' \<notin> set ?r" "CHR ''-'' \<notin> set (string_of_nat lo)"
    using digit_no_sep string_of_nat_digits by auto
  have r: "takeWhile (\<lambda>c. c \<noteq> CHR ''='') ?r = ?r" 
    unfolding takeWhile_eq_all_conv using d(1) by blast
  have "takeWhile (\<lambda>c. c \<noteq> CHR ''-'') ?r = string_of_nat lo" "dropWhile (\<lambda>c. c \<noteq> CHR ''-'') ?r = ''-'' @ string_of_nat hi"
    by (subst takeWhile_append2 dropWhile_append2; use d(2) in auto)+
  then have "split_once (CHR ''-'') ?r = Some (string_of_nat lo, string_of_nat hi)" by (simp add: split_once_def)
  moreover define R where "R = ?r"
  ultimately have R: "split_once (CHR ''-'') R = Some (string_of_nat lo, string_of_nat hi)"
    "takeWhile (\<lambda>c. c \<noteq> CHR ''='') R = R" using r by simp_all
  have h: "range_header lo hi = ''bytes='' @ R" by (simp add: range_header_def R_def)
  then have "takeWhile (\<lambda>c. c \<noteq> CHR ''='') (range_header lo hi) = ''bytes''"
    "split_once (CHR ''='') (range_header lo hi) = Some (''bytes'', R)" by (simp_all add: split_once_def)
  moreover have "parse_pos x (string_of_nat n) = Ok (Some n)" if "n < 2 ^ 64" for x n
    using parse_string_of_nat [OF that] string_of_nat_digits [of n] by (simp add: parse_pos_def)
  ultimately show ?thesis using R(1) assms by (simp add: parse_range_def Let_def R(2) del: bind_res_Ok_iff)
qed

text \<open>
  A range request returns the range.  For an object that can be read, the header "bytes=lo-hi" (64-bit numbers) returns the bytes from position lo to
  hi, both inclusive, when hi lies within the object and lo is at most hi + 1; a range that reaches beyond the end, or that is reversed, panics.
\<close>

theorem s3_get_range:
  assumes "get_object b k None None s = Ok data" "lo < 2 ^ 64" "hi < 2 ^ 64"
  shows "get_object b k (Some (range_header lo hi)) None s =
    (if hi + 1 < lo then Panic ''range start must not be greater than end''
     else if length data \<le> hi then Panic ''range end out of bounds''
     else Ok (take (hi + 1 - lo) (drop lo data)))"
proof -
  obtain x where "has_bucket s b" "object_at s b k = Some x" "completed x" "body x = data"
    using assms(1) by (auto simp: get_object_at split: if_splits option.splits)
  then show ?thesis using parse_range_header [OF assms(2,3)]
    by (simp add: get_object_at body_range_def slice_def)
qed

theorem s3_get_range_witness:
  "\<exists>s'. put_object ''b'' ''k'' [1, 2, 3] one_bucket = (Ok (), s') \<and>
     get_object ''b'' ''k'' (Some (range_header 1 2)) None s' = Ok [2, 3] \<and>
     is_panic (get_object ''b'' ''k'' (Some (range_header 1 3)) None s')"
proof -
  obtain s' where p: "put_object ''b'' ''k'' [1, 2, 3] one_bucket = (Ok (), s')"
    by (simp add: put_object_def get_bucket_def one_bucket_def)
  then have g: "get_object ''b'' ''k'' None None s' = Ok [1, 2, 3]"
    by (auto simp: put_object_def get_bucket_def one_bucket_def put_bucket_def get_object_def simp del: bind_res_Ok_iff)
  show ?thesis using s3_get_range [OF g, of 1 2] s3_get_range [OF g, of 1 3] p by simp
qed

text \<open>
  The metadata of objects is never filled in.  In every reachable store a successful \<open>head_object\<close> reports the length 0 and no modification time,
  whatever the object holds, and so does every entry of a listing.
\<close>

theorem s3_head_reports_zero:
  assumes "s3_reachable s"
  shows "head_object b k s \<in> {Ok (None, 0), Err (NoSuchBucket b), Err (ObjectNotFound k)} \<and>
    (case list_objects_v2 b p s of Ok es \<Rightarrow> \<forall>e \<in> set es. snd e = 0 | _ \<Rightarrow> True)"
proof -
  have inv: "s3_inv s" by (rule s3_reachable_inv [OF assms])
  have ok: "get_bucket b s = Ok m \<Longrightarrow> bucket_ok m" for m using s3_inv_get [OF inv] .
  have "head_object b k s \<in> {Ok (None, 0), Err (NoSuchBucket b), Err (ObjectNotFound k)}"
    using ok bucket_ok_get [of _ k]
    by (cases "bt_get (storage s) b") (auto simp: head_object_def get_bucket_def object_ok_def ok_or_def split: option.split)
  moreover have "content_length x = 0" if "get_bucket b s = Ok m" "(k', x) \<in> set m" for m k' x
    using ok [OF that(1)] that(2) bt_get_mem [of m k' x] by (auto simp: bucket_ok_def object_ok_def)
  ultimately show ?thesis
    by (cases "get_bucket b s") (auto simp: list_objects_v2_def split: option.split)
qed

theorem s3_head_reports_zero_witness:
  "s3_reachable one_bucket \<and> head_object ''b'' ''k'' one_bucket \<in> {Ok (None, 0), Err (NoSuchBucket ''b''), Err (ObjectNotFound ''k'')}"
  using s3_head_reports_zero [OF one_bucket_reachable(1)] one_bucket_reachable(1) by blast

text \<open>
  A listing without a prefix shows objects that do not exist.  After a multipart upload has been created (and nothing else), a listing of the bucket
  without a prefix shows the key, although \<open>get_object\<close> does not find it and a listing with the empty prefix does not show it.
\<close>

theorem s3_list_shows_incomplete:
  "\<exists>u s'. create_multipart_upload ''b'' ''k'' [3] one_bucket = Some (Ok u, s') \<and>
     list_objects_v2 ''b'' None s' = Ok [(''k'', 0)] \<and> list_objects_v2 ''b'' (Some []) s' = Ok [] \<and>
     get_object ''b'' ''k'' None None s' = Err (NoSuchKey ''k'')"
  by (simp add: create_multipart_upload_def get_bucket_def one_bucket_def object_or_default_def object_default_def Let_def
      list_objects_v2_def put_bucket_def get_object_def)

end
