(* ===== verification/S3Client.thy ===== *)
theory S3Client
  imports Service S3Props
begin

section \<open>The clients of S3\<close>

text \<open>The service behind the loop of \<open>Service\<close> (\<open>rpc_server.rs\<close>), and the client (\<open>client.rs\<close>).\<close>

text \<open>\<open>SimServer::serve\<close> creates a bucket at first, if it is given one.\<close>

definition s3_server :: "string option \<Rightarrow> (s3_error, 'r s3) res" where
  "s3_server b = (case b of Some b \<Rightarrow> create_bucket b s3_default | None \<Rightarrow> Ok s3_default)"

definition s3_exec :: "'r \<Rightarrow> 'r s3_request \<Rightarrow> 'r s3 \<Rightarrow> (s3_error, 'r s3_response) res option \<Rightarrow> 'r s3 \<Rightarrow> bool" where
  "s3_exec d q s a s' \<longleftrightarrow> (\<exists>rs x. s3_call d rs q s = Some (x, s') \<and> result_exec x a)"

datatype sdk_error = DispatchFailure io_error | ServiceError s3_error nat

definition s3_send_request :: "(s3_error, 'r s3_response) res option \<Rightarrow> (sdk_error, 'r s3_response) res" where
  "s3_send_request x =
     (case x of
        None \<Rightarrow> Err (DispatchFailure ConnectionReset)
      | Some (Ok y) \<Rightarrow> Ok y
      | Some (Err e) \<Rightarrow> Err (ServiceError e 500)
      | Some (Panic p) \<Rightarrow> Panic p)"

text \<open>The requests that name an object, other than to read it.\<close>

fun names_object :: "'r s3_request \<Rightarrow> string \<Rightarrow> string \<Rightarrow> bool" where
  "names_object (CreateMultipartUpload b' k') b k = (b' = Some b \<and> k' = Some k)"
| "names_object (UploadPart b' k' d l n u) b k = (b' = Some b \<and> k' = Some k)"
| "names_object (CompleteMultipartUpload b' k' c u) b k = (b' = Some b \<and> k' = Some k)"
| "names_object (AbortMultipartUpload b' k' u) b k = (b' = Some b \<and> k' = Some k)"
| "names_object (PutObject b' k' d) b k = (b' = Some b \<and> k' = Some k)"
| "names_object (DeleteObject b' k') b k = (b' = Some b \<and> k' = Some k)"
| "names_object (DeleteObjects b' ks) b k = (b' = Some b \<and> (\<exists>xs. ks = Some xs \<and> k \<in> set xs))"
| "names_object _ b k = False"

text \<open>Any other request leaves the object as it is.\<close>

definition same_object :: "string \<Rightarrow> string \<Rightarrow> 'r s3 \<Rightarrow> 'r s3 \<Rightarrow> bool" where
  "same_object b k s s' \<longleftrightarrow> object_at s' b k = object_at s b k \<and> has_bucket s' b = has_bucket s b"

lemma same_object_refl [simp]: "same_object b k s s"
  by (simp add: same_object_def)

lemma same_object_put:
  assumes "s3_inv s" "get_bucket b' s = Ok m" "b' = b \<Longrightarrow> bt_get m' k = bt_get m k"
  shows "same_object b k s (put_bucket b' m' s)"
  using assms put_bucket_at[OF assms(1), of b' m']
  by (cases "b' = b") (auto simp: same_object_def get_bucket_def, auto simp: has_bucket_def object_at_def)

lemma same_object_insert:
  assumes "s3_inv s" "get_bucket b' s = Ok m" "b' = b \<Longrightarrow> k' \<noteq> k"
  shows "same_object b k s (put_bucket b' (bt_insert k' x m) s)"
  using assms s3_inv_get[OF assms(1,2)] by (intro same_object_put) (auto simp: bucket_ok_def bt_get_insert)

lemma delete_key_other: "bucket_ok m \<Longrightarrow> k' \<noteq> k \<Longrightarrow> bt_get (delete_key k' m) k = bt_get m k"
  by (auto simp: delete_key_def bt_get_remove bt_get_insert bucket_ok_def split: option.split)

lemma delete_keys_other: "bucket_ok m \<Longrightarrow> k \<notin> set ks \<Longrightarrow> bt_get (fold delete_key ks m) k = bt_get m k"
  by (induction ks arbitrary: m) (auto simp: delete_key_other bucket_ok_delete)

lemma same_object_delete:
  assumes "s3_inv s" "get_bucket b' s = Ok m"
  shows "b' = b \<longrightarrow> k' \<noteq> k \<Longrightarrow> same_object b k s (put_bucket b' (delete_key k' m) s)"
    "b' = b \<longrightarrow> k \<notin> set ks \<Longrightarrow> same_object b k s (put_bucket b' (fold delete_key ks m) s)"
  using s3_inv_get[OF assms] by (auto intro!: same_object_put[OF assms] delete_key_other delete_keys_other)

lemma same_object_bind:
  assumes "snd m = s" "\<And>a. fst m = Ok a \<Longrightarrow> same_object b k s (snd (f a s))"
  shows "same_object b k s (snd (st_bind m f))"
  using assms by (cases m; cases "fst m") (auto simp: st_bind_def)

lemma same_object_out: "same_object b k s (snd m) \<Longrightarrow> same_object b k s (snd (out f m))"
  by (cases m; cases "fst m") (auto simp: out_def st_bind_def)

lemma same_object_outD: "out f m = (r, s') \<Longrightarrow> same_object b k s (snd m) \<Longrightarrow> same_object b k s s'"
  using same_object_out[of b k s m f] by simp

lemma unwrap_Ok_iff [simp]: "unwrap x = Ok a \<longleftrightarrow> x = Some a"
  by (auto simp: unwrap_def expect_def split: option.split)

lemma same_object_ops:
  assumes "s3_inv s"
  shows "b' = b \<longrightarrow> k' \<noteq> k \<Longrightarrow> same_object b k s (snd (upload_part b' k' d n u r s))"
    "b' = b \<longrightarrow> k' \<noteq> k \<Longrightarrow> same_object b k s (snd (complete_multipart_upload b' k' c u s))"
    "b' = b \<longrightarrow> k' \<noteq> k \<Longrightarrow> same_object b k s (snd (abort_multipart_upload b' k' u s))"
    "b' = b \<longrightarrow> k' \<noteq> k \<Longrightarrow> same_object b k s (snd (put_object b' k' d s))"
    "b' = b \<longrightarrow> k' \<noteq> k \<Longrightarrow> same_object b k s (snd (delete_object b' k' s))"
    "b' = b \<longrightarrow> k \<notin> set ks \<Longrightarrow> same_object b k s (snd (delete_objects b' ks s))"
  unfolding upload_part_def complete_multipart_upload_def abort_multipart_upload_def put_object_def delete_object_def delete_objects_def Let_def
  by (intro same_object_bind; simp add: same_object_insert[OF assms] same_object_delete[OF assms])+

lemma same_object_create:
  assumes "s3_inv s" "create_multipart_upload b' k' rs s = Some m" "b' = b \<longrightarrow> k' \<noteq> k"
  shows "same_object b k s (snd m)"
  using assms(2,3) same_object_insert[OF assms(1)]
  by (auto simp: create_multipart_upload_def Let_def split: res.splits option.splits)

lemma same_object_lifecycle:
  "same_object b k s (snd (get_bucket_lifecycle_configuration b' s))"
  "same_object b k s (put_bucket_lifecycle_configuration b' rs s)"
  by (auto simp: get_bucket_lifecycle_configuration_def put_bucket_lifecycle_configuration_def same_object_def object_at_def has_bucket_def
      split: option.split)

lemma same_object_call:
  assumes "s3_inv s" "s3_call d rs q s = Some (r, s')" "\<not> names_object q b k"
  shows "same_object b k s s'"
proof -
  note call = assms(2)[unfolded s3_call_def]
  note rules = same_object_out same_object_bind same_object_ops[OF assms(1)] same_object_lifecycle
  show ?thesis
  proof (cases q)
    case (CreateMultipartUpload b' k')
    have c: "same_object b k s (snd m)" if "create_multipart_upload b1 k1 rs s = Some m" "b' = Some b1" "k' = Some k1" for b1 k1 m
      using same_object_create[OF assms(1) that(1)] that assms(3) CreateMultipartUpload by auto
    show ?thesis
      using call CreateMultipartUpload
      by (cases b'; cases k') (auto simp: unwrap_def dest!: c intro: same_object_outD)
  next
    case (GetBucketLifecycle b')
    then show ?thesis using call same_object_lifecycle(1)[of b k s]
      by (cases b') (auto simp: unwrap_def out_def case_prod_beta)
  qed (use call assms in \<open>auto simp: s3_call_def prod_eq_iff unwrap_def intro!: same_object_out same_object_bind same_object_ops same_object_lifecycle\<close>)
qed


lemma s3_server_inv: "s3_server bk = Ok s0 \<Longrightarrow> s3_inv s0"
  by (rule s3_reachable_inv) (auto simp: s3_server_def intro: s3r_default s3r_bucket split: option.splits)

abbreviation no_other :: "'s \<Rightarrow> 's \<Rightarrow> bool" where
  "no_other s s' \<equiv> False"

lemma s3_legal_inv:
  assumes "legal (svc_net R T (s3_exec d) no_other) s0 es s" "s3_inv s0"
  shows "s3_inv s"
proof (rule legal_keeps[where P = s3_inv, OF assms(1) _ assms(2)])
  fix e s1 s2 assume "entry_step (svc_net R T (s3_exec d) no_other) e s1 s2" "s3_inv s1"
  then show "s3_inv s2" by (cases e) (auto simp: svc_net_def s3_exec_def intro: s3_call_inv)
qed

lemma put_object_Ok:
  assumes "s3_inv s" "put_object b k data s = (Ok (), s')"
  shows "get_object b k None None s' = Ok data"
proof -
  obtain m where m: "get_bucket b s = Ok m" "s' = put_bucket b (bt_insert k ((object_or_default k m)\<lparr>body := data, completed := True\<rparr>) m) s"
    using assms(2) by (auto simp: put_object_def st_bind_Ok_iff)
  then have "bt_sorted m" using s3_inv_get[OF assms(1)] by (simp add: bucket_ok_def)
  then show ?thesis by (simp add: m(2) get_object_at put_bucket_at[OF assms(1)] bt_get_insert)
qed

lemma s3_exec_put:
  assumes "s3_inv s" "s3_exec d (PutObject (Some b) (Some k) data) s (Some (Ok x)) s'"
  shows "s3_inv s' \<and> get_object b k None None s' = Ok data"
proof -
  obtain rs where c: "s3_call d rs (PutObject (Some b) (Some k) data) s = Some (Ok x, s')"
    using assms(2) by (auto simp: s3_exec_def result_exec_def split: if_splits)
  then have "put_object b k data s = (Ok (), s')" by (auto simp: s3_call_def unwrap_def out_def st_bind_Ok_iff)
  then show ?thesis using put_object_Ok[OF assms(1)] s3_call_inv[OF assms(1) c] by simp
qed

lemma s3_exec_get:
  assumes "s3_exec d (GetObject (Some b) (Some k) None None) s (Some a) s'" "get_object b k None None s = Ok data"
  shows "a = Ok (OBytes data)"
  using assms by (auto simp: s3_exec_def result_exec_def s3_call_def unwrap_def out_def split: if_splits)

text \<open>
  C29: S3 clients read their writes.  Among any number of concurrent clients, over any network: a \<open>get_object\<close> that is called after
  a \<open>put_object\<close> of the same object has returned successfully returns exactly the bytes that were put, unless another request
  that names the object, to write, delete or upload it, was executed since the put was called.
\<close>

theorem s3_read_your_writes:
  assumes "s3_server bk = Ok s0"
    and "svc_reachable (svc_net R T (s3_exec d) no_other) s0 s"
    and "i < length (sv_calls s)" "cc_req (sv_calls s ! i) = PutObject (Some b) (Some k) data"
      "cc_caller (sv_calls s ! i) = Returned (Ok x) n"
    and "j < length (sv_calls s)" "cc_req (sv_calls s ! j) = GetObject (Some b) (Some k) None None"
      "cc_caller (sv_calls s ! j) = Returned a m" "n \<le> cc_start (sv_calls s ! j)"
    and others: "\<forall>h q r. Executed h q r \<in> set (drop (cc_start (sv_calls s ! i)) (sv_log s)) \<longrightarrow> names_object q b k \<longrightarrow> h = i"
  shows "s3_send_request (Some a) = Ok (OBytes data)"
proof -
  let ?E = "svc_net R T (s3_exec d) no_other"
  have "linearizable ?E s0 s" by (rule snet.reachable_linearizable[OF assms(2)])
  from linearized_after[OF this assms(3,5,6,8,9)]
  obtain es s1 s2 mid s3 s4 where l: "legal ?E s0 es s1" "se_exec ?E (PutObject (Some b) (Some k) data) s1 (Some (Ok x)) s2" "legal ?E s2 mid s3"
    "\<And>e. e \<in> set mid \<Longrightarrow> e \<in> set (drop (cc_start (sv_calls s ! i)) (sv_log s)) \<and> \<not> of_call i e"
    "se_exec ?E (GetObject (Some b) (Some k) None None) s3 (Some a) s4"
    unfolding assms(4,7) by blast
  let ?P = "\<lambda>s. s3_inv s \<and> get_object b k None None s = Ok data"
  have "?P s2" using s3_exec_put s3_legal_inv[OF l(1) s3_server_inv[OF assms(1)]] l(2) by (simp add: svc_net_def)
  then have "?P s3"
  proof (rule legal_keeps[where P = ?P, OF l(3), rotated])
    fix e u v assume e: "e \<in> set mid" "entry_step ?E e u v" "?P u"
    show "?P v"
    proof (cases e)
      case (Executed h q r)
      then have q: "\<not> names_object q b k" using others l(4)[OF e(1)] by auto
      obtain rs y where c: "s3_call d rs q u = Some (y, v)" using e(2) Executed by (auto simp: svc_net_def s3_exec_def)
      have u: "s3_inv u" using e(3) by simp
      have "get_object b k None None v = get_object b k None None u"
        using same_object_call[OF u c q] by (intro get_object_same) (simp_all add: same_object_def)
      then show ?thesis using e(3) s3_call_inv[OF u c] by simp
    qed (use e in \<open>simp add: svc_net_def\<close>)
  qed
  then have "a = Ok (OBytes data)" using s3_exec_get[of d b k s3 a s4 data] l(5) by (simp add: svc_net_def)
  then show ?thesis by (simp add: s3_send_request_def)
qed

theorem s3_read_your_writes_witness:
  "\<exists>s a m. svc_reachable (good_net (s3_exec (0 :: nat)) no_other) one_bucket s \<and> length (sv_calls s) = 2 \<and>
     cc_caller (sv_calls s ! 1) = Returned a m \<and> s3_send_request (Some a) = Ok (OBytes [1, 2])"
proof -
  let ?E = "good_net (s3_exec (0 :: nat)) no_other" and ?put = "PutObject (Some ''b'') (Some ''k'') [1, 2]"
    and ?get = "GetObject (Some ''b'') (Some ''k'') None None" and ?s0 = "svc_start one_bucket"
  have s0: "s3_server (Some ''b'') = Ok one_bucket"
    by (simp add: s3_server_def create_bucket_def s3_default_def one_bucket_def)
  obtain s1 where p: "put_object ''b'' ''k'' [1, 2] one_bucket = (Ok (), s1)"
    by (simp add: put_object_def get_bucket_def one_bucket_def)
  have "s3_exec 0 ?put (sv_state ?s0) (Some (Ok OUnit)) s1"
    using p by (auto simp: s3_exec_def s3_call_def svc_start_def unwrap_def out_def result_exec_def)
  from solo_call[where exec = "s3_exec 0" and other = no_other, OF svc_init this] obtain c where c: "cc_req c = ?put" "cc_start c = 0" "cc_caller c = Returned (Ok OUnit) 1"
    and r: "svc_reachable ?E one_bucket (?s0\<lparr>sv_calls := [c], sv_state := s1, sv_log := [Executed 0 ?put (Some (Ok OUnit))]\<rparr>)"
    (is "svc_reachable _ _ ?t") by (auto simp: svc_start_def)
  have "s3_exec 0 ?get (sv_state ?t) (Some (Ok (OBytes [1, 2]))) s1"
    using put_object_Ok[OF s3_server_inv[OF s0] p] by (auto simp: s3_exec_def s3_call_def unwrap_def out_def result_exec_def)
  from solo_call[where exec = "s3_exec 0" and other = no_other, OF r this] obtain c' where c': "cc_req c' = ?get" "cc_start c' = 1" "cc_caller c' = Returned (Ok (OBytes [1, 2])) 2"
    and r': "svc_reachable ?E one_bucket (?t\<lparr>sv_calls := [c, c'], sv_state := s1,
      sv_log := [Executed 0 ?put (Some (Ok OUnit)), Executed 1 ?get (Some (Ok (OBytes [1, 2])))]\<rparr>)"
    (is "svc_reachable _ _ ?u") by auto
  have "s3_send_request (Some (Ok (OBytes [1, 2]) :: (s3_error, nat s3_response) res)) = Ok (OBytes [1, 2])"
    by (rule s3_read_your_writes[OF s0 r', of 0 "''b''" "''k''" "[1, 2]" OUnit 1 1 _ 2]) (auto simp: c c')
  then show ?thesis using r' c' by (intro exI[of _ ?u]) simp
qed

end
