(* ===== verification/KafkaService.thy ===== *)
theory KafkaService
  imports Service KafkaProps
begin

section \<open>The broker with its clients\<close>

text \<open>The broker behind the loop of \<open>Service\<close> (\<open>sim_broker.rs\<close>); it starts empty.\<close>

definition broker_exec :: "kafka_request \<Rightarrow> broker \<Rightarrow> (kafka_error, kafka_response) res option \<Rightarrow> broker \<Rightarrow> bool" where
  "broker_exec q b a b' \<longleftrightarrow> (\<exists>x. broker_serve q b = (x, b') \<and> result_exec x a)"

abbreviation broker_other :: "broker \<Rightarrow> broker \<Rightarrow> bool" where
  "broker_other b b' \<equiv> False"

text \<open>Two states of the broker between which a partition has only grown.\<close>

definition grows :: "string \<times> int \<Rightarrow> broker \<Rightarrow> broker \<Rightarrow> bool" where
  "grows x b b' \<longleftrightarrow> broker_inv b' \<and> prefix (plog b x) (plog b' x)"

lemma serve_extends_other:
  assumes "broker_inv b" "\<And>k. q \<noteq> CreateTopic (fst x) k"
  shows "prefix (plog b x) (plog (snd (broker_serve q b)) x)"
proof (cases q)
  case (CreateTopic n k)
  then have "n \<noteq> fst x" using assms(2) by auto
  then show ?thesis using CreateTopic by (simp add: create_topic_def plog_def get_partition_update)
qed (use serve_extends[OF assms(1), of q x] in \<open>auto simp: keeps_topics_def\<close>)

lemma entry_grows:
  assumes "entry_step (svc_net R T broker_exec broker_other) e b1 b2" "grows x b b1" "\<And>h k r. e \<noteq> Executed h (CreateTopic (fst x) k) r"
  shows "grows x b b2"
proof (cases e)
  case (Executed h q r)
  then obtain y where "broker_serve q b1 = (y, b2)" using assms(1) by (auto simp: svc_net_def broker_exec_def)
  then have b2: "b2 = snd (broker_serve q b1)" by simp
  have "prefix (plog b1 x) (plog b2 x)"
    unfolding b2 using assms(2,3) Executed by (intro serve_extends_other) (auto simp: grows_def)
  moreover have "broker_inv b2" using assms(2) b2 broker_serve_inv by (simp add: grows_def)
  ultimately show ?thesis using assms(2) prefix_order.trans by (auto simp: grows_def)
qed (use assms in \<open>simp add: svc_net_def\<close>)

lemma broker_legal_inv:
  assumes "legal (svc_net R T broker_exec broker_other) b es b'" "broker_inv b"
  shows "broker_inv b'"
proof (rule legal_keeps[where P = broker_inv, OF assms(1) _ assms(2)])
  fix e b1 b2 assume "entry_step (svc_net R T broker_exec broker_other) e b1 b2" "broker_inv b1"
  then show "broker_inv b2"
  proof (cases e)
    case (Executed h q r)
    then obtain y where "broker_serve q b1 = (y, b2)" using \<open>entry_step _ e b1 b2\<close> by (auto simp: svc_net_def broker_exec_def)
    then show ?thesis using broker_serve_inv[OF \<open>broker_inv b1\<close>, of q] by simp
  qed (simp add: svc_net_def)
qed

lemma watermarks_log:
  assumes "broker_inv b" "broker_exec (FetchWatermarks t p) b (Some (Ok (KWatermarks lo hi))) b'"
  shows "b' = b" "lo = 0" "hi = int (length (plog b (t, p)))"
  using assms(2) get_partition_ok[OF assms(1)]
  by (auto simp: broker_exec_def result_exec_def fetch_watermarks_def kmap_def plog_def partition_ok_def map_err_def split: if_splits res.splits)

lemma broker_default_inv: "broker_inv broker_default"
  by (simp add: broker_inv_def broker_default_def)

text \<open>
  No committed message is lost.  Among any number of concurrent clients, over any network: a client that reads the watermarks of a
  partition after another reading of them has returned sees a high watermark that is not lower, unless the topic was created
  anew since; and the low one is zero.
\<close>

theorem kafka_watermarks_grow:
  assumes "svc_reachable (svc_net R T broker_exec broker_other) broker_default s"
    and "i < length (sv_calls s)" "cc_req (sv_calls s ! i) = FetchWatermarks t p"
      "cc_caller (sv_calls s ! i) = Returned (Ok (KWatermarks lo hi)) n"
    and "j < length (sv_calls s)" "cc_req (sv_calls s ! j) = FetchWatermarks t p"
      "cc_caller (sv_calls s ! j) = Returned (Ok (KWatermarks lo' hi')) m" "n \<le> cc_start (sv_calls s ! j)"
    and new: "\<forall>h k r. Executed h (CreateTopic t k) r \<notin> set (drop (cc_start (sv_calls s ! i)) (sv_log s))"
  shows "lo = 0 \<and> lo' = 0 \<and> hi \<le> hi'"
proof -
  let ?E = "svc_net R T broker_exec broker_other"
  have "linearizable ?E broker_default s" by (rule snet.reachable_linearizable[OF assms(1)])
  then obtain es s1 s2 mid s3 s4 where l: "legal ?E broker_default es s1"
    "se_exec ?E (cc_req (sv_calls s ! i)) s1 (Some (Ok (KWatermarks lo hi))) s2" "legal ?E s2 mid s3"
    "\<And>e. e \<in> set mid \<Longrightarrow> e \<in> set (drop (cc_start (sv_calls s ! i)) (sv_log s)) \<and> \<not> of_call i e"
    "se_exec ?E (cc_req (sv_calls s ! j)) s3 (Some (Ok (KWatermarks lo' hi'))) s4"
    by (rule linearized_after[OF _ assms(2,4,5,7,8)]) blast
  have inv: "broker_inv s1" by (rule broker_legal_inv[OF l(1) broker_default_inv])
  have w: "s2 = s1" "lo = 0" "hi = int (length (plog s1 (t, p)))"
    using watermarks_log[OF inv] l(2) by (simp_all add: assms(3) svc_net_def)
  have "grows (t, p) s1 s3"
  proof (rule legal_keeps[where P = "grows (t, p) s1", OF l(3)])
    fix e u v assume "e \<in> set mid" "entry_step ?E e u v" "grows (t, p) s1 u"
    moreover have "e \<noteq> Executed h (CreateTopic (fst (t, p)) k) r" for h k r using new l(4)[OF \<open>e \<in> set mid\<close>] by auto
    ultimately show "grows (t, p) s1 v" by (intro entry_grows[of R T e u v "(t, p)" s1])
  qed (simp add: w(1) grows_def inv)
  then show ?thesis
    using watermarks_log[of s3 t p lo' hi' s4] l(5) w by (simp add: assms(6) svc_net_def grows_def prefix_length_le)
qed

lemma solo_broker:
  assumes "svc_reachable (good_net broker_exec broker_other) broker_default s" "broker_serve q (sv_state s) = (Ok a, b)"
  obtains c where "cc_req c = q" "cc_start c = length (sv_log s)" "cc_caller c = Returned (Ok a) (Suc (length (sv_log s)))"
    "svc_reachable (good_net broker_exec broker_other) broker_default
      (s\<lparr>sv_calls := sv_calls s @ [c], sv_state := b, sv_log := sv_log s @ [Executed (length (sv_calls s)) q (Some (Ok a))]\<rparr>)"
proof -
  have "broker_exec q (sv_state s) (Some (Ok a)) b" using assms(2) by (simp add: broker_exec_def result_exec_def)
  from solo_call[where exec = broker_exec and other = broker_other, OF assms(1) this] show ?thesis using that by blast
qed

theorem kafka_watermarks_grow_witness:
  "\<exists>s c hi m. svc_reachable (good_net broker_exec broker_other) broker_default s \<and> sv_calls s ! 2 = c \<and>
     cc_req c = FetchWatermarks ''t'' 0 \<and> cc_caller c = Returned (Ok (KWatermarks 0 hi)) m \<and> 0 \<le> hi"
proof -
  let ?E = "good_net broker_exec broker_other" and ?new = "CreateTopic ''t'' 2" and ?wm = "FetchWatermarks ''t'' 0"
  have wm: "broker_serve ?wm empty_topic = (Ok (KWatermarks 0 0), empty_topic)"
    by (simp add: empty_topic_eq fetch_watermarks_def get_partition_def kmap_def topic_new_def partition_new_def map_err_def)
  have "broker_serve ?new (sv_state (svc_start broker_default)) = (Ok KDone, empty_topic)"
    by (simp add: svc_start_def empty_topic_def create_topic_def)
  then obtain c0 where
    r0: "svc_reachable ?E broker_default ((svc_start broker_default)\<lparr>sv_calls := [c0], sv_state := empty_topic,
      sv_log := [Executed 0 ?new (Some (Ok KDone))]\<rparr>)" (is "svc_reachable _ _ ?t0")
    by (rule solo_broker[OF svc_init]) (simp add: svc_start_def)
  have "broker_serve ?wm (sv_state ?t0) = (Ok (KWatermarks 0 0), empty_topic)" using wm by simp
  then obtain c1 where c1: "cc_req c1 = ?wm" "cc_start c1 = 1" "cc_caller c1 = Returned (Ok (KWatermarks 0 0)) 2"
    and r1: "svc_reachable ?E broker_default (?t0\<lparr>sv_calls := [c0, c1], sv_state := empty_topic,
      sv_log := [Executed 0 ?new (Some (Ok KDone)), Executed 1 ?wm (Some (Ok (KWatermarks 0 0)))]\<rparr>)" (is "svc_reachable _ _ ?t1")
    by (rule solo_broker[OF r0]) simp
  have "broker_serve ?wm (sv_state ?t1) = (Ok (KWatermarks 0 0), empty_topic)" using wm by simp
  then obtain c2 where c2: "cc_req c2 = ?wm" "cc_start c2 = 2" "cc_caller c2 = Returned (Ok (KWatermarks 0 0)) 3"
    and r2: "svc_reachable ?E broker_default (?t1\<lparr>sv_calls := [c0, c1, c2], sv_state := empty_topic,
      sv_log := [Executed 0 ?new (Some (Ok KDone)), Executed 1 ?wm (Some (Ok (KWatermarks 0 0))), Executed 2 ?wm (Some (Ok (KWatermarks 0 0)))]\<rparr>)"
    (is "svc_reachable _ _ ?t2") by (rule solo_broker[OF r1]) (simp add: numeral_2_eq_2 numeral_3_eq_3)
  have "(0::int) = 0 \<and> (0::int) = 0 \<and> (0::int) \<le> 0"
    by (rule kafka_watermarks_grow[OF r2, of 1 "''t''" 0 0 0 2 2 0 0 3]) (auto simp: c1 c2)
  then show ?thesis using r2 c2 by (intro exI[of _ ?t2] exI[of _ c2] exI[of _ 0] exI[of _ 3]) simp
qed

end
