(* ===== verification/StdNet.thy ===== *)
theory StdNet
  imports Mailbox
begin

section \<open>Endpoints in real mode\<close>

text \<open>
  The endpoint of the build without simulation, \<open>src/madsim/src/std/net/tcp.rs\<close>: messages with tags as frames on TCP connections, one
  for each peer.  The framing of \<open>tokio_util\<close> is a parameter (\<open>codec_ok\<close> states what it documents), so are the amounts that a write to
  a socket takes and the printing of addresses.
\<close>

type_synonym octets = "8 word list"

subsection \<open>Numbers on the wire\<close>

text \<open>\<open>write_u32\<close>, \<open>write_u64\<close> and \<open>to_be_bytes\<close>: the least \<open>k\<close> bytes of a number, the highest first; \<open>get_u32\<close> and \<open>get_u64\<close>.\<close>

primrec be_bytes :: "nat \<Rightarrow> nat \<Rightarrow> octets" where
  "be_bytes 0 n = []"
| "be_bytes (Suc k) n = be_bytes k (n div 256) @ [of_nat n]"

definition be_value :: "octets \<Rightarrow> nat" where
  "be_value bs = foldl (\<lambda>v b. v * 256 + unat b) 0 bs"

lemma length_be_bytes [simp]: "length (be_bytes k n) = k"
  by (induction k arbitrary: n) auto

lemma be_value_bytes: "be_value (be_bytes k n) = n mod 256 ^ k"
proof (induction k arbitrary: n)
  case (Suc k)
  have "be_value (be_bytes (Suc k) n) = (n div 256) mod 256 ^ k * 256 + n mod 256"
    using Suc[of "n div 256"] by (simp add: be_value_def unat_of_nat)
  also have "\<dots> = n mod 256 ^ Suc k" by (simp add: mod_mult2_eq)
  finally show ?case .
qed (simp add: be_value_def)

lemma be_value_tag: "(of_nat (be_value (be_bytes 8 (unat (t :: 64 word)))) :: 64 word) = t"
  using unsigned_less[of t, where 'a = nat] by (simp add: be_value_bytes)

subsection \<open>Writing a message\<close>

text \<open>\<open>advance_slices\<close>: the buffers that are written entirely are dropped, and what is written of the next one.\<close>

fun count_written :: "nat \<Rightarrow> octets list \<Rightarrow> nat \<Rightarrow> nat \<times> nat" where
  "count_written acc [] n = (0, acc)"
| "count_written acc (b # bs) n =
     (if n < acc + length b then (0, acc)
      else (case count_written (acc + length b) bs n of (r, a) \<Rightarrow> (Suc r, a)))"

definition advance_slices :: "octets list \<Rightarrow> nat \<Rightarrow> octets list" where
  "advance_slices bufs n =
     (case count_written 0 bufs n of (r, acc) \<Rightarrow>
        (case drop r bufs of [] \<Rightarrow> [] | b # bs \<Rightarrow> drop (n - acc) b # bs))"

lemma count_written_props:
  assumes "count_written acc bufs n = (r, a)" "acc \<le> n"
  shows "r \<le> length bufs \<and> a = acc + length (concat (take r bufs)) \<and> a \<le> n \<and> (drop r bufs \<noteq> [] \<longrightarrow> n < a + length (hd (drop r bufs)))"
  using assms
proof (induction acc bufs n arbitrary: r a rule: count_written.induct)
  case (2 acc b bs n)
  show ?case
  proof (cases "n < acc + length b")
    case False
    then obtain r' where "count_written (acc + length b) bs n = (r', a)" "r = Suc r'"
      using 2(2) by (auto split: prod.splits)
    moreover from this have "a = acc + length b + length (concat (take r' bs))" using 2(1)[OF False, of r' a] False by simp
    ultimately show ?thesis using 2(1)[OF False, of r' a] False by auto
  qed (use 2 in simp)
qed simp

lemma concat_advance: "n \<le> length (concat bufs) \<Longrightarrow> concat (advance_slices bufs n) = drop n (concat bufs)"
proof -
  assume n: "n \<le> length (concat bufs)"
  obtain r a where c: "count_written 0 bufs n = (r, a)" by force
  have p: "r \<le> length bufs" "a = length (concat (take r bufs))" "a \<le> n" "drop r bufs \<noteq> [] \<longrightarrow> n < a + length (hd (drop r bufs))"
    using count_written_props[OF c] by auto
  have "concat bufs = concat (take r bufs) @ concat (drop r bufs)" by (simp flip: concat_append)
  then have d: "drop n (concat bufs) = drop (n - a) (concat (drop r bufs))" using p(2,3) by simp
  show ?thesis
  proof (cases "drop r bufs")
    case Nil
    then show ?thesis using d by (simp add: advance_slices_def c)
  next
    case (Cons b bs)
    then show ?thesis using d p(4) by (simp add: advance_slices_def c)
  qed
qed

lemma advance_done: "length (concat bufs) \<le> n \<Longrightarrow> advance_slices bufs n = []"
proof -
  assume n: "length (concat bufs) \<le> n"
  obtain r a where c: "count_written 0 bufs n = (r, a)" by force
  have p: "a = length (concat (take r bufs))" "drop r bufs \<noteq> [] \<longrightarrow> n < a + length (hd (drop r bufs))"
    using count_written_props[OF c] by auto
  have "length (concat bufs) = a + length (concat (drop r bufs))"
    unfolding p(1) by (metis append_take_drop_id concat_append length_append)
  then have "drop r bufs = []" using n p(2) by (cases "drop r bufs") auto
  then show ?thesis by (simp add: advance_slices_def c)
qed

text \<open>
  The loop of the sender task; \<open>wr i bufs\<close> is how many bytes the \<open>i\<close>-th \<open>write_vectored\<close> takes: some of those that there are, and at
  least one.  \<open>None\<close>: the fuel did not suffice.
\<close>

definition write_ok :: "(nat \<Rightarrow> octets list \<Rightarrow> nat) \<Rightarrow> bool" where
  "write_ok wr \<longleftrightarrow> (\<forall>i bufs. wr i bufs \<le> length (concat bufs) \<and> (concat bufs \<noteq> [] \<longrightarrow> 0 < wr i bufs))"

fun write_loop :: "(nat \<Rightarrow> octets list \<Rightarrow> nat) \<Rightarrow> nat \<Rightarrow> nat \<Rightarrow> octets list \<Rightarrow> octets \<Rightarrow> octets option" where
  "write_loop wr fuel i [] out = Some out"
| "write_loop wr 0 i (b # bs) out = None"
| "write_loop wr (Suc fuel) i (b # bs) out =
     (let n = wr i (b # bs)
      in write_loop wr fuel (Suc i) (advance_slices (b # bs) n) (out @ take n (concat (b # bs))))"

lemma write_loop_all:
  "write_ok wr \<Longrightarrow> length (concat bufs) < fuel \<Longrightarrow> write_loop wr fuel i bufs out = Some (out @ concat bufs)"
proof (induction fuel arbitrary: i bufs out)
  case (Suc fuel)
  show ?case
  proof (cases bufs)
    case (Cons b bs)
    let ?n = "wr i bufs"
    have n: "?n \<le> length (concat bufs)" "concat bufs \<noteq> [] \<longrightarrow> 0 < ?n" using Suc.prems(1) by (auto simp: write_ok_def)
    have step: "write_loop wr (Suc fuel) i bufs out = write_loop wr fuel (Suc i) (advance_slices bufs ?n) (out @ take ?n (concat bufs))"
      by (simp only: Cons write_loop.simps Let_def)
    show ?thesis
    proof (cases "concat bufs = []")
      case True
      then have "length (concat bufs) \<le> ?n" by (simp only: list.size)
      then have "advance_slices bufs ?n = []" by (rule advance_done)
      then show ?thesis using step by (simp only: True take_Nil write_loop.simps)
    next
      case False
      then have "length (concat (advance_slices bufs ?n)) < fuel" using n Suc.prems(2) by (simp add: concat_advance)
      from Suc.IH[OF Suc.prems(1) this] show ?thesis
        unfolding step concat_advance[OF n(1)] by (simp only: append_assoc append_take_drop_id)
    qed
  qed simp
qed simp

text \<open>A message: the length of the rest as \<open>u32\<close>, the tag, and the buffers; and the first frame of a connection, which tells the address.\<close>

definition write_message :: "(nat \<Rightarrow> octets list \<Rightarrow> nat) \<Rightarrow> nat \<Rightarrow> tag \<Rightarrow> octets list \<Rightarrow> octets option" where
  "write_message wr fuel t bufs =
     write_loop wr fuel 0 bufs (be_bytes 4 (8 + sum_list (map length bufs)) @ be_bytes 8 (unat t))"

definition write_hello :: "octets \<Rightarrow> octets" where
  "write_hello a = be_bytes 4 (length a) @ a"

definition wire_frame :: "octets \<Rightarrow> octets" where
  "wire_frame body = be_bytes 4 (length body) @ body"

lemma write_message_frame:
  assumes "write_ok wr" "length (concat bufs) < fuel"
  shows "write_message wr fuel t bufs = Some (wire_frame (be_bytes 8 (unat t) @ concat bufs))"
  using write_loop_all[OF assms] by (simp add: write_message_def wire_frame_def length_concat)

subsection \<open>Reading messages\<close>

text \<open>
  \<open>LengthDelimitedCodec\<close> on the bytes that have arrived: not a whole frame yet, a frame and the bytes after it, or a frame longer than the
  limit.
\<close>

datatype decoded = NeedMore | Frame octets octets | Oversized

definition codec_ok :: "nat \<Rightarrow> (octets \<Rightarrow> decoded) \<Rightarrow> bool" where
  "codec_ok mx D \<longleftrightarrow> mx < 2 ^ 32 \<and>
     (\<forall>buf. length buf < 4 \<longrightarrow> D buf = NeedMore) \<and>
     (\<forall>n buf. n \<le> mx \<longrightarrow> length buf < n \<longrightarrow> D (be_bytes 4 n @ buf) = NeedMore) \<and>
     (\<forall>body buf. length body \<le> mx \<longrightarrow> D (be_bytes 4 (length body) @ body @ buf) = Frame body buf) \<and>
     (\<forall>n buf. mx < n \<longrightarrow> n < 2 ^ 32 \<longrightarrow> D (be_bytes 4 n @ buf) = Oversized)"

text \<open>
  The reading half of an accepted connection (\<open>setup_connection\<close>): at first it waits for the address of the peer; then every
  frame is a message, with the tag in front; \<open>Closed\<close> after a bad frame.
\<close>

datatype reader = Greeting | Peer socket_addr | Closed

definition on_frame :: "(octets \<Rightarrow> socket_addr option) \<Rightarrow> octets \<Rightarrow> reader \<Rightarrow> (io_error, reader \<times> octets message list) res" where
  "on_frame parse f st =
     (case st of
        Greeting \<Rightarrow> bind_res (expect ''failed to parse peer address'' (parse f)) (\<lambda>a. Ok (Peer a, []))
      | Peer a \<Rightarrow>
          if length f < 8 then Panic ''advance out of bounds''
          else Ok (Peer a, [\<lparr>msg_tag = of_nat (be_value (take 8 f)), msg_data = drop 8 f, msg_from = a\<rparr>])
      | Closed \<Rightarrow> Ok (Closed, []))"

text \<open>All that can be read of the bytes that have arrived; every frame takes some of them, so their number is enough fuel.\<close>

fun read_loop :: "nat \<Rightarrow> (octets \<Rightarrow> decoded) \<Rightarrow> (octets \<Rightarrow> socket_addr option) \<Rightarrow> reader \<times> octets
    \<Rightarrow> (io_error, (reader \<times> octets) \<times> octets message list) res" where
  "read_loop 0 D parse (st, buf) = Ok ((st, buf), [])"
| "read_loop (Suc fuel) D parse (st, buf) =
     (if st = Closed then Ok ((st, []), [])
      else case D buf of
        NeedMore \<Rightarrow> Ok ((st, buf), [])
      | Oversized \<Rightarrow> if st = Greeting then Panic ''failed to read peer address'' else Ok ((Closed, []), [])
      | Frame f rest \<Rightarrow>
          bind_res (on_frame parse f st) (\<lambda>(st, ms).
          bind_res (read_loop fuel D parse (st, rest)) (\<lambda>(r, ms'). Ok (r, ms @ ms'))))"

definition read_bytes :: "(octets \<Rightarrow> decoded) \<Rightarrow> (octets \<Rightarrow> socket_addr option) \<Rightarrow> octets \<Rightarrow> reader \<times> octets
    \<Rightarrow> (io_error, (reader \<times> octets) \<times> octets message list) res" where
  "read_bytes D parse chunk r = read_loop (Suc (length (snd r @ chunk))) D parse (fst r, snd r @ chunk)"

primrec read_chunks :: "(octets \<Rightarrow> decoded) \<Rightarrow> (octets \<Rightarrow> socket_addr option) \<Rightarrow> octets list \<Rightarrow> reader \<times> octets
    \<Rightarrow> (io_error, (reader \<times> octets) \<times> octets message list) res" where
  "read_chunks D parse [] r = Ok (r, [])"
| "read_chunks D parse (c # cs) r =
     bind_res (read_bytes D parse c r) (\<lambda>(r, ms). bind_res (read_chunks D parse cs r) (\<lambda>(r, ms'). Ok (r, ms @ ms')))"

text \<open>What the frames themselves give, one after the other.\<close>

primrec read_frames :: "(octets \<Rightarrow> socket_addr option) \<Rightarrow> octets list \<Rightarrow> reader \<Rightarrow> (io_error, reader \<times> octets message list) res" where
  "read_frames parse [] st = Ok (st, [])"
| "read_frames parse (f # fs) st =
     bind_res (on_frame parse f st) (\<lambda>(st, ms). bind_res (read_frames parse fs st) (\<lambda>(st, ms'). Ok (st, ms @ ms')))"

lemma read_frames_append:
  "read_frames parse fs st = Ok (st1, ms1) \<Longrightarrow> read_frames parse (fs @ gs) st = Ok (st2, ms) \<Longrightarrow>
     \<exists>ms2. read_frames parse gs st1 = Ok (st2, ms2) \<and> ms = ms1 @ ms2"
proof (induction fs arbitrary: st ms1 ms)
  case (Cons f fs)
  then obtain st0 ms0 m1 m2 where *: "on_frame parse f st = Ok (st0, ms0)" "read_frames parse fs st0 = Ok (st1, m1)" "ms1 = ms0 @ m1"
    "read_frames parse (fs @ gs) st0 = Ok (st2, m2)" "ms = ms0 @ m2" by auto
  show ?case using Cons.IH[OF *(2,4)] *(3,5) by auto
qed auto

lemma on_frame_open: "on_frame parse f st = Ok (st', ms) \<Longrightarrow> st \<noteq> Closed \<Longrightarrow> st' \<noteq> Closed"
  by (auto simp: on_frame_def split: reader.splits if_splits)

lemma codec_okD:
  assumes "codec_ok mx D"
  shows "length buf < 4 \<Longrightarrow> D buf = NeedMore"
    "length f \<le> mx \<Longrightarrow> D (wire_frame f @ buf) = Frame f buf"
    "length f \<le> mx \<Longrightarrow> wire_frame f = buf @ todo \<Longrightarrow> todo \<noteq> [] \<Longrightarrow> D buf = NeedMore"
proof -
  show 1: "length buf < 4 \<Longrightarrow> D buf = NeedMore" "length f \<le> mx \<Longrightarrow> D (wire_frame f @ buf) = Frame f buf"
    using assms by (auto simp: codec_ok_def wire_frame_def)
  assume f: "length f \<le> mx" "wire_frame f = buf @ todo" "todo \<noteq> []"
  show "D buf = NeedMore"
  proof (cases "length buf < 4")
    case False
    then have "buf = be_bytes 4 (length f) @ drop 4 buf"
      using arg_cong[OF f(2), of "take 4"] by (simp add: wire_frame_def)
    moreover have "length (drop 4 buf) < length f"
      using arg_cong[OF f(2), of length] f(3) False by (cases todo) (auto simp: wire_frame_def)
    ultimately show ?thesis using assms f(1) unfolding codec_ok_def by metis
  qed (rule 1(1))
qed

text \<open>Part of a sequence of frames has arrived: what can be read is a prefix of what they give, and a rest that is not a whole frame.\<close>

lemma read_loop_frames:
  assumes D: "codec_ok mx D"
  shows "\<forall>f \<in> set fs. length f \<le> mx \<Longrightarrow> buf @ todo = concat (map wire_frame fs) \<Longrightarrow> read_frames parse fs st = Ok (st', ms) \<Longrightarrow>
    length buf < fuel \<Longrightarrow> st \<noteq> Closed \<Longrightarrow>
    \<exists>gs hs st1 buf1 ms1. fs = gs @ hs \<and> read_frames parse gs st = Ok (st1, ms1) \<and>
      read_loop fuel D parse (st, buf) = Ok ((st1, buf1), ms1) \<and> buf1 @ todo = concat (map wire_frame hs) \<and> D buf1 = NeedMore \<and> st1 \<noteq> Closed"
proof (induction fs arbitrary: st buf ms fuel)
  case Nil
  then obtain n where "fuel = Suc n" by (cases fuel) auto
  then show ?case using Nil codec_okD(1)[OF D, of "[]"] by auto
next
  case (Cons f fs)
  obtain n where n: "fuel = Suc n" using Cons.prems(4) by (cases fuel) auto
  have f: "length f \<le> mx" using Cons.prems(1) by simp
  show ?case
  proof (cases "length (wire_frame f) \<le> length buf")
    case True
    then obtain buf' where buf: "buf = wire_frame f @ buf'" "buf' @ todo = concat (map wire_frame fs)"
    proof -
      have "wire_frame f @ concat (map wire_frame fs) = buf @ todo" using Cons.prems(2) by simp
      with True have "wire_frame f = take (length (wire_frame f)) buf" "concat (map wire_frame fs) = drop (length (wire_frame f)) buf @ todo"
        by (simp_all add: append_eq_append_conv_if)
      then show ?thesis using that[of "drop (length (wire_frame f)) buf"] by (metis append_take_drop_id)
    qed
    obtain st1 ms1 ms2 where r: "on_frame parse f st = Ok (st1, ms1)" "read_frames parse fs st1 = Ok (st', ms2)"
      using Cons.prems(3) by auto
    have "length buf' < n" using Cons.prems(4) n buf(1) by (simp add: wire_frame_def)
    from Cons.IH[OF _ buf(2) r(2) this on_frame_open[OF r(1) Cons.prems(5)]] Cons.prems(1)
    obtain gs hs st2 buf2 ms3 where *: "fs = gs @ hs" "read_frames parse gs st1 = Ok (st2, ms3)"
      "read_loop n D parse (st1, buf') = Ok ((st2, buf2), ms3)" "buf2 @ todo = concat (map wire_frame hs)" "D buf2 = NeedMore" "st2 \<noteq> Closed"
      by auto
    show ?thesis
      by (rule exI[of _ "f # gs"], rule exI[of _ hs], rule exI[of _ st2], rule exI[of _ buf2], rule exI[of _ "ms1 @ ms3"])
        (use * r codec_okD(2)[OF D f, of buf'] Cons.prems(5) n buf(1) in simp)
  next
    case False
    then obtain rest where "wire_frame f = buf @ rest" "rest \<noteq> []"
    proof -
      have "wire_frame f @ concat (map wire_frame fs) = buf @ todo" using Cons.prems(2) by simp
      with False have "take (length buf) (wire_frame f) = buf" by (simp add: append_eq_append_conv_if)
      then show ?thesis using False that[of "drop (length buf) (wire_frame f)"] by (metis append_take_drop_id drop_eq_Nil)
    qed
    then have "D buf = NeedMore" by (rule codec_okD(3)[OF D f])
    then show ?thesis using Cons.prems n by (intro exI[of _ "[]"] exI[of _ "f # fs"]) auto
  qed
qed

lemma read_chunks_frames:
  assumes D: "codec_ok mx D"
  shows "\<forall>f \<in> set fs. length f \<le> mx \<Longrightarrow> buf @ concat cs = concat (map wire_frame fs) \<Longrightarrow> read_frames parse fs st = Ok (st', ms) \<Longrightarrow>
    D buf = NeedMore \<Longrightarrow> st \<noteq> Closed \<Longrightarrow> read_chunks D parse cs (st, buf) = Ok ((st', []), ms)"
proof (induction cs arbitrary: fs st buf ms)
  case Nil
  then show ?case using codec_okD(2)[OF D] by (cases fs) auto
next
  case (Cons c cs)
  have "(buf @ c) @ concat cs = concat (map wire_frame fs)" using Cons.prems(2) by simp
  then have "\<exists>gs hs st1 buf1 ms1. fs = gs @ hs \<and> read_frames parse gs st = Ok (st1, ms1) \<and>
      read_loop (Suc (length (buf @ c))) D parse (st, buf @ c) = Ok ((st1, buf1), ms1) \<and>
      buf1 @ concat cs = concat (map wire_frame hs) \<and> D buf1 = NeedMore \<and> st1 \<noteq> Closed"
    by (rule read_loop_frames[OF D Cons.prems(1) _ Cons.prems(3) _ Cons.prems(5)]) simp
  then obtain gs hs st1 buf1 ms1 where *: "fs = gs @ hs" "read_frames parse gs st = Ok (st1, ms1)"
    "read_loop (Suc (length (buf @ c))) D parse (st, buf @ c) = Ok ((st1, buf1), ms1)"
    "buf1 @ concat cs = concat (map wire_frame hs)" "D buf1 = NeedMore" "st1 \<noteq> Closed" by blast
  obtain ms2 where "read_frames parse hs st1 = Ok (st', ms2)" "ms = ms1 @ ms2"
    using read_frames_append[OF *(2), of hs st' ms] Cons.prems(3) *(1) by auto
  then show ?case using Cons.IH[OF _ *(4) _ *(5,6)] *(1,3) Cons.prems(1) by (simp add: read_bytes_def)
qed

subsection \<open>A connection\<close>

text \<open>The sender task of a connection, for the messages that it takes from its channel; \<open>wr k\<close> is how the writes of the \<open>k\<close>-th go.\<close>

primrec sender_task :: "(nat \<Rightarrow> nat \<Rightarrow> octets list \<Rightarrow> nat) \<Rightarrow> nat \<Rightarrow> nat \<Rightarrow> (tag \<times> octets list) list \<Rightarrow> octets option" where
  "sender_task wr fuel k [] = Some []"
| "sender_task wr fuel k (m # ms) =
     (case write_message (wr k) fuel (fst m) (snd m) of
        None \<Rightarrow> None
      | Some out \<Rightarrow> map_option ((@) out) (sender_task wr fuel (Suc k) ms))"

definition message_body :: "tag \<times> octets list \<Rightarrow> octets" where
  "message_body m = be_bytes 8 (unat (fst m)) @ concat (snd m)"

lemma sender_task_frames:
  assumes "\<forall>k. write_ok (wr k)" "\<forall>m \<in> set ms. length (concat (snd m)) < fuel"
  shows "sender_task wr fuel k ms = Some (concat (map (wire_frame \<circ> message_body) ms))"
  using assms(2) by (induction ms arbitrary: k) (simp_all add: write_message_frame assms(1) message_body_def)

lemma read_messages:
  "read_frames parse (map message_body ms) (Peer a) =
     Ok (Peer a, map (\<lambda>(t, bufs). \<lparr>msg_tag = t, msg_data = concat bufs, msg_from = a\<rparr>) ms)"
  by (induction ms) (auto simp: on_frame_def message_body_def be_value_tag)

text \<open>
  C32: a connection between real endpoints delivers exactly what was sent.  However the writes to the socket are cut and in whatever pieces
  the bytes arrive, the sender task ends and the accepting side delivers the messages in order, each with its tag, all its
  buffers joined, and the address that the connecting side told, if every message fits the limit of the framing.
\<close>

theorem std_messages_exact:
  assumes "codec_ok mx D" "\<forall>k. write_ok (wr k)" "parse name = Some a" "length name \<le> mx"
    and "\<forall>m \<in> set ms. 8 + length (concat (snd m)) \<le> mx"
  shows "\<exists>out. sender_task wr (Suc mx) 0 ms = Some out \<and>
    (\<forall>cs. concat cs = write_hello name @ out \<longrightarrow> read_chunks D parse cs (Greeting, []) =
       Ok ((Peer a, []), map (\<lambda>(t, bufs). \<lparr>msg_tag = t, msg_data = concat bufs, msg_from = a\<rparr>) ms))"
proof -
  let ?fs = "name # map message_body ms"
  have out: "sender_task wr (Suc mx) 0 ms = Some (concat (map (wire_frame \<circ> message_body) ms))"
    using assms(5) by (intro sender_task_frames assms(2)) auto
  have "read_chunks D parse cs (Greeting, []) =
      Ok ((Peer a, []), map (\<lambda>(t, bufs). \<lparr>msg_tag = t, msg_data = concat bufs, msg_from = a\<rparr>) ms)"
    if "concat cs = write_hello name @ concat (map (wire_frame \<circ> message_body) ms)" for cs
  proof (rule read_chunks_frames[OF assms(1)])
    show "\<forall>f \<in> set ?fs. length f \<le> mx" using assms(4,5) by (auto simp: message_body_def)
    show "[] @ concat cs = concat (map wire_frame ?fs)" using that by (simp add: write_hello_def wire_frame_def comp_def)
    show "read_frames parse ?fs Greeting = Ok (Peer a, map (\<lambda>(t, bufs). \<lparr>msg_tag = t, msg_data = concat bufs, msg_from = a\<rparr>) ms)"
      using assms(3) by (simp add: on_frame_def read_messages)
    show "D [] = NeedMore" using codec_okD(1)[OF assms(1)] by simp
  qed simp
  then show ?thesis using out by blast
qed

definition demo_codec :: "nat \<Rightarrow> octets \<Rightarrow> decoded" where
  "demo_codec mx buf =
     (if length buf < 4 then NeedMore
      else let n = be_value (take 4 buf); rest = drop 4 buf in
        if mx < n then Oversized else if length rest < n then NeedMore else Frame (take n rest) (drop n rest))"

lemma demo_codec_ok: "mx < 2 ^ 32 \<Longrightarrow> codec_ok mx (demo_codec mx)"
  by (auto simp: codec_ok_def demo_codec_def be_value_bytes Let_def)

theorem std_messages_exact_witness:
  "read_chunks (demo_codec 100) (\<lambda>_. Some (V4 1, 80)) (map (\<lambda>b. [b]) (write_hello [49] @ wire_frame (be_bytes 8 5 @ [1, 2, 3]))) (Greeting, []) =
     Ok ((Peer (V4 1, 80), []), [\<lparr>msg_tag = 5, msg_data = [1, 2, 3], msg_from = (V4 1, 80)\<rparr>])"
proof -
  let ?wr = "\<lambda>k i bufs. min 1 (length (concat bufs))" and ?ms = "[(5, [[1], [], [2, 3]])]" and ?p = "\<lambda>_. Some (V4 1, 80)"
  have "\<forall>k. write_ok (?wr k)" by (auto simp: write_ok_def)
  then obtain out where o: "sender_task ?wr (Suc 100) 0 ?ms = Some out"
    "\<forall>cs. concat cs = write_hello [49] @ out \<longrightarrow> read_chunks (demo_codec 100) ?p cs (Greeting, []) =
       Ok ((Peer (V4 1, 80), []), map (\<lambda>(t, bufs). \<lparr>msg_tag = t, msg_data = concat bufs, msg_from = (V4 1, 80)\<rparr>) ?ms)"
    using std_messages_exact[of 100 "demo_codec 100" ?wr ?p "[49]" "(V4 1, 80)" ?ms] demo_codec_ok[of 100] by auto
  have "out = wire_frame (be_bytes 8 5 @ [1, 2, 3])"
    using o(1) sender_task_frames[of ?wr ?ms "Suc 100" 0] \<open>\<forall>k. write_ok (?wr k)\<close> by (simp add: message_body_def)
  then show ?thesis using o(2) by simp
qed

subsection \<open>Calls\<close>

text \<open>
  The messages of \<open>std/net/rpc.rs\<close>: a request is sent with the tag of its type and carries the tag for the response, the length of the
  encoded request, the encoded request and the data; a response its length, itself and its data.  \<open>bincode\<close> is a parameter.
\<close>

definition rpc_request_iov :: "tag \<Rightarrow> octets \<Rightarrow> octets \<Rightarrow> octets list" where
  "rpc_request_iov rsp_tag req data = [be_bytes 8 (unat rsp_tag), be_bytes 4 (length req), req, data]"

definition rpc_response_iov :: "octets \<Rightarrow> octets \<Rightarrow> octets list" where
  "rpc_response_iov rsp data = [be_bytes 4 (length rsp), rsp, data]"

text \<open>\<open>get_u32\<close> and \<open>split_to\<close>, which panic when there are not enough bytes.\<close>

definition split_sized :: "octets \<Rightarrow> (io_error, octets \<times> octets) res" where
  "split_sized bs =
     (if length bs < 4 then Panic ''advance out of bounds''
      else let n = be_value (take 4 bs); rest = drop 4 bs in
        if length rest < n then Panic ''split_to out of bounds'' else Ok (take n rest, drop n rest))"

definition parse_request :: "(octets \<Rightarrow> 'q option) \<Rightarrow> octets \<Rightarrow> (io_error, tag \<times> 'q \<times> octets) res" where
  "parse_request de bs =
     (if length bs < 8 then Panic ''advance out of bounds''
      else bind_res (split_sized (drop 8 bs)) (\<lambda>(req, data).
           bind_res (expect ''called Result::unwrap() on an Err value'' (de req)) (\<lambda>q.
             Ok (of_nat (be_value (take 8 bs)), q, data))))"

definition parse_response :: "(octets \<Rightarrow> 'a option) \<Rightarrow> octets \<Rightarrow> (io_error, 'a \<times> octets) res" where
  "parse_response de bs =
     bind_res (split_sized bs) (\<lambda>(rsp, data).
     bind_res (expect ''called Result::unwrap() on an Err value'' (de rsp)) (\<lambda>a. Ok (a, data)))"

text \<open>\<open>call_with_data\<close> once the response has come: it must come from the node that was called.\<close>

definition finish_call :: "(octets \<Rightarrow> 'a option) \<Rightarrow> socket_addr \<Rightarrow> octets message \<Rightarrow> (io_error, 'a \<times> octets) res" where
  "finish_call de dst m =
     (if msg_from m \<noteq> dst then Panic ''assertion failed: from == dst'' else parse_response de (msg_data m))"

lemma split_sized_iov: "length x < 2 ^ 32 \<Longrightarrow> split_sized (be_bytes 4 (length x) @ x @ data) = Ok (x, data)"
  by (simp add: split_sized_def be_value_bytes Let_def)

text \<open>
  Calls carry requests and responses exactly.  A handler takes from the message of a call the tag for the response, the request and the
  data that the caller gave, and the caller takes from the message of the response what the handler gave, if the encoded
  values fit a length of 32 bits.
\<close>

theorem std_rpc_roundtrip:
  assumes "\<forall>q. de (ser q) = Some q" "\<forall>a. de' (ser' a) = Some a" "length (ser q) < 2 ^ 32" "length (ser' a) < 2 ^ 32"
  shows "parse_request de (concat (rpc_request_iov t (ser q) data)) = Ok (t, q, data) \<and>
    finish_call de' dst \<lparr>msg_tag = t, msg_data = concat (rpc_response_iov (ser' a) data'), msg_from = dst\<rparr> = Ok (a, data')"
  using assms by (simp add: parse_request_def finish_call_def parse_response_def rpc_request_iov_def rpc_response_iov_def
      split_sized_iov be_value_tag)

theorem std_rpc_roundtrip_witness:
  "parse_request Some (concat (rpc_request_iov 7 [1, 2] [3])) = Ok (7, [1, 2], [3]) \<and>
     finish_call Some (V4 1, 80) \<lparr>msg_tag = 7, msg_data = concat (rpc_response_iov [4] []), msg_from = (V4 1, 80)\<rparr> = Ok ([4], [])"
  using std_rpc_roundtrip[of Some "\<lambda>x. x" Some "\<lambda>x. x" "[1, 2]" "[4]" 7 "[3]" "(V4 1, 80)" "[]"] by simp

subsection \<open>Connections of an endpoint\<close>

text \<open>
  An endpoint has a channel to the sender task of every connection, by the address of the peer.  A connection is a number; of each the
  state knows its peer and whether the receiving half of the channel still exists (in the sender task, or on the way to it).
\<close>

record std_ep =
  sp_senders :: "socket_addr \<Rightarrow> nat option"
  sp_conns :: "(socket_addr \<times> bool) list"

definition std_bind :: std_ep where
  "std_bind = \<lparr>sp_senders = \<lambda>_. None, sp_conns = []\<rparr>"

text \<open>\<open>ok\<close>: the TCP connection to the peer can be established.\<close>

definition get_or_connect :: "socket_addr \<Rightarrow> bool \<Rightarrow> std_ep \<Rightarrow> (io_error, nat, std_ep) outcome" where
  "get_or_connect dst ok ep =
     (case sp_senders ep dst of
        Some c \<Rightarrow> (Ok c, ep)
      | None \<Rightarrow>
          (let c = length (sp_conns ep); senders = (sp_senders ep)(dst \<mapsto> c) in
           if ok then (Ok c, ep\<lparr>sp_senders := senders, sp_conns := sp_conns ep @ [(dst, True)]\<rparr>)
           else (Panic ''called Result::unwrap() on an Err value'',
                 ep\<lparr>sp_senders := senders, sp_conns := sp_conns ep @ [(dst, False)]\<rparr>)))"

text \<open>\<open>send_to_vectored\<close>, up to the channel: the connection that the message is put on.\<close>

definition std_send :: "socket_addr \<Rightarrow> bool \<Rightarrow> std_ep \<Rightarrow> (io_error, nat, std_ep) outcome" where
  "std_send dst ok ep =
     st_bind (get_or_connect dst ok ep) (\<lambda>c ep.
       if snd (sp_conns ep ! c) then (Ok c, ep) else (Panic ''called Option::unwrap() on a None value'', ep))"

text \<open>A connection from a peer is set up; the peer closes a connection.\<close>

definition std_accepted :: "socket_addr \<Rightarrow> std_ep \<Rightarrow> std_ep" where
  "std_accepted peer ep =
     ep\<lparr>sp_senders := (sp_senders ep)(peer \<mapsto> length (sp_conns ep)), sp_conns := sp_conns ep @ [(peer, True)]\<rparr>"

definition std_closed :: "nat \<Rightarrow> std_ep \<Rightarrow> std_ep" where
  "std_closed c ep =
     (let peer = fst (sp_conns ep ! c) in
      ep\<lparr>sp_conns := (sp_conns ep)[c := (peer, False)], sp_senders := (sp_senders ep)(peer := None)\<rparr>)"

datatype std_op = Send socket_addr bool | Accepted socket_addr | PeerCloses nat

inductive std_step :: "std_ep \<Rightarrow> std_op \<Rightarrow> std_ep \<Rightarrow> bool" where
  ss_send: "std_step ep (Send dst ok) (snd (std_send dst ok ep))"
| ss_accepted: "std_step ep (Accepted peer) (std_accepted peer ep)"
| ss_closed: "c < length (sp_conns ep) \<Longrightarrow> snd (sp_conns ep ! c) \<Longrightarrow> std_step ep (PeerCloses c) (std_closed c ep)"

primrec std_run :: "std_ep \<Rightarrow> std_op list \<Rightarrow> std_ep \<Rightarrow> bool" where
  "std_run ep [] ep' \<longleftrightarrow> ep' = ep"
| "std_run ep (op # ops) ep' \<longleftrightarrow> (\<exists>ep1. std_step ep op ep1 \<and> std_run ep1 ops ep')"

definition std_inv :: "std_ep \<Rightarrow> bool" where
  "std_inv ep \<longleftrightarrow> (\<forall>a c. sp_senders ep a = Some c \<longrightarrow> c < length (sp_conns ep) \<and> fst (sp_conns ep ! c) = a)"

lemma get_or_connect_inv: "std_inv ep \<Longrightarrow> std_inv (snd (get_or_connect dst ok ep))"
  by (fastforce simp: get_or_connect_def std_inv_def Let_def nth_append split: option.splits)

lemma std_send_state: "snd (std_send dst ok ep) = snd (get_or_connect dst ok ep)"
  by (auto simp: std_send_def get_or_connect_def Let_def split: option.split)

lemma std_step_inv: "std_step ep op ep' \<Longrightarrow> std_inv ep \<Longrightarrow> std_inv ep'"
proof (induction rule: std_step.induct)
  case (ss_send ep dst ok)
  then show ?case using get_or_connect_inv by (simp add: std_send_state)
next
  case (ss_accepted ep peer)
  then show ?case by (fastforce simp: std_inv_def std_accepted_def nth_append)
next
  case (ss_closed c ep)
  then show ?case by (auto simp: std_inv_def std_closed_def Let_def nth_list_update)
qed

lemma std_run_inv: "std_run ep ops ep' \<Longrightarrow> std_inv ep \<Longrightarrow> std_inv ep'"
  by (induction ops arbitrary: ep) (auto dest: std_step_inv)

text \<open>A message is put on a connection with the peer that it is for.\<close>

theorem std_send_right_peer:
  assumes "std_run std_bind ops ep" "std_send dst ok ep = (Ok c, ep')"
  shows "c < length (sp_conns ep') \<and> sp_conns ep' ! c = (dst, True)"
proof -
  have inv: "std_inv ep" by (rule std_run_inv[OF assms(1)]) (simp add: std_inv_def std_bind_def)
  show ?thesis
  proof (cases "sp_senders ep dst")
    case None
    then show ?thesis using assms(2) by (auto simp: std_send_def get_or_connect_def Let_def split: if_splits)
  next
    case (Some c')
    then have "c' = c" "ep' = ep" "snd (sp_conns ep ! c)"
      using assms(2) by (auto simp: std_send_def get_or_connect_def split: if_splits)
    moreover have "c' < length (sp_conns ep) \<and> fst (sp_conns ep ! c') = dst" using inv Some unfolding std_inv_def by blast
    ultimately show ?thesis by (simp add: prod_eq_iff)
  qed
qed

theorem std_send_right_peer_witness:
  "sp_conns (std_accepted (V4 1, 80) std_bind) ! 0 = ((V4 1, 80), True)"
proof -
  have "std_run std_bind [Accepted (V4 1, 80)] (std_accepted (V4 1, 80) std_bind)" by (auto intro: ss_accepted)
  from std_send_right_peer[OF this, of "(V4 1, 80)" True 0 "std_accepted (V4 1, 80) std_bind"] show ?thesis
    by (simp add: std_send_def get_or_connect_def std_accepted_def std_bind_def)
qed

text \<open>The address maps to a channel without a receiver, and there is no connection with it that could be closed.\<close>

definition stuck :: "socket_addr \<Rightarrow> std_ep \<Rightarrow> bool" where
  "stuck dst ep \<longleftrightarrow> (\<exists>c < length (sp_conns ep). sp_senders ep dst = Some c \<and> \<not> snd (sp_conns ep ! c)) \<and> (dst, True) \<notin> set (sp_conns ep)"

lemma stuck_step:
  assumes "std_step ep op ep'" "op \<noteq> Accepted dst" "stuck dst ep"
  shows "stuck dst ep'"
  using assms
proof (induction rule: std_step.induct)
  case (ss_send ep a ok)
  then show ?case
    by (cases "a = dst") (auto simp: stuck_def std_send_state get_or_connect_def Let_def nth_append split: option.split)
next
  case (ss_accepted ep peer)
  then show ?case by (auto simp: stuck_def std_accepted_def nth_append)
next
  case (ss_closed c ep)
  then have "fst (sp_conns ep ! c) \<noteq> dst" by (metis nth_mem prod.collapse stuck_def)
  moreover have "(dst, True) \<notin> set ((sp_conns ep)[c := (fst (sp_conns ep ! c), False)])"
    using ss_closed(4) set_update_subset_insert[of "sp_conns ep" c] by (fastforce simp: stuck_def)
  ultimately show ?case using ss_closed by (auto simp: stuck_def std_closed_def Let_def nth_list_update)
qed

lemma stuck_run: "std_run ep ops ep' \<Longrightarrow> Accepted dst \<notin> set ops \<Longrightarrow> stuck dst ep \<Longrightarrow> stuck dst ep'"
proof (induction ops arbitrary: ep)
  case (Cons op ops)
  then obtain ep1 where "std_step ep op ep1" "std_run ep1 ops ep'" by auto
  then show ?case using Cons.IH[of ep1] stuck_step[of ep op ep1 dst] Cons.prems by auto
qed simp

text \<open>
  C33: a failed connect is never retried.  If the first connection to an address cannot be established, its channel is left behind without a
  receiver: whatever the endpoint does afterwards, every later send to that address panics, also when the peer could be
  reached again, until the peer connects by itself.
\<close>

theorem std_failed_connect_sticks:
  assumes "sp_senders ep dst = None" "(dst, True) \<notin> set (sp_conns ep)"
    and "std_run (snd (std_send dst False ep)) ops ep'" "Accepted dst \<notin> set ops"
  shows "std_send dst True ep' = (Panic ''called Option::unwrap() on a None value'', ep')"
proof -
  have "stuck dst (snd (std_send dst False ep))"
    using assms(1,2) by (simp add: stuck_def std_send_state get_or_connect_def Let_def)
  then have "stuck dst ep'" using assms(3,4) stuck_run by blast
  then show ?thesis by (auto simp: stuck_def std_send_def get_or_connect_def)
qed

theorem std_failed_connect_sticks_witness:
  "let ep = snd (std_send (V4 2, 80) True (snd (std_send (V4 1, 80) False std_bind))) in
   std_send (V4 1, 80) True ep = (Panic ''called Option::unwrap() on a None value'', ep)"
proof -
  let ?e = "snd (std_send (V4 1, 80) False std_bind)"
  have "std_run ?e [Send (V4 2, 80) True] (snd (std_send (V4 2, 80) True ?e))" by (auto intro: ss_send)
  from std_failed_connect_sticks[OF _ _ this] show ?thesis by (simp add: std_bind_def)
qed

subsection \<open>Two smaller facts\<close>

text \<open>
  Messages that wait in the mailbox, whose code is that of the simulated one, can overtake each other although their connection keeps
  the order: taking one out moves the last one into its place.
\<close>

lemma waiting_messages_overtake:
  assumes "msg_tag m1 = t" "msg_tag m2 = t" "msg_tag m3 = t"
  shows "let b = fold (\<lambda>m b. snd (deliver alive m b)) [m1, m2, m3] mailbox_default;
             (r1, b) = recv t 0 b; (r2, b) = recv t 1 b; (r3, b) = recv t 2 b
         in [r1, r2, r3] = [Some m1, Some m3, Some m2]"
  using assms
  by (simp add: deliver_def deliver_loop.simps mailbox_default_def recv_def swap_remove_def Let_def)

text \<open>Addresses in \<open>std/net/ucx.rs\<close>: six bytes; IPv6 is not implemented.\<close>

definition socket_addr_to_bytes :: "socket_addr \<Rightarrow> (io_error, octets) res" where
  "socket_addr_to_bytes a =
     (case a of
        (V4 ip, p) \<Rightarrow> Ok (be_bytes 4 (unat ip) @ be_bytes 2 (unat p))
      | (V6 ip, p) \<Rightarrow> Panic ''not yet implemented'')"

definition socket_addr_from_bytes :: "octets \<Rightarrow> socket_addr" where
  "socket_addr_from_bytes bs = (V4 (of_nat (be_value (take 4 bs))), of_nat (be_value (drop 4 bs)))"

lemma socket_addr_bytes: "socket_addr_to_bytes a = Ok bs \<Longrightarrow> length bs = 6 \<and> socket_addr_from_bytes bs = a"
proof (cases a)
  case (Pair i p)
  assume a: "socket_addr_to_bytes a = Ok bs"
  then obtain ip where i: "i = V4 ip" "bs = be_bytes 4 (unat ip) @ be_bytes 2 (unat p)"
    using Pair by (auto simp: socket_addr_to_bytes_def split: ip_addr.splits)
  have "unat ip mod 256 ^ 4 = unat ip" "unat p mod 256 ^ 2 = unat p"
    using unsigned_less[of ip, where 'a = nat] unsigned_less[of p, where 'a = nat] by simp_all
  then show ?thesis using Pair i by (simp add: socket_addr_from_bytes_def be_value_bytes)
qed

end
