(* ===== verification/TokioRt.thy ===== *)
theory TokioRt
  imports TaskProps
begin

section \<open>The tokio runtime of a simulation\<close>

text \<open>
  \<open>src/madsim-tokio/src/sim/runtime.rs\<close>: a runtime that code under test creates is a list of the tasks that it has spawned on the
  current node; when it is dropped it aborts them.  Tasks spawned through its handle are not in the list.
\<close>

record shim_rt =
  abort_handles :: "task_id list"

definition shim_build :: shim_rt where
  "shim_build = \<lparr>abort_handles = []\<rparr>"

definition worker_threads :: "nat \<Rightarrow> (unit, unit) res" where
  "worker_threads n = (if 0 < n then Ok () else Panic ''Worker threads cannot be set to 0'')"

text \<open>\<open>Runtime::spawn\<close>; \<open>spawn_blocking\<close> spawns a future that calls the function.  \<open>n\<close> is the current node.\<close>

definition shim_spawn :: "('a, 'g, 'tm, 'u, 'f, 'k, 's) env \<Rightarrow> nref \<Rightarrow> string \<Rightarrow> 'f \<Rightarrow> shim_rt \<times> ('a, 'g, 'tm, 'u, 'f, 's) exec
    \<Rightarrow> task_id \<times> shim_rt \<times> ('a, 'g, 'tm, 'u, 'f, 's) exec" where
  "shim_spawn E n loc f x =
     (let (t, s) = spawn_inner E n None loc None f (snd x)
      in (t, (fst x)\<lparr>abort_handles := abort_handles (fst x) @ [t]\<rparr>, s))"

definition shim_handle_spawn :: "('a, 'g, 'tm, 'u, 'f, 'k, 's) env \<Rightarrow> nref \<Rightarrow> string \<Rightarrow> 'f \<Rightarrow> shim_rt \<times> ('a, 'g, 'tm, 'u, 'f, 's) exec
    \<Rightarrow> task_id \<times> shim_rt \<times> ('a, 'g, 'tm, 'u, 'f, 's) exec" where
  "shim_handle_spawn E n loc f x = (let (t, s) = spawn_inner E n None loc None f (snd x) in (t, fst x, s))"

definition shim_drop :: "('a, 'g, 'tm, 'u, 'f, 'k, 's) env \<Rightarrow> shim_rt \<Rightarrow> ('a, 'g, 'tm, 'u, 'f, 's) exec \<Rightarrow> ('a, 'g, 'tm, 'u, 'f, 's) exec" where
  "shim_drop E rt s = fold (abort E) (abort_handles rt) s"

text \<open>A simulation in which one such runtime is created and used.\<close>

inductive shim_reachable :: "('a, 'g, 'tm, 'u, 'f, 'k, 's) env \<Rightarrow> shim_rt \<times> ('a, 'g, 'tm, 'u, 'f, 's) exec \<Rightarrow> bool" for E where
  sh_build: "exec_reachable E s \<Longrightarrow> shim_reachable E (shim_build, s)"
| sh_step: "shim_reachable E (rt, s) \<Longrightarrow> exec_step E s s' \<Longrightarrow> shim_reachable E (rt, s')"
| sh_spawn: "shim_reachable E (rt, s) \<Longrightarrow> n < next_ref s \<Longrightarrow> shim_reachable E (snd (shim_spawn E n loc f (rt, s)))"
| sh_handle: "shim_reachable E (rt, s) \<Longrightarrow> n < next_ref s \<Longrightarrow> shim_reachable E (snd (shim_handle_spawn E n loc f (rt, s)))"

definition shim_inv :: "('a, 'g, 'tm, 'u, 'f, 'k, 's) env \<Rightarrow> shim_rt \<times> ('a, 'g, 'tm, 'u, 'f, 's) exec \<Rightarrow> bool" where
  "shim_inv E x \<longleftrightarrow> exec_inv E None {} {} (snd x) \<and>
     (\<forall>t \<in> set (abort_handles (fst x)). t < next_task_id (snd x) \<and> ti_has_waker (tinfos (snd x) t))"

lemma shim_inv_grows: "shim_inv E (rt, s) \<Longrightarrow> exec_inv E None {} {} s' \<Longrightarrow> grows s s' \<Longrightarrow> shim_inv E (rt, s')"
  by (auto simp: shim_inv_def grows_def)

lemma shim_reachable_inv:
  assumes "shim_reachable E x" "at_ok E" "rng_ok (rng E)"
  shows "shim_inv E x"
  using assms(1)
proof induction
  case (sh_build s)
  then show ?case using exec_reachable_inv[OF sh_build assms(2,3)] by (simp add: shim_inv_def shim_build_def)
next
  case (sh_step rt s s')
  then show ?case using exec_step_keeps[OF sh_step(2) assms(2,3)] shim_inv_grows[of E rt s s'] by (auto simp: keeps_def shim_inv_def)
next
  case (sh_spawn rt s n loc f)
  obtain t s' where s': "spawn_inner E n None loc None f s = (t, s')" by force
  have k: "keeps E None s s'" using keeps_spawn[OF assms(2) sh_spawn(2), of None None loc None f] s' by simp
  have t: "t < next_task_id s'" "ti_has_waker (tinfos s' t)"
    using s' by (auto simp: spawn_inner_def new_task_def upd_info_def Let_def)
  have "shim_inv E (rt, s')" using k sh_spawn(3) shim_inv_grows[of E rt s s'] by (auto simp: keeps_def shim_inv_def)
  then show ?case using t s' by (auto simp: shim_spawn_def shim_inv_def)
next
  case (sh_handle rt s n loc f)
  then show ?case using keeps_spawn[OF assms(2) sh_handle(2), of None None loc None f] shim_inv_grows[OF sh_handle(3)]
    by (auto simp: shim_handle_spawn_def keeps_def shim_inv_def split: prod.splits)
qed

text \<open>What aborting a list of tasks does.\<close>

lemma abort_flag:
  "ti_cancelled (tinfos (abort E t s) u) \<longleftrightarrow> ti_cancelled (tinfos s u) \<or> u = t \<and> at_alive E (tasks s) t"
  using frame_wake_info[of "s\<lparr>tinfos := (tinfos s)(t := (tinfos s t)\<lparr>ti_cancelled := True\<rparr>)\<rparr>" E t]
  by (auto simp: abort_def frame_def)

lemma abort_alive:
  assumes "at_ok E"
  shows "at_alive E (tasks (abort E t s)) u = at_alive E (tasks s) u"
proof -
  have "at_alive E (snd (at_wake E t a)) u = at_alive E a u" for a
    using at_okD(2)[OF assms, of t a] by (cases "u = t") (auto simp: at_wake_law_def at_same_def split: prod.splits)
  then show ?thesis by (simp add: abort_def wake_info_def wake_def case_prod_beta)
qed

lemma abort_polled: "polled (abort E t s) = polled s"
  using quiet_node_ops(6)[of s E t] by (simp add: quiet_def)

lemma drop_effect:
  assumes "at_ok E"
  shows "(ti_cancelled (tinfos (fold (abort E) ts s) u) \<longleftrightarrow> ti_cancelled (tinfos s u) \<or> u \<in> set ts \<and> at_alive E (tasks s) u) \<and>
    polled (fold (abort E) ts s) = polled s \<and> keeps E None s (fold (abort E) ts s)"
proof (induction ts arbitrary: s)
  case (Cons t ts)
  show ?case using Cons[of "abort E t s"] keeps_trans[OF keeps_abort[OF assms]]
    by (auto simp: abort_flag abort_alive[OF assms] abort_polled)
qed simp


text \<open>A runtime on which one task has been spawned, beside the initial task of node 1.\<close>

definition demo_shim :: "task_id \<times> shim_rt \<times> (task_id \<Rightarrow> at_bits, nat, (duration \<times> unit callback) list, unit, nat, unit) exec" where
  "demo_shim = shim_spawn demo_env 0 ''rt'' 1 (shim_build, demo_node)"

lemma demo_shim_sel:
  "fst demo_shim = 1" "abort_handles (fst (snd demo_shim)) = [1]" "at_alive demo_env (tasks (snd (snd demo_shim))) 1"
  "polled (snd (snd demo_shim)) = []"
  by (simp_all add: demo_shim_def shim_spawn_def shim_build_def spawn_inner_def new_task_def push_ready_def send_def demo_node_eq demo_eval)

lemma demo_shim_reachable: "shim_reachable demo_env (snd demo_shim)"
  unfolding demo_shim_def by (rule sh_spawn[OF sh_build[OF demo_node_reachable]]) (simp add: demo_node_eq)


end
