(* ===== verification/SysClock.thy ===== *)
theory SysClock
  imports SimTime
begin

section \<open>The clocks of the standard library (\<open>madsim/src/sim/time/system_time.rs\<close>)\<close>

text \<open>
  \<open>SystemTime\<close> and \<open>Instant\<close> of the standard library read the clock through \<open>clock_gettime\<close> and \<open>gettimeofday\<close> of the C library,
  which madsim overrides: inside a simulation they answer with the virtual time, elsewhere they call the original function, which is an
  argument.  \<open>tp\<close> is the structure that is written; its fields are signed 64-bit integers, to which the code casts the unsigned
  ones of a duration.  The clocks are those of Linux; \<open>fmt\<close> writes the number of a clock.
\<close>

record timeval =
  tv_sec :: "64 word"
  tv_usec :: "64 word"

record timespec =
  ts_sec :: "64 word"
  ts_nsec :: "64 word"

datatype clockid = Realtime | Realtime_coarse | Monotonic | Monotonic_raw | Monotonic_coarse | Boottime | Other_clock "32 word"

definition as_secs :: "duration \<Rightarrow> nat" where
  "as_secs d = d div nanos_per_sec"

definition subsec_nanos :: "duration \<Rightarrow> nat" where
  "subsec_nanos d = d mod nanos_per_sec"

definition subsec_micros :: "duration \<Rightarrow> nat" where
  "subsec_micros d = subsec_nanos d div 1000"

text \<open>\<open>TimeHandle::try_current\<close> gives a handle inside a simulation only.\<close>

definition gettimeofday :: "(timeval option \<Rightarrow> int \<times> timeval option) \<Rightarrow> 'tm time_handle option \<Rightarrow> timeval option \<Rightarrow> int \<times> timeval option" where
  "gettimeofday orig time tp =
     (if tp = None then (0, tp)
      else case time of
        Some h \<Rightarrow> let dur = now_time (clock h)
          in (0, Some \<lparr>tv_sec = of_nat (as_secs dur), tv_usec = of_nat (subsec_micros dur)\<rparr>)
      | None \<Rightarrow> orig tp)"

definition clock_gettime :: "(clockid \<Rightarrow> string) \<Rightarrow> (clockid \<Rightarrow> timespec \<Rightarrow> int \<times> timespec) \<Rightarrow> 'tm time_handle option \<Rightarrow> clockid \<Rightarrow> timespec
    \<Rightarrow> (unit, int \<times> timespec) res" where
  "clock_gettime fmt orig time clockid tp =
     (case time of
        Some h \<Rightarrow>
          bind_res
            (case clockid of
               Realtime \<Rightarrow> Ok (now_time (clock h))
             | Realtime_coarse \<Rightarrow> Ok (now_time (clock h))
             | Monotonic \<Rightarrow> Ok (now_instant (clock h))
             | Monotonic_raw \<Rightarrow> Ok (now_instant (clock h))
             | Monotonic_coarse \<Rightarrow> Ok (now_instant (clock h))
             | Boottime \<Rightarrow> Ok (now_instant (clock h))
             | Other_clock _ \<Rightarrow> Panic (''unsupported clockid: '' @ fmt clockid))
            (\<lambda>dur. Ok (0, \<lparr>ts_sec = of_nat (as_secs dur), ts_nsec = of_nat (subsec_nanos dur)\<rparr>))
      | None \<Rightarrow> Ok (orig clockid tp))"

text \<open>What a caller makes of the structures.\<close>

definition timespec_value :: "timespec \<Rightarrow> int" where
  "timespec_value ts = sint (ts_sec ts) * 1000000000 + sint (ts_nsec ts)"

definition timeval_value :: "timeval \<Rightarrow> int" where
  "timeval_value tv = sint (tv_sec tv) * 1000000 + sint (tv_usec tv)"

lemma sint_small: "n < 2 ^ 63 \<Longrightarrow> sint (of_nat n :: 64 word) = int n"
  by (simp add: sint_uint unsigned_of_nat signed_take_bit_int_eq_self take_bit_nat_eq_self)

lemma split_duration:
  "int (as_secs d) * 1000000000 + int (subsec_nanos d) = int d"
  "int (as_secs d) * 1000000 + int (subsec_micros d) = int (d div 1000)"
proof -
  have d: "d = subsec_nanos d + (as_secs d * 1000000) * 1000" by (simp add: as_secs_def subsec_nanos_def)
  then show "int (as_secs d) * 1000000000 + int (subsec_nanos d) = int d" by linarith
  have "d div 1000 = as_secs d * 1000000 + subsec_micros d"
    by (subst d) (simp only: div_mult_self3 subsec_micros_def zero_neq_numeral not_False_eq_True)
  then show "int (as_secs d) * 1000000 + int (subsec_micros d) = int (d div 1000)" by linarith
qed

lemma timespec_reads:
  assumes "d < 2 ^ 63 * nanos_per_sec"
  shows "timespec_value \<lparr>ts_sec = of_nat (as_secs d), ts_nsec = of_nat (subsec_nanos d)\<rparr> = int d"
    and "sint (of_nat (subsec_nanos d) :: 64 word) \<in> {0..<1000000000}"
proof -
  have s: "as_secs d < 2 ^ 63" "subsec_nanos d < 1000000000"
    using assms by (simp_all add: as_secs_def subsec_nanos_def div_less_iff_less_mult)
  then show "sint (of_nat (subsec_nanos d) :: 64 word) \<in> {0..<1000000000}" by (simp add: sint_small)
  show "timespec_value \<lparr>ts_sec = of_nat (as_secs d), ts_nsec = of_nat (subsec_nanos d)\<rparr> = int d"
    using s by (simp add: timespec_value_def sint_small split_duration(1))
qed

lemma timeval_reads:
  assumes "d < 2 ^ 63 * nanos_per_sec"
  shows "timeval_value \<lparr>tv_sec = of_nat (as_secs d), tv_usec = of_nat (subsec_micros d)\<rparr> = int (d div 1000)"
proof -
  have "as_secs d < 2 ^ 63" "subsec_micros d < 1000000"
    using assms by (simp_all add: as_secs_def subsec_micros_def subsec_nanos_def div_less_iff_less_mult)
  then show ?thesis by (simp add: timeval_value_def sint_small split_duration(2))
qed

subsection \<open>Readings in a simulation\<close>

text \<open>The base of a clock is set once.\<close>

lemma time_step_base: "time_step T h h' \<Longrightarrow> base_time (clock h') = base_time (clock h)"
  by (induction rule: time_step.induct)
    (auto simp: time_advance_def advance_to_next_event_def add_timer_def add_timer_at_def sleep_poll_def clock_defs Let_def
      split: option.splits prod.splits)

lemma time_steps_keep:
  assumes "(time_step T)\<^sup>*\<^sup>* h h'" "timer_ok T" "time_inv T h"
  shows "time_inv T h' \<and> elapsed (clock h) \<le> elapsed (clock h') \<and> base_time (clock h') = base_time (clock h)"
  using assms(1)
proof induction
  case (step h1 h2)
  then show ?case using time_step_inv[OF assms(2) step(2)] time_step_base[OF step(2)] by auto
qed (simp add: assms(3))

text \<open>
  C40: what code under test reads from the clocks of the standard library is the virtual time.  In any simulation, reading the real-time
  or the monotonic clock at two moments gives exactly the virtual time that has passed between them, never less than 0, with
  nanoseconds below one second; \<open>gettimeofday\<close> gives the same time in whole microseconds; the two clocks differ by the random base time;
  and the original functions are not called.  (Until the year 2 to the 63 seconds, where the cast to a signed integer would wrap.)
\<close>

theorem system_clock_virtual:
  assumes "timer_ok T" "time_reachable T h" "(time_step T)\<^sup>*\<^sup>* h h'" "now_time (clock h') < 2 ^ 63 * nanos_per_sec"
    and "rt \<in> {Realtime, Realtime_coarse}" "mo \<in> {Monotonic, Monotonic_raw, Monotonic_coarse, Boottime}"
  shows "\<exists>r r' m m' v.
    clock_gettime fmt orig (Some h) rt tp = Ok (0, r) \<and> clock_gettime fmt orig (Some h') rt tp = Ok (0, r') \<and>
    clock_gettime fmt orig (Some h) mo tp = Ok (0, m) \<and> clock_gettime fmt orig (Some h') mo tp = Ok (0, m') \<and>
    gettimeofday orig' (Some h') (Some tv) = (0, Some v) \<and>
    timespec_value r' - timespec_value r = int (elapsed (clock h') - elapsed (clock h)) \<and>
    timespec_value m' - timespec_value m = int (elapsed (clock h') - elapsed (clock h)) \<and>
    timespec_value r \<le> timespec_value r' \<and> 0 \<le> timespec_value m \<and> timespec_value m \<le> timespec_value m' \<and>
    timespec_value r - timespec_value m = int (base_time (clock h)) \<and>
    timeval_value v = timespec_value r' div 1000 \<and>
    (\<forall>x \<in> {r, r', m, m'}. sint (ts_nsec x) \<in> {0..<1000000000})"
proof -
  have inv: "base_instant (clock h) = 0" "base_instant (clock h') = 0" "elapsed (clock h) \<le> elapsed (clock h')"
    "base_time (clock h') = base_time (clock h)"
    using time_steps_keep[OF assms(3,1)] time_reachable_inv[OF assms(2,1)] by (auto simp: time_inv_def)
  let ?ts = "\<lambda>d. \<lparr>ts_sec = of_nat (as_secs d), ts_nsec = of_nat (subsec_nanos d)\<rparr>"
  have small: "now_time (clock h) < 2 ^ 63 * nanos_per_sec" "now_instant (clock h) < 2 ^ 63 * nanos_per_sec"
    "now_instant (clock h') < 2 ^ 63 * nanos_per_sec"
    using assms(4) inv by (simp_all add: clock_defs)
  have times: "int (now_time (clock x)) = int (base_time (clock x)) + int (elapsed (clock x))"
    "int (now_instant (clock x)) = int (base_instant (clock x)) + int (elapsed (clock x))" for x :: "'a time_handle"
    by (simp_all add: clock_defs)
  have g: "clock_gettime fmt orig (Some x) rt tp = Ok (0, ?ts (now_time (clock x)))"
    "clock_gettime fmt orig (Some x) mo tp = Ok (0, ?ts (now_instant (clock x)))" for x
    using assms(5,6) by (auto simp: clock_gettime_def)
  have v: "gettimeofday orig' (Some h') (Some tv) =
      (0, Some \<lparr>tv_sec = of_nat (as_secs (now_time (clock h'))), tv_usec = of_nat (subsec_micros (now_time (clock h')))\<rparr>)"
    by (simp add: gettimeofday_def Let_def)
  note reads = timespec_reads[OF small(1)] timespec_reads[OF small(2)] timespec_reads[OF small(3)] timespec_reads[OF assms(4)]
    timeval_reads[OF assms(4)]
  show ?thesis
    unfolding g v using inv times[of h] times[of h'] reads by (simp add: zdiv_int)
qed

text \<open>A second of virtual time passes.\<close>

theorem system_clock_virtual_witness:
  "\<exists>h h' r r'. clock_gettime (\<lambda>_. ''0'') (\<lambda>_ ts. (-1, ts)) (Some (h :: (duration \<times> string) list time_handle)) Realtime \<lparr>ts_sec = 0, ts_nsec = 0\<rparr> = Ok (0, r) \<and>
     clock_gettime (\<lambda>_. ''0'') (\<lambda>_ ts. (-1, ts)) (Some (h' :: (duration \<times> string) list time_handle)) Realtime \<lparr>ts_sec = 0, ts_nsec = 0\<rparr> = Ok (0, r') \<and>
     timespec_value r' - timespec_value r = 1000000000"
proof -
  let ?h = "\<lparr>timer = tm_default list_timer, clock = clock_new 1640000000000000000\<rparr> :: (duration \<times> string) list time_handle"
  let ?h' = "snd (time_advance list_timer 1000000000 ?h)"
  have "time_reachable list_timer ?h" by (rule reach_new)
  moreover have "(time_step list_timer)\<^sup>*\<^sup>* ?h ?h'" by (rule r_into_rtranclp) (rule step_advance)
  moreover have e: "elapsed (clock ?h') = 1000000000" "elapsed (clock ?h) = 0" "now_time (clock ?h') < 2 ^ 63 * nanos_per_sec"
    by (simp_all add: time_advance_def clock_defs list_timer_def)
  ultimately have "\<exists>r r'. clock_gettime (\<lambda>_. ''0'') (\<lambda>_ ts. (-1, ts)) (Some ?h) Realtime \<lparr>ts_sec = 0, ts_nsec = 0\<rparr> = Ok (0, r) \<and>
     clock_gettime (\<lambda>_. ''0'') (\<lambda>_ ts. (-1, ts)) (Some ?h') Realtime \<lparr>ts_sec = 0, ts_nsec = 0\<rparr> = Ok (0, r') \<and>
     timespec_value r' - timespec_value r = 1000000000"
    using system_clock_virtual[OF list_timer_ok, of ?h ?h' Realtime Monotonic "\<lambda>_. ''0''" "\<lambda>_ ts. (-1, ts)" "\<lparr>ts_sec = 0, ts_nsec = 0\<rparr>"
        "\<lambda>tv. (-1, tv)" "\<lparr>tv_sec = 0, tv_usec = 0\<rparr>"]
    unfolding e by fastforce
  then show ?thesis by (intro exI[of _ ?h] exI[of _ ?h'])
qed

end
