(* ===== verification/Interpose.thy ===== *)
theory Interpose
  imports Task Strings
begin

section \<open>The machine that a node sees (the C functions at the end of \<open>madsim/src/sim/task/mod.rs\<close>)\<close>

text \<open>
  madsim overrides functions of the C library so that code in a task sees the machine of its node: the number of its cores and its name;
  and so that it starts no thread.  \<open>task\<close> is the node of the current task (\<open>try_current_task\<close>), \<open>None\<close> outside a simulation, where the
  original function \<open>orig\<close> is called.  A string is a list of bytes; a set of cores is the set of the bits that are set.
\<close>

definition sizeof_cpu_set :: nat where
  "sizeof_cpu_set = 128"

definition sched_getaffinity :: "(nat \<Rightarrow> nat set \<Rightarrow> int \<times> nat set) \<Rightarrow> node_info option \<Rightarrow> nat \<Rightarrow> nat set \<Rightarrow> (unit, int \<times> nat set) res" where
  "sched_getaffinity orig task cpusetsize cpuset =
     (case task of
        Some info \<Rightarrow>
          if cpusetsize \<noteq> sizeof_cpu_set then Panic ''assertion failed: left == right''
          else if \<not> ni_cores info \<le> cpusetsize * 8 then Panic ''assertion failed: cpusetsize * 8 >= info.node.cores as _''
          else Ok (0, fold insert [0..<ni_cores info] cpuset)
      | None \<Rightarrow> Ok (orig cpusetsize cpuset))"

datatype sysconf_name = Nprocessors_onln | Other_sysconf int

definition sysconf :: "(sysconf_name \<Rightarrow> 64 word) \<Rightarrow> node_info option \<Rightarrow> sysconf_name \<Rightarrow> 64 word" where
  "sysconf orig task name =
     (case (name, task) of
        (Nprocessors_onln, Some info) \<Rightarrow> of_nat (ni_cores info)
      | _ \<Rightarrow> orig name)"

text \<open>\<open>allow\<close> is \<open>allow_system_thread\<close> of the current runtime.  The result is that of the original function, where it is called.\<close>

definition pthread_attr_init :: "('a \<Rightarrow> int \<times> 'a) \<Rightarrow> bool option \<Rightarrow> 'a \<Rightarrow> int \<times> 'a" where
  "pthread_attr_init orig allow attr = (case allow of Some False \<Rightarrow> (-1, attr) | _ \<Rightarrow> orig attr)"

datatype errno = EFAULT | EINVAL | ENAMETOOLONG

text \<open>\<open>buf\<close> is the memory behind the pointer, at least \<open>sz\<close> bytes, \<open>None\<close> for the null pointer.\<close>

definition hostname :: "node_info \<Rightarrow> string" where
  "hostname info = (case ni_name info of Some n \<Rightarrow> n | None \<Rightarrow> ''madsim-node-'' @ string_of_nat (ni_id info))"

definition gethostname :: "(string option \<Rightarrow> nat \<Rightarrow> int \<times> string option \<times> errno option) \<Rightarrow> node_info option \<Rightarrow> string option \<Rightarrow> nat
    \<Rightarrow> int \<times> string option \<times> errno option" where
  "gethostname orig task buf sz =
     (case task of
        Some info \<Rightarrow>
          (case buf of
             None \<Rightarrow> (-1, None, Some EFAULT)
           | Some b \<Rightarrow>
               if sz = 0 then (-1, Some b, Some EINVAL)
               else
                 let node_name = hostname info; len = min (length node_name) sz; b = take len node_name @ drop len b
                 in if len < sz then (0, Some (b[len := CHR 0x00]), None)
                    else (-1, Some b, Some ENAMETOOLONG))
      | None \<Rightarrow> orig buf sz)"

subsection \<open>What a task sees\<close>

text \<open>The string that a C caller reads.\<close>

definition c_string :: "string \<Rightarrow> string" where
  "c_string = takeWhile (\<lambda>c. c \<noteq> CHR 0x00)"

lemma fold_insert: "fold insert xs A = set xs \<union> A"
  by (induction xs arbitrary: A) auto

lemma sched_getaffinity_exact:
  assumes "ni_cores info \<le> 8 * sizeof_cpu_set"
  shows "sched_getaffinity orig (Some info) sizeof_cpu_set cpuset = Ok (0, {0..<ni_cores info} \<union> cpuset)"
  using assms by (simp add: sched_getaffinity_def fold_insert)

text \<open>
  A task sees the cores and the name of its node.  A cleared set of cores gets exactly as many as the node was built with, the number
  that \<open>sysconf\<close> gives, and cores that the caller left in the set stay; the host name is written with its terminator if it fits, cut
  without one and reported as too long if not, and never past the given size.
\<close>

theorem node_machine:
  assumes "ni_cores info \<le> 8 * sizeof_cpu_set" "CHR 0x00 \<notin> set (hostname info)" "0 < sz" "sz \<le> length buf"
  shows "\<exists>cs r buf' e. sched_getaffinity orig (Some info) sizeof_cpu_set cpuset = Ok (0, cs) \<and> cs = {0..<ni_cores info} \<union> cpuset \<and>
    (cpuset = {} \<longrightarrow> of_nat (card cs) = sysconf orig' (Some info) Nprocessors_onln) \<and>
    gethostname orig'' (Some info) (Some buf) sz = (r, Some buf', e) \<and>
    length buf' = length buf \<and> drop sz buf' = drop sz buf \<and>
    (r = 0 \<longleftrightarrow> length (hostname info) < sz) \<and>
    (if r = 0 then c_string buf' = hostname info \<and> e = None else take sz buf' = take sz (hostname info) \<and> e = Some ENAMETOOLONG)"
proof (cases "length (hostname info) < sz")
  case True
  let ?n = "hostname info"
  let ?b = "(?n @ drop (length ?n) buf)[length ?n := CHR 0x00]"
  obtain c cs where "drop (length ?n) buf = c # cs" using True assms(4) by (cases "drop (length ?n) buf") auto
  then have b: "?b = ?n @ CHR 0x00 # cs" by (simp add: list_update_append)
  have "drop sz ?b = drop sz buf" using True by (simp add: drop_update_cancel)
  moreover have "c_string ?b = ?n" using assms(2) unfolding b c_string_def by (subst takeWhile_append2) auto
  moreover have "length ?b = length buf" using True assms(4) by simp
  ultimately show ?thesis using True assms(3)
    by (simp add: sched_getaffinity_exact[OF assms(1)] sysconf_def gethostname_def Let_def min_def)
next
  case False
  then show ?thesis using assms(3,4)
    by (auto simp: sched_getaffinity_exact[OF assms(1)] sysconf_def gethostname_def Let_def min_def)
qed

text \<open>A node with two cores, in a buffer that is too small for its name and in one that is not.\<close>

theorem node_machine_witness:
  "\<exists>info. hostname info = ''madsim-node-7'' \<and>
     gethostname (\<lambda>b _. (-1, b, None)) (Some info) (Some (replicate 16 CHR ''x'')) 13 = (-1, Some (''madsim-node-7xxx''), Some ENAMETOOLONG) \<and>
     sched_getaffinity (\<lambda>_ s. (0, s)) (Some info) sizeof_cpu_set {5} = Ok (0, {0, 1, 5})"
proof -
  let ?i = "\<lparr>ni_id = 7, ni_name = None, ni_cores = 2, ni_restart_on_panic = False, ni_restart_on_panic_matching = [],
    ni_paused = False, ni_killed = False, ni_tasks = [], ni_ctrl_c = False\<rparr>"
  have d: "string_of_nat 7 = ''7''" by code_simp
  have h: "hostname ?i = ''madsim-node-7''" by (simp add: hostname_def d)
  have "{0..<2::nat} \<union> {5} = {0, 1, 5}" by auto
  then show ?thesis
    using node_machine[of ?i 13 "replicate 16 CHR ''x''" "\<lambda>_ s. (0, s)" "{5}" "\<lambda>_. 0" "\<lambda>b _. (-1, b, None)"] h
    by (intro exI[of _ ?i]) (auto simp: sizeof_cpu_set_def gethostname_def Let_def numeral_eq_Suc)
qed

end
